(* ===== verification/Af_Prelude.thy ===== *)
theory Af_Prelude
  imports Main "HOL-Library.Word" "HOL-Library.While_Combinator"
begin

unbundle bit_operations_syntax

section \<open>Shared types and lemmas\<close>

text \<open>
  The vocabulary of the development.  The C++ integer types the sources use are words of
  their width, so that every wrap-around of the program is a wrap-around of the model:
  \<open>u64\<close> is \<^verbatim>\<open>std::size_t\<close> and \<^verbatim>\<open>std::uint64_t\<close> on the supported 64-bit targets, \<open>u32\<close> and
  \<open>u16\<close> the narrower unsigned types.  A raw pointer \<^verbatim>\<open>T *\<close> is an optional value, with
  \<^term>\<open>None\<close> for \<^verbatim>\<open>nullptr\<close>.  An exception of the program is the left value of a sum.

  The lemmas below are about rings: a list used as a circular array, whose slot for a
  64-bit position is the position masked with the capacity minus one.
\<close>

type_synonym u64 = "64 word"
type_synonym u32 = "32 word"
type_synonym u16 = "16 word"
type_synonym u8 = "8 word"
type_synonym 'a ptr = "'a option"

datatype af_error = length_error string

named_theorems ring_simps \<open>rewriting of masked ring positions and ring contents\<close>

subsection \<open>Masked positions\<close>

lemma unat_and_pow2_minus1:
  fixes w :: u64
  assumes "k < 64"
  shows "unat (w AND (2 ^ k - 1)) = unat w mod 2 ^ k"
proof -
  have "w AND (2 ^ k - 1) = take_bit k w"
    by (simp add: take_bit_eq_mask mask_eq_exp_minus_1)
  then show ?thesis
    by (simp add: unsigned_take_bit_eq flip: take_bit_eq_mod)
qed

lemma unat_lt_2_64: "unat (w :: u64) < 2 ^ 64"
  by (rule order.strict_trans2 [OF unsigned_less]) simp

lemma unat_pow2:
  assumes "k < 64"
  shows "unat (2 ^ k :: u64) = 2 ^ k"
proof -
  have "(2 :: nat) ^ k < 2 ^ 64"
    using assms by (rule power_strict_increasing) simp
  then have "unat (of_nat (2 ^ k) :: u64) = 2 ^ k"
    by (simp only: unat_of_nat) simp
  then show ?thesis by simp
qed

lemma pow2_neq_0:
  assumes "k < 64"
  shows "(2 :: u64) ^ k \<noteq> 0"
  using assms by simp

lemma unat_add_of_nat_mod:
  fixes x :: u64
  assumes "k \<le> 64"
  shows "unat (x + of_nat i) mod 2 ^ k = (unat x + i) mod 2 ^ k"
proof -
  have dvd: "(2 :: nat) ^ k dvd 2 ^ 64"
    using assms by (rule le_imp_power_dvd)
  have "unat (x + of_nat i) = (unat x + i) mod 2 ^ 64"
    by (simp add: unat_word_ariths unat_of_nat mod_simps)
  then show ?thesis
    using dvd by (simp add: mod_mod_cancel)
qed

lemma slot_of_position:
  fixes x :: u64
  assumes "k < 64"
  shows "unat ((x + of_nat i) AND (2 ^ k - 1)) = (unat x + i) mod 2 ^ k"
  using assms unat_add_of_nat_mod [of k x i] by (simp add: unat_and_pow2_minus1)

subsection \<open>Distances between wrapping positions\<close>

text \<open>
  \<^term>\<open>unat (b - a)\<close> is how far \<open>b\<close> is ahead of \<open>a\<close> on the 64-bit circle.
\<close>

lemma dist_add_of_nat:
  fixes a b :: u64
  assumes "unat (b - a) + n < 2 ^ 64"
  shows "unat (b + of_nat n - a) = unat (b - a) + n"
proof -
  have n: "unat (of_nat n :: u64) = n"
    using assms by (simp add: unat_of_nat)
  have "b + of_nat n - a = (b - a) + of_nat n"
    by simp
  then show ?thesis
    using assms n by (simp only: unat_word_ariths(1)) simp
qed

lemma dist_Suc:
  fixes a b :: u64
  assumes "unat (b - a) + 1 < 2 ^ 64"
  shows "unat (b + 1 - a) = Suc (unat (b - a))"
  using dist_add_of_nat [of b a 1] assms by simp

lemma dist_advance:
  fixes a b :: u64
  assumes "n \<le> unat (b - a)"
  shows "unat (b - (a + of_nat n)) = unat (b - a) - n"
proof -
  have lt: "n < 2 ^ 64"
    using assms unat_lt_2_64 [of "b - a"] by (rule le_less_trans)
  have n: "unat (of_nat n :: u64) = n"
    using lt by (simp add: unat_of_nat)
  have le: "of_nat n \<le> b - a"
    using assms n by (simp add: word_le_nat_alt)
  have "b - (a + of_nat n) = (b - a) - of_nat n"
    by simp
  then show ?thesis
    using unat_sub [OF le] n by (simp only:)
qed

lemma dist_advance1:
  fixes a b :: u64
  assumes "a \<noteq> b"
  shows "unat (b - (a + 1)) = unat (b - a) - 1"
proof -
  have "unat (b - a) \<noteq> 0"
    using assms by (metis right_minus_eq unat_eq_zero)
  then show ?thesis
    using dist_advance [of 1 b a] by simp
qed

lemma dist_decreases:
  fixes a b :: u64
  assumes "a < b"
  shows "unat (b - (a + 1)) < unat (b - a)"
proof -
  have ne: "a \<noteq> b"
    using assms by simp
  then have "unat (b - a) \<noteq> 0"
    by (metis right_minus_eq unat_eq_zero)
  then show ?thesis
    using dist_advance1 [OF ne] by simp
qed

lemma dist_trans:
  fixes a b c :: u64
  assumes "unat (b - a) + unat (c - b) < 2 ^ 64"
  shows "unat (c - a) = unat (b - a) + unat (c - b)"
proof -
  have "c - a = (b - a) + (c - b)"
    by simp
  then show ?thesis
    using assms by (simp only: unat_word_ariths(1)) simp
qed

lemma dist_zero_iff [simp]:
  fixes a b :: u64
  shows "unat (b - a) = 0 \<longleftrightarrow> a = b"
  by (metis right_minus_eq unat_eq_zero)

subsection \<open>Rings\<close>

definition ring_slots :: "'a list \<Rightarrow> nat \<Rightarrow> nat \<Rightarrow> 'a list" where
  "ring_slots buf h n = map (\<lambda>i. buf ! ((h + i) mod length buf)) [0..<n]"

lemma length_ring_slots [simp]: "length (ring_slots buf h n) = n"
  by (simp add: ring_slots_def)

lemma ring_slots_0 [simp]: "ring_slots buf h 0 = []"
  by (simp add: ring_slots_def)

lemma nth_ring_slots:
  "i < n \<Longrightarrow> ring_slots buf h n ! i = buf ! ((h + i) mod length buf)"
  by (simp add: ring_slots_def)

lemma ring_slots_mod:
  assumes "h mod length buf = h' mod length buf"
  shows "ring_slots buf h n = ring_slots buf h' n"
proof -
  have "(h + i) mod length buf = (h' + i) mod length buf" for i
    using assms by (metis mod_add_left_eq)
  then show ?thesis
    by (simp add: ring_slots_def)
qed

lemma ring_slots_Suc:
  "ring_slots buf h (Suc n) = buf ! (h mod length buf) # ring_slots buf (Suc h) n"
  by (simp add: ring_slots_def upt_conv_Cons map_Suc_upt [symmetric] del: upt_Suc)

lemma ring_slots_append:
  "ring_slots buf h (m + n) = ring_slots buf h m @ ring_slots buf (h + m) n"
proof (induction m arbitrary: h)
  case 0
  then show ?case by simp
next
  case (Suc m)
  then show ?case by (simp add: ring_slots_Suc)
qed

lemma ring_offset_le:
  fixes h i j m :: nat
  assumes "(h + i) mod m = (h + j) mod m" and "i \<le> j" and "j < m"
  shows "i = j"
proof -
  have "m dvd (h + j) - (h + i)"
    using assms(1,2) mod_eq_dvd_iff_nat [of "h + i" "h + j" m] by simp
  then have "m dvd j - i" by simp
  then show ?thesis
    using assms(2,3) by (cases "j - i = 0") (auto dest: dvd_imp_le)
qed

lemma ring_offset_inj:
  fixes h i j m :: nat
  assumes "(h + i) mod m = (h + j) mod m" and "i < m" and "j < m"
  shows "i = j"
  using assms ring_offset_le [of h i m j] ring_offset_le [of h j m i] by (metis nat_le_linear)

lemma ring_slots_update_outside:
  assumes "n \<le> length buf" and "n \<le> j" and "j < length buf"
  shows "ring_slots (buf[(h + j) mod length buf := x]) h n = ring_slots buf h n"
proof (rule nth_equalityI)
  fix i
  assume "i < length (ring_slots (buf[(h + j) mod length buf := x]) h n)"
  then have i: "i < n" by simp
  have "(h + j) mod length buf \<noteq> (h + i) mod length buf"
    using ring_offset_inj [of h j "length buf" i] assms i by auto
  then show "ring_slots (buf[(h + j) mod length buf := x]) h n ! i = ring_slots buf h n ! i"
    using i by (simp add: nth_ring_slots)
qed simp

lemma ring_slots_push:
  assumes "n < length buf"
  shows "ring_slots (buf[(h + n) mod length buf := x]) h (Suc n) = ring_slots buf h n @ [x]"
proof -
  let ?b = "buf[(h + n) mod length buf := x]"
  have pos: "(h + n) mod length buf < length buf"
    using assms by (intro mod_less_divisor) linarith
  have "ring_slots ?b h (n + 1) = ring_slots ?b h n @ ring_slots ?b (h + n) 1"
    by (rule ring_slots_append)
  moreover have "ring_slots ?b h n = ring_slots buf h n"
    using assms by (simp add: ring_slots_update_outside)
  moreover have "ring_slots ?b (h + n) 1 = [x]"
    using pos by (simp add: ring_slots_def)
  ultimately show ?thesis by simp
qed

text \<open>Writing a list of values from a position on, one slot after the other.\<close>

fun ring_write :: "'a list \<Rightarrow> nat \<Rightarrow> 'a list \<Rightarrow> 'a list" where
  "ring_write buf t [] = buf"
| "ring_write buf t (v # vs) = ring_write (buf[t mod length buf := v]) (Suc t) vs"

lemma length_ring_write [simp]: "length (ring_write buf t vs) = length buf"
  by (induction vs arbitrary: buf t) simp_all

lemma ring_write_append:
  "ring_write buf t (xs @ ys) = ring_write (ring_write buf t xs) (t + length xs) ys"
  by (induction xs arbitrary: buf t) simp_all

lemma ring_write_mod:
  "t mod length buf = t' mod length buf \<Longrightarrow> ring_write buf t vs = ring_write buf t' vs"
proof (induction vs arbitrary: buf t t')
  case Nil
  then show ?case by simp
next
  case (Cons v vs)
  have "Suc t mod length buf = Suc t' mod length buf"
    using Cons.prems by (metis mod_Suc_eq)
  with Cons.prems Cons.IH [of "Suc t" "buf[t mod length buf := v]" "Suc t'"] show ?case
    by simp
qed

lemma ring_slots_write:
  assumes "n + length vs \<le> length buf"
  shows "ring_slots (ring_write buf (h + n) vs) h (n + length vs) = ring_slots buf h n @ vs"
  using assms
proof (induction vs arbitrary: buf n)
  case Nil
  then show ?case by simp
next
  case (Cons v vs)
  let ?b = "buf[(h + n) mod length buf := v]"
  have "ring_slots (ring_write ?b (h + Suc n) vs) h (Suc n + length vs) = ring_slots ?b h (Suc n) @ vs"
    using Cons.prems by (intro Cons.IH) simp
  moreover have "ring_slots ?b h (Suc n) = ring_slots buf h n @ [v]"
    using Cons.prems by (intro ring_slots_push) simp
  ultimately show ?case by simp
qed

subsection \<open>Small values and conversions\<close>

lemma unat_of_nat_u64: "n < 2 ^ 64 \<Longrightarrow> unat (of_nat n :: u64) = n"
  by (simp only: unat_of_nat) simp

lemma unat_of_nat_u32: "n < 2 ^ 32 \<Longrightarrow> unat (of_nat n :: u32) = n"
  by (simp only: unat_of_nat) simp

lemma unat_of_nat_u16: "n < 2 ^ 16 \<Longrightarrow> unat (of_nat n :: u16) = n"
  by (simp only: unat_of_nat) simp

lemma unat_lt_2_16: "unat (w :: u16) < 2 ^ 16"
  by (rule order.strict_trans2 [OF unsigned_less]) simp

lemma unat_lt_2_32: "unat (w :: u32) < 2 ^ 32"
  by (rule order.strict_trans2 [OF unsigned_less]) simp

lemma ucast_of_nat_unat: "(ucast (w :: 'a::len word) :: 'b::len word) = of_nat (unat w)"
  by simp

lemma unat_ucast_u16_u64 [simp]: "unat (ucast (w :: u16) :: u64) = unat w"
  using unat_lt_2_16 [of w] by (subst ucast_of_nat_unat) (rule unat_of_nat_u64, simp)

lemma unat_ucast_u64_u16: "unat (ucast (w :: u64) :: u16) = unat w mod 2 ^ 16"
  by (subst ucast_of_nat_unat) (simp only: unat_of_nat, simp)

lemma ucast_u16_u64_u16 [simp]: "(ucast (ucast (w :: u16) :: u64) :: u16) = w"
  using unat_lt_2_16 [of w] by (simp add: word_unat_eq_iff unat_ucast_u64_u16)

lemma drop_update_first: "drop i (xs[i := y]) = (if i < length xs then y # drop (Suc i) xs else drop i xs)"
  by (simp add: drop_update_swap Cons_nth_drop_Suc [symmetric])

end
