(* ===== verification/Queue_Common.thy ===== *)
theory Queue_Common
  imports Af_Prelude
begin

unbundle bit_operations_syntax

section \<open>Bounded queues: capacities and the queue contract\<close>

text \<open>
  Models \<^verbatim>\<open>include/af/detail/queue/bounded_queue_common.hpp\<close>: the constants, the wrapping
  sequence comparison, the rounding of a requested capacity to a power of two, and its two
  failure paths.  The second half is the interface the three ring queues and the executor's
  local ring share: a locale whose laws say that a queue is a list bounded by its capacity,
  and the facts a client gets from those laws alone.
\<close>

subsection \<open>Capacities\<close>

definition max_power_of_two_size :: u64 where
  "max_power_of_two_size = push_bit (64 - 1) 1"

definition max_bounded_queue_capacity :: u64 where
  "max_bounded_queue_capacity = push_bit (64 - 2) 1"

definition bounded_queue_sequence_before :: "u64 \<Rightarrow> u64 \<Rightarrow> bool" where
  "bounded_queue_sequence_before sequence position \<longleftrightarrow>
     sequence - position \<ge> max_power_of_two_size"

definition next_power_of_two :: "u64 \<Rightarrow> u64" where
  "next_power_of_two value =
     (if value \<le> 1 then 1
      else if value > max_power_of_two_size then 0
      else snd (while (\<lambda>(shift :: u64, value). shift < 64)
                      (\<lambda>(shift, value). (push_bit 1 shift, value OR drop_bit (unat shift) value))
                      (1, value - 1)) + 1)"

definition checked_next_power_of_two :: "u64 \<Rightarrow> string \<Rightarrow> af_error + u64" where
  "checked_next_power_of_two value what =
     (let capacity = next_power_of_two value
      in if capacity = 0 then Inl (length_error what) else Inr capacity)"

definition normalize_bounded_queue_capacity :: "u64 \<Rightarrow> af_error + u64" where
  "normalize_bounded_queue_capacity requested =
     (let value = (if requested < 2 then 2 else requested)
      in case checked_next_power_of_two value ''bounded queue capacity is too large'' of
           Inl e \<Rightarrow> Inl e
         | Inr capacity \<Rightarrow>
             (if capacity > max_bounded_queue_capacity
              then Inl (length_error ''bounded queue capacity is too large'')
              else Inr capacity))"

subsection \<open>The rounding loop\<close>

lemma max_power_of_two_size_eq: "max_power_of_two_size = 2 ^ 63"
  by (simp add: max_power_of_two_size_def)

lemma max_bounded_queue_capacity_eq: "max_bounded_queue_capacity = 2 ^ 62"
  by (simp add: max_bounded_queue_capacity_def)

definition smeared :: "u64 \<Rightarrow> nat \<Rightarrow> u64 \<Rightarrow> bool" where
  "smeared v s w \<longleftrightarrow> (\<forall>n. bit w n \<longleftrightarrow> (\<exists>k < s. bit v (n + k)))"

lemma smeared_start: "smeared v 1 v"
  by (simp add: smeared_def)

lemma smeared_step:
  assumes "smeared v s w"
  shows "smeared v (2 * s) (w OR drop_bit s w)"
proof -
  have "(\<exists>k < s. bit v (n + k)) \<or> (\<exists>k < s. bit v (s + n + k)) \<longleftrightarrow> (\<exists>k<2 * s. bit v (n + k))" for n
  proof
    assume "(\<exists>k < s. bit v (n + k)) \<or> (\<exists>k < s. bit v (s + n + k))"
    then show "\<exists>k<2 * s. bit v (n + k)"
    proof
      assume "\<exists>k < s. bit v (n + k)"
      then show ?thesis by (metis mult_2 trans_less_add1)
    next
      assume "\<exists>k < s. bit v (s + n + k)"
      then obtain k where "k < s" and "bit v (n + (s + k))"
        by (auto simp: ac_simps)
      then show ?thesis
        by (intro exI [of _ "s + k"]) simp
    qed
  next
    assume "\<exists>k<2 * s. bit v (n + k)"
    then obtain k where k: "k < 2 * s" "bit v (n + k)" by auto
    show "(\<exists>k < s. bit v (n + k)) \<or> (\<exists>k < s. bit v (s + n + k))"
    proof (cases "k < s")
      case True
      with k show ?thesis by auto
    next
      case False
      with k have "k - s < s" and "bit v (s + n + (k - s))"
        by (auto simp: ac_simps)
      then show ?thesis by blast
    qed
  qed
  with assms show ?thesis
    by (simp add: smeared_def bit_or_iff bit_drop_bit_eq)
qed

lemma rounding_loop_smears:
  "smeared v 64 (snd (while (\<lambda>(shift :: u64, value). shift < 64)
                      (\<lambda>(shift, value). (push_bit 1 shift, value OR drop_bit (unat shift) value))
                      (1, v)))"
proof -
  have "smeared v 2 (v OR drop_bit 1 v)" (is "smeared v _ ?v2")
    using smeared_step [OF smeared_start] by simp
  then have "smeared v 4 (?v2 OR drop_bit 2 ?v2)" (is "smeared v _ ?v4")
    by (drule_tac smeared_step) simp
  then have "smeared v 8 (?v4 OR drop_bit 4 ?v4)" (is "smeared v _ ?v8")
    by (drule_tac smeared_step) simp
  then have "smeared v 16 (?v8 OR drop_bit 8 ?v8)" (is "smeared v _ ?v16")
    by (drule_tac smeared_step) simp
  then have "smeared v 32 (?v16 OR drop_bit 16 ?v16)" (is "smeared v _ ?v32")
    by (drule_tac smeared_step) simp
  then have "smeared v 64 (?v32 OR drop_bit 32 ?v32)"
    by (drule_tac smeared_step) simp
  then show ?thesis
    by (simp add: while_unfold del: bit_or_iff)
qed

lemma top_bit:
  fixes v :: u64
  assumes "v \<noteq> 0"
  obtains m where "bit v m" and "\<forall>n>m. \<not> bit v n" and "m < 64"
proof -
  let ?S = "{n. bit v n}"
  have sub: "?S \<subseteq> {..<64}"
    by (auto dest: bit_imp_le_length)
  then have fin: "finite ?S"
    by (rule finite_subset) simp
  have ne: "?S \<noteq> {}"
    using assms by (auto simp: bit_eq_iff)
  have "bit v (Max ?S)"
    using Max_in [OF fin ne] by simp
  moreover have "\<forall>n>Max ?S. \<not> bit v n"
    using Max_ge [OF fin] by (metis mem_Collect_eq not_le)
  moreover have "Max ?S < 64"
    using Max_in [OF fin ne] sub by auto
  ultimately show thesis ..
qed

lemma top_bit_bounds:
  fixes v :: u64
  assumes "bit v m" and "\<forall>n>m. \<not> bit v n"
  shows "2 ^ m \<le> unat v" and "unat v < 2 ^ Suc m"
proof -
  have "odd (unat v div 2 ^ m)"
    using assms(1) by (simp add: bit_iff_odd [symmetric] bit_unsigned_iff bit_imp_le_length)
  then have "unat v div 2 ^ m \<noteq> 0"
    by (metis even_zero)
  then show "2 ^ m \<le> unat v"
    by (metis div_less not_le)
  have "take_bit (Suc m) v = v"
    using assms(2) by (intro bit_word_eqI) (metis bit_take_bit_iff not_less_eq)
  then have "unat v = take_bit (Suc m) (unat v)"
    by (metis unsigned_take_bit_eq)
  then show "unat v < 2 ^ Suc m"
    by (metis take_bit_nat_less_exp)
qed

lemma smeared_top_bit:
  assumes "smeared v 64 w" and "bit v m" and "\<forall>n>m. \<not> bit v n" and "m < 64"
  shows "w = mask (Suc m)"
proof (rule bit_word_eqI)
  fix n
  assume "n < LENGTH(64)"
  have "bit w n \<longleftrightarrow> n \<le> m"
  proof
    assume "bit w n"
    then obtain k where "bit v (n + k)"
      using assms(1) by (auto simp: smeared_def)
    with assms(3) show "n \<le> m"
      by (metis le_add1 le_trans not_le_imp_less)
  next
    assume "n \<le> m"
    then have "m - n < 64" and "bit v (n + (m - n))"
      using assms(2,4) by auto
    then show "bit w n"
      using assms(1) by (auto simp: smeared_def)
  qed
  then show "bit w n \<longleftrightarrow> bit (mask (Suc m) :: u64) n"
    using \<open>n < LENGTH(64)\<close> by (auto simp: bit_mask_iff less_Suc_eq_le)
qed

lemma next_power_of_two_small:
  "value \<le> 1 \<Longrightarrow> next_power_of_two value = 1"
  by (simp add: next_power_of_two_def)

lemma next_power_of_two_overflow:
  "2 ^ 63 < value \<Longrightarrow> next_power_of_two value = 0"
  by (auto simp: next_power_of_two_def max_power_of_two_size_eq word_less_nat_alt word_le_nat_alt)

lemma next_power_of_two_big:
  assumes "1 < value" and "value \<le> 2 ^ 63"
  shows "\<exists>m<63. next_power_of_two value = 2 ^ Suc m \<and> 2 ^ m < unat value \<and> unat value \<le> 2 ^ Suc m"
proof -
  let ?v = "value - 1"
  have uv: "unat ?v = unat value - 1"
    using assms(1) by (intro unat_minus_one) auto
  have "?v \<noteq> 0"
    using assms(1) by auto
  then obtain m where m: "bit ?v m" "\<forall>n>m. \<not> bit ?v n" "m < 64"
    using top_bit by blast
  have b: "2 ^ m \<le> unat ?v" "unat ?v < 2 ^ Suc m"
    using top_bit_bounds [OF m(1,2)] by blast+
  have "unat value \<le> 2 ^ 63"
    using assms(2) unat_pow2 [of 63] by (simp add: word_le_nat_alt)
  moreover have "0 < unat value"
    using assms(1) by (simp add: word_less_nat_alt)
  ultimately have "unat ?v < 2 ^ 63"
    using uv by simp
  with b(1) have "(2 :: nat) ^ m < 2 ^ 63"
    by (rule le_less_trans)
  then have m63: "m < 63"
    by (rule power_less_imp_less_exp [rotated]) simp
  have guards: "\<not> value \<le> 1" "\<not> max_power_of_two_size < value"
    using assms by (simp_all add: max_power_of_two_size_eq not_le not_less)
  have "next_power_of_two value = mask (Suc m) + 1"
    unfolding next_power_of_two_def
    using guards smeared_top_bit [OF rounding_loop_smears m]
    by (simp only: if_False)
  also have "\<dots> = 2 ^ Suc m"
    by (simp add: mask_eq_exp_minus_1)
  finally show ?thesis
    using m63 b uv \<open>0 < unat value\<close> by (intro exI [of _ m]) auto
qed

text \<open>
  A normalised capacity is a power of two between 2 and \<open>2 ^ 62\<close>; the shape every ring
  queue relies on.
\<close>

definition ring_capacity :: "nat \<Rightarrow> u64 \<Rightarrow> bool" where
  "ring_capacity k c \<longleftrightarrow> 1 \<le> k \<and> k \<le> 62 \<and> c = 2 ^ k"

lemma normalize_capacity_ok:
  assumes "unat requested \<le> 2 ^ 62"
  shows "\<exists>k. normalize_bounded_queue_capacity requested = Inr (2 ^ k) \<and> ring_capacity k (2 ^ k) \<and>
             unat requested \<le> 2 ^ k \<and> (k = 1 \<or> 2 ^ (k - 1) < unat requested)"
proof -
  let ?v = "if requested < 2 then 2 else requested"
  have v: "unat ?v = max 2 (unat requested)"
    by (auto simp: word_less_nat_alt)
  have "1 < ?v" and "?v \<le> 2 ^ 63"
    using assms v by (auto simp: word_less_nat_alt word_le_nat_alt)
  then obtain m where m: "next_power_of_two ?v = 2 ^ Suc m" "2 ^ m < unat ?v" "unat ?v \<le> 2 ^ Suc m"
    "m < 63"
    using next_power_of_two_big by blast
  have "(2 :: nat) ^ m < 2 ^ 62"
    using m(2) v assms by (cases "unat requested \<le> 2") auto
  then have m62: "m < 62"
    by (rule power_less_imp_less_exp [rotated]) simp
  have ne: "(2 :: u64) ^ Suc m \<noteq> 0"
    using m62 by (intro pow2_neq_0) simp
  have le: "\<not> max_bounded_queue_capacity < (2 :: u64) ^ Suc m"
  proof -
    have "(2 :: nat) ^ Suc m \<le> 2 ^ 62"
      using m62 by (intro power_increasing) auto
    then show ?thesis
      using m62 unat_pow2 [of "Suc m"] unat_pow2 [of 62]
      by (simp add: max_bounded_queue_capacity_eq word_less_nat_alt not_less del: power_Suc)
  qed
  have "normalize_bounded_queue_capacity requested = Inr (2 ^ Suc m)"
    using m(1) ne le
    by (simp add: normalize_bounded_queue_capacity_def checked_next_power_of_two_def Let_def
        del: power_Suc)
  moreover have "Suc m = 1 \<or> 2 ^ (Suc m - 1) < unat requested"
    using m(2) v by (cases m) (auto simp: max_def split: if_splits)
  ultimately show ?thesis
    using m62 m(3) v by (intro exI [of _ "Suc m"]) (auto simp: ring_capacity_def)
qed

lemma normalize_capacity_too_large:
  assumes "2 ^ 62 < unat requested"
  shows "normalize_bounded_queue_capacity requested =
           Inl (length_error ''bounded queue capacity is too large'')"
proof -
  have v: "(if requested < 2 then 2 else requested) = requested"
    using assms by (simp add: word_less_nat_alt)
  show ?thesis
  proof (cases "2 ^ 63 < requested")
    case True
    then show ?thesis
      using v by (simp add: normalize_bounded_queue_capacity_def checked_next_power_of_two_def
          next_power_of_two_overflow)
  next
    case False
    then have "1 < requested" and "requested \<le> 2 ^ 63"
      using assms by (auto simp: word_less_nat_alt word_le_nat_alt)
    then obtain m where m: "next_power_of_two requested = 2 ^ Suc m" "unat requested \<le> 2 ^ Suc m" "m < 63"
      using next_power_of_two_big by blast
    have "(2 :: nat) ^ 62 < 2 ^ Suc m"
      using assms m(2) by (rule less_le_trans)
    then have "62 < Suc m"
      by (rule power_less_imp_less_exp [rotated]) simp
    with m(3) have "Suc m = 63" by simp
    with m(1) have "next_power_of_two requested = 2 ^ 63" by (simp only:)
    then show ?thesis
      using v by (simp add: normalize_bounded_queue_capacity_def checked_next_power_of_two_def
          max_bounded_queue_capacity_eq word_less_nat_alt)
  qed
qed

lemma ring_capacity_unat:
  "ring_capacity k c \<Longrightarrow> unat c = 2 ^ k"
  by (simp add: ring_capacity_def unat_pow2)

lemma ring_capacity_slot:
  assumes "ring_capacity k c"
  shows "unat ((x + of_nat i) AND (c - 1)) = (unat x + i) mod unat c"
  using assms slot_of_position [of k x i] by (simp add: ring_capacity_def unat_pow2)

lemma ring_capacity_slot0:
  assumes "ring_capacity k c"
  shows "unat (x AND (c - 1)) = unat x mod unat c"
  using ring_capacity_slot [OF assms, of x 0] by simp

lemma ring_capacity_bounds:
  assumes "ring_capacity k c"
  shows "2 \<le> unat c" and "unat c \<le> 2 ^ 62"
proof -
  have "(2 :: nat) ^ 1 \<le> 2 ^ k"
    using assms by (intro power_increasing) (auto simp: ring_capacity_def)
  moreover have "(2 :: nat) ^ k \<le> 2 ^ 62"
    using assms by (intro power_increasing) (auto simp: ring_capacity_def)
  ultimately show "2 \<le> unat c" and "unat c \<le> 2 ^ 62"
    using ring_capacity_unat [OF assms] by simp_all
qed

lemma ring_capacity_mod_add:
  fixes x :: u64
  assumes "ring_capacity k c"
  shows "unat (x + of_nat i) mod unat c = (unat x + i) mod unat c"
  using assms unat_add_of_nat_mod [of k x i] by (simp add: ring_capacity_def unat_pow2)

subsection \<open>The queue contract\<close>

text \<open>
  What a client of a bounded queue relies on.  \<open>content\<close> is the queue as a list, oldest
  first; \<open>push\<close> and \<open>pop\<close> return \<^term>\<open>Some\<close> because the call returns.  The laws say what
  each call does on every branch: accepted, rejected because full, popped, empty.
\<close>

datatype 'a queue_op = Push 'a | Pop

datatype 'a queue_reply = Pushed bool | Popped "'a option"

fun queue_run ::
  "('q \<Rightarrow> 'a \<Rightarrow> (bool \<times> 'q) option) \<Rightarrow> ('q \<Rightarrow> ('a option \<times> 'q) option) \<Rightarrow> 'q \<Rightarrow> 'a queue_op list \<Rightarrow>
     ('a queue_reply list \<times> 'q) option" where
  "queue_run push pop q [] = Some ([], q)"
| "queue_run push pop q (Push x # ops) =
     (case push q x of None \<Rightarrow> None
      | Some (ok, q') \<Rightarrow> map_option (\<lambda>(rs, r). (Pushed ok # rs, r)) (queue_run push pop q' ops))"
| "queue_run push pop q (Pop # ops) =
     (case pop q of None \<Rightarrow> None
      | Some (v, q') \<Rightarrow> map_option (\<lambda>(rs, r). (Popped v # rs, r)) (queue_run push pop q' ops))"

fun list_queue_run :: "nat \<Rightarrow> 'a list \<Rightarrow> 'a queue_op list \<Rightarrow> 'a queue_reply list \<times> 'a list" where
  "list_queue_run n xs [] = ([], xs)"
| "list_queue_run n xs (Push x # ops) =
     (if length xs < n
      then (let (rs, ys) = list_queue_run n (xs @ [x]) ops in (Pushed True # rs, ys))
      else (let (rs, ys) = list_queue_run n xs ops in (Pushed False # rs, ys)))"
| "list_queue_run n [] (Pop # ops) =
     (let (rs, ys) = list_queue_run n [] ops in (Popped None # rs, ys))"
| "list_queue_run n (x # xs) (Pop # ops) =
     (let (rs, ys) = list_queue_run n xs ops in (Popped (Some x) # rs, ys))"

fun accepted :: "'a queue_op list \<Rightarrow> 'a queue_reply list \<Rightarrow> 'a list" where
  "accepted (Push x # ops) (Pushed True # rs) = x # accepted ops rs"
| "accepted (_ # ops) (_ # rs) = accepted ops rs"
| "accepted _ _ = []"

fun delivered :: "'a queue_reply list \<Rightarrow> 'a list" where
  "delivered [] = []"
| "delivered (Popped (Some x) # rs) = x # delivered rs"
| "delivered (_ # rs) = delivered rs"

lemma list_queue_run_fifo:
  "list_queue_run n xs ops = (rs, ys) \<Longrightarrow> xs @ accepted ops rs = delivered rs @ ys"
  by (induction n xs ops arbitrary: rs ys rule: list_queue_run.induct)
    (auto simp: Let_def split: if_splits prod.splits)

lemma list_queue_run_bounded:
  "list_queue_run n xs ops = (rs, ys) \<Longrightarrow> length xs \<le> n \<Longrightarrow> length ys \<le> n"
  by (induction n xs ops arbitrary: rs ys rule: list_queue_run.induct)
    (auto simp: Let_def split: if_splits prod.splits)

locale bounded_queue =
  fixes invar :: "'q \<Rightarrow> bool"
    and content :: "'q \<Rightarrow> 'a list"
    and limit :: "'q \<Rightarrow> nat"
    and push :: "'q \<Rightarrow> 'a \<Rightarrow> (bool \<times> 'q) option"
    and pop :: "'q \<Rightarrow> ('a option \<times> 'q) option"
  assumes bounded: "invar q \<Longrightarrow> length (content q) \<le> limit q"
    and push_accepts: "invar q \<Longrightarrow> length (content q) < limit q \<Longrightarrow>
      \<exists>q'. push q x = Some (True, q') \<and> invar q' \<and> content q' = content q @ [x] \<and> limit q' = limit q"
    and push_rejects: "invar q \<Longrightarrow> length (content q) = limit q \<Longrightarrow>
      \<exists>q'. push q x = Some (False, q') \<and> invar q' \<and> content q' = content q \<and> limit q' = limit q"
    and pop_takes: "invar q \<Longrightarrow> content q = x # xs \<Longrightarrow>
      \<exists>q'. pop q = Some (Some x, q') \<and> invar q' \<and> content q' = xs \<and> limit q' = limit q"
    and pop_empty: "invar q \<Longrightarrow> content q = [] \<Longrightarrow>
      \<exists>q'. pop q = Some (None, q') \<and> invar q' \<and> content q' = [] \<and> limit q' = limit q"
begin

lemma push_total:
  assumes "invar q"
  obtains b q' where "push q x = Some (b, q')" and "invar q'" and "limit q' = limit q"
    and "b \<longleftrightarrow> length (content q) < limit q"
    and "content q' = (if b then content q @ [x] else content q)"
proof (cases "length (content q) < limit q")
  case True
  with push_accepts [OF assms, of x] that show thesis by fastforce
next
  case False
  with bounded [OF assms] have "length (content q) = limit q" by simp
  with push_rejects [OF assms, of x] that show thesis by fastforce
qed

lemma pop_total:
  assumes "invar q"
  obtains v q' where "pop q = Some (v, q')" and "invar q'" and "limit q' = limit q"
    and "v = (case content q of [] \<Rightarrow> None | x # xs \<Rightarrow> Some x)" and "content q' = tl (content q)"
proof (cases "content q")
  case Nil
  with pop_empty [OF assms] that show thesis by fastforce
next
  case (Cons x xs)
  with pop_takes [OF assms Cons] that show thesis by fastforce
qed

text \<open>Every run of the queue is a run of the bounded list: same replies, same content.\<close>

lemma run_refines:
  assumes "invar q"
  shows "\<exists>q'. queue_run push pop q ops = Some (fst (list_queue_run (limit q) (content q) ops), q') \<and>
              invar q' \<and> limit q' = limit q \<and> content q' = snd (list_queue_run (limit q) (content q) ops)"
  using assms
proof (induction ops arbitrary: q)
  case Nil
  then show ?case by simp
next
  case (Cons op ops)
  show ?case
  proof (cases op)
    case (Push x)
    obtain b q' where q': "push q x = Some (b, q')" "invar q'" "limit q' = limit q"
      "b \<longleftrightarrow> length (content q) < limit q"
      "content q' = (if b then content q @ [x] else content q)"
      using push_total [OF Cons.prems] by blast
    from Cons.IH [OF q'(2)] show ?thesis
      using q' by (auto simp: Push Let_def split: prod.splits if_splits)
  next
    case Pop
    obtain v q' where q': "pop q = Some (v, q')" "invar q'" "limit q' = limit q"
      "v = (case content q of [] \<Rightarrow> None | x # xs \<Rightarrow> Some x)" "content q' = tl (content q)"
      using pop_total [OF Cons.prems] by blast
    from Cons.IH [OF q'(2)] show ?thesis
      using q' by (cases "content q") (auto simp: Pop Let_def split: prod.splits)
  qed
qed

text \<open>
  First in, first out: what was in the queue followed by what it accepted is what it
  delivered followed by what is left in it.
\<close>

lemma run_fifo:
  assumes "invar q"
  shows "\<exists>rs q'. queue_run push pop q ops = Some (rs, q') \<and> invar q' \<and>
           content q @ accepted ops rs = delivered rs @ content q' \<and> length (content q') \<le> limit q"
proof -
  obtain q' where q': "queue_run push pop q ops =
      Some (fst (list_queue_run (limit q) (content q) ops), q')" "invar q'" "limit q' = limit q"
      "content q' = snd (list_queue_run (limit q) (content q) ops)"
    using run_refines [OF assms] by blast
  have "content q @ accepted ops (fst (list_queue_run (limit q) (content q) ops)) =
        delivered (fst (list_queue_run (limit q) (content q) ops)) @ content q'"
    using list_queue_run_fifo [OF surjective_pairing] q'(4) by metis
  then show ?thesis
    using q' bounded [OF q'(2)] by auto
qed

end

lemma normalize_2: "normalize_bounded_queue_capacity 2 = Inr 2"
  by (simp add: normalize_bounded_queue_capacity_def checked_next_power_of_two_def
      next_power_of_two_def max_power_of_two_size_eq max_bounded_queue_capacity_eq while_unfold
      word_le_nat_alt)

end
