(* ===== verification/Spsc_Queue.thy ===== *)
theory Spsc_Queue
  imports Queue_Common
begin

unbundle bit_operations_syntax

section \<open>The single-producer single-consumer ring\<close>

text \<open>
  Models \<^verbatim>\<open>include/af/detail/queue/bounded_spsc_queue.hpp\<close>.  The record has the class's fields;
  \<open>spsc_try_push\<close>, \<open>spsc_try_push_many\<close>, \<open>spsc_try_pop\<close> and \<open>spsc_try_pop_many\<close> are its four
  operations, each run without interleaving here, on 64-bit positions that wrap and with the
  two cached positions the class keeps.  The invariant \<open>spsc_inv\<close> says how the caches lag
  behind the published positions.  The lemmas show that every operation keeps it and does to
  the list \<open>spsc_content\<close> what a bounded queue does, and the interpretation discharges the
  queue contract.
\<close>

record 'a spsc =
  spsc_capacity :: u64
  spsc_mask :: u64
  spsc_buffer :: "'a ptr list"
  spsc_head :: u64
  spsc_tail :: u64
  spsc_head_cache :: u64
  spsc_tail_cache :: u64

definition spsc_new :: "u64 \<Rightarrow> af_error + 'a spsc" where
  "spsc_new capacity =
     (case normalize_bounded_queue_capacity capacity of
        Inl e \<Rightarrow> Inl e
      | Inr c \<Rightarrow> Inr \<lparr>spsc_capacity = c, spsc_mask = c - 1, spsc_buffer = replicate (unat c) None,
                     spsc_head = 0, spsc_tail = 0, spsc_head_cache = 0, spsc_tail_cache = 0\<rparr>)"

definition spsc_try_push :: "'a spsc \<Rightarrow> 'a ptr \<Rightarrow> bool \<times> 'a spsc" where
  "spsc_try_push q value =
     (let tail = spsc_tail q;
          next = tail + 1;
          store = (\<lambda>q. (True, q\<lparr>spsc_buffer := (spsc_buffer q)[unat (tail AND spsc_mask q) := value],
                                spsc_tail := next\<rparr>))
      in if next - spsc_head_cache q > spsc_capacity q
         then let q = q\<lparr>spsc_head_cache := spsc_head q\<rparr>
              in if next - spsc_head_cache q > spsc_capacity q then (False, q) else store q
         else store q)"

fun spsc_write :: "'a ptr list \<Rightarrow> nat \<Rightarrow> 'a ptr list \<Rightarrow> 'a ptr list" where
  "spsc_write buf i [] = buf"
| "spsc_write buf i (v # vs) = spsc_write (buf[i := v]) (Suc i) vs"

definition spsc_store_many :: "'a spsc \<Rightarrow> 'a ptr list \<Rightarrow> u64 \<Rightarrow> u64 \<times> 'a spsc" where
  "spsc_store_many q values count =
     (let tail = spsc_tail q;
          first = tail AND spsc_mask q;
          first_count = min count (spsc_capacity q - first);
          b1 = spsc_write (spsc_buffer q) (unat first) (take (unat first_count) values);
          b2 = spsc_write b1 0 (drop (unat first_count) (take (unat count) values))
      in (count, q\<lparr>spsc_buffer := b2, spsc_tail := tail + count\<rparr>))"

definition spsc_try_push_many :: "'a spsc \<Rightarrow> 'a ptr list \<Rightarrow> u64 \<Rightarrow> u64 \<times> 'a spsc" where
  "spsc_try_push_many q values count =
     (if count = 0 then (0, q)
      else
        let tail = spsc_tail q;
            used = tail - spsc_head_cache q;
            available = (if used < spsc_capacity q then spsc_capacity q - used else 0)
        in if count > available
           then let q = q\<lparr>spsc_head_cache := spsc_head q\<rparr>;
                    refreshed_used = tail - spsc_head_cache q
                in if refreshed_used \<ge> spsc_capacity q then (0, q)
                   else spsc_store_many q values (min count (spsc_capacity q - refreshed_used))
           else spsc_store_many q values count)"

definition spsc_try_pop :: "'a spsc \<Rightarrow> 'a ptr \<times> 'a spsc" where
  "spsc_try_pop q =
     (let head = spsc_head q;
          take_head = (\<lambda>q. (spsc_buffer q ! unat (head AND spsc_mask q), q\<lparr>spsc_head := head + 1\<rparr>))
      in if spsc_tail_cache q = head
         then let q = q\<lparr>spsc_tail_cache := spsc_tail q\<rparr>
              in if spsc_tail_cache q = head then (None, q) else take_head q
         else take_head q)"

definition spsc_take_many :: "'a spsc \<Rightarrow> u64 \<Rightarrow> 'a ptr list \<times> 'a spsc" where
  "spsc_take_many q max_count =
     (let head = spsc_head q;
          available = spsc_tail_cache q - head;
          count = (if available < max_count then available else max_count)
      in (map (\<lambda>i. spsc_buffer q ! unat ((head + of_nat i) AND spsc_mask q)) [0..<unat count],
          q\<lparr>spsc_head := head + count\<rparr>))"

definition spsc_try_pop_many :: "'a spsc \<Rightarrow> u64 \<Rightarrow> 'a ptr list \<times> 'a spsc" where
  "spsc_try_pop_many q max_count =
     (if max_count = 0 then ([], q)
      else
        let head = spsc_head q
        in if spsc_tail_cache q = head
           then let q = q\<lparr>spsc_tail_cache := spsc_tail q\<rparr>
                in if spsc_tail_cache q = head then ([], q) else spsc_take_many q max_count
           else if spsc_tail_cache q - head < max_count
           then spsc_take_many (q\<lparr>spsc_tail_cache := spsc_tail q\<rparr>) max_count
           else spsc_take_many q max_count)"

subsection \<open>Invariant and content\<close>

definition spsc_inv :: "'a spsc \<Rightarrow> bool" where
  "spsc_inv q \<longleftrightarrow>
     (\<exists>k. ring_capacity k (spsc_capacity q)) \<and>
     spsc_mask q = spsc_capacity q - 1 \<and>
     length (spsc_buffer q) = unat (spsc_capacity q) \<and>
     unat (spsc_head q - spsc_head_cache q) + unat (spsc_tail q - spsc_head q) \<le> unat (spsc_capacity q) \<and>
     unat (spsc_tail_cache q - spsc_head q) + unat (spsc_tail q - spsc_tail_cache q)
       = unat (spsc_tail q - spsc_head q)"

definition spsc_raw :: "'a spsc \<Rightarrow> 'a ptr list" where
  "spsc_raw q = ring_slots (spsc_buffer q) (unat (spsc_head q)) (unat (spsc_tail q - spsc_head q))"

lemma spsc_new_inv:
  assumes "spsc_new n = Inr q"
  shows "spsc_inv q" and "spsc_raw q = []"
proof -
  from assms obtain c where c: "normalize_bounded_queue_capacity n = Inr c"
    and q: "q = \<lparr>spsc_capacity = c, spsc_mask = c - 1, spsc_buffer = replicate (unat c) None,
                 spsc_head = 0, spsc_tail = 0, spsc_head_cache = 0, spsc_tail_cache = 0\<rparr>"
    by (auto simp: spsc_new_def split: sum.splits)
  have "\<exists>k. ring_capacity k c"
    using c normalize_capacity_ok [of n] normalize_capacity_too_large [of n]
    by (cases "unat n \<le> 2 ^ 62") auto
  then show "spsc_inv q" and "spsc_raw q = []"
    by (auto simp: q spsc_inv_def spsc_raw_def)
qed

subsection \<open>Refreshing a cached position\<close>

lemma spsc_inv_refresh_head:
  assumes "spsc_inv q"
  shows "spsc_inv (q\<lparr>spsc_head_cache := spsc_head q\<rparr>)"
  using assms by (auto simp: spsc_inv_def)

lemma spsc_inv_refresh_tail:
  assumes "spsc_inv q"
  shows "spsc_inv (q\<lparr>spsc_tail_cache := spsc_tail q\<rparr>)"
  using assms by (auto simp: spsc_inv_def)

lemma spsc_raw_refresh [simp]:
  "spsc_raw (q\<lparr>spsc_head_cache := c\<rparr>) = spsc_raw q"
  "spsc_raw (q\<lparr>spsc_tail_cache := c\<rparr>) = spsc_raw q"
  by (simp_all add: spsc_raw_def)

lemma length_spsc_raw: "length (spsc_raw q) = unat (spsc_tail q - spsc_head q)"
  by (simp add: spsc_raw_def)

lemma spsc_raw_bounded: "spsc_inv q \<Longrightarrow> length (spsc_raw q) \<le> unat (spsc_capacity q)"
  by (simp add: spsc_inv_def length_spsc_raw)

text \<open>The producer's view: the distance from the cached head is that from the head plus the lag.\<close>

lemma spsc_used_by_cache:
  assumes "spsc_inv q"
  shows "unat (spsc_tail q - spsc_head_cache q) =
         unat (spsc_head q - spsc_head_cache q) + length (spsc_raw q)"
proof -
  have "unat (spsc_head q - spsc_head_cache q) + unat (spsc_tail q - spsc_head q) \<le> unat (spsc_capacity q)"
    using assms by (simp add: spsc_inv_def)
  then have "unat (spsc_head q - spsc_head_cache q) + unat (spsc_tail q - spsc_head q) < 2 ^ 64"
    using unat_lt_2_64 by (rule le_less_trans)
  from dist_trans [OF this] show ?thesis
    by (simp add: length_spsc_raw)
qed

lemma spsc_next_distance:
  assumes "spsc_inv q"
  shows "unat (spsc_tail q + 1 - spsc_head_cache q) =
         Suc (unat (spsc_head q - spsc_head_cache q) + length (spsc_raw q))"
proof -
  obtain k where k: "ring_capacity k (spsc_capacity q)"
    using assms by (auto simp: spsc_inv_def)
  have "unat (spsc_tail q - spsc_head_cache q) \<le> unat (spsc_capacity q)"
    using assms spsc_used_by_cache [OF assms] by (simp add: spsc_inv_def length_spsc_raw)
  then have "unat (spsc_tail q - spsc_head_cache q) + 1 < 2 ^ 64"
    using ring_capacity_bounds [OF k] by simp
  from dist_Suc [OF this] show ?thesis
    using spsc_used_by_cache [OF assms] by simp
qed

subsection \<open>Writing and publishing\<close>

lemma spsc_write_ring:
  "t + length vs \<le> length buf \<Longrightarrow> spsc_write buf t vs = ring_write buf t vs"
  by (induction vs arbitrary: buf t) auto

lemma spsc_store_inv:
  assumes inv: "spsc_inv q"
    and room: "unat (spsc_head q - spsc_head_cache q) + length (spsc_raw q) + n \<le> unat (spsc_capacity q)"
    and len: "length b = length (spsc_buffer q)"
  shows "spsc_inv (q\<lparr>spsc_buffer := b, spsc_tail := spsc_tail q + of_nat n\<rparr>)"
proof -
  obtain k where k: "ring_capacity k (spsc_capacity q)"
    using inv by (auto simp: spsc_inv_def)
  have small: "unat (spsc_capacity q) < 2 ^ 64"
    by (rule unat_lt_2_64)
  have h: "unat (spsc_tail q + of_nat n - spsc_head q) = length (spsc_raw q) + n"
    using room small by (subst dist_add_of_nat) (auto simp: length_spsc_raw)
  have c: "unat (spsc_tail q + of_nat n - spsc_tail_cache q) = unat (spsc_tail q - spsc_tail_cache q) + n"
    using room small inv by (subst dist_add_of_nat) (auto simp: length_spsc_raw spsc_inv_def)
  show ?thesis
    using inv room len h c k by (auto simp: spsc_inv_def length_spsc_raw)
qed

lemma spsc_store_raw:
  assumes inv: "spsc_inv q"
    and room: "length (spsc_raw q) + length vs \<le> unat (spsc_capacity q)"
    and b: "b = ring_write (spsc_buffer q) (unat (spsc_tail q AND spsc_mask q)) vs"
  shows "spsc_raw (q\<lparr>spsc_buffer := b, spsc_tail := spsc_tail q + of_nat (length vs)\<rparr>) = spsc_raw q @ vs"
proof -
  obtain k where k: "ring_capacity k (spsc_capacity q)"
    using inv by (auto simp: spsc_inv_def)
  let ?h = "unat (spsc_head q)" and ?n = "length (spsc_raw q)" and ?m = "unat (spsc_capacity q)"
  have blen: "length (spsc_buffer q) = ?m"
    using inv by (simp add: spsc_inv_def)
  have small: "?m < 2 ^ 64"
    by (rule unat_lt_2_64)
  have dist: "unat (spsc_tail q + of_nat (length vs) - spsc_head q) = ?n + length vs"
    using room small by (subst dist_add_of_nat) (auto simp: length_spsc_raw)
  have tail: "spsc_tail q = spsc_head q + of_nat ?n"
    by (simp add: length_spsc_raw)
  have "unat (spsc_tail q AND spsc_mask q) = (?h + ?n) mod ?m"
    using ring_capacity_slot [OF k, of "spsc_head q" ?n] inv tail by (simp add: spsc_inv_def)
  then have "b = ring_write (spsc_buffer q) (?h + ?n) vs"
    unfolding b using blen by (intro ring_write_mod) simp
  then show ?thesis
    using ring_slots_write [of ?n vs "spsc_buffer q" ?h] room blen dist
    by (simp add: spsc_raw_def)
qed

lemma spsc_tail_slot:
  assumes "spsc_inv q"
  shows "unat (spsc_tail q AND spsc_mask q) < length (spsc_buffer q)"
proof -
  obtain k where k: "ring_capacity k (spsc_capacity q)"
    using assms by (auto simp: spsc_inv_def)
  show ?thesis
    using ring_capacity_slot0 [OF k, of "spsc_tail q"] ring_capacity_bounds [OF k] assms
    by (simp add: spsc_inv_def)
qed

lemma spsc_store_one:
  fixes q :: "'a spsc" and v :: "'a ptr"
  assumes inv: "spsc_inv q"
    and room: "unat (spsc_head q - spsc_head_cache q) + length (spsc_raw q) < unat (spsc_capacity q)"
  defines "q' \<equiv> q\<lparr>spsc_buffer := (spsc_buffer q)[unat (spsc_tail q AND spsc_mask q) := v],
                  spsc_tail := spsc_tail q + 1\<rparr>"
  shows "spsc_inv q'" and "spsc_raw q' = spsc_raw q @ [v]" and "spsc_capacity q' = spsc_capacity q"
proof -
  show "spsc_inv q'"
    using spsc_store_inv [OF inv, of 1] room by (simp add: q'_def)
  have "ring_write (spsc_buffer q) (unat (spsc_tail q AND spsc_mask q)) [v] =
        (spsc_buffer q)[unat (spsc_tail q AND spsc_mask q) := v]"
    using spsc_tail_slot [OF inv] by simp
  then show "spsc_raw q' = spsc_raw q @ [v]"
    using spsc_store_raw [OF inv, of "[v]"] room by (simp add: q'_def)
  show "spsc_capacity q' = spsc_capacity q"
    by (simp add: q'_def)
qed

lemma spsc_push_accepts:
  assumes inv: "spsc_inv q" and room: "length (spsc_raw q) < unat (spsc_capacity q)"
  shows "\<exists>q'. spsc_try_push q v = (True, q') \<and> spsc_inv q' \<and> spsc_raw q' = spsc_raw q @ [v] \<and>
              spsc_capacity q' = spsc_capacity q"
proof (cases "spsc_tail q + 1 - spsc_head_cache q > spsc_capacity q")
  case True
  let ?q = "q\<lparr>spsc_head_cache := spsc_head q\<rparr>"
  have inv': "spsc_inv ?q"
    by (rule spsc_inv_refresh_head [OF inv])
  have "\<not> spsc_tail ?q + 1 - spsc_head_cache ?q > spsc_capacity ?q"
    using spsc_next_distance [OF inv'] room by (simp add: word_less_nat_alt)
  then show ?thesis
    using True spsc_store_one [OF inv', of v] room by (simp add: spsc_try_push_def Let_def)
next
  case False
  then have "unat (spsc_head q - spsc_head_cache q) + length (spsc_raw q) < unat (spsc_capacity q)"
    using spsc_next_distance [OF inv] by (simp add: word_less_nat_alt)
  then show ?thesis
    using False spsc_store_one [OF inv, of v] by (simp add: spsc_try_push_def Let_def)
qed

lemma spsc_push_rejects:
  assumes inv: "spsc_inv q" and full: "length (spsc_raw q) = unat (spsc_capacity q)"
  shows "spsc_try_push q v = (False, q\<lparr>spsc_head_cache := spsc_head q\<rparr>)"
proof -
  let ?q = "q\<lparr>spsc_head_cache := spsc_head q\<rparr>"
  have inv': "spsc_inv ?q"
    by (rule spsc_inv_refresh_head [OF inv])
  have "spsc_tail q + 1 - spsc_head_cache q > spsc_capacity q"
    using spsc_next_distance [OF inv] full by (simp add: word_less_nat_alt)
  moreover have "spsc_tail q + 1 - spsc_head q > spsc_capacity q"
    using spsc_next_distance [OF inv'] full by (simp add: word_less_nat_alt)
  ultimately show ?thesis
    by (simp add: spsc_try_push_def Let_def)
qed

subsection \<open>Consuming\<close>

lemma spsc_advance:
  assumes inv: "spsc_inv q" and n: "n \<le> unat (spsc_tail_cache q - spsc_head q)"
  defines "q' \<equiv> q\<lparr>spsc_head := spsc_head q + of_nat n\<rparr>"
  shows "spsc_inv q'" and "spsc_raw q' = drop n (spsc_raw q)" and "spsc_capacity q' = spsc_capacity q"
proof -
  obtain k where k: "ring_capacity k (spsc_capacity q)"
    using inv by (auto simp: spsc_inv_def)
  have le: "n \<le> unat (spsc_tail q - spsc_head q)"
    using inv n by (simp add: spsc_inv_def)
  have d1: "unat (spsc_tail q - (spsc_head q + of_nat n)) = unat (spsc_tail q - spsc_head q) - n"
    using le by (rule dist_advance)
  have d2: "unat (spsc_tail_cache q - (spsc_head q + of_nat n)) = unat (spsc_tail_cache q - spsc_head q) - n"
    using n by (rule dist_advance)
  have "unat (spsc_head q - spsc_head_cache q) + n \<le> unat (spsc_capacity q)"
    using inv le by (simp add: spsc_inv_def)
  then have "unat (spsc_head q - spsc_head_cache q) + n < 2 ^ 64"
    using unat_lt_2_64 by (rule le_less_trans)
  then have d3: "unat (spsc_head q + of_nat n - spsc_head_cache q) = unat (spsc_head q - spsc_head_cache q) + n"
    by (rule dist_add_of_nat)
  show "spsc_inv q'"
    using inv n le d1 d2 d3 by (auto simp: spsc_inv_def q'_def)
  have "ring_slots (spsc_buffer q) (unat (spsc_head q)) (n + (unat (spsc_tail q - spsc_head q) - n)) =
        ring_slots (spsc_buffer q) (unat (spsc_head q)) n @
        ring_slots (spsc_buffer q) (unat (spsc_head q) + n) (unat (spsc_tail q - spsc_head q) - n)"
    by (rule ring_slots_append)
  moreover have "ring_slots (spsc_buffer q) (unat (spsc_head q) + n) m =
                 ring_slots (spsc_buffer q) (unat (spsc_head q + of_nat n)) m" for m
    using ring_capacity_mod_add [OF k] inv by (intro ring_slots_mod) (simp add: spsc_inv_def)
  ultimately show "spsc_raw q' = drop n (spsc_raw q)"
    using le d1 by (simp add: spsc_raw_def q'_def)
  show "spsc_capacity q' = spsc_capacity q"
    by (simp add: q'_def)
qed

lemma spsc_slot:
  assumes inv: "spsc_inv q" and i: "i < length (spsc_raw q)"
  shows "spsc_buffer q ! unat ((spsc_head q + of_nat i) AND spsc_mask q) = spsc_raw q ! i"
proof -
  obtain k where k: "ring_capacity k (spsc_capacity q)"
    using inv by (auto simp: spsc_inv_def)
  show ?thesis
    using ring_capacity_slot [OF k, of "spsc_head q" i] inv i
    by (simp add: spsc_inv_def spsc_raw_def nth_ring_slots)
qed

lemma spsc_pop_takes:
  assumes inv: "spsc_inv q" and ne: "spsc_raw q = v # vs"
  shows "\<exists>q'. spsc_try_pop q = (v, q') \<and> spsc_inv q' \<and> spsc_raw q' = vs \<and>
              spsc_capacity q' = spsc_capacity q"
proof -
  have step: "(spsc_buffer p ! unat (spsc_head p AND spsc_mask p), p\<lparr>spsc_head := spsc_head p + 1\<rparr>) =
              (v, p\<lparr>spsc_head := spsc_head p + 1\<rparr>) \<and> spsc_inv (p\<lparr>spsc_head := spsc_head p + 1\<rparr>) \<and>
              spsc_raw (p\<lparr>spsc_head := spsc_head p + 1\<rparr>) = vs"
    if "spsc_inv p" "spsc_raw p = v # vs" "spsc_tail_cache p \<noteq> spsc_head p" for p :: "'a spsc"
  proof -
    have "unat (spsc_tail_cache p - spsc_head p) \<noteq> 0"
      using that(3) by auto
    then have one: "1 \<le> unat (spsc_tail_cache p - spsc_head p)"
      by linarith
    have "spsc_buffer p ! unat (spsc_head p AND spsc_mask p) = v"
      using spsc_slot [OF that(1), of 0] that(2) by simp
    then show ?thesis
      using spsc_advance(1,2) [OF that(1) one] that(2) by simp
  qed
  show ?thesis
  proof (cases "spsc_tail_cache q = spsc_head q")
    case True
    let ?q = "q\<lparr>spsc_tail_cache := spsc_tail q\<rparr>"
    have "spsc_tail q \<noteq> spsc_head q"
      using ne by (auto simp: spsc_raw_def)
    then show ?thesis
      using True step [OF spsc_inv_refresh_tail [OF inv]] ne
      by (auto simp: spsc_try_pop_def Let_def)
  next
    case False
    then show ?thesis
      using step [OF inv ne] by (simp add: spsc_try_pop_def Let_def)
  qed
qed

lemma spsc_pop_empty:
  assumes inv: "spsc_inv q" and empty: "spsc_raw q = []"
  shows "spsc_try_pop q = (None, q\<lparr>spsc_tail_cache := spsc_tail q\<rparr>)"
proof -
  have "unat (spsc_tail q - spsc_head q) = 0"
    using empty length_spsc_raw [of q] by simp
  then have t: "spsc_tail q = spsc_head q"
    by simp
  have "unat (spsc_tail_cache q - spsc_head q) + unat (spsc_tail q - spsc_tail_cache q) = 0"
    using inv t unfolding spsc_inv_def by (metis cancel_comm_monoid_add_class.diff_cancel unat_0)
  then have "unat (spsc_tail_cache q - spsc_head q) = 0"
    by linarith
  then have "spsc_tail_cache q = spsc_head q"
    by simp
  with t show ?thesis
    by (simp add: spsc_try_pop_def Let_def)
qed

lemma spsc_take_many_spec:
  assumes inv: "spsc_inv q"
  shows "\<exists>q'. spsc_take_many q m =
           (take (min (unat (spsc_tail_cache q - spsc_head q)) (unat m)) (spsc_raw q), q') \<and>
         spsc_inv q' \<and>
         spsc_raw q' = drop (min (unat (spsc_tail_cache q - spsc_head q)) (unat m)) (spsc_raw q) \<and>
         spsc_capacity q' = spsc_capacity q"
proof -
  let ?a = "spsc_tail_cache q - spsc_head q"
  let ?c = "if ?a < m then ?a else m"
  have c: "unat ?c = min (unat ?a) (unat m)"
    by (auto simp: word_less_nat_alt)
  then have le: "unat ?c \<le> unat ?a" by simp
  have len: "unat ?c \<le> length (spsc_raw q)"
    using inv le by (simp add: length_spsc_raw spsc_inv_def)
  have "map (\<lambda>i. spsc_buffer q ! unat ((spsc_head q + of_nat i) AND spsc_mask q)) [0..<unat ?c] =
        take (unat ?c) (spsc_raw q)"
    using spsc_slot [OF inv] len by (intro nth_equalityI) auto
  then have eq: "spsc_take_many q m = (take (unat ?c) (spsc_raw q), q\<lparr>spsc_head := spsc_head q + of_nat (unat ?c)\<rparr>)"
    by (simp add: spsc_take_many_def Let_def)
  show ?thesis
    unfolding eq c [symmetric] using spsc_advance [OF inv le] by simp
qed

lemma spsc_pop_many_spec:
  assumes inv: "spsc_inv q"
  shows "\<exists>q'. spsc_try_pop_many q m = (take (unat m) (spsc_raw q), q') \<and> spsc_inv q' \<and>
           spsc_raw q' = drop (unat m) (spsc_raw q) \<and> spsc_capacity q' = spsc_capacity q"
proof -
  let ?q = "q\<lparr>spsc_tail_cache := spsc_tail q\<rparr>"
  have refreshed: "\<exists>q'. spsc_take_many ?q m = (take (unat m) (spsc_raw q), q') \<and> spsc_inv q' \<and>
           spsc_raw q' = drop (unat m) (spsc_raw q) \<and> spsc_capacity q' = spsc_capacity q"
    using spsc_take_many_spec [OF spsc_inv_refresh_tail [OF inv], of m]
    by (simp add: length_spsc_raw [symmetric] min_def split: if_splits)
  consider (zero) "m = 0" | (stale) "m \<noteq> 0" "spsc_tail_cache q = spsc_head q"
    | (short) "m \<noteq> 0" "spsc_tail_cache q \<noteq> spsc_head q" "spsc_tail_cache q - spsc_head q < m"
    | (enough) "m \<noteq> 0" "spsc_tail_cache q \<noteq> spsc_head q" "\<not> spsc_tail_cache q - spsc_head q < m"
    by blast
  then show ?thesis
  proof cases
    case zero
    then show ?thesis using inv by (simp add: spsc_try_pop_many_def)
  next
    case stale
    show ?thesis
    proof (cases "spsc_tail q = spsc_head q")
      case True
      then have "spsc_raw q = []" by (simp add: spsc_raw_def)
      then show ?thesis
        using stale True spsc_inv_refresh_tail [OF inv] by (simp add: spsc_try_pop_many_def Let_def)
    next
      case False
      then show ?thesis
        using stale refreshed by (simp add: spsc_try_pop_many_def Let_def)
    qed
  next
    case short
    then show ?thesis using refreshed by (simp add: spsc_try_pop_many_def Let_def)
  next
    case enough
    then have "unat m \<le> unat (spsc_tail_cache q - spsc_head q)"
      by (simp add: word_less_nat_alt)
    then show ?thesis
      using enough spsc_take_many_spec [OF inv, of m]
      by (simp add: spsc_try_pop_many_def Let_def min_absorb2)
  qed
qed

lemma spsc_store_many_spec:
  assumes inv: "spsc_inv q" and len: "unat count \<le> length vs"
    and room: "unat (spsc_head q - spsc_head_cache q) + length (spsc_raw q) + unat count \<le> unat (spsc_capacity q)"
  shows "\<exists>q'. spsc_store_many q vs count = (count, q') \<and> spsc_inv q' \<and>
           spsc_raw q' = spsc_raw q @ take (unat count) vs \<and> spsc_capacity q' = spsc_capacity q"
proof -
  obtain k where k: "ring_capacity k (spsc_capacity q)"
    using inv by (auto simp: spsc_inv_def)
  let ?buf = "spsc_buffer q" and ?first = "spsc_tail q AND spsc_mask q"
  let ?fc = "min count (spsc_capacity q - ?first)"
  let ?xs = "take (unat ?fc) vs" and ?ys = "drop (unat ?fc) (take (unat count) vs)"
  have blen: "length ?buf = unat (spsc_capacity q)"
    using inv by (simp add: spsc_inv_def)
  have first: "unat ?first < unat (spsc_capacity q)"
    using spsc_tail_slot [OF inv] blen by simp
  have "unat (spsc_capacity q - ?first) = unat (spsc_capacity q) - unat ?first"
    using first by (intro unat_sub) (simp add: word_le_nat_alt)
  then have fc: "unat ?fc = min (unat count) (unat (spsc_capacity q) - unat ?first)"
    by (simp add: min_def word_le_nat_alt)
  have split: "take (unat count) vs = ?xs @ ?ys"
  proof -
    have "unat ?fc \<le> unat count" using fc by linarith
    then have "take (unat ?fc) (take (unat count) vs) = ?xs"
      by (simp only: take_take min_absorb1)
    then show ?thesis
      using append_take_drop_id [of "unat ?fc" "take (unat count) vs"] by (simp only:)
  qed
  have lxs: "length ?xs = unat ?fc"
    using fc len by simp
  have w1: "spsc_write ?buf (unat ?first) ?xs = ring_write ?buf (unat ?first) ?xs"
  proof (rule spsc_write_ring)
    show "unat ?first + length ?xs \<le> length ?buf"
      using lxs fc blen first min.cobounded2 [of "unat count" "unat (spsc_capacity q) - unat ?first"]
      by linarith
  qed
  have "spsc_write (ring_write ?buf (unat ?first) ?xs) 0 ?ys =
        ring_write (ring_write ?buf (unat ?first) ?xs) (unat ?first + length ?xs) ?ys"
  proof (cases "unat ?fc = unat count")
    case True
    then show ?thesis by simp
  next
    case False
    then have wrap: "unat ?first + length ?xs = length ?buf"
      using lxs fc first blen by (simp add: min_def split: if_splits)
    have "length ?ys \<le> length ?buf"
      using room blen by simp
    then have "spsc_write (ring_write ?buf (unat ?first) ?xs) 0 ?ys = ring_write (ring_write ?buf (unat ?first) ?xs) 0 ?ys"
      by (intro spsc_write_ring) simp
    also have "\<dots> = ring_write (ring_write ?buf (unat ?first) ?xs) (unat ?first + length ?xs) ?ys"
      unfolding wrap by (intro ring_write_mod) simp
    finally show ?thesis .
  qed
  moreover have "ring_write ?buf (unat ?first) (take (unat count) vs) =
                 ring_write (ring_write ?buf (unat ?first) ?xs) (unat ?first + length ?xs) ?ys"
    by (rule trans [OF arg_cong [OF split, of "ring_write ?buf (unat ?first)"] ring_write_append])
  ultimately have b: "spsc_write (spsc_write ?buf (unat ?first) ?xs) 0 ?ys =
                ring_write ?buf (unat ?first) (take (unat count) vs)"
    unfolding w1 by (rule trans [OF _ sym])
  have eq: "spsc_store_many q vs count = (count, q\<lparr>spsc_buffer := ring_write ?buf (unat ?first) (take (unat count) vs),
              spsc_tail := spsc_tail q + of_nat (unat count)\<rparr>)"
    unfolding spsc_store_many_def Let_def b by simp
  show ?thesis
    unfolding eq using spsc_store_inv [OF inv room]
      spsc_store_raw [OF inv _ refl, of "take (unat count) vs"] len room by simp
qed

lemma spsc_push_many_spec:
  assumes inv: "spsc_inv q" and len: "unat count \<le> length vs"
  defines "n \<equiv> min (unat count) (unat (spsc_capacity q) - length (spsc_raw q))"
  shows "\<exists>q'. spsc_try_push_many q vs count = (of_nat n, q') \<and> spsc_inv q' \<and>
           spsc_raw q' = spsc_raw q @ take n vs \<and> spsc_capacity q' = spsc_capacity q"
proof (cases "count = 0")
  case True
  then show ?thesis using inv by (simp add: spsc_try_push_many_def n_def)
next
  case False
  let ?used = "spsc_tail q - spsc_head_cache q"
  let ?avail = "if ?used < spsc_capacity q then spsc_capacity q - ?used else 0"
  let ?q = "q\<lparr>spsc_head_cache := spsc_head q\<rparr>"
  have used: "unat ?used = unat (spsc_head q - spsc_head_cache q) + length (spsc_raw q)"
    by (rule spsc_used_by_cache [OF inv])
  have avail: "unat ?avail = unat (spsc_capacity q) - unat ?used"
    by (auto simp: word_less_nat_alt word_le_nat_alt unat_sub)
  have raw: "length (spsc_raw q) \<le> unat (spsc_capacity q)"
    by (rule spsc_raw_bounded [OF inv])
  show ?thesis
  proof (cases "count > ?avail")
    case refresh: True
    have ru: "unat (spsc_tail q - spsc_head q) = length (spsc_raw q)"
      by (simp add: length_spsc_raw)
    show ?thesis
    proof (cases "spsc_tail q - spsc_head q \<ge> spsc_capacity q")
      case True
      then have "n = 0"
        using ru by (simp add: n_def word_le_nat_alt)
      then show ?thesis
        using True refresh False spsc_inv_refresh_head [OF inv]
        by (simp add: spsc_try_push_many_def Let_def)
    next
      case room: False
      let ?c = "min count (spsc_capacity q - (spsc_tail q - spsc_head q))"
      have c: "unat ?c = n"
        using room ru by (auto simp: n_def min_def word_le_nat_alt unat_sub)
      have "spsc_try_push_many q vs count = spsc_store_many ?q vs ?c"
        using refresh room False by (simp add: spsc_try_push_many_def Let_def)
      moreover have "\<exists>q'. spsc_store_many ?q vs ?c = (?c, q') \<and> spsc_inv q' \<and>
           spsc_raw q' = spsc_raw ?q @ take (unat ?c) vs \<and> spsc_capacity q' = spsc_capacity ?q"
        using c len raw by (intro spsc_store_many_spec [OF spsc_inv_refresh_head [OF inv]])
          (auto simp: n_def)
      moreover have "of_nat n = ?c"
        unfolding c [symmetric] by simp
      ultimately show ?thesis
        using c by (simp only:) simp
    qed
  next
    case enough: False
    then have le: "unat count \<le> unat (spsc_capacity q) - unat ?used"
      using avail by (simp add: word_less_nat_alt not_less)
    then have n: "n = unat count"
      using used by (simp add: n_def)
    have pos: "0 < unat count"
      using False by (simp add: unat_gt_0)
    have "spsc_try_push_many q vs count = spsc_store_many q vs count"
      using enough False by (simp add: spsc_try_push_many_def Let_def)
    then show ?thesis
      unfolding n using spsc_store_many_spec [OF inv len] le used pos by simp
  qed
qed

subsection \<open>The queue contract\<close>

text \<open>
  The runtime only pushes non-null pointers, so a null result of \<open>spsc_try_pop\<close> means empty.
\<close>

definition spsc_ok :: "'a spsc \<Rightarrow> bool" where
  "spsc_ok q \<longleftrightarrow> spsc_inv q \<and> None \<notin> set (spsc_raw q)"

definition spsc_content :: "'a spsc \<Rightarrow> 'a list" where
  "spsc_content q = map the (spsc_raw q)"

definition spsc_push :: "'a spsc \<Rightarrow> 'a \<Rightarrow> (bool \<times> 'a spsc) option" where
  "spsc_push q x = Some (spsc_try_push q (Some x))"

definition spsc_pop :: "'a spsc \<Rightarrow> ('a option \<times> 'a spsc) option" where
  "spsc_pop q = Some (spsc_try_pop q)"

interpretation spsc: bounded_queue spsc_ok spsc_content "\<lambda>q. unat (spsc_capacity q)" spsc_push spsc_pop
proof
  fix q :: "'a spsc"
  assume "spsc_ok q"
  then show "length (spsc_content q) \<le> unat (spsc_capacity q)"
    by (simp add: spsc_ok_def spsc_content_def spsc_raw_bounded)
next
  fix q :: "'a spsc" and x
  assume "spsc_ok q" and "length (spsc_content q) < unat (spsc_capacity q)"
  then show "\<exists>q'. spsc_push q x = Some (True, q') \<and> spsc_ok q' \<and>
      spsc_content q' = spsc_content q @ [x] \<and> unat (spsc_capacity q') = unat (spsc_capacity q)"
    using spsc_push_accepts [of q "Some x"] by (auto simp: spsc_ok_def spsc_content_def spsc_push_def)
next
  fix q :: "'a spsc" and x
  assume "spsc_ok q" and "length (spsc_content q) = unat (spsc_capacity q)"
  then show "\<exists>q'. spsc_push q x = Some (False, q') \<and> spsc_ok q' \<and>
      spsc_content q' = spsc_content q \<and> unat (spsc_capacity q') = unat (spsc_capacity q)"
    using spsc_push_rejects [of q "Some x"] spsc_inv_refresh_head [of q]
    by (simp add: spsc_ok_def spsc_content_def spsc_push_def)
next
  fix q :: "'a spsc" and x xs
  assume ok: "spsc_ok q" and "spsc_content q = x # xs"
  then obtain vs where "spsc_raw q = Some x # vs" "xs = map the vs"
    by (cases "spsc_raw q") (auto simp: spsc_content_def spsc_ok_def)
  then show "\<exists>q'. spsc_pop q = Some (Some x, q') \<and> spsc_ok q' \<and> spsc_content q' = xs \<and>
      unat (spsc_capacity q') = unat (spsc_capacity q)"
    using ok spsc_pop_takes [of q "Some x" vs]
    by (auto simp: spsc_ok_def spsc_content_def spsc_pop_def)
next
  fix q :: "'a spsc"
  assume "spsc_ok q" and "spsc_content q = []"
  then show "\<exists>q'. spsc_pop q = Some (None, q') \<and> spsc_ok q' \<and> spsc_content q' = [] \<and>
      unat (spsc_capacity q') = unat (spsc_capacity q)"
    using spsc_pop_empty [of q] spsc_inv_refresh_tail [of q]
    by (simp add: spsc_ok_def spsc_content_def spsc_pop_def)
qed

lemma spsc_new_ok:
  assumes "spsc_new n = Inr q"
  shows "spsc_ok q" and "spsc_content q = []"
  using spsc_new_inv [OF assms] by (simp_all add: spsc_ok_def spsc_content_def)

text \<open>A concrete ring of capacity two, for the closed examples.\<close>

definition spsc_empty2 :: "nat spsc" where
  "spsc_empty2 = \<lparr>spsc_capacity = 2, spsc_mask = 1, spsc_buffer = [None, None],
                  spsc_head = 0, spsc_tail = 0, spsc_head_cache = 0, spsc_tail_cache = 0\<rparr>"

lemma spsc_new_2: "spsc_new 2 = Inr spsc_empty2"
  by (simp add: spsc_new_def normalize_2 spsc_empty2_def) (simp add: numeral_2_eq_2)

end
