(* ===== verification/Spsc_Concurrent.thy ===== *)
theory Spsc_Concurrent
  imports Spsc_Queue
begin

unbundle bit_operations_syntax

section \<open>The single-producer single-consumer ring under interleaving\<close>

text \<open>
  The same class as in \<open>Spsc_Queue\<close>, now with one producer and one consumer thread whose
  accesses interleave.  A step is one access to a shared location: the load of the other
  side's position, the write or read of a slot, the store that publishes a position.  Each
  side's own position and cache are private to it and need no step of their own.  An acquire
  load may return a stale value: any position the other side has published since the last
  one this side saw.  The history fields record what was published and what was handed out.
\<close>

datatype 'a producer_pc = P_Idle | P_LoadHead "'a ptr" | P_Write "'a ptr" | P_Publish "'a ptr"

datatype 'a consumer_pc = C_Idle | C_LoadTail | C_Read | C_Publish "'a ptr"

record 'a spsc_sys =
  sys_queue :: "'a spsc"
  sys_prod :: "'a producer_pc"
  sys_cons :: "'a consumer_pc"
  sys_sent :: "'a ptr list"
  sys_got :: "'a ptr list"

definition between :: "u64 \<Rightarrow> u64 \<Rightarrow> u64 \<Rightarrow> bool" where
  "between lo x hi \<longleftrightarrow> unat (x - lo) + unat (hi - x) = unat (hi - lo)"

inductive spsc_step :: "'a spsc_sys \<Rightarrow> 'a spsc_sys \<Rightarrow> bool" where
  push_fast:
    "sys_prod s = P_Idle \<Longrightarrow> q = sys_queue s \<Longrightarrow>
     \<not> spsc_tail q + 1 - spsc_head_cache q > spsc_capacity q \<Longrightarrow>
     spsc_step s (s\<lparr>sys_prod := P_Write v\<rparr>)"
| push_slow:
    "sys_prod s = P_Idle \<Longrightarrow> q = sys_queue s \<Longrightarrow>
     spsc_tail q + 1 - spsc_head_cache q > spsc_capacity q \<Longrightarrow>
     spsc_step s (s\<lparr>sys_prod := P_LoadHead v\<rparr>)"
| push_load_head:
    "sys_prod s = P_LoadHead v \<Longrightarrow> q = sys_queue s \<Longrightarrow> between (spsc_head_cache q) h (spsc_head q) \<Longrightarrow>
     spsc_step s (s\<lparr>sys_queue := q\<lparr>spsc_head_cache := h\<rparr>,
                    sys_prod := (if spsc_tail q + 1 - h > spsc_capacity q then P_Idle else P_Write v)\<rparr>)"
| push_write:
    "sys_prod s = P_Write v \<Longrightarrow> q = sys_queue s \<Longrightarrow>
     spsc_step s (s\<lparr>sys_queue := q\<lparr>spsc_buffer := (spsc_buffer q)[unat (spsc_tail q AND spsc_mask q) := v]\<rparr>,
                    sys_prod := P_Publish v\<rparr>)"
| push_publish:
    "sys_prod s = P_Publish v \<Longrightarrow> q = sys_queue s \<Longrightarrow>
     spsc_step s (s\<lparr>sys_queue := q\<lparr>spsc_tail := spsc_tail q + 1\<rparr>, sys_prod := P_Idle,
                    sys_sent := sys_sent s @ [v]\<rparr>)"
| pop_fast:
    "sys_cons s = C_Idle \<Longrightarrow> q = sys_queue s \<Longrightarrow> spsc_tail_cache q \<noteq> spsc_head q \<Longrightarrow>
     spsc_step s (s\<lparr>sys_cons := C_Read\<rparr>)"
| pop_slow:
    "sys_cons s = C_Idle \<Longrightarrow> q = sys_queue s \<Longrightarrow> spsc_tail_cache q = spsc_head q \<Longrightarrow>
     spsc_step s (s\<lparr>sys_cons := C_LoadTail\<rparr>)"
| pop_load_tail:
    "sys_cons s = C_LoadTail \<Longrightarrow> q = sys_queue s \<Longrightarrow> between (spsc_tail_cache q) t (spsc_tail q) \<Longrightarrow>
     spsc_step s (s\<lparr>sys_queue := q\<lparr>spsc_tail_cache := t\<rparr>,
                    sys_cons := (if t = spsc_head q then C_Idle else C_Read)\<rparr>)"
| pop_read:
    "sys_cons s = C_Read \<Longrightarrow> q = sys_queue s \<Longrightarrow>
     spsc_step s (s\<lparr>sys_cons := C_Publish (spsc_buffer q ! unat (spsc_head q AND spsc_mask q))\<rparr>)"
| pop_publish:
    "sys_cons s = C_Publish v \<Longrightarrow> q = sys_queue s \<Longrightarrow>
     spsc_step s (s\<lparr>sys_queue := q\<lparr>spsc_head := spsc_head q + 1\<rparr>, sys_cons := C_Idle,
                    sys_got := sys_got s @ [v]\<rparr>)"

inductive spsc_reachable :: "'a spsc_sys \<Rightarrow> bool" where
  start: "spsc_new n = Inr q \<Longrightarrow>
     spsc_reachable \<lparr>sys_queue = q, sys_prod = P_Idle, sys_cons = C_Idle, sys_sent = [], sys_got = []\<rparr>"
| step: "spsc_reachable s \<Longrightarrow> spsc_step s t \<Longrightarrow> spsc_reachable t"

subsection \<open>Invariant\<close>

definition producer_inv :: "'a spsc \<Rightarrow> 'a producer_pc \<Rightarrow> bool" where
  "producer_inv q p \<longleftrightarrow>
     (case p of
        P_Write v \<Rightarrow> unat (spsc_head q - spsc_head_cache q) + length (spsc_raw q) < unat (spsc_capacity q)
      | P_Publish v \<Rightarrow> unat (spsc_head q - spsc_head_cache q) + length (spsc_raw q) < unat (spsc_capacity q) \<and>
                       spsc_buffer q ! unat (spsc_tail q AND spsc_mask q) = v
      | _ \<Rightarrow> True)"

definition consumer_inv :: "'a spsc \<Rightarrow> 'a consumer_pc \<Rightarrow> bool" where
  "consumer_inv q c \<longleftrightarrow>
     (case c of
        C_Read \<Rightarrow> spsc_tail_cache q \<noteq> spsc_head q
      | C_Publish v \<Rightarrow> spsc_tail_cache q \<noteq> spsc_head q \<and>
                       v = spsc_buffer q ! unat (spsc_head q AND spsc_mask q)
      | _ \<Rightarrow> True)"

definition spsc_sys_inv :: "'a spsc_sys \<Rightarrow> bool" where
  "spsc_sys_inv s \<longleftrightarrow> spsc_inv (sys_queue s) \<and>
     sys_got s @ spsc_raw (sys_queue s) = sys_sent s \<and>
     producer_inv (sys_queue s) (sys_prod s) \<and> consumer_inv (sys_queue s) (sys_cons s)"

lemma consumer_has_item:
  assumes "spsc_inv q" and "spsc_tail_cache q \<noteq> spsc_head q"
  shows "1 \<le> unat (spsc_tail_cache q - spsc_head q)" and "spsc_raw q \<noteq> []"
    and "spsc_buffer q ! unat (spsc_head q AND spsc_mask q) = hd (spsc_raw q)"
proof -
  have "unat (spsc_tail_cache q - spsc_head q) \<noteq> 0"
    using assms(2) by auto
  then show one: "1 \<le> unat (spsc_tail_cache q - spsc_head q)"
    by linarith
  then have "0 < length (spsc_raw q)"
    using assms(1) by (simp add: spsc_inv_def length_spsc_raw)
  then show "spsc_raw q \<noteq> []"
    and "spsc_buffer q ! unat (spsc_head q AND spsc_mask q) = hd (spsc_raw q)"
    using spsc_slot [OF assms(1), of 0] by (auto simp: hd_conv_nth)
qed

text \<open>A stale position between the cached and the published one keeps the invariant.\<close>

lemma spsc_inv_stale_head:
  assumes "spsc_inv q" and "between (spsc_head_cache q) h (spsc_head q)"
  shows "spsc_inv (q\<lparr>spsc_head_cache := h\<rparr>)"
  using assms by (auto simp: spsc_inv_def between_def)

lemma spsc_inv_stale_tail:
  assumes inv: "spsc_inv q" and bt: "between (spsc_tail_cache q) t (spsc_tail q)"
  shows "spsc_inv (q\<lparr>spsc_tail_cache := t\<rparr>)"
proof -
  have sum: "unat (spsc_tail_cache q - spsc_head q) + unat (spsc_tail q - spsc_tail_cache q) =
             unat (spsc_tail q - spsc_head q)"
    using inv by (simp add: spsc_inv_def)
  have "unat (spsc_tail_cache q - spsc_head q) + unat (t - spsc_tail_cache q) \<le> unat (spsc_tail q - spsc_head q)"
    using sum bt by (simp add: between_def)
  then have "unat (spsc_tail_cache q - spsc_head q) + unat (t - spsc_tail_cache q) < 2 ^ 64"
    using unat_lt_2_64 by (rule le_less_trans)
  from dist_trans [OF this] have "unat (t - spsc_head q) + unat (spsc_tail q - t) = unat (spsc_tail q - spsc_head q)"
    using sum bt by (simp add: between_def)
  then show ?thesis
    using inv by (auto simp: spsc_inv_def)
qed

text \<open>
  The slot at the tail is never one of the slots between head and tail while there is room,
  so the producer's write is invisible to the consumer until it is published.
\<close>

lemma tail_slot_outside:
  fixes q :: "'a spsc" and v :: "'a ptr"
  assumes inv: "spsc_inv q" and room: "length (spsc_raw q) < unat (spsc_capacity q)"
  defines "q' \<equiv> q\<lparr>spsc_buffer := (spsc_buffer q)[unat (spsc_tail q AND spsc_mask q) := v]\<rparr>"
  shows "spsc_inv q'" and "spsc_raw q' = spsc_raw q"
proof -
  obtain k where k: "ring_capacity k (spsc_capacity q)"
    using inv by (auto simp: spsc_inv_def)
  have tail: "spsc_tail q = spsc_head q + of_nat (length (spsc_raw q))"
    by (simp add: length_spsc_raw)
  have slot: "unat (spsc_tail q AND spsc_mask q) =
              (unat (spsc_head q) + length (spsc_raw q)) mod length (spsc_buffer q)"
    using ring_capacity_slot [OF k, of "spsc_head q" "length (spsc_raw q)"] inv tail
    by (simp add: spsc_inv_def)
  show "spsc_inv q'"
    using inv by (auto simp: spsc_inv_def q'_def)
  have "length (spsc_raw q) < length (spsc_buffer q)"
    using room inv by (simp add: spsc_inv_def)
  then have "ring_slots ((spsc_buffer q)[unat (spsc_tail q AND spsc_mask q) := v])
               (unat (spsc_head q)) (length (spsc_raw q)) =
             ring_slots (spsc_buffer q) (unat (spsc_head q)) (length (spsc_raw q))"
    unfolding slot by (intro ring_slots_update_outside) simp_all
  then show "spsc_raw q' = spsc_raw q"
    by (simp add: spsc_raw_def q'_def)
qed

lemma publish_tail:
  assumes inv: "spsc_inv q"
    and room: "unat (spsc_head q - spsc_head_cache q) + length (spsc_raw q) < unat (spsc_capacity q)"
    and v: "spsc_buffer q ! unat (spsc_tail q AND spsc_mask q) = v"
  shows "spsc_inv (q\<lparr>spsc_tail := spsc_tail q + 1\<rparr>)"
    and "spsc_raw (q\<lparr>spsc_tail := spsc_tail q + 1\<rparr>) = spsc_raw q @ [v]"
proof -
  have "(spsc_buffer q)[unat (spsc_tail q AND spsc_mask q) := v] = spsc_buffer q"
    using v by (metis list_update_id)
  then show "spsc_inv (q\<lparr>spsc_tail := spsc_tail q + 1\<rparr>)"
    and "spsc_raw (q\<lparr>spsc_tail := spsc_tail q + 1\<rparr>) = spsc_raw q @ [v]"
    using spsc_store_one(1,2) [OF inv room, of v] by simp_all
qed

subsection \<open>Every step keeps the invariant\<close>

lemma producer_inv_after_load:
  assumes inv: "spsc_inv q" and bt: "between (spsc_head_cache q) h (spsc_head q)"
    and room: "\<not> spsc_tail q + 1 - h > spsc_capacity q"
  shows "producer_inv (q\<lparr>spsc_head_cache := h\<rparr>) (P_Write v)"
  using spsc_next_distance [OF spsc_inv_stale_head [OF inv bt]] room
  by (simp add: producer_inv_def word_less_nat_alt)

lemma consumer_inv_producer_moves:
  assumes inv: "spsc_inv q" and room: "length (spsc_raw q) < unat (spsc_capacity q)"
    and c: "consumer_inv q c"
  shows "consumer_inv (q\<lparr>spsc_buffer := (spsc_buffer q)[unat (spsc_tail q AND spsc_mask q) := v]\<rparr>) c"
proof (cases c)
  case (C_Publish w)
  let ?q = "q\<lparr>spsc_buffer := (spsc_buffer q)[unat (spsc_tail q AND spsc_mask q) := v]\<rparr>"
  have tc: "spsc_tail_cache q \<noteq> spsc_head q"
    and w: "w = spsc_buffer q ! unat (spsc_head q AND spsc_mask q)"
    using c C_Publish by (auto simp: consumer_inv_def)
  have "spsc_buffer ?q ! unat (spsc_head q AND spsc_mask q) = hd (spsc_raw ?q)"
    using consumer_has_item(3) [OF tail_slot_outside(1) [OF inv room]] tc by simp
  also have "\<dots> = w"
    using consumer_has_item(3) [OF inv tc] w tail_slot_outside(2) [OF inv room] by simp
  finally show ?thesis
    using C_Publish tc by (simp add: consumer_inv_def)
qed (use c in \<open>simp_all add: consumer_inv_def\<close>)

lemma spsc_step_inv:
  assumes "spsc_step s t" and "spsc_sys_inv s"
  shows "spsc_sys_inv t"
  using assms
proof (induction rule: spsc_step.induct)
  case (push_fast s q v)
  then show ?case
    using spsc_next_distance [of q]
    by (simp add: spsc_sys_inv_def producer_inv_def word_less_nat_alt)
next
  case (push_slow s q v)
  then show ?case
    by (simp add: spsc_sys_inv_def producer_inv_def)
next
  case (push_load_head s v q h)
  then have inv: "spsc_inv q" by (simp add: spsc_sys_inv_def)
  have "consumer_inv (q\<lparr>spsc_head_cache := h\<rparr>) (sys_cons s)"
    using push_load_head by (auto simp: spsc_sys_inv_def consumer_inv_def split: consumer_pc.splits)
  then show ?case
    using push_load_head spsc_inv_stale_head [OF inv] producer_inv_after_load [OF inv]
    by (simp add: spsc_sys_inv_def producer_inv_def)
next
  case (push_write s v q)
  then have inv: "spsc_inv q" and room: "unat (spsc_head q - spsc_head_cache q) + length (spsc_raw q) < unat (spsc_capacity q)"
    by (auto simp: spsc_sys_inv_def producer_inv_def)
  then have room': "length (spsc_raw q) < unat (spsc_capacity q)" by simp
  show ?case
    using push_write room tail_slot_outside [OF inv room', of v] spsc_tail_slot [OF inv]
      consumer_inv_producer_moves [OF inv room', of "sys_cons s" v]
    by (simp add: spsc_sys_inv_def producer_inv_def)
next
  case (push_publish s v q)
  then have inv: "spsc_inv q"
    and room: "unat (spsc_head q - spsc_head_cache q) + length (spsc_raw q) < unat (spsc_capacity q)"
    and v: "spsc_buffer q ! unat (spsc_tail q AND spsc_mask q) = v"
    by (auto simp: spsc_sys_inv_def producer_inv_def)
  have "consumer_inv (q\<lparr>spsc_tail := spsc_tail q + 1\<rparr>) (sys_cons s)"
    using push_publish by (auto simp: spsc_sys_inv_def consumer_inv_def split: consumer_pc.splits)
  then show ?case
    using push_publish publish_tail [OF inv room v]
    by (auto simp: spsc_sys_inv_def producer_inv_def)
next
  case (pop_fast s q)
  then show ?case by (simp add: spsc_sys_inv_def consumer_inv_def)
next
  case (pop_slow s q)
  then show ?case by (simp add: spsc_sys_inv_def consumer_inv_def)
next
  case (pop_load_tail s q t)
  then have inv: "spsc_inv q" by (simp add: spsc_sys_inv_def)
  have "producer_inv (q\<lparr>spsc_tail_cache := t\<rparr>) (sys_prod s)"
    using pop_load_tail by (auto simp: spsc_sys_inv_def producer_inv_def split: producer_pc.splits)
  then show ?case
    using pop_load_tail spsc_inv_stale_tail [OF inv]
    by (simp add: spsc_sys_inv_def consumer_inv_def)
next
  case (pop_read s q)
  then show ?case by (simp add: spsc_sys_inv_def consumer_inv_def)
next
  case (pop_publish s v q)
  then have inv: "spsc_inv q" and tc: "spsc_tail_cache q \<noteq> spsc_head q"
    and v: "v = spsc_buffer q ! unat (spsc_head q AND spsc_mask q)"
    by (auto simp: spsc_sys_inv_def consumer_inv_def)
  note item = consumer_has_item [OF inv tc]
  let ?q = "q\<lparr>spsc_head := spsc_head q + 1\<rparr>"
  have adv: "spsc_inv ?q" "spsc_raw ?q = tl (spsc_raw q)"
    using spsc_advance(1,2) [OF inv item(1)] by (simp_all add: drop_Suc)
  have "unat (spsc_head ?q - spsc_head_cache ?q) + length (spsc_raw ?q) =
        unat (spsc_head q - spsc_head_cache q) + length (spsc_raw q)"
    using spsc_used_by_cache [OF inv] spsc_used_by_cache [OF adv(1)] by simp
  then have "producer_inv ?q (sys_prod s)"
    using pop_publish by (auto simp: spsc_sys_inv_def producer_inv_def split: producer_pc.splits)
  then show ?case
    using pop_publish adv item v by (auto simp: spsc_sys_inv_def consumer_inv_def)
qed

lemma spsc_reachable_inv: "spsc_reachable s \<Longrightarrow> spsc_sys_inv s"
proof (induction rule: spsc_reachable.induct)
  case (start n q)
  then show ?case
    using spsc_new_inv [of n q] by (simp add: spsc_sys_inv_def producer_inv_def consumer_inv_def)
next
  case (step s t)
  then show ?case by (blast intro: spsc_step_inv)
qed

subsection \<open>An interleaving\<close>

text \<open>
  The producer publishes 7 and is about to write 8 while the consumer, having loaded the
  tail, is about to read.
\<close>

definition spsc_example :: "nat spsc_sys" where
  "spsc_example = \<lparr>sys_queue = spsc_empty2\<lparr>spsc_buffer := [Some 7, None], spsc_tail := 1, spsc_tail_cache := 1\<rparr>,
     sys_prod = P_Write (Some 8), sys_cons = C_Read, sys_sent = [Some 7], sys_got = []\<rparr>"

lemma spsc_example_reachable: "spsc_reachable spsc_example"
proof -
  let ?s0 = "\<lparr>sys_queue = spsc_empty2, sys_prod = P_Idle, sys_cons = C_Idle, sys_sent = [], sys_got = []\<rparr>"
  let ?s1 = "?s0\<lparr>sys_prod := P_Write (Some 7)\<rparr>"
  let ?s2 = "?s1\<lparr>sys_queue := spsc_empty2\<lparr>spsc_buffer := [Some 7, None]\<rparr>, sys_prod := P_Publish (Some 7)\<rparr>"
  let ?s3 = "?s2\<lparr>sys_queue := spsc_empty2\<lparr>spsc_buffer := [Some 7, None], spsc_tail := 1\<rparr>,
                 sys_prod := P_Idle, sys_sent := [Some 7]\<rparr>"
  let ?s4 = "?s3\<lparr>sys_cons := C_LoadTail\<rparr>"
  let ?s5 = "?s4\<lparr>sys_queue := spsc_empty2\<lparr>spsc_buffer := [Some 7, None], spsc_tail := 1, spsc_tail_cache := 1\<rparr>,
                 sys_cons := C_Read\<rparr>"
  have r0: "spsc_reachable ?s0"
    by (rule spsc_reachable.start [OF spsc_new_2])
  have t0: "spsc_step ?s0 ?s1"
    by (rule spsc_step.push_fast [OF _ refl]) (simp_all add: spsc_empty2_def)
  have r1: "spsc_reachable ?s1"
    by (rule spsc_reachable.step [OF r0 t0])
  have t1: "spsc_step ?s1 ?s2"
    using spsc_step.push_write [of ?s1 "Some 7" spsc_empty2] by (simp add: spsc_empty2_def)
  have r2: "spsc_reachable ?s2"
    by (rule spsc_reachable.step [OF r1 t1])
  have t2: "spsc_step ?s2 ?s3"
    using spsc_step.push_publish [of ?s2 "Some 7" "sys_queue ?s2"] by (simp add: spsc_empty2_def)
  have r3: "spsc_reachable ?s3"
    by (rule spsc_reachable.step [OF r2 t2])
  have t3: "spsc_step ?s3 ?s4"
    by (rule spsc_step.pop_slow [OF _ refl]) (simp_all add: spsc_empty2_def)
  have r4: "spsc_reachable ?s4"
    by (rule spsc_reachable.step [OF r3 t3])
  have t4: "spsc_step ?s4 ?s5"
    using spsc_step.pop_load_tail [of ?s4 "sys_queue ?s4" 1] by (simp add: spsc_empty2_def between_def)
  have r5: "spsc_reachable ?s5"
    by (rule spsc_reachable.step [OF r4 t4])
  have t5: "spsc_step ?s5 (?s5\<lparr>sys_prod := P_Write (Some 8)\<rparr>)"
    by (rule spsc_step.push_fast [OF _ refl]) (simp_all add: spsc_empty2_def)
  have r6: "spsc_reachable (?s5\<lparr>sys_prod := P_Write (Some 8)\<rparr>)"
    by (rule spsc_reachable.step [OF r5 t5])
  then show ?thesis
    by (simp add: spsc_example_def)
qed

subsection \<open>Properties\<close>

text \<open>
  C4: Under every interleaving of one producer and one consumer, with stale loads of the
  other side's position, the consumer gets exactly the published pointers, in order and
  without loss or duplication: what it got followed by what is still in the ring is what was
  published; and the ring never holds more than its capacity.
\<close>

theorem spsc_interleaved_fifo:
  assumes "spsc_reachable s"
  shows "sys_got s @ spsc_raw (sys_queue s) = sys_sent s \<and>
         length (spsc_raw (sys_queue s)) \<le> unat (spsc_capacity (sys_queue s))"
  using spsc_reachable_inv [OF assms] spsc_raw_bounded by (auto simp: spsc_sys_inv_def)

theorem spsc_interleaved_fifo_witness:
  "sys_got spsc_example @ spsc_raw (sys_queue spsc_example) = [Some 7] \<and>
   length (spsc_raw (sys_queue spsc_example)) \<le> 2"
  using spsc_interleaved_fifo [OF spsc_example_reachable]
  by (simp add: spsc_example_def spsc_empty2_def)

text \<open>
  C28: The plain, non-atomic slot accesses never race: when the producer is about to write its
  slot and the consumer is about to read one, the two slots differ.
\<close>

theorem spsc_slots_race_free:
  assumes "spsc_reachable s" and "sys_prod s = P_Write v" and "sys_cons s = C_Read"
  shows "spsc_tail (sys_queue s) AND spsc_mask (sys_queue s) \<noteq>
         spsc_head (sys_queue s) AND spsc_mask (sys_queue s)"
proof
  let ?q = "sys_queue s"
  assume eq: "spsc_tail ?q AND spsc_mask ?q = spsc_head ?q AND spsc_mask ?q"
  have inv: "spsc_inv ?q" and room: "length (spsc_raw ?q) < unat (spsc_capacity ?q)"
    and tc: "spsc_tail_cache ?q \<noteq> spsc_head ?q"
    using spsc_reachable_inv [OF assms(1)] assms(2,3)
    by (auto simp: spsc_sys_inv_def producer_inv_def consumer_inv_def)
  obtain k where k: "ring_capacity k (spsc_capacity ?q)"
    using inv by (auto simp: spsc_inv_def)
  have mask: "spsc_mask ?q = spsc_capacity ?q - 1"
    using inv by (simp add: spsc_inv_def)
  have tail: "spsc_tail ?q = spsc_head ?q + of_nat (length (spsc_raw ?q))"
    by (simp add: length_spsc_raw)
  have t: "unat (spsc_tail ?q AND spsc_mask ?q) =
           (unat (spsc_head ?q) + length (spsc_raw ?q)) mod unat (spsc_capacity ?q)"
    unfolding mask by (subst tail) (rule ring_capacity_slot [OF k])
  have h: "unat (spsc_head ?q AND spsc_mask ?q) = (unat (spsc_head ?q) + 0) mod unat (spsc_capacity ?q)"
    unfolding mask using ring_capacity_slot0 [OF k] by simp
  have "(unat (spsc_head ?q) + length (spsc_raw ?q)) mod unat (spsc_capacity ?q) =
        (unat (spsc_head ?q) + 0) mod unat (spsc_capacity ?q)"
    using eq unfolding t [symmetric] h [symmetric] by (rule arg_cong)
  then have "length (spsc_raw ?q) = 0"
    using room le_less_trans [OF le0 room] by (rule ring_offset_inj)
  then show False
    using consumer_has_item(2) [OF inv tc] by simp
qed

theorem spsc_slots_race_free_witness:
  "spsc_reachable spsc_example \<and> (\<exists>v. sys_prod spsc_example = P_Write v) \<and> sys_cons spsc_example = C_Read \<and>
   spsc_tail (sys_queue spsc_example) AND spsc_mask (sys_queue spsc_example) \<noteq>
   spsc_head (sys_queue spsc_example) AND spsc_mask (sys_queue spsc_example)"
proof -
  obtain v where pcs: "sys_prod spsc_example = P_Write v" "sys_cons spsc_example = C_Read"
    by (simp add: spsc_example_def)
  show ?thesis using spsc_slots_race_free [OF spsc_example_reachable pcs] spsc_example_reachable pcs by blast
qed

end
