(* ===== verification/Mpsc_Queue.thy ===== *)
theory Mpsc_Queue
  imports Queue_Common
begin

unbundle bit_operations_syntax

section \<open>The multi-producer rings\<close>

text \<open>
  Models \<^verbatim>\<open>include/af/detail/queue/bounded_mpsc_queue.hpp\<close> and \<^verbatim>\<open>bounded_mpmc_queue.hpp\<close>: a ring
  of cells, each with a sequence number that says whose turn the cell is.  The two classes
  have the same fields and the same \<^verbatim>\<open>try_push\<close>; \<open>mpsc_try_push\<close>, \<open>mpsc_try_push_many\<close>,
  \<open>mpsc_try_pop\<close>, \<open>mpsc_try_pop_many\<close> model the first, \<open>mpmc_try_push\<close> and \<open>mpmc_try_pop\<close> the
  second.  Here a call runs without interference from other threads (the interleaved model
  is \<open>Mpsc_Concurrent\<close>), on positions that wrap at 64 bits.  The retry loops are partial
  functions into \<open>option\<close>; the lemmas show that under the invariant \<open>cell_inv\<close> they return.
\<close>

record 'a cell =
  cell_sequence :: u64
  cell_data :: "'a ptr"

record 'a cell_ring =
  ring_capacity_of :: u64
  ring_mask :: u64
  ring_buffer :: "'a cell list"
  enqueue_pos :: u64
  dequeue_pos :: u64

definition mpsc_new :: "u64 \<Rightarrow> af_error + 'a cell_ring" where
  "mpsc_new capacity =
     (case normalize_bounded_queue_capacity capacity of
        Inl e \<Rightarrow> Inl e
      | Inr c \<Rightarrow> Inr \<lparr>ring_capacity_of = c, ring_mask = c - 1,
                     ring_buffer = map (\<lambda>i. \<lparr>cell_sequence = of_nat i, cell_data = None\<rparr>) [0..<unat c],
                     enqueue_pos = 0, dequeue_pos = 0\<rparr>)"

definition cell_at :: "'a cell_ring \<Rightarrow> u64 \<Rightarrow> 'a cell" where
  "cell_at q pos = ring_buffer q ! unat (pos AND ring_mask q)"

definition set_cell :: "'a cell_ring \<Rightarrow> u64 \<Rightarrow> 'a cell \<Rightarrow> 'a cell_ring" where
  "set_cell q pos c = q\<lparr>ring_buffer := (ring_buffer q)[unat (pos AND ring_mask q) := c]\<rparr>"

subsection \<open>BoundedMpscQueue\<close>

partial_function (option) mpsc_push_loop :: "'a cell_ring \<Rightarrow> 'a ptr \<Rightarrow> u64 \<Rightarrow> (bool \<times> 'a cell_ring) option" where
  "mpsc_push_loop q value pos =
     (let seq = cell_sequence (cell_at q pos)
      in if seq = pos
         then (if enqueue_pos q = pos
               then Some (True, set_cell (q\<lparr>enqueue_pos := pos + 1\<rparr>) pos
                                  \<lparr>cell_sequence = pos + 1, cell_data = value\<rparr>)
               else mpsc_push_loop q value (enqueue_pos q))
         else if bounded_queue_sequence_before seq pos then Some (False, q)
         else mpsc_push_loop q value (enqueue_pos q))"

definition mpsc_try_push :: "'a cell_ring \<Rightarrow> 'a ptr \<Rightarrow> (bool \<times> 'a cell_ring) option" where
  "mpsc_try_push q value = mpsc_push_loop q value (enqueue_pos q)"

function mpsc_scan :: "'a cell_ring \<Rightarrow> u64 \<Rightarrow> u64 \<Rightarrow> u64 \<Rightarrow> u64 \<times> bool" where
  "mpsc_scan q pos count reservable =
     (if reservable < count
      then (if cell_sequence (cell_at q (pos + reservable)) = pos + reservable
            then mpsc_scan q pos count (reservable + 1)
            else if bounded_queue_sequence_before (cell_sequence (cell_at q (pos + reservable))) (pos + reservable)
            then (reservable, False)
            else (reservable, True))
      else (reservable, False))"
  by pat_completeness auto
termination
  by (relation "measure (\<lambda>(q, pos, count, reservable). unat (count - reservable))")
     (auto intro: dist_decreases)

declare mpsc_scan.simps [simp del]

fun mpsc_publish :: "'a cell_ring \<Rightarrow> u64 \<Rightarrow> 'a ptr list \<Rightarrow> 'a cell_ring" where
  "mpsc_publish q pos [] = q"
| "mpsc_publish q pos (v # vs) =
     mpsc_publish (set_cell q pos \<lparr>cell_sequence = pos + 1, cell_data = v\<rparr>) (pos + 1) vs"

partial_function (option) mpsc_push_many_loop ::
  "'a cell_ring \<Rightarrow> 'a ptr list \<Rightarrow> u64 \<Rightarrow> u64 \<Rightarrow> (u64 \<times> 'a cell_ring) option" where
  "mpsc_push_many_loop q values count pos =
     (let (reservable, stale_position) = mpsc_scan q pos count 0
      in if reservable = 0
         then (if \<not> stale_position then Some (0, q)
               else mpsc_push_many_loop q values count (enqueue_pos q))
         else if enqueue_pos q = pos
         then Some (reservable, mpsc_publish (q\<lparr>enqueue_pos := pos + reservable\<rparr>) pos
                                  (take (unat reservable) values))
         else mpsc_push_many_loop q values count (enqueue_pos q))"

definition mpsc_try_push_many :: "'a cell_ring \<Rightarrow> 'a ptr list \<Rightarrow> u64 \<Rightarrow> (u64 \<times> 'a cell_ring) option" where
  "mpsc_try_push_many q values count =
     (if count = 0 then Some (0, q)
      else mpsc_push_many_loop q values (min count (ring_capacity_of q)) (enqueue_pos q))"

definition mpsc_try_pop :: "'a cell_ring \<Rightarrow> 'a ptr \<times> 'a cell_ring" where
  "mpsc_try_pop q =
     (let pos = dequeue_pos q;
          cell = cell_at q pos
      in if cell_sequence cell \<noteq> pos + 1 then (None, q)
         else (cell_data cell,
               (set_cell q pos (cell\<lparr>cell_sequence := pos + ring_capacity_of q\<rparr>))\<lparr>dequeue_pos := pos + 1\<rparr>))"

function mpsc_pop_loop :: "'a cell_ring \<Rightarrow> u64 \<Rightarrow> u64 \<Rightarrow> u64 \<Rightarrow> 'a ptr list \<times> 'a cell_ring" where
  "mpsc_pop_loop q max_count count pos =
     (if count < max_count
      then let cell = cell_at q pos
           in if cell_sequence cell \<noteq> pos + 1 then ([], q\<lparr>dequeue_pos := pos\<rparr>)
              else let (out, q') = mpsc_pop_loop
                         (set_cell q pos (cell\<lparr>cell_sequence := pos + ring_capacity_of q\<rparr>))
                         max_count (count + 1) (pos + 1)
                   in (cell_data cell # out, q')
      else ([], q\<lparr>dequeue_pos := pos\<rparr>))"
  by pat_completeness auto
termination
  by (relation "measure (\<lambda>(q, max_count, count, pos). unat (max_count - count))")
     (auto intro: dist_decreases)

declare mpsc_pop_loop.simps [simp del]

definition mpsc_try_pop_many :: "'a cell_ring \<Rightarrow> u64 \<Rightarrow> 'a ptr list \<times> 'a cell_ring" where
  "mpsc_try_pop_many q max_count = mpsc_pop_loop q max_count 0 (dequeue_pos q)"

subsection \<open>BoundedMpmcQueue\<close>

definition mpmc_new :: "u64 \<Rightarrow> af_error + 'a cell_ring" where
  "mpmc_new capacity =
     (case normalize_bounded_queue_capacity capacity of
        Inl e \<Rightarrow> Inl e
      | Inr c \<Rightarrow> Inr \<lparr>ring_capacity_of = c, ring_mask = c - 1,
                     ring_buffer = map (\<lambda>i. \<lparr>cell_sequence = of_nat i, cell_data = None\<rparr>) [0..<unat c],
                     enqueue_pos = 0, dequeue_pos = 0\<rparr>)"

partial_function (option) mpmc_push_loop :: "'a cell_ring \<Rightarrow> 'a ptr \<Rightarrow> u64 \<Rightarrow> (bool \<times> 'a cell_ring) option" where
  "mpmc_push_loop q value pos =
     (let seq = cell_sequence (cell_at q pos)
      in if seq = pos
         then (if enqueue_pos q = pos
               then Some (True, set_cell (q\<lparr>enqueue_pos := pos + 1\<rparr>) pos
                                  \<lparr>cell_sequence = pos + 1, cell_data = value\<rparr>)
               else mpmc_push_loop q value (enqueue_pos q))
         else if bounded_queue_sequence_before seq pos then Some (False, q)
         else mpmc_push_loop q value (enqueue_pos q))"

definition mpmc_try_push :: "'a cell_ring \<Rightarrow> 'a ptr \<Rightarrow> (bool \<times> 'a cell_ring) option" where
  "mpmc_try_push q value = mpmc_push_loop q value (enqueue_pos q)"

partial_function (option) mpmc_pop_loop :: "'a cell_ring \<Rightarrow> u64 \<Rightarrow> ('a ptr \<times> 'a cell_ring) option" where
  "mpmc_pop_loop q pos =
     (let cell = cell_at q pos;
          seq = cell_sequence cell
      in if seq = pos + 1
         then (if dequeue_pos q = pos
               then Some (cell_data cell,
                          set_cell (q\<lparr>dequeue_pos := pos + 1\<rparr>) pos
                            (cell\<lparr>cell_sequence := pos + ring_capacity_of q\<rparr>))
               else mpmc_pop_loop q (dequeue_pos q))
         else if bounded_queue_sequence_before seq (pos + 1) then Some (None, q)
         else mpmc_pop_loop q (dequeue_pos q))"

definition mpmc_try_pop :: "'a cell_ring \<Rightarrow> ('a ptr \<times> 'a cell_ring) option" where
  "mpmc_try_pop q = mpmc_pop_loop q (dequeue_pos q)"

subsection \<open>Invariant\<close>

text \<open>
  The cell of the \<open>i\<close>-th position after the dequeue position holds an item when its sequence
  is one past that position, and is free for it when its sequence is that position.
\<close>

definition cell_count :: "'a cell_ring \<Rightarrow> nat" where
  "cell_count q = unat (enqueue_pos q - dequeue_pos q)"

definition cell_inv :: "'a cell_ring \<Rightarrow> bool" where
  "cell_inv q \<longleftrightarrow>
     (\<exists>k. ring_capacity k (ring_capacity_of q)) \<and>
     ring_mask q = ring_capacity_of q - 1 \<and>
     length (ring_buffer q) = unat (ring_capacity_of q) \<and>
     cell_count q \<le> unat (ring_capacity_of q) \<and>
     (\<forall>i<unat (ring_capacity_of q).
        cell_sequence (cell_at q (dequeue_pos q + of_nat i)) =
          dequeue_pos q + of_nat i + (if i < cell_count q then 1 else 0))"

definition cell_raw :: "'a cell_ring \<Rightarrow> 'a ptr list" where
  "cell_raw q = map (\<lambda>i. cell_data (cell_at q (dequeue_pos q + of_nat i))) [0..<cell_count q]"

lemma cell_inv_seq:
  "cell_inv q \<Longrightarrow> i < unat (ring_capacity_of q) \<Longrightarrow>
   cell_sequence (cell_at q (dequeue_pos q + of_nat i)) =
     dequeue_pos q + of_nat i + (if i < cell_count q then 1 else 0)"
  unfolding cell_inv_def by blast

lemma length_cell_raw [simp]: "length (cell_raw q) = cell_count q"
  by (simp add: cell_raw_def)

lemma cell_slot:
  assumes "cell_inv q"
  shows "unat ((pos + of_nat i) AND ring_mask q) = (unat pos + i) mod length (ring_buffer q)"
  using assms ring_capacity_slot by (auto simp: cell_inv_def)

lemma cell_slot_bound:
  assumes "cell_inv q"
  shows "unat (pos AND ring_mask q) < length (ring_buffer q)"
proof -
  have "0 < length (ring_buffer q)"
    using assms ring_capacity_bounds(1) by (fastforce simp: cell_inv_def)
  then show ?thesis
    using cell_slot [OF assms, of pos 0] by simp
qed

lemma cell_slots_differ:
  assumes "cell_inv q" and "i < unat (ring_capacity_of q)" and "j < unat (ring_capacity_of q)" and "i \<noteq> j"
  shows "unat ((pos + of_nat i) AND ring_mask q) \<noteq> unat ((pos + of_nat j) AND ring_mask q)"
proof
  assume "unat ((pos + of_nat i) AND ring_mask q) = unat ((pos + of_nat j) AND ring_mask q)"
  then have "(unat pos + i) mod length (ring_buffer q) = (unat pos + j) mod length (ring_buffer q)"
    by (simp only: cell_slot [OF assms(1)])
  moreover have "length (ring_buffer q) = unat (ring_capacity_of q)"
    using assms(1) by (simp add: cell_inv_def)
  ultimately show False
    using ring_offset_inj assms(2-4) by metis
qed

lemma cell_at_set_same:
  assumes "cell_inv q"
  shows "cell_at (set_cell q pos c) pos = c"
  using cell_slot_bound [OF assms] by (simp add: cell_at_def set_cell_def)

lemma cell_at_set_other:
  assumes "cell_inv q" and "i < unat (ring_capacity_of q)" and "j < unat (ring_capacity_of q)" and "i \<noteq> j"
  shows "cell_at (set_cell q (pos + of_nat j) c) (pos + of_nat i) = cell_at q (pos + of_nat i)"
  using cell_slots_differ [OF assms(1,3,2), of pos] assms(4)
  by (simp add: cell_at_def set_cell_def)

lemma cell_position_periodic:
  assumes "cell_inv q"
  shows "cell_at q (pos + ring_capacity_of q) = cell_at q pos"
proof -
  have "unat ((pos + of_nat (unat (ring_capacity_of q))) AND ring_mask q) = unat ((pos + of_nat 0) AND ring_mask q)"
    using assms unfolding cell_slot [OF assms] by (simp add: cell_inv_def)
  then show ?thesis
    by (simp add: cell_at_def)
qed

lemma sequence_before_full:
  fixes pos :: u64
  assumes "ring_capacity k c"
  shows "bounded_queue_sequence_before (pos + 1 - c) pos"
proof -
  have c: "2 \<le> unat c" "unat c \<le> 2 ^ 62"
    by (rule ring_capacity_bounds [OF assms])+
  have "pos + 1 - c - pos = 1 - c"
    by simp
  then have "unat (pos + 1 - c - pos) = 1 + 2 ^ 64 - unat c"
    using c(1) by (simp only: unat_sub_if') simp
  then show ?thesis
    using c by (simp add: bounded_queue_sequence_before_def max_power_of_two_size_eq word_le_nat_alt)
qed

lemma cell_fields_update [simp]:
  "cell_at (q\<lparr>enqueue_pos := e\<rparr>) pos = cell_at q pos"
  "cell_at (q\<lparr>dequeue_pos := d\<rparr>) pos = cell_at q pos"
  "set_cell (q\<lparr>enqueue_pos := e\<rparr>) pos c = (set_cell q pos c)\<lparr>enqueue_pos := e\<rparr>"
  "set_cell (q\<lparr>dequeue_pos := d\<rparr>) pos c = (set_cell q pos c)\<lparr>dequeue_pos := d\<rparr>"
  "enqueue_pos (set_cell q pos c) = enqueue_pos q"
  "dequeue_pos (set_cell q pos c) = dequeue_pos q"
  "ring_capacity_of (set_cell q pos c) = ring_capacity_of q"
  "ring_mask (set_cell q pos c) = ring_mask q"
  "length (ring_buffer (set_cell q pos c)) = length (ring_buffer q)"
  by (simp_all add: cell_at_def set_cell_def)

lemma enqueue_pos_eq: "enqueue_pos q = dequeue_pos q + of_nat (cell_count q)"
  by (simp add: cell_count_def)

lemma cell_inv_new:
  assumes "mpsc_new n = Inr q"
  shows "cell_inv q" and "cell_raw q = []"
proof -
  from assms obtain c where c: "normalize_bounded_queue_capacity n = Inr c"
    and q: "q = \<lparr>ring_capacity_of = c, ring_mask = c - 1,
                 ring_buffer = map (\<lambda>i. \<lparr>cell_sequence = of_nat i, cell_data = None\<rparr>) [0..<unat c],
                 enqueue_pos = 0, dequeue_pos = 0\<rparr>"
    by (auto simp: mpsc_new_def split: sum.splits)
  obtain k where k: "ring_capacity k c"
    using c normalize_capacity_ok [of n] normalize_capacity_too_large [of n]
    by (cases "unat n \<le> 2 ^ 62") auto
  have "unat (of_nat i AND (c - 1)) = i" if "i < unat c" for i
    using ring_capacity_slot [OF k, of 0 i] that by simp
  then show "cell_inv q" and "cell_raw q = []"
    using k by (auto simp: q cell_inv_def cell_raw_def cell_count_def cell_at_def)
qed

subsection \<open>One item in, one item out\<close>

definition cell_enqueue :: "'a cell_ring \<Rightarrow> 'a ptr \<Rightarrow> 'a cell_ring" where
  "cell_enqueue q v =
     set_cell (q\<lparr>enqueue_pos := enqueue_pos q + 1\<rparr>) (enqueue_pos q)
       \<lparr>cell_sequence = enqueue_pos q + 1, cell_data = v\<rparr>"

definition cell_dequeue :: "'a cell_ring \<Rightarrow> 'a cell_ring" where
  "cell_dequeue q =
     (set_cell q (dequeue_pos q)
       ((cell_at q (dequeue_pos q))\<lparr>cell_sequence := dequeue_pos q + ring_capacity_of q\<rparr>))
     \<lparr>dequeue_pos := dequeue_pos q + 1\<rparr>"

lemma cell_count_small: "cell_inv q \<Longrightarrow> cell_count q + 1 < 2 ^ 64"
  using ring_capacity_bounds(2) by (fastforce simp: cell_inv_def)

lemma cell_enqueue_ok:
  assumes inv: "cell_inv q" and room: "cell_count q < unat (ring_capacity_of q)"
  shows "cell_inv (cell_enqueue q v)" and "cell_raw (cell_enqueue q v) = cell_raw q @ [v]"
    and "ring_capacity_of (cell_enqueue q v) = ring_capacity_of q"
    and "enqueue_pos (cell_enqueue q v) = enqueue_pos q + 1"
    and "cell_count (cell_enqueue q v) = Suc (cell_count q)"
proof -
  let ?q = "cell_enqueue q v" and ?n = "cell_count q" and ?d = "dequeue_pos q"
  show cap: "ring_capacity_of ?q = ring_capacity_of q"
    by (simp add: cell_enqueue_def)
  show "enqueue_pos ?q = enqueue_pos q + 1"
    by (simp add: cell_enqueue_def)
  show count: "cell_count ?q = Suc ?n"
    using dist_Suc [of "enqueue_pos q" ?d] cell_count_small [OF inv]
    by (simp add: cell_enqueue_def cell_count_def)
  have same: "cell_at ?q (?d + of_nat ?n) = \<lparr>cell_sequence = ?d + of_nat ?n + 1, cell_data = v\<rparr>"
    using cell_at_set_same [OF inv] enqueue_pos_eq [of q] by (simp add: cell_enqueue_def)
  have other: "cell_at ?q (?d + of_nat i) = cell_at q (?d + of_nat i)"
    if "i < unat (ring_capacity_of q)" "i \<noteq> ?n" for i
    using cell_at_set_other [OF inv that(1) room that(2), of ?d] enqueue_pos_eq [of q]
    by (simp add: cell_enqueue_def)
  have seq: "cell_sequence (cell_at ?q (?d + of_nat i)) = ?d + of_nat i + (if i < Suc ?n then 1 else 0)"
    if i: "i < unat (ring_capacity_of q)" for i
  proof (cases "i = ?n")
    case True
    then show ?thesis using same by simp
  next
    case False
    then show ?thesis using other [OF i] inv i by (simp add: cell_inv_def less_Suc_eq)
  qed
  have "dequeue_pos ?q = ?d" and "ring_mask ?q = ring_mask q"
    and "length (ring_buffer ?q) = length (ring_buffer q)"
    by (simp_all add: cell_enqueue_def)
  then show "cell_inv ?q"
    using inv room seq count cap unfolding cell_inv_def by simp
  show "cell_raw ?q = cell_raw q @ [v]"
    unfolding cell_raw_def count \<open>dequeue_pos ?q = ?d\<close> using same other room by simp
qed

lemma cell_dequeue_ok:
  assumes inv: "cell_inv q" and ne: "0 < cell_count q"
  shows "cell_inv (cell_dequeue q)" and "cell_raw (cell_dequeue q) = tl (cell_raw q)"
    and "ring_capacity_of (cell_dequeue q) = ring_capacity_of q"
    and "cell_sequence (cell_at q (dequeue_pos q)) = dequeue_pos q + 1"
    and "cell_data (cell_at q (dequeue_pos q)) = hd (cell_raw q)"
proof -
  let ?q = "cell_dequeue q" and ?n = "cell_count q" and ?d = "dequeue_pos q"
    and ?c = "unat (ring_capacity_of q)"
  have n: "?n \<le> ?c"
    using inv by (simp add: cell_inv_def)
  have c: "0 < ?c"
    using inv ring_capacity_bounds(1) by (fastforce simp: cell_inv_def)
  show cap: "ring_capacity_of ?q = ring_capacity_of q"
    by (simp add: cell_dequeue_def)
  have d: "dequeue_pos ?q = ?d + 1"
    by (simp add: cell_dequeue_def)
  have count: "cell_count ?q = ?n - 1"
    using dist_advance [of 1 "enqueue_pos q" ?d] ne by (simp add: cell_dequeue_def cell_count_def)
  have seq0: "cell_sequence (cell_at q (?d + of_nat 0)) = ?d + of_nat 0 + 1"
    using cell_inv_seq [OF inv c] ne by simp
  then show "cell_sequence (cell_at q ?d) = ?d + 1"
    by simp
  show "cell_data (cell_at q ?d) = hd (cell_raw q)"
    using ne by (simp add: cell_raw_def hd_map)
  have first: "cell_at ?q ?d = (cell_at q ?d)\<lparr>cell_sequence := ?d + ring_capacity_of q\<rparr>"
    using cell_at_set_same [OF inv] by (simp add: cell_dequeue_def)
  have other: "cell_at ?q (?d + of_nat i) = cell_at q (?d + of_nat i)" if "i < ?c" "i \<noteq> 0" for i
    using cell_at_set_other [OF inv that(1) c that(2), of ?d] by (simp add: cell_dequeue_def)
  have next_pos: "?d + 1 + of_nat i = ?d + of_nat (Suc i)" for i
    by simp
  have seq: "cell_sequence (cell_at ?q (?d + 1 + of_nat i)) = ?d + 1 + of_nat i + (if i < ?n - 1 then 1 else 0)"
    if i: "i < ?c" for i
  proof (cases "Suc i < ?c")
    case True
    then have "cell_sequence (cell_at q (?d + of_nat (Suc i))) =
               ?d + of_nat (Suc i) + (if Suc i < ?n then 1 else 0)"
      by (rule cell_inv_seq [OF inv])
    then show ?thesis
      unfolding next_pos other [OF True nat.distinct(2)] by auto
  next
    case False
    with i have ic: "Suc i = ?c" by simp
    have "cell_at ?q (?d + of_nat (Suc i)) = cell_at ?q ?d"
    proof -
      have "unat ((?d + of_nat ?c) AND ring_mask q) = unat ((?d + of_nat 0) AND ring_mask q)"
        unfolding cell_slot [OF inv] using inv by (simp add: cell_inv_def)
      then show ?thesis
        unfolding ic by (simp add: cell_at_def cell_dequeue_def set_cell_def)
    qed
    moreover have "\<not> i < ?n - 1"
      using ic n by simp
    moreover have "ring_capacity_of q = of_nat (Suc i)"
      unfolding ic by simp
    ultimately show ?thesis
      unfolding next_pos by (simp add: first del: of_nat_Suc)
  qed
  have "ring_mask ?q = ring_mask q" and "length (ring_buffer ?q) = length (ring_buffer q)"
    by (simp_all add: cell_dequeue_def)
  then show "cell_inv ?q"
    using inv n seq unfolding cell_inv_def cap d count by auto
  have "map (\<lambda>i. cell_data (cell_at ?q (?d + 1 + of_nat i))) [0..<?n - 1] =
        map (\<lambda>i. cell_data (cell_at q (?d + of_nat (Suc i)))) [0..<?n - 1]"
    using other n unfolding next_pos by (intro map_cong refl) (simp del: of_nat_Suc)
  also have "\<dots> = tl (cell_raw q)"
    by (intro nth_equalityI) (simp_all add: cell_raw_def nth_tl less_diff_conv del: of_nat_Suc)
  finally show "cell_raw ?q = tl (cell_raw q)"
    unfolding cell_raw_def [of ?q] count d .
qed

subsection \<open>What each operation does\<close>

lemma cell_full_before:
  assumes inv: "cell_inv q" and full: "cell_count q = unat (ring_capacity_of q)"
  shows "cell_sequence (cell_at q (enqueue_pos q)) \<noteq> enqueue_pos q"
    and "bounded_queue_sequence_before (cell_sequence (cell_at q (enqueue_pos q))) (enqueue_pos q)"
proof -
  obtain k where k: "ring_capacity k (ring_capacity_of q)"
    using inv by (auto simp: cell_inv_def)
  have c: "0 < unat (ring_capacity_of q)"
    using ring_capacity_bounds(1) [OF k] by simp
  have e: "enqueue_pos q = dequeue_pos q + ring_capacity_of q"
    using enqueue_pos_eq [of q] full by simp
  have "cell_sequence (cell_at q (dequeue_pos q)) = dequeue_pos q + 1"
    using cell_inv_seq [OF inv c] full c by simp
  then have seq: "cell_sequence (cell_at q (enqueue_pos q)) = enqueue_pos q + 1 - ring_capacity_of q"
    unfolding e cell_position_periodic [OF inv] by simp
  then show "bounded_queue_sequence_before (cell_sequence (cell_at q (enqueue_pos q))) (enqueue_pos q)"
    using sequence_before_full [OF k] by simp
  then show "cell_sequence (cell_at q (enqueue_pos q)) \<noteq> enqueue_pos q"
    by (auto simp: bounded_queue_sequence_before_def max_power_of_two_size_eq word_le_nat_alt)
qed

lemma cell_free_here:
  assumes inv: "cell_inv q" and room: "cell_count q < unat (ring_capacity_of q)"
  shows "cell_sequence (cell_at q (enqueue_pos q)) = enqueue_pos q"
  using cell_inv_seq [OF inv room] enqueue_pos_eq [of q] by simp

lemma mpsc_push_accepts:
  assumes "cell_inv q" and "cell_count q < unat (ring_capacity_of q)"
  shows "mpsc_try_push q v = Some (True, cell_enqueue q v)"
  using cell_free_here [OF assms]
  by (simp add: mpsc_try_push_def mpsc_push_loop.simps cell_enqueue_def Let_def)

lemma mpsc_push_rejects:
  assumes "cell_inv q" and "cell_count q = unat (ring_capacity_of q)"
  shows "mpsc_try_push q v = Some (False, q)"
  using cell_full_before [OF assms]
  by (simp add: mpsc_try_push_def mpsc_push_loop.simps Let_def)

lemma mpmc_push_eq: "cell_inv q \<Longrightarrow> mpmc_try_push q v = mpsc_try_push q v"
proof (cases "cell_count q < unat (ring_capacity_of q)")
  case True
  assume "cell_inv q"
  with True show ?thesis
    using cell_free_here [of q] mpsc_push_accepts [of q v]
    by (simp add: mpmc_try_push_def mpmc_push_loop.simps cell_enqueue_def Let_def)
next
  case False
  assume inv: "cell_inv q"
  with False have full: "cell_count q = unat (ring_capacity_of q)"
    by (simp add: cell_inv_def)
  show ?thesis
    using cell_full_before [OF inv full] mpsc_push_rejects [OF inv full, of v]
    by (simp add: mpmc_try_push_def mpmc_push_loop.simps Let_def)
qed

lemma mpsc_pop_takes:
  assumes "cell_inv q" and "0 < cell_count q"
  shows "mpsc_try_pop q = (hd (cell_raw q), cell_dequeue q)"
  using cell_dequeue_ok(4,5) [OF assms] by (simp add: mpsc_try_pop_def Let_def cell_dequeue_def)

lemma cell_empty_seq:
  assumes inv: "cell_inv q" and empty: "cell_count q = 0"
  shows "cell_sequence (cell_at q (dequeue_pos q)) = dequeue_pos q"
proof -
  have "0 < unat (ring_capacity_of q)"
    using inv ring_capacity_bounds(1) by (fastforce simp: cell_inv_def)
  from cell_inv_seq [OF inv this] empty show ?thesis by simp
qed

lemma mpsc_pop_empty:
  assumes "cell_inv q" and "cell_count q = 0"
  shows "mpsc_try_pop q = (None, q)"
  using cell_empty_seq [OF assms] by (simp add: mpsc_try_pop_def Let_def)

lemma mpmc_pop_takes:
  assumes "cell_inv q" and "0 < cell_count q"
  shows "mpmc_try_pop q = Some (hd (cell_raw q), cell_dequeue q)"
  using cell_dequeue_ok(4,5) [OF assms]
  by (simp add: mpmc_try_pop_def mpmc_pop_loop.simps Let_def cell_dequeue_def)

lemma mpmc_pop_empty:
  assumes "cell_inv q" and "cell_count q = 0"
  shows "mpmc_try_pop q = Some (None, q)"
proof -
  have "bounded_queue_sequence_before (dequeue_pos q) (dequeue_pos q + 1)"
    by (simp add: bounded_queue_sequence_before_def)
  then show ?thesis
    using cell_empty_seq [OF assms] by (simp add: mpmc_try_pop_def mpmc_pop_loop.simps Let_def)
qed

subsection \<open>Batches\<close>

lemma mpsc_pop_loop_spec:
  assumes "cell_inv q" and "count \<le> max_count"
  shows "\<exists>q'. mpsc_pop_loop (q\<lparr>dequeue_pos := d\<rparr>) max_count count (dequeue_pos q) =
           (take (unat (max_count - count)) (cell_raw q), q') \<and> cell_inv q' \<and>
           cell_raw q' = drop (unat (max_count - count)) (cell_raw q) \<and>
           ring_capacity_of q' = ring_capacity_of q"
  using assms
proof (induction "unat (max_count - count)" arbitrary: q count d)
  case 0
  then have eq: "max_count = count" by simp
  show ?case
    using 0(2) unfolding eq
    by (subst mpsc_pop_loop.simps) simp
next
  case (Suc n)
  then have lt: "count < max_count"
    by (metis cancel_comm_monoid_add_class.diff_cancel nat.distinct(1) order_le_less unat_0)
  have n: "n = unat (max_count - (count + 1))"
    using Suc.hyps(2) lt dist_advance1 [of count max_count] by auto
  have le: "count + 1 \<le> max_count"
    using lt by (metis inc_le)
  show ?case
  proof (cases "cell_count q = 0")
    case True
    then have "cell_raw q = []" by (simp add: cell_raw_def)
    then show ?thesis
      using cell_empty_seq [OF Suc.prems(1) True] Suc.prems(1)
      by (subst mpsc_pop_loop.simps) (simp add: lt)
  next
    case False
    then have ne: "0 < cell_count q" by simp
    note ok = cell_dequeue_ok [OF Suc.prems(1) ne]
    let ?s = "set_cell q (dequeue_pos q)
       ((cell_at q (dequeue_pos q))\<lparr>cell_sequence := dequeue_pos q + ring_capacity_of q\<rparr>)"
    have step: "?s\<lparr>dequeue_pos := d\<rparr> = (cell_dequeue q)\<lparr>dequeue_pos := d\<rparr>"
      by (simp add: cell_dequeue_def)
    have pos: "dequeue_pos (cell_dequeue q) = dequeue_pos q + 1"
      by (simp add: cell_dequeue_def)
    obtain q' where q': "mpsc_pop_loop (?s\<lparr>dequeue_pos := d\<rparr>) max_count (count + 1) (dequeue_pos q + 1) =
         (take n (tl (cell_raw q)), q')" "cell_inv q'" "cell_raw q' = drop n (tl (cell_raw q))"
         "ring_capacity_of q' = ring_capacity_of q"
      using Suc.hyps(1) [OF n ok(1) le, of d] unfolding pos ok(2,3) n [symmetric] step by blast
    have raw: "cell_raw q = hd (cell_raw q) # tl (cell_raw q)"
      using ne by (metis length_0_conv length_cell_raw list.collapse neq0_conv)
    have "mpsc_pop_loop (q\<lparr>dequeue_pos := d\<rparr>) max_count count (dequeue_pos q) =
          (hd (cell_raw q) # take n (tl (cell_raw q)), q')"
      using ok(4,5) q'(1) by (subst mpsc_pop_loop.simps) (simp add: lt Let_def)
    then show ?thesis
      using q'(2-4) raw unfolding Suc.hyps(2) [symmetric]
      by (metis take_Suc_Cons drop_Suc_Cons)
  qed
qed

lemma mpsc_pop_many_spec:
  assumes "cell_inv q"
  shows "\<exists>q'. mpsc_try_pop_many q m = (take (unat m) (cell_raw q), q') \<and> cell_inv q' \<and>
           cell_raw q' = drop (unat m) (cell_raw q) \<and> ring_capacity_of q' = ring_capacity_of q"
  using mpsc_pop_loop_spec [OF assms, of 0 m "dequeue_pos q"] by (simp add: mpsc_try_pop_many_def)

lemma mpsc_publish_eq:
  "mpsc_publish (q\<lparr>enqueue_pos := e\<rparr>) (enqueue_pos q) vs = (foldl cell_enqueue q vs)\<lparr>enqueue_pos := e\<rparr>"
proof (induction vs arbitrary: q)
  case Nil
  then show ?case by simp
next
  case (Cons v vs)
  have eq: "(set_cell q (enqueue_pos q) \<lparr>cell_sequence = enqueue_pos q + 1, cell_data = v\<rparr>)\<lparr>enqueue_pos := e\<rparr> =
        (cell_enqueue q v)\<lparr>enqueue_pos := e\<rparr>"
    by (simp add: cell_enqueue_def)
  have pos: "enqueue_pos (cell_enqueue q v) = enqueue_pos q + 1"
    by (simp add: cell_enqueue_def)
  show ?case
    using Cons.IH [of "cell_enqueue q v"] by (simp add: eq pos)
qed

lemma cell_enqueue_all:
  assumes "cell_inv q" and "cell_count q + length vs \<le> unat (ring_capacity_of q)"
  shows "cell_inv (foldl cell_enqueue q vs) \<and> cell_raw (foldl cell_enqueue q vs) = cell_raw q @ vs \<and>
         ring_capacity_of (foldl cell_enqueue q vs) = ring_capacity_of q \<and>
         enqueue_pos (foldl cell_enqueue q vs) = enqueue_pos q + of_nat (length vs)"
  using assms
proof (induction vs arbitrary: q)
  case Nil
  then show ?case by simp
next
  case (Cons v vs)
  have room: "cell_count q < unat (ring_capacity_of q)"
    using Cons.prems(2) by simp
  note ok = cell_enqueue_ok [OF Cons.prems(1) room, of v]
  show ?case
    using Cons.IH [OF ok(1)] Cons.prems(2) ok(2-5) by simp
qed

lemma mpsc_scan_spec:
  assumes inv: "cell_inv q" and count: "unat count \<le> unat (ring_capacity_of q)"
    and r: "unat r \<le> min (unat count) (unat (ring_capacity_of q) - cell_count q)"
  shows "mpsc_scan q (enqueue_pos q) count r =
           (of_nat (min (unat count) (unat (ring_capacity_of q) - cell_count q)), False)"
  using r
proof (induction "unat (count - r)" arbitrary: r)
  case 0
  then have "count = r" by simp
  then show ?case
    using 0(2) by (subst mpsc_scan.simps) (simp add: min_absorb1)
next
  case (Suc n)
  let ?c = "unat (ring_capacity_of q)" and ?m = "cell_count q"
  have "count \<noteq> r" using Suc.hyps(2) by auto
  moreover have "r \<le> count" using Suc.prems by (simp add: word_le_nat_alt)
  ultimately have lt: "r < count" by simp
  have e: "enqueue_pos q + r = dequeue_pos q + of_nat (?m + unat r)"
    using enqueue_pos_eq [of q] by simp
  show ?case
  proof (cases "?m + unat r < ?c")
    case True
    have "cell_sequence (cell_at q (enqueue_pos q + r)) = enqueue_pos q + r"
      unfolding e using cell_inv_seq [OF inv True] by (simp del: of_nat_add)
    moreover have "unat (r + 1) = Suc (unat r)"
      using dist_Suc [of r 0] lt unat_lt_2_64 [of count] by (simp add: word_less_nat_alt)
    moreover have "n = unat (count - (r + 1))"
      using Suc.hyps(2) dist_advance1 [of r count] lt by simp
    moreover have "Suc (unat r) \<le> min (unat count) (?c - ?m)"
      using lt True by (simp add: word_less_nat_alt)
    ultimately show ?thesis
      using Suc.hyps(1) [of "r + 1"] lt by (subst mpsc_scan.simps) simp
  next
    case False
    have full: "?m + unat r = ?c"
    proof -
      have "?m \<le> ?c" using inv by (simp add: cell_inv_def)
      moreover have "unat r \<le> ?c - ?m" using Suc.prems by simp
      ultimately show ?thesis using False by linarith
    qed
    have m: "0 < ?m"
      using full lt count by (simp add: word_less_nat_alt)
    have c0: "0 < ?c" using full m by simp
    obtain k where k: "ring_capacity k (ring_capacity_of q)"
      using inv by (auto simp: cell_inv_def)
    have pos: "enqueue_pos q + r = dequeue_pos q + ring_capacity_of q"
      unfolding e full by simp
    have seq: "cell_sequence (cell_at q (enqueue_pos q + r)) = dequeue_pos q + 1"
      unfolding pos cell_position_periodic [OF inv] using cell_inv_seq [OF inv c0] m by simp
    have before: "bounded_queue_sequence_before (dequeue_pos q + 1) (enqueue_pos q + r)"
      using sequence_before_full [OF k, of "enqueue_pos q + r"] unfolding pos by simp
    then have "dequeue_pos q + 1 \<noteq> enqueue_pos q + r"
      by (auto simp: bounded_queue_sequence_before_def max_power_of_two_size_eq word_le_nat_alt)
    moreover have "min (unat count) (?c - ?m) = unat r"
      using full lt by (simp add: word_less_nat_alt)
    ultimately show ?thesis
      using lt seq before by (subst mpsc_scan.simps) simp
  qed
qed

lemma mpsc_push_many_spec:
  assumes inv: "cell_inv q" and len: "unat count \<le> length vs"
  defines "n \<equiv> min (unat count) (unat (ring_capacity_of q) - cell_count q)"
  shows "\<exists>q'. mpsc_try_push_many q vs count = Some (of_nat n, q') \<and> cell_inv q' \<and>
           cell_raw q' = cell_raw q @ take n vs \<and> ring_capacity_of q' = ring_capacity_of q"
proof (cases "count = 0")
  case True
  then show ?thesis using inv by (simp add: mpsc_try_push_many_def n_def)
next
  case False
  let ?k = "min count (ring_capacity_of q)"
  have k: "unat ?k = min (unat count) (unat (ring_capacity_of q))"
    by (simp add: min_def word_le_nat_alt)
  then have nk: "min (unat ?k) (unat (ring_capacity_of q) - cell_count q) = n"
    by (simp add: n_def)
  have scan: "mpsc_scan q (enqueue_pos q) ?k 0 = (of_nat n, False)"
    using mpsc_scan_spec [OF inv, of ?k 0] k unfolding nk by simp
  have small: "n < 2 ^ 64"
    using le_less_trans [OF min.cobounded1 unat_lt_2_64] by (simp add: n_def)
  have un: "unat (of_nat n :: u64) = n"
    using small by (simp add: unat_of_nat)
  show ?thesis
  proof (cases "n = 0")
    case True
    then show ?thesis
      using False scan inv by (simp add: mpsc_try_push_many_def mpsc_push_many_loop.simps)
  next
    case pos: False
    then have ne: "(of_nat n :: u64) \<noteq> 0"
      using un by (metis unat_0)
    let ?q = "foldl cell_enqueue q (take n vs)"
    have lt: "length (take n vs) = n"
      using len by (simp add: n_def)
    have room: "cell_count q + length (take n vs) \<le> unat (ring_capacity_of q)"
    proof -
      have "n \<le> unat (ring_capacity_of q) - cell_count q" by (simp add: n_def)
      moreover have "cell_count q \<le> unat (ring_capacity_of q)" using inv by (simp add: cell_inv_def)
      ultimately show ?thesis unfolding lt by linarith
    qed
    note all = cell_enqueue_all [OF inv room, unfolded lt]
    have "mpsc_publish (q\<lparr>enqueue_pos := enqueue_pos q + of_nat n\<rparr>) (enqueue_pos q) (take n vs) = ?q"
      unfolding mpsc_publish_eq using all by (metis cell_ring.surjective cell_ring.update_convs(4) cell_ring.select_convs(4))
    then have "mpsc_try_push_many q vs count = Some (of_nat n, ?q)"
      using False scan ne by (simp add: mpsc_try_push_many_def mpsc_push_many_loop.simps un)
    then show ?thesis
      using all by simp
  qed
qed

subsection \<open>The queue contract\<close>

definition cell_ok :: "'a cell_ring \<Rightarrow> bool" where
  "cell_ok q \<longleftrightarrow> cell_inv q \<and> None \<notin> set (cell_raw q)"

definition cell_content :: "'a cell_ring \<Rightarrow> 'a list" where
  "cell_content q = map the (cell_raw q)"

definition mpsc_push :: "'a cell_ring \<Rightarrow> 'a \<Rightarrow> (bool \<times> 'a cell_ring) option" where
  "mpsc_push q x = mpsc_try_push q (Some x)"

definition mpsc_pop :: "'a cell_ring \<Rightarrow> ('a option \<times> 'a cell_ring) option" where
  "mpsc_pop q = Some (mpsc_try_pop q)"

definition mpmc_push :: "'a cell_ring \<Rightarrow> 'a \<Rightarrow> (bool \<times> 'a cell_ring) option" where
  "mpmc_push q x = mpmc_try_push q (Some x)"

lemma length_cell_content [simp]: "length (cell_content q) = cell_count q"
  by (simp add: cell_content_def)

lemma cell_content_Cons:
  assumes "cell_ok q" and "cell_content q = x # xs"
  shows "0 < cell_count q" and "hd (cell_raw q) = Some x" and "map the (tl (cell_raw q)) = xs"
    and "None \<notin> set (tl (cell_raw q))"
proof -
  obtain vs where vs: "cell_raw q = Some x # vs" "xs = map the vs" "None \<notin> set vs"
    using assms by (cases "cell_raw q") (auto simp: cell_content_def cell_ok_def)
  then show "hd (cell_raw q) = Some x" and "map the (tl (cell_raw q)) = xs"
    and "None \<notin> set (tl (cell_raw q))"
    by simp_all
  show "0 < cell_count q"
    using vs(1) length_cell_raw [of q] by simp
qed

lemma cell_ok_enqueue:
  assumes "cell_ok q" and "cell_count q < unat (ring_capacity_of q)"
  shows "cell_ok (cell_enqueue q (Some x))"
    and "cell_content (cell_enqueue q (Some x)) = cell_content q @ [x]"
    and "ring_capacity_of (cell_enqueue q (Some x)) = ring_capacity_of q"
  using cell_enqueue_ok(1-3) [of q "Some x"] assms by (simp_all add: cell_ok_def cell_content_def)

lemma cell_ok_dequeue:
  assumes "cell_ok q" and "cell_content q = x # xs"
  shows "cell_ok (cell_dequeue q)" and "cell_content (cell_dequeue q) = xs"
    and "ring_capacity_of (cell_dequeue q) = ring_capacity_of q"
  using cell_dequeue_ok(1-3) [of q] cell_content_Cons [OF assms] assms(1)
  by (simp_all add: cell_ok_def cell_content_def)

interpretation mpsc: bounded_queue cell_ok cell_content "\<lambda>q. unat (ring_capacity_of q)" mpsc_push mpsc_pop
proof
  fix q :: "'a cell_ring" and x xs
  show "cell_ok q \<Longrightarrow> length (cell_content q) \<le> unat (ring_capacity_of q)"
    by (simp add: cell_ok_def cell_inv_def)
  show "\<exists>q'. mpsc_push q x = Some (True, q') \<and> cell_ok q' \<and> cell_content q' = cell_content q @ [x] \<and>
      unat (ring_capacity_of q') = unat (ring_capacity_of q)"
    if "cell_ok q" "length (cell_content q) < unat (ring_capacity_of q)"
    using that cell_ok_enqueue [of q x] mpsc_push_accepts [of q "Some x"]
    by (simp add: mpsc_push_def cell_ok_def [of q])
  show "\<exists>q'. mpsc_push q x = Some (False, q') \<and> cell_ok q' \<and> cell_content q' = cell_content q \<and>
      unat (ring_capacity_of q') = unat (ring_capacity_of q)"
    if "cell_ok q" "length (cell_content q) = unat (ring_capacity_of q)"
    using that mpsc_push_rejects [of q "Some x"] by (simp add: mpsc_push_def cell_ok_def)
  show "\<exists>q'. mpsc_pop q = Some (Some x, q') \<and> cell_ok q' \<and> cell_content q' = xs \<and>
      unat (ring_capacity_of q') = unat (ring_capacity_of q)"
    if "cell_ok q" "cell_content q = x # xs"
    using that cell_ok_dequeue [OF that] cell_content_Cons [OF that] mpsc_pop_takes [of q]
    by (simp add: mpsc_pop_def cell_ok_def [of q])
  show "\<exists>q'. mpsc_pop q = Some (None, q') \<and> cell_ok q' \<and> cell_content q' = [] \<and>
      unat (ring_capacity_of q') = unat (ring_capacity_of q)"
    if "cell_ok q" "cell_content q = []"
    using that mpsc_pop_empty [of q] length_cell_content [of q]
    by (simp add: mpsc_pop_def cell_ok_def)
qed

interpretation mpmc: bounded_queue cell_ok cell_content "\<lambda>q. unat (ring_capacity_of q)" mpmc_push mpmc_try_pop
proof
  fix q :: "'a cell_ring" and x xs
  show "cell_ok q \<Longrightarrow> length (cell_content q) \<le> unat (ring_capacity_of q)"
    by (rule mpsc.bounded)
  show "\<exists>q'. mpmc_push q x = Some (True, q') \<and> cell_ok q' \<and> cell_content q' = cell_content q @ [x] \<and>
      unat (ring_capacity_of q') = unat (ring_capacity_of q)"
    if "cell_ok q" "length (cell_content q) < unat (ring_capacity_of q)"
    using that mpsc.push_accepts [OF that, of x]
    by (simp add: mpmc_push_def mpsc_push_def mpmc_push_eq cell_ok_def [of q])
  show "\<exists>q'. mpmc_push q x = Some (False, q') \<and> cell_ok q' \<and> cell_content q' = cell_content q \<and>
      unat (ring_capacity_of q') = unat (ring_capacity_of q)"
    if "cell_ok q" "length (cell_content q) = unat (ring_capacity_of q)"
    using that mpsc.push_rejects [OF that, of x]
    by (simp add: mpmc_push_def mpsc_push_def mpmc_push_eq cell_ok_def [of q])
  show "\<exists>q'. mpmc_try_pop q = Some (Some x, q') \<and> cell_ok q' \<and> cell_content q' = xs \<and>
      unat (ring_capacity_of q') = unat (ring_capacity_of q)"
    if "cell_ok q" "cell_content q = x # xs"
    using that cell_ok_dequeue [OF that] cell_content_Cons [OF that] mpmc_pop_takes [of q]
    by (simp add: cell_ok_def [of q])
  show "\<exists>q'. mpmc_try_pop q = Some (None, q') \<and> cell_ok q' \<and> cell_content q' = [] \<and>
      unat (ring_capacity_of q') = unat (ring_capacity_of q)"
    if "cell_ok q" "cell_content q = []"
    using that mpmc_pop_empty [of q] length_cell_content [of q] by (simp add: cell_ok_def)
qed

lemma mpsc_new_ok:
  assumes "mpsc_new n = Inr q"
  shows "cell_ok q" and "cell_content q = []"
  using cell_inv_new [OF assms] by (simp_all add: cell_ok_def cell_content_def)

lemma mpmc_new_eq: "mpmc_new n = mpsc_new n"
  by (simp add: mpmc_new_def mpsc_new_def)

end
