(* ===== verification/Mpsc_Concurrent.thy ===== *)
theory Mpsc_Concurrent
  imports Mpsc_Queue
begin

unbundle bit_operations_syntax

section \<open>The multi-producer ring under interleaving\<close>

text \<open>
  \<^verbatim>\<open>BoundedMpscQueue\<close> with any number of producer threads and one consumer thread.  A step is
  one access to a shared location: a load of \<^verbatim>\<open>enqueue_pos_\<close> or of a cell's sequence, the
  compare-exchange that reserves positions, the write or read of a cell's data, the store
  that publishes a sequence.  A load may be stale: it returns some value not above the
  current one, since both positions and sequences only grow.  A weak compare-exchange may
  fail spuriously.  \<open>reserved\<close> records the values in the order their positions were
  reserved, \<open>consumed\<close> the pointers the consumer got.  The properties are for runs that reserve
  fewer than \<open>2 ^ 63\<close> positions, so that no 64-bit position is reused; the wrap-around itself is
  covered by the sequential model.
\<close>

datatype 'a mpsc_pc =
    M_Idle
  | M_LoadSeq u64 "'a ptr"
  | M_Cas u64 "'a ptr"
  | M_Scan u64 nat "'a ptr list"
  | M_CasMany u64 nat "'a ptr list"
  | M_Fill u64 "'a ptr list"
  | M_Publish u64 "'a ptr" "'a ptr list"

datatype 'a mpsc_consumer_pc = MC_Idle | MC_Read | MC_Release "'a ptr"

record 'a mpsc_sys =
  msys_queue :: "'a cell_ring"
  msys_prod :: "nat \<Rightarrow> 'a mpsc_pc"
  msys_cons :: "'a mpsc_consumer_pc"
  reserved :: "'a ptr list"
  consumed :: "'a ptr list"

inductive mpsc_step :: "'a mpsc_sys \<Rightarrow> 'a mpsc_sys \<Rightarrow> bool" where
  push_call:
    "msys_prod s i = M_Idle \<Longrightarrow> p \<le> enqueue_pos (msys_queue s) \<Longrightarrow>
     mpsc_step s (s\<lparr>msys_prod := (msys_prod s)(i := M_LoadSeq p v)\<rparr>)"
| push_seq_ready:
    "msys_prod s i = M_LoadSeq p v \<Longrightarrow> seq \<le> cell_sequence (cell_at (msys_queue s) p) \<Longrightarrow> seq = p \<Longrightarrow>
     mpsc_step s (s\<lparr>msys_prod := (msys_prod s)(i := M_Cas p v)\<rparr>)"
| push_seq_full:
    "msys_prod s i = M_LoadSeq p v \<Longrightarrow> seq \<le> cell_sequence (cell_at (msys_queue s) p) \<Longrightarrow> seq \<noteq> p \<Longrightarrow>
     bounded_queue_sequence_before seq p \<Longrightarrow>
     mpsc_step s (s\<lparr>msys_prod := (msys_prod s)(i := M_Idle)\<rparr>)"
| push_seq_retry:
    "msys_prod s i = M_LoadSeq p v \<Longrightarrow> seq \<le> cell_sequence (cell_at (msys_queue s) p) \<Longrightarrow> seq \<noteq> p \<Longrightarrow>
     \<not> bounded_queue_sequence_before seq p \<Longrightarrow> p' \<le> enqueue_pos (msys_queue s) \<Longrightarrow>
     mpsc_step s (s\<lparr>msys_prod := (msys_prod s)(i := M_LoadSeq p' v)\<rparr>)"
| push_cas_ok:
    "msys_prod s i = M_Cas p v \<Longrightarrow> enqueue_pos (msys_queue s) = p \<Longrightarrow>
     mpsc_step s (s\<lparr>msys_queue := (msys_queue s)\<lparr>enqueue_pos := p + 1\<rparr>,
                    msys_prod := (msys_prod s)(i := M_Fill p [v]), reserved := reserved s @ [v]\<rparr>)"
| push_cas_fail:
    "msys_prod s i = M_Cas p v \<Longrightarrow> p' \<le> enqueue_pos (msys_queue s) \<Longrightarrow>
     mpsc_step s (s\<lparr>msys_prod := (msys_prod s)(i := M_LoadSeq p' v)\<rparr>)"
| many_call:
    "msys_prod s i = M_Idle \<Longrightarrow> p \<le> enqueue_pos (msys_queue s) \<Longrightarrow> vs \<noteq> [] \<Longrightarrow>
     mpsc_step s (s\<lparr>msys_prod := (msys_prod s)
                    (i := M_Scan p 0 (take (unat (ring_capacity_of (msys_queue s))) vs))\<rparr>)"
| many_seq_ready:
    "msys_prod s i = M_Scan p k vs \<Longrightarrow> k < length vs \<Longrightarrow>
     seq \<le> cell_sequence (cell_at (msys_queue s) (p + of_nat k)) \<Longrightarrow> seq = p + of_nat k \<Longrightarrow>
     mpsc_step s (s\<lparr>msys_prod := (msys_prod s)(i := M_Scan p (Suc k) vs)\<rparr>)"
| many_seq_full:
    "msys_prod s i = M_Scan p 0 vs \<Longrightarrow> 0 < length vs \<Longrightarrow>
     seq \<le> cell_sequence (cell_at (msys_queue s) p) \<Longrightarrow> seq \<noteq> p \<Longrightarrow> bounded_queue_sequence_before seq p \<Longrightarrow>
     mpsc_step s (s\<lparr>msys_prod := (msys_prod s)(i := M_Idle)\<rparr>)"
| many_seq_stale:
    "msys_prod s i = M_Scan p 0 vs \<Longrightarrow> 0 < length vs \<Longrightarrow>
     seq \<le> cell_sequence (cell_at (msys_queue s) p) \<Longrightarrow> seq \<noteq> p \<Longrightarrow> \<not> bounded_queue_sequence_before seq p \<Longrightarrow>
     p' \<le> enqueue_pos (msys_queue s) \<Longrightarrow>
     mpsc_step s (s\<lparr>msys_prod := (msys_prod s)(i := M_Scan p' 0 vs)\<rparr>)"
| many_scan_stop:
    "msys_prod s i = M_Scan p k vs \<Longrightarrow> 0 < k \<Longrightarrow> k < length vs \<Longrightarrow>
     seq \<le> cell_sequence (cell_at (msys_queue s) (p + of_nat k)) \<Longrightarrow> seq \<noteq> p + of_nat k \<Longrightarrow>
     mpsc_step s (s\<lparr>msys_prod := (msys_prod s)(i := M_CasMany p k vs)\<rparr>)"
| many_scan_done:
    "msys_prod s i = M_Scan p k vs \<Longrightarrow> 0 < k \<Longrightarrow> k = length vs \<Longrightarrow>
     mpsc_step s (s\<lparr>msys_prod := (msys_prod s)(i := M_CasMany p k vs)\<rparr>)"
| many_cas_ok:
    "msys_prod s i = M_CasMany p k vs \<Longrightarrow> enqueue_pos (msys_queue s) = p \<Longrightarrow>
     mpsc_step s (s\<lparr>msys_queue := (msys_queue s)\<lparr>enqueue_pos := p + of_nat k\<rparr>,
                    msys_prod := (msys_prod s)(i := M_Fill p (take k vs)),
                    reserved := reserved s @ take k vs\<rparr>)"
| many_cas_fail:
    "msys_prod s i = M_CasMany p k vs \<Longrightarrow> p' \<le> enqueue_pos (msys_queue s) \<Longrightarrow>
     mpsc_step s (s\<lparr>msys_prod := (msys_prod s)(i := M_Scan p' 0 vs)\<rparr>)"
| fill_data:
    "msys_prod s i = M_Fill p (v # vs) \<Longrightarrow>
     mpsc_step s (s\<lparr>msys_queue := set_cell (msys_queue s) p ((cell_at (msys_queue s) p)\<lparr>cell_data := v\<rparr>),
                    msys_prod := (msys_prod s)(i := M_Publish p v vs)\<rparr>)"
| publish_seq:
    "msys_prod s i = M_Publish p v vs \<Longrightarrow>
     mpsc_step s (s\<lparr>msys_queue := set_cell (msys_queue s) p ((cell_at (msys_queue s) p)\<lparr>cell_sequence := p + 1\<rparr>),
                    msys_prod := (msys_prod s)(i := M_Fill (p + 1) vs)\<rparr>)"
| push_return:
    "msys_prod s i = M_Fill p [] \<Longrightarrow>
     mpsc_step s (s\<lparr>msys_prod := (msys_prod s)(i := M_Idle)\<rparr>)"
| pop_load:
    "msys_cons s = MC_Idle \<Longrightarrow> q = msys_queue s \<Longrightarrow>
     seq \<le> cell_sequence (cell_at q (dequeue_pos q)) \<Longrightarrow>
     mpsc_step s (s\<lparr>msys_cons := (if seq \<noteq> dequeue_pos q + 1 then MC_Idle else MC_Read)\<rparr>)"
| pop_read_data:
    "msys_cons s = MC_Read \<Longrightarrow> q = msys_queue s \<Longrightarrow>
     mpsc_step s (s\<lparr>msys_cons := MC_Release (cell_data (cell_at q (dequeue_pos q)))\<rparr>)"
| pop_release:
    "msys_cons s = MC_Release v \<Longrightarrow> q = msys_queue s \<Longrightarrow>
     mpsc_step s (s\<lparr>msys_queue := (set_cell q (dequeue_pos q)
                      ((cell_at q (dequeue_pos q))\<lparr>cell_sequence := dequeue_pos q + ring_capacity_of q\<rparr>))
                      \<lparr>dequeue_pos := dequeue_pos q + 1\<rparr>,
                    msys_cons := MC_Idle, consumed := consumed s @ [v]\<rparr>)"

inductive mpsc_reachable :: "'a mpsc_sys \<Rightarrow> bool" where
  start: "mpsc_new n = Inr q \<Longrightarrow>
     mpsc_reachable \<lparr>msys_queue = q, msys_prod = (\<lambda>_. M_Idle), msys_cons = MC_Idle, reserved = [], consumed = []\<rparr>"
| step: "mpsc_reachable s \<Longrightarrow> mpsc_step s t \<Longrightarrow> mpsc_reachable t"

subsection \<open>Invariant\<close>

text \<open>
  Positions are counted from the start: \<open>E\<close> of them have been reserved and \<open>D\<close> consumed.  The
  tickets of a producer are the positions it has reserved and not yet published.
\<close>

fun tickets :: "'a mpsc_pc \<Rightarrow> nat set" where
  "tickets (M_Fill p vs) = {unat p..<unat p + length vs}"
| "tickets (M_Publish p v vs) = {unat p..<unat p + Suc (length vs)}"
| "tickets _ = {}"

definition held :: "(nat \<Rightarrow> 'a mpsc_pc) \<Rightarrow> nat set" where
  "held f = (\<Union>i. tickets (f i))"

definition ticket_cell :: "'a cell_ring \<Rightarrow> nat \<Rightarrow> 'a cell" where
  "ticket_cell q t = ring_buffer q ! (t mod length (ring_buffer q))"

definition mpsc_shape :: "'a cell_ring \<Rightarrow> nat \<Rightarrow> nat \<Rightarrow> bool" where
  "mpsc_shape q E D \<longleftrightarrow>
     (\<exists>k. ring_capacity k (ring_capacity_of q)) \<and> ring_mask q = ring_capacity_of q - 1 \<and>
     length (ring_buffer q) = unat (ring_capacity_of q) \<and>
     enqueue_pos q = of_nat E \<and> dequeue_pos q = of_nat D \<and> D \<le> E \<and> E \<le> D + length (ring_buffer q) \<and>
     E < 2 ^ 63"

definition cells_inv :: "'a cell_ring \<Rightarrow> nat \<Rightarrow> nat \<Rightarrow> nat set \<Rightarrow> 'a ptr list \<Rightarrow> bool" where
  "cells_inv q E D H R \<longleftrightarrow>
     (\<forall>t. D \<le> t \<and> t < D + length (ring_buffer q) \<longrightarrow>
        unat (cell_sequence (ticket_cell q t)) = (if t < E \<and> t \<notin> H then Suc t else t) \<and>
        (t < E \<and> t \<notin> H \<longrightarrow> cell_data (ticket_cell q t) = R ! t))"

fun pc_inv :: "'a cell_ring \<Rightarrow> nat \<Rightarrow> nat \<Rightarrow> 'a ptr list \<Rightarrow> 'a mpsc_pc \<Rightarrow> bool" where
  "pc_inv q E D R M_Idle \<longleftrightarrow> True"
| "pc_inv q E D R (M_LoadSeq p v) \<longleftrightarrow> unat p \<le> E"
| "pc_inv q E D R (M_Cas p v) \<longleftrightarrow> unat p \<le> E \<and> unat p < D + length (ring_buffer q)"
| "pc_inv q E D R (M_Scan p k vs) \<longleftrightarrow> unat p \<le> E \<and> k \<le> length vs \<and> length vs \<le> length (ring_buffer q) \<and>
     (k = 0 \<or> unat p + k \<le> D + length (ring_buffer q))"
| "pc_inv q E D R (M_CasMany p k vs) \<longleftrightarrow> unat p \<le> E \<and> k \<le> length vs \<and> length vs \<le> length (ring_buffer q) \<and>
     unat p + k \<le> D + length (ring_buffer q)"
| "pc_inv q E D R (M_Fill p vs) \<longleftrightarrow> unat p + length vs \<le> E \<and> (vs \<noteq> [] \<longrightarrow> D \<le> unat p) \<and>
     take (length vs) (drop (unat p) R) = vs"
| "pc_inv q E D R (M_Publish p v vs) \<longleftrightarrow> unat p + Suc (length vs) \<le> E \<and> D \<le> unat p \<and>
     take (Suc (length vs)) (drop (unat p) R) = v # vs \<and> cell_data (ticket_cell q (unat p)) = v"

fun consumer_pc_inv :: "nat \<Rightarrow> nat \<Rightarrow> nat set \<Rightarrow> 'a ptr list \<Rightarrow> 'a mpsc_consumer_pc \<Rightarrow> bool" where
  "consumer_pc_inv E D H R MC_Idle \<longleftrightarrow> True"
| "consumer_pc_inv E D H R MC_Read \<longleftrightarrow> D < E \<and> D \<notin> H"
| "consumer_pc_inv E D H R (MC_Release v) \<longleftrightarrow> D < E \<and> D \<notin> H \<and> v = R ! D"

definition mpsc_sys_inv :: "'a mpsc_sys \<Rightarrow> bool" where
  "mpsc_sys_inv s \<longleftrightarrow>
     (let q = msys_queue s; E = length (reserved s); D = length (consumed s); H = held (msys_prod s)
      in mpsc_shape q E D \<and> cells_inv q E D H (reserved s) \<and>
         (\<forall>i. pc_inv q E D (reserved s) (msys_prod s i)) \<and>
         (\<forall>i j. i \<noteq> j \<longrightarrow> tickets (msys_prod s i) \<inter> tickets (msys_prod s j) = {}) \<and>
         consumer_pc_inv E D H (reserved s) (msys_cons s) \<and>
         take D (reserved s) = consumed s)"

lemmas mpsc_sys_invD = mpsc_sys_inv_def [unfolded Let_def, THEN iffD1]

subsection \<open>Positions and cells\<close>

lemma mpsc_shape_cap:
  assumes "mpsc_shape q E D"
  shows "2 \<le> length (ring_buffer q)" and "length (ring_buffer q) \<le> 2 ^ 62"
  using assms ring_capacity_bounds by (auto simp: mpsc_shape_def)

lemma cell_at_ticket:
  assumes "mpsc_shape q E D"
  shows "cell_at q p = ticket_cell q (unat p)"
  using assms ring_capacity_slot0 by (auto simp: cell_at_def ticket_cell_def mpsc_shape_def)

lemma set_cell_ticket:
  assumes "mpsc_shape q E D"
  shows "set_cell q p c = q\<lparr>ring_buffer := (ring_buffer q)[unat p mod length (ring_buffer q) := c]\<rparr>"
  using assms ring_capacity_slot0 by (auto simp: set_cell_def mpsc_shape_def)

lemma window_inj:
  fixes t u D m :: nat
  assumes "D \<le> t" "t < D + m" "D \<le> u" "u < D + m" "t mod m = u mod m"
  shows "t = u"
proof -
  have "(D + (t - D)) mod m = (D + (u - D)) mod m"
    using assms by simp
  then have "t - D = u - D"
    by (rule ring_offset_inj) (use assms in auto)
  then show ?thesis
    using assms by simp
qed

lemma ticket_cell_set:
  assumes sh: "mpsc_shape q E D" and t: "D \<le> t" "t < D + length (ring_buffer q)"
    and p: "D \<le> unat p" "unat p < D + length (ring_buffer q)"
  shows "ticket_cell (set_cell q p c) t = (if t = unat p then c else ticket_cell q t)"
proof -
  have pos: "0 < length (ring_buffer q)"
    using mpsc_shape_cap [OF sh] by linarith
  show ?thesis
    using window_inj [OF t p] pos
    by (auto simp: ticket_cell_def set_cell_ticket [OF sh] nth_list_update)
qed

text \<open>
  A producer that sees its own position in a cell, however stale the load, has a position the
  consumer has already freed.
\<close>

lemma stale_ready_position:
  assumes sh: "mpsc_shape q E D" and cells: "cells_inv q E D H R"
    and le: "P \<le> unat (cell_sequence (ticket_cell q P))"
  shows "P < D + length (ring_buffer q)"
proof (rule ccontr)
  let ?m = "length (ring_buffer q)"
  assume "\<not> P < D + ?m"
  then have ge: "D + ?m \<le> P" by simp
  define t where "t = D + (P - D) mod ?m"
  have m: "2 \<le> ?m"
    using mpsc_shape_cap [OF sh] by simp
  have t: "D \<le> t" "t < D + ?m"
    using m by (auto simp: t_def intro!: mod_less_divisor)
  have "t mod ?m = (D + (P - D)) mod ?m"
    unfolding t_def by (rule mod_add_right_eq)
  then have mod: "t mod ?m = P mod ?m"
    using ge by simp
  then have "ticket_cell q P = ticket_cell q t"
    by (simp add: ticket_cell_def)
  then have "P \<le> Suc t"
    using cells t le by (auto simp: cells_inv_def split: if_splits)
  with ge t have "P = Suc t" by simp
  with mod have "(t + 1) mod ?m = (t + 0) mod ?m" by simp
  then have "(1 :: nat) = 0"
    by (rule ring_offset_inj) (use m in auto)
  then show False by simp
qed

subsection \<open>Preservation\<close>

lemma held_upd:
  assumes "\<forall>i j. i \<noteq> j \<longrightarrow> tickets (f i) \<inter> tickets (f j) = {}"
  shows "held (f(i := pc)) = (held f - tickets (f i)) \<union> tickets pc"
  using assms unfolding held_def by (auto split: if_splits) blast+

lemma held_same: "tickets pc = tickets (f i) \<Longrightarrow> held (f(i := pc)) = held f"
  unfolding held_def by (auto split: if_splits)

lemma disjoint_upd:
  assumes "\<forall>i j. i \<noteq> j \<longrightarrow> tickets (f i) \<inter> tickets (f j) = {}"
    and "\<forall>j. j \<noteq> i \<longrightarrow> tickets pc \<inter> tickets (f j) = {}"
  shows "\<forall>k j. k \<noteq> j \<longrightarrow> tickets ((f(i := pc)) k) \<inter> tickets ((f(i := pc)) j) = {}"
  using assms by auto

lemma tickets_bounds:
  assumes "pc_inv q E D R pc" "t \<in> tickets pc"
  shows "D \<le> t" and "t < E"
  using assms by (cases pc; auto)+

lemma held_bounds:
  assumes "\<forall>i. pc_inv q E D R (f i)" "t \<in> held f"
  shows "D \<le> t" and "t < E"
  using assms tickets_bounds unfolding held_def by blast+

lemma mpsc_pc_change:
  assumes "mpsc_sys_inv s"
    and "pc_inv (msys_queue s) (length (reserved s)) (length (consumed s)) (reserved s) pc"
    and "tickets pc = tickets (msys_prod s i)"
  shows "mpsc_sys_inv (s\<lparr>msys_prod := (msys_prod s)(i := pc)\<rparr>)"
  using assms unfolding mpsc_sys_inv_def Let_def
  by (simp add: held_same disjoint_upd)

lemma pc_inv_reserve:
  "pc_inv q E D R pc \<Longrightarrow> length R = E \<Longrightarrow>
   pc_inv (q\<lparr>enqueue_pos := e\<rparr>) (E + length vs) D (R @ vs) pc"
  by (cases pc) (auto simp: ticket_cell_def)

lemma consumer_pc_inv_reserve:
  "consumer_pc_inv E D H R c \<Longrightarrow> length R = E \<Longrightarrow> D \<notin> H' - H \<or> D \<ge> E \<Longrightarrow>
   consumer_pc_inv (E + length vs) D H' (R @ vs) c"
  by (cases c) (auto simp: nth_append)

lemma mpsc_reserve:
  assumes inv: "mpsc_sys_inv s" and free: "tickets (msys_prod s i) = {}"
    and pos: "enqueue_pos (msys_queue s) = p"
    and room: "unat p + length vs \<le> length (consumed s) + length (ring_buffer (msys_queue s))"
    and small: "length (reserved s) + length vs < 2 ^ 63"
  shows "mpsc_sys_inv (s\<lparr>msys_queue := (msys_queue s)\<lparr>enqueue_pos := p + of_nat (length vs)\<rparr>,
           msys_prod := (msys_prod s)(i := M_Fill p vs), reserved := reserved s @ vs\<rparr>)"
proof -
  define q E D R f where "q = msys_queue s" and "E = length (reserved s)" and "D = length (consumed s)"
    and "R = reserved s" and "f = msys_prod s"
  note defs = q_def E_def D_def R_def f_def
  have I: "mpsc_shape q E D" "cells_inv q E D (held f) R" "\<forall>i. pc_inv q E D R (f i)"
    "\<forall>i j. i \<noteq> j \<longrightarrow> tickets (f i) \<inter> tickets (f j) = {}"
    "consumer_pc_inv E D (held f) R (msys_cons s)" "take D R = consumed s"
    using mpsc_sys_invD [OF inv] by (simp_all add: defs)
  have p: "p = of_nat E" and DE: "D \<le> E"
    using I(1) pos by (simp_all add: mpsc_shape_def q_def)
  have up: "unat p = E"
    unfolding p using small by (simp add: unat_of_nat take_bit_nat_eq_self E_def)
  let ?q = "q\<lparr>enqueue_pos := p + of_nat (length vs)\<rparr>"
  let ?H = "held (f(i := M_Fill p vs))"
  have H: "?H = held f \<union> {E..<E + length vs}"
    using free held_upd [OF I(4), of i "M_Fill p vs"] by (simp add: up flip: f_def)
  have hb: "t \<in> held f \<Longrightarrow> t < E" for t
    by (rule held_bounds [OF I(3)])
  have shape: "mpsc_shape ?q (E + length vs) D"
    using I(1) room small up by (simp add: mpsc_shape_def p q_def D_def E_def)
  have cells: "cells_inv ?q (E + length vs) D ?H (R @ vs)"
    using I(2) unfolding cells_inv_def H by (auto simp: ticket_cell_def nth_append E_def R_def)
  have pcs: "pc_inv ?q (E + length vs) D (R @ vs) ((f(i := M_Fill p vs)) j)" for j
    using pc_inv_reserve [of q E D R "f j"] I(3) DE by (simp add: up E_def R_def)
  have dis: "\<forall>k j. k \<noteq> j \<longrightarrow> tickets ((f(i := M_Fill p vs)) k) \<inter> tickets ((f(i := M_Fill p vs)) j) = {}"
    by (rule disjoint_upd [OF I(4)]) (use hb in \<open>force simp: held_def up\<close>)
  have cons: "consumer_pc_inv (E + length vs) D ?H (R @ vs) (msys_cons s)"
    by (rule consumer_pc_inv_reserve [OF I(5)]) (auto simp: H E_def R_def)
  show ?thesis
    using shape cells pcs dis cons I(6) DE
    unfolding mpsc_sys_inv_def Let_def by (simp add: defs)
qed

lemma pc_inv_set_cell:
  assumes "mpsc_shape q E D" "pc_inv q E D R pc" "D \<le> unat p" "unat p < D + length (ring_buffer q)"
    and "unat p \<notin> tickets pc \<or> cell_data c = cell_data (cell_at q p)"
  shows "pc_inv (set_cell q p c) E D R pc"
proof -
  have len: "length (ring_buffer (set_cell q p c)) = length (ring_buffer q)"
    by (simp add: set_cell_def)
  have "E \<le> D + length (ring_buffer q)"
    using assms(1) by (simp add: mpsc_shape_def)
  then show ?thesis
    using assms by (cases pc) (auto simp: len ticket_cell_set cell_at_ticket)
qed

lemma mpsc_shape_set_cell: "mpsc_shape q E D \<Longrightarrow> mpsc_shape (set_cell q p c) E D"
  by (simp add: mpsc_shape_def set_cell_def)

text \<open>The two halves of a publication: the data of the first ticket, then its sequence.\<close>

lemma mpsc_fill_data:
  assumes inv: "mpsc_sys_inv s" and pc: "msys_prod s i = M_Fill p (v # vs)"
  shows "mpsc_sys_inv (s\<lparr>msys_queue := set_cell (msys_queue s) p ((cell_at (msys_queue s) p)\<lparr>cell_data := v\<rparr>),
           msys_prod := (msys_prod s)(i := M_Publish p v vs)\<rparr>)"
proof -
  define q E D R f where "q = msys_queue s" and "E = length (reserved s)" and "D = length (consumed s)"
    and "R = reserved s" and "f = msys_prod s"
  note defs = q_def E_def D_def R_def f_def
  have I: "mpsc_shape q E D" "cells_inv q E D (held f) R" "\<forall>i. pc_inv q E D R (f i)"
    "\<forall>i j. i \<noteq> j \<longrightarrow> tickets (f i) \<inter> tickets (f j) = {}"
    "consumer_pc_inv E D (held f) R (msys_cons s)" "take D R = consumed s"
    using mpsc_sys_invD [OF inv] by (simp_all add: defs)
  let ?q = "set_cell q p ((cell_at q p)\<lparr>cell_data := v\<rparr>)"
  let ?f = "f(i := M_Publish p v vs)"
  have fi: "f i = M_Fill p (v # vs)"
    using pc by (simp add: f_def)
  have P: "unat p + Suc (length vs) \<le> E" "D \<le> unat p" "take (Suc (length vs)) (drop (unat p) R) = v # vs"
    using I(3) [rule_format, of i] fi by simp_all
  have win: "unat p < D + length (ring_buffer q)"
    using I(1) P by (simp add: mpsc_shape_def)
  have tk: "tickets (M_Publish p v vs) = tickets (f i)"
    by (simp add: fi)
  have H: "held ?f = held f"
    using tk by (simp only: held_same)
  have mine: "unat p \<in> tickets (f i)"
    by (simp add: fi)
  then have "unat p \<in> held f"
    unfolding held_def by blast
  have len: "length (ring_buffer ?q) = length (ring_buffer q)"
    by (simp add: set_cell_def)
  have cells: "cells_inv ?q E D (held f) R"
    using I(2) \<open>unat p \<in> held f\<close> ticket_cell_set [OF I(1) _ _ P(2) win]
    by (simp add: cells_inv_def len cell_at_ticket [OF I(1)])
  have pcs: "pc_inv ?q E D R (?f j)" for j
  proof (cases "j = i")
    case True
    then show ?thesis
      using P ticket_cell_set [OF I(1) P(2) win P(2) win] by simp
  next
    case False
    then have "unat p \<notin> tickets (f j)"
      using I(4) mine by blast
    then show ?thesis
      using pc_inv_set_cell [OF I(1) _ P(2) win] I(3) False by simp
  qed
  have dis: "\<forall>k j. k \<noteq> j \<longrightarrow> tickets (?f k) \<inter> tickets (?f j) = {}"
    using I(4) tk by (simp add: disjoint_upd)
  show ?thesis
    using mpsc_shape_set_cell [OF I(1)] cells pcs dis I(5,6) H
    unfolding mpsc_sys_inv_def Let_def by (simp add: defs)
qed

lemma unat_Suc_small:
  fixes p :: u64
  assumes "unat p < 2 ^ 63"
  shows "unat (p + 1) = Suc (unat p)"
proof -
  have "unat (p + 1) = (unat p + 1) mod 2 ^ 64"
    by (simp add: unat_word_ariths(1))
  then show ?thesis
    using assms by simp
qed

lemma drop_Suc_take:
  "take (Suc n) (drop p R) = v # vs \<Longrightarrow> take n (drop (Suc p) R) = vs \<and> R ! p = v"
  using tl_drop [of p R] by (cases "drop p R") (auto simp: nth_via_drop drop_Suc)

lemma consumer_pc_inv_mono:
  "consumer_pc_inv E D H R c \<Longrightarrow> H' \<subseteq> H \<Longrightarrow> consumer_pc_inv E D H' R c"
  by (cases c) auto

lemma mpsc_publish_seq:
  assumes inv: "mpsc_sys_inv s" and pc: "msys_prod s i = M_Publish p v vs"
  shows "mpsc_sys_inv (s\<lparr>msys_queue := set_cell (msys_queue s) p ((cell_at (msys_queue s) p)\<lparr>cell_sequence := p + 1\<rparr>),
           msys_prod := (msys_prod s)(i := M_Fill (p + 1) vs)\<rparr>)"
proof -
  define q E D R f where "q = msys_queue s" and "E = length (reserved s)" and "D = length (consumed s)"
    and "R = reserved s" and "f = msys_prod s"
  note defs = q_def E_def D_def R_def f_def
  have I: "mpsc_shape q E D" "cells_inv q E D (held f) R" "\<forall>i. pc_inv q E D R (f i)"
    "\<forall>i j. i \<noteq> j \<longrightarrow> tickets (f i) \<inter> tickets (f j) = {}"
    "consumer_pc_inv E D (held f) R (msys_cons s)" "take D R = consumed s"
    using mpsc_sys_invD [OF inv] by (simp_all add: defs)
  let ?q = "set_cell q p ((cell_at q p)\<lparr>cell_sequence := p + 1\<rparr>)"
  let ?f = "f(i := M_Fill (p + 1) vs)"
  have fi: "f i = M_Publish p v vs"
    using pc by (simp add: f_def)
  have P: "unat p + Suc (length vs) \<le> E" "D \<le> unat p" "cell_data (ticket_cell q (unat p)) = v"
    and R: "take (length vs) (drop (Suc (unat p)) R) = vs \<and> R ! unat p = v"
    using I(3) [rule_format, of i] fi drop_Suc_take [of "length vs" "unat p" R v vs] by simp_all
  have win: "unat p < D + length (ring_buffer q)" and up: "unat (p + 1) = Suc (unat p)"
    using I(1) P unat_Suc_small [of p] by (simp_all add: mpsc_shape_def)
  have tk: "tickets (M_Fill (p + 1) vs) = tickets (f i) - {unat p}"
    by (auto simp: fi up)
  have mine: "unat p \<in> tickets (f i)"
    by (simp add: fi)
  have H: "held ?f = held f - {unat p}"
    using held_upd [OF I(4), of i "M_Fill (p + 1) vs"] mine
    unfolding tk by (auto simp: held_def)
  have len: "length (ring_buffer ?q) = length (ring_buffer q)"
    by (simp add: set_cell_def)
  have cells: "cells_inv ?q E D (held ?f) R"
    using I(2) ticket_cell_set [OF I(1) _ _ P(2) win] P R up
    unfolding H by (auto simp: cells_inv_def len cell_at_ticket [OF I(1)])
  have pcs: "pc_inv ?q E D R (?f j)" for j
    using pc_inv_set_cell [OF I(1) _ P(2) win, of R "f j"] I(3) P R by (simp add: up)
  have dis: "\<forall>k j. k \<noteq> j \<longrightarrow> tickets (?f k) \<inter> tickets (?f j) = {}"
    by (rule disjoint_upd [OF I(4)]) (use I(4) tk in blast)
  have cons: "consumer_pc_inv E D (held ?f) R (msys_cons s)"
    by (rule consumer_pc_inv_mono [OF I(5)]) (simp add: H)
  show ?thesis
    using mpsc_shape_set_cell [OF I(1)] cells pcs dis cons I(6)
    unfolding mpsc_sys_inv_def Let_def by (simp add: defs)
qed

text \<open>The consumer takes the oldest position once it is published, and hands the cell to the next lap.\<close>

lemma pop_sees_published:
  assumes sh: "mpsc_shape q E D" and cells: "cells_inv q E D H R"
    and le: "dequeue_pos q + 1 \<le> cell_sequence (cell_at q (dequeue_pos q))"
  shows "D < E \<and> D \<notin> H \<and> cell_data (cell_at q (dequeue_pos q)) = R ! D"
proof -
  have D: "D < 2 ^ 63" "dequeue_pos q = of_nat D"
    using sh by (simp_all add: mpsc_shape_def)
  then have uD: "unat (dequeue_pos q) = D"
    by (simp add: unat_of_nat take_bit_nat_eq_self)
  then have "Suc D \<le> unat (cell_sequence (ticket_cell q D))"
    using le unat_Suc_small [of "dequeue_pos q"] D(1) by (simp add: word_le_nat_alt cell_at_ticket [OF sh])
  moreover have "D < D + length (ring_buffer q)"
    using mpsc_shape_cap(1) [OF sh] by linarith
  ultimately show ?thesis
    using cells uD by (auto simp: cells_inv_def cell_at_ticket [OF sh] split: if_splits)
qed

lemma pc_inv_advance:
  assumes "pc_inv q E D R pc" "D \<notin> tickets pc"
  shows "pc_inv (q\<lparr>dequeue_pos := d\<rparr>) E (Suc D) R pc"
  using assms by (cases pc) (auto simp: ticket_cell_def Suc_le_eq le_less dest: length_greater_0_conv [THEN iffD2])

lemma mpsc_shape_advance:
  assumes "mpsc_shape q E D" "D < E"
  shows "mpsc_shape (q\<lparr>dequeue_pos := dequeue_pos q + 1\<rparr>) E (Suc D)"
  using assms by (simp add: mpsc_shape_def add.commute)

lemma cells_inv_release:
  assumes sh: "mpsc_shape q E D" and cells: "cells_inv q E D H R" and D: "D < E" "D \<notin> H"
    and HE: "\<forall>t\<in>H. t < E" and dp: "unat d = D" and c: "unat (cell_sequence c) = D + length (ring_buffer q)"
  shows "cells_inv ((set_cell q d c)\<lparr>dequeue_pos := e\<rparr>) E (Suc D) H R"
proof -
  let ?m = "length (ring_buffer q)" and ?q = "(set_cell q d c)\<lparr>dequeue_pos := e\<rparr>"
  have m: "0 < ?m" and E: "E \<le> D + ?m"
    using mpsc_shape_cap [OF sh] sh by (linarith, simp add: mpsc_shape_def)
  have cell: "ticket_cell ?q t = ticket_cell (set_cell q d c) t" for t
    by (simp add: ticket_cell_def)
  have last: "ticket_cell ?q (D + ?m) = c"
    using m by (simp add: ticket_cell_def set_cell_ticket [OF sh] dp)
  have others: "ticket_cell ?q t = ticket_cell q t" if "D < t" "t < D + ?m" for t
    using that m dp by (simp add: cell ticket_cell_set [OF sh])
  have len: "length (ring_buffer ?q) = ?m"
    by (simp add: set_cell_def)
  show ?thesis
    unfolding cells_inv_def len
  proof (intro allI impI)
    fix t assume t: "Suc D \<le> t \<and> t < Suc D + ?m"
    show "unat (cell_sequence (ticket_cell ?q t)) = (if t < E \<and> t \<notin> H then Suc t else t) \<and>
      (t < E \<and> t \<notin> H \<longrightarrow> cell_data (ticket_cell ?q t) = R ! t)"
    proof (cases "t = D + ?m")
      case True
      then show ?thesis using last c E by simp
    next
      case False
      then have "D < t" "t < D + ?m" using t by auto
      then show ?thesis using others [of t] cells by (simp add: cells_inv_def)
    qed
  qed
qed

lemma mpsc_release:
  assumes inv: "mpsc_sys_inv s" and pc: "msys_cons s = MC_Release v" and q: "q = msys_queue s"
  shows "mpsc_sys_inv (s\<lparr>msys_queue := (set_cell q (dequeue_pos q)
             ((cell_at q (dequeue_pos q))\<lparr>cell_sequence := dequeue_pos q + ring_capacity_of q\<rparr>))
             \<lparr>dequeue_pos := dequeue_pos q + 1\<rparr>,
           msys_cons := MC_Idle, consumed := consumed s @ [v]\<rparr>)"
proof -
  define E D R f where "E = length (reserved s)" and "D = length (consumed s)"
    and "R = reserved s" and "f = msys_prod s"
  note defs = q E_def D_def R_def f_def
  have I: "mpsc_shape q E D" "cells_inv q E D (held f) R" "\<forall>i. pc_inv q E D R (f i)"
    "\<forall>i j. i \<noteq> j \<longrightarrow> tickets (f i) \<inter> tickets (f j) = {}"
    "consumer_pc_inv E D (held f) R (msys_cons s)" "take D R = consumed s"
    using mpsc_sys_invD [OF inv] by (simp_all add: defs)
  have D: "D < E" "D \<notin> held f" "v = R ! D"
    using I(5) pc by simp_all
  define c where "c = (cell_at q (dequeue_pos q))\<lparr>cell_sequence := dequeue_pos q + ring_capacity_of q\<rparr>"
  let ?q = "set_cell q (dequeue_pos q) c"
  have dq: "dequeue_pos q = of_nat D" and "E < 2 ^ 63"
    and len: "length (ring_buffer q) = unat (ring_capacity_of q)"
    using I(1) by (simp_all add: mpsc_shape_def)
  then have uD: "unat (dequeue_pos q) = D"
    using D by (simp add: unat_of_nat take_bit_nat_eq_self)
  have cap: "0 < length (ring_buffer q)" "length (ring_buffer q) \<le> 2 ^ 62"
    using mpsc_shape_cap [OF I(1)] by (linarith, simp)
  have seq: "unat (cell_sequence c) = D + length (ring_buffer q)"
    using uD len cap(2) D(1) \<open>E < 2 ^ 63\<close> by (simp add: c_def unat_word_ariths(1))
  have cells: "cells_inv (?q\<lparr>dequeue_pos := dequeue_pos q + 1\<rparr>) E (Suc D) (held f) R"
    by (rule cells_inv_release [OF I(1,2) D(1,2) _ uD seq]) (use held_bounds [OF I(3)] in blast)
  have shape: "mpsc_shape (?q\<lparr>dequeue_pos := dequeue_pos q + 1\<rparr>) E (Suc D)"
    using mpsc_shape_advance [OF mpsc_shape_set_cell [OF I(1)] D(1)] by (simp add: set_cell_def)
  have pcs: "pc_inv (?q\<lparr>dequeue_pos := dequeue_pos q + 1\<rparr>) E (Suc D) R (f j)" for j
  proof (rule pc_inv_advance)
    show "pc_inv ?q E D R (f j)"
      by (rule pc_inv_set_cell [OF I(1)]) (use I(3) uD cap in \<open>simp_all add: c_def\<close>)
    show "D \<notin> tickets (f j)"
      using D(2) unfolding held_def by blast
  qed
  have "take (Suc D) R = consumed s @ [v]"
    using I(6) D by (simp add: take_Suc_conv_app_nth E_def R_def)
  then show ?thesis
    using shape cells pcs I(4)
    unfolding mpsc_sys_inv_def Let_def by (simp add: E_def D_def R_def f_def flip: c_def)
qed

lemma mpsc_pop_load:
  assumes inv: "mpsc_sys_inv s" and q: "q = msys_queue s"
    and le: "seq \<le> cell_sequence (cell_at q (dequeue_pos q))"
  shows "mpsc_sys_inv (s\<lparr>msys_cons := (if seq \<noteq> dequeue_pos q + 1 then MC_Idle else MC_Read)\<rparr>)"
  using mpsc_sys_invD [OF inv] le
    pop_sees_published [of q "length (reserved s)" "length (consumed s)" "held (msys_prod s)" "reserved s"]
  unfolding mpsc_sys_inv_def Let_def by (simp add: q)

lemma mpsc_pop_read:
  assumes inv: "mpsc_sys_inv s" and q: "q = msys_queue s" and pc: "msys_cons s = MC_Read"
  shows "mpsc_sys_inv (s\<lparr>msys_cons := MC_Release (cell_data (cell_at q (dequeue_pos q)))\<rparr>)"
proof -
  let ?E = "length (reserved s)" and ?D = "length (consumed s)"
  have I: "mpsc_shape q ?E ?D" "cells_inv q ?E ?D (held (msys_prod s)) (reserved s)"
      "consumer_pc_inv ?E ?D (held (msys_prod s)) (reserved s) MC_Read"
    using mpsc_sys_invD [OF inv] by (simp_all add: q pc)
  have u: "unat (dequeue_pos q) = ?D" "0 < length (ring_buffer q)"
    using I(1) mpsc_shape_cap(1) [OF I(1)] by (auto simp: mpsc_shape_def unat_of_nat take_bit_nat_eq_self)
  then have "cell_data (cell_at q (dequeue_pos q)) = reserved s ! ?D"
    using I by (simp add: cells_inv_def cell_at_ticket [OF I(1)])
  then show ?thesis
    using mpsc_sys_invD [OF inv] I(3) unfolding mpsc_sys_inv_def Let_def by (simp add: q)
qed

text \<open>What a producer may conclude from the loads of one scan step.\<close>

lemma producer_load_pos:
  assumes "mpsc_sys_inv s" "p \<le> enqueue_pos (msys_queue s)"
  shows "unat p \<le> length (reserved s)"
proof -
  have "unat (enqueue_pos (msys_queue s)) = length (reserved s)"
    using mpsc_sys_invD [OF assms(1)] by (simp add: mpsc_shape_def unat_of_nat take_bit_nat_eq_self)
  then show ?thesis
    using assms(2) by (simp add: word_le_nat_alt)
qed

lemma producer_seq_ready:
  assumes inv: "mpsc_sys_inv s" and le: "p \<le> cell_sequence (cell_at (msys_queue s) p)"
  shows "unat p < length (consumed s) + length (ring_buffer (msys_queue s))"
proof -
  have I: "mpsc_shape (msys_queue s) (length (reserved s)) (length (consumed s))"
    "cells_inv (msys_queue s) (length (reserved s)) (length (consumed s)) (held (msys_prod s)) (reserved s)"
    using mpsc_sys_invD [OF inv] by simp_all
  show ?thesis
    by (rule stale_ready_position [OF I]) (use le in \<open>simp add: word_le_nat_alt cell_at_ticket [OF I(1)]\<close>)
qed

lemma producer_scan_ready:
  assumes inv: "mpsc_sys_inv s" and pc: "msys_prod s i = M_Scan p k vs" "k < length vs"
    and le: "p + of_nat k \<le> cell_sequence (cell_at (msys_queue s) (p + of_nat k))"
  shows "unat p + Suc k \<le> length (consumed s) + length (ring_buffer (msys_queue s))"
proof -
  have I: "mpsc_shape (msys_queue s) (length (reserved s)) (length (consumed s))"
    "pc_inv (msys_queue s) (length (reserved s)) (length (consumed s)) (reserved s) (M_Scan p k vs)"
    using mpsc_sys_invD [OF inv] pc by (simp, metis)
  have "length (reserved s) < 2 ^ 63" "length (ring_buffer (msys_queue s)) \<le> 2 ^ 62"
    using mpsc_shape_cap(2) [OF I(1)] I(1) by (simp_all add: mpsc_shape_def)
  then have "unat p + k < 2 ^ 64" "k < 2 ^ 64"
    using I(2) pc(2) by auto
  then have "unat (p + of_nat k) = unat p + k"
    by (simp add: unat_word_ariths(1) unat_of_nat take_bit_nat_eq_self)
  then show ?thesis
    using producer_seq_ready [OF inv le] by simp
qed

lemma mpsc_pc_invD:
  "mpsc_sys_inv s \<Longrightarrow>
   pc_inv (msys_queue s) (length (reserved s)) (length (consumed s)) (reserved s) (msys_prod s i)"
  by (drule mpsc_sys_invD) simp

lemma mpsc_step_inv:
  assumes "mpsc_step s t" "mpsc_sys_inv s" "length (reserved t) < 2 ^ 63"
  shows "mpsc_sys_inv t"
  using assms
proof (induction rule: mpsc_step.induct)
  case (push_call s i p v)
  then show ?case by (intro mpsc_pc_change) (simp_all add: producer_load_pos)
next
  case (push_seq_ready s i p v seq)
  then show ?case
    using mpsc_pc_invD [of s i] producer_seq_ready [of s p] by (intro mpsc_pc_change) simp_all
next
  case (push_seq_full s i p v seq)
  then show ?case by (intro mpsc_pc_change) simp_all
next
  case (push_seq_retry s i p v seq p')
  then show ?case by (intro mpsc_pc_change) (simp_all add: producer_load_pos)
next
  case (push_cas_ok s i p v)
  then show ?case
    using mpsc_pc_invD [of s i] mpsc_reserve [of s i p "[v]"] by simp
next
  case (push_cas_fail s i p v p')
  then show ?case by (intro mpsc_pc_change) (simp_all add: producer_load_pos)
next
  case (many_call s i p vs)
  then have "unat (ring_capacity_of (msys_queue s)) = length (ring_buffer (msys_queue s))"
    using mpsc_sys_invD [of s] by (simp add: mpsc_shape_def)
  with many_call show ?case by (intro mpsc_pc_change) (simp_all add: producer_load_pos)
next
  case (many_seq_ready s i p k vs seq)
  then show ?case
    using mpsc_pc_invD [of s i] producer_scan_ready [of s i p k vs] by (intro mpsc_pc_change) simp_all
next
  case (many_seq_full s i p vs seq)
  then show ?case by (intro mpsc_pc_change) simp_all
next
  case (many_seq_stale s i p vs seq p')
  then show ?case
    using mpsc_pc_invD [of s i] by (intro mpsc_pc_change) (simp_all add: producer_load_pos)
next
  case (many_scan_stop s i p k vs seq)
  then show ?case using mpsc_pc_invD [of s i] by (intro mpsc_pc_change) simp_all
next
  case (many_scan_done s i p k vs)
  then show ?case using mpsc_pc_invD [of s i] by (intro mpsc_pc_change) simp_all
next
  case (many_cas_ok s i p k vs)
  then have "k \<le> length vs" using mpsc_pc_invD [of s i] by simp
  with many_cas_ok show ?case
    using mpsc_pc_invD [of s i] mpsc_reserve [of s i p "take k vs"] by (simp add: min_absorb2)
next
  case (many_cas_fail s i p k vs p')
  then show ?case
    using mpsc_pc_invD [of s i] by (intro mpsc_pc_change) (simp_all add: producer_load_pos)
next
  case (fill_data s i p v vs)
  then show ?case by (intro mpsc_fill_data)
next
  case (publish_seq s i p v vs)
  then show ?case by (intro mpsc_publish_seq)
next
  case (push_return s i p)
  then show ?case by (intro mpsc_pc_change) simp_all
next
  case (pop_load s q seq)
  then show ?case by (intro mpsc_pop_load)
next
  case (pop_read_data s q)
  then show ?case by (intro mpsc_pop_read)
next
  case (pop_release s v q)
  then show ?case by (intro mpsc_release)
qed

lemma mpsc_reserved_grows:
  "mpsc_step s t \<Longrightarrow> length (reserved s) \<le> length (reserved t)"
  by (induction rule: mpsc_step.induct) simp_all

lemma mpsc_start_inv:
  assumes "mpsc_new n = Inr q"
  shows "mpsc_sys_inv \<lparr>msys_queue = q, msys_prod = (\<lambda>_. M_Idle), msys_cons = MC_Idle, reserved = [], consumed = []\<rparr>"
proof -
  have inv: "cell_inv q" and "cell_raw q = []"
    by (rule cell_inv_new [OF assms])+
  from assms obtain c where c: "normalize_bounded_queue_capacity n = Inr c"
    and q: "q = \<lparr>ring_capacity_of = c, ring_mask = c - 1,
                 ring_buffer = map (\<lambda>i. \<lparr>cell_sequence = of_nat i, cell_data = None\<rparr>) [0..<unat c],
                 enqueue_pos = 0, dequeue_pos = 0\<rparr>"
    by (auto simp: mpsc_new_def split: sum.splits)
  obtain k where k: "ring_capacity k c"
    using inv by (auto simp: cell_inv_def q)
  have "unat c \<le> 2 ^ 62"
    using ring_capacity_bounds [OF k] by simp
  then have "cells_inv q 0 0 {} []"
    by (auto simp: cells_inv_def ticket_cell_def q unat_of_nat take_bit_nat_eq_self)
  moreover have "mpsc_shape q 0 0"
    using k by (auto simp: mpsc_shape_def q)
  ultimately show ?thesis
    by (simp add: mpsc_sys_inv_def held_def)
qed

lemma mpsc_reachable_inv:
  "mpsc_reachable s \<Longrightarrow> length (reserved s) < 2 ^ 63 \<Longrightarrow> mpsc_sys_inv s"
proof (induction rule: mpsc_reachable.induct)
  case (start n q)
  then show ?case by (intro mpsc_start_inv)
next
  case (step s t)
  then show ?case using mpsc_step_inv mpsc_reserved_grows [of s t] by simp
qed

subsection \<open>A reachable state with two producers and the consumer at work\<close>

definition mpsc_empty2 :: "nat cell_ring" where
  "mpsc_empty2 = \<lparr>ring_capacity_of = 2, ring_mask = 1,
     ring_buffer = [\<lparr>cell_sequence = 0, cell_data = None\<rparr>, \<lparr>cell_sequence = 1, cell_data = None\<rparr>],
     enqueue_pos = 0, dequeue_pos = 0\<rparr>"

lemma mpsc_new_2: "mpsc_new 2 = Inr mpsc_empty2"
  by (simp add: mpsc_new_def normalize_2 mpsc_empty2_def upt_rec)

definition mpsc_example :: "nat mpsc_sys" where
  "mpsc_example = \<lparr>
     msys_queue = mpsc_empty2\<lparr>ring_buffer := [\<lparr>cell_sequence = 1, cell_data = Some 7\<rparr>,
                                            \<lparr>cell_sequence = 1, cell_data = None\<rparr>], enqueue_pos := 2\<rparr>,
     msys_prod = (\<lambda>_. M_Idle)(0 := M_Fill 1 [], 1 := M_Fill 1 [Some 8]),
     msys_cons = MC_Read, reserved = [Some 7, Some 8], consumed = []\<rparr>"

lemma mpsc_reachable_next:
  "mpsc_reachable s \<Longrightarrow> mpsc_step s t \<Longrightarrow> t = u \<Longrightarrow> mpsc_reachable u"
  by (auto intro: mpsc_reachable.step)

lemma mpsc_example_reachable: "mpsc_reachable mpsc_example"
proof -
  let ?q = mpsc_empty2
  let ?b = "\<lambda>c :: nat cell. [c, \<lparr>cell_sequence = 1, cell_data = None\<rparr>]"
  let ?q7 = "?q\<lparr>ring_buffer := ?b \<lparr>cell_sequence = 0, cell_data = Some 7\<rparr>, enqueue_pos := 1\<rparr>"
  let ?p7 = "?q\<lparr>ring_buffer := ?b \<lparr>cell_sequence = 1, cell_data = Some 7\<rparr>, enqueue_pos := 1\<rparr>"
  let ?st = "\<lambda>q a b R. \<lparr>msys_queue = q, msys_prod = (\<lambda>_. M_Idle)(0 := a, 1 := b), msys_cons = MC_Idle,
                     reserved = R, consumed = []\<rparr>"
  note simps = mpsc_empty2_def cell_at_def set_cell_def fun_eq_iff
  have "mpsc_reachable (?st ?q M_Idle M_Idle [])"
    using mpsc_reachable.start [OF mpsc_new_2] by (simp add: fun_upd_idem)
  then have "mpsc_reachable (?st ?q (M_LoadSeq 0 (Some 7)) M_Idle [])"
    by (rule mpsc_reachable_next [OF _ push_call [where i = 0]]) (auto simp: simps)
  then have "mpsc_reachable (?st ?q (M_Cas 0 (Some 7)) M_Idle [])"
    by (rule mpsc_reachable_next [OF _ push_seq_ready [where i = 0 and seq = 0]]) (auto simp: simps)
  then have "mpsc_reachable (?st (?q\<lparr>enqueue_pos := 1\<rparr>) (M_Fill 0 [Some 7]) M_Idle [Some 7])"
    by (rule mpsc_reachable_next [OF _ push_cas_ok [where i = 0]]) (auto simp: simps)
  then have "mpsc_reachable (?st ?q7 (M_Publish 0 (Some 7) []) M_Idle [Some 7])"
    by (rule mpsc_reachable_next [OF _ fill_data [where i = 0]]) (auto simp: simps)
  then have "mpsc_reachable (?st ?p7 (M_Fill 1 []) M_Idle [Some 7])"
    by (rule mpsc_reachable_next [OF _ publish_seq [where i = 0]]) (auto simp: simps)
  then have "mpsc_reachable (?st ?p7 (M_Fill 1 []) (M_LoadSeq 1 (Some 8)) [Some 7])"
    by (rule mpsc_reachable_next [OF _ push_call [where i = 1]]) (auto simp: simps)
  then have "mpsc_reachable (?st ?p7 (M_Fill 1 []) (M_Cas 1 (Some 8)) [Some 7])"
    by (rule mpsc_reachable_next [OF _ push_seq_ready [where i = 1 and seq = 1]]) (auto simp: simps)
  then have "mpsc_reachable (?st (?p7\<lparr>enqueue_pos := 2\<rparr>) (M_Fill 1 []) (M_Fill 1 [Some 8]) [Some 7, Some 8])"
    by (rule mpsc_reachable_next [OF _ push_cas_ok [where i = 1]]) (auto simp: simps)
  then show ?thesis
    by (rule mpsc_reachable_next [OF _ pop_load [where seq = 1]]) (auto simp: simps mpsc_example_def)
qed

subsection \<open>Properties\<close>

text \<open>
  C3: Under every interleaving of any number of producers, single or batched, and one
  consumer, with stale loads and spurious compare-exchange failures, the consumer gets the
  values in the order in which their positions were reserved, without loss or duplication, and
  never more than the capacity is reserved and not yet consumed.
\<close>

theorem mpsc_interleaved_fifo:
  assumes "mpsc_reachable s" and "length (reserved s) < 2 ^ 63"
  shows "consumed s = take (length (consumed s)) (reserved s) \<and>
         length (consumed s) \<le> length (reserved s) \<and>
         length (reserved s) - length (consumed s) \<le> unat (ring_capacity_of (msys_queue s))"
  using mpsc_sys_invD [OF mpsc_reachable_inv [OF assms]] by (auto simp: mpsc_shape_def)

theorem mpsc_interleaved_fifo_witness:
  "length (reserved mpsc_example) - length (consumed mpsc_example) \<le> 2"
  using mpsc_interleaved_fifo [OF mpsc_example_reachable]
  by (simp add: mpsc_example_def mpsc_empty2_def)

text \<open>
  C29: No value is lost: once the producer that reserved the oldest position has published it
  (no producer holds it any more), a current load of that cell's sequence lets the consumer
  take a value exactly when one was reserved and not consumed, and the cell's data is that value.
\<close>

theorem mpsc_published_visible:
  assumes "mpsc_reachable s" and "length (reserved s) < 2 ^ 63"
    and "\<forall>i. length (consumed s) \<notin> tickets (msys_prod s i)"
  shows "(cell_sequence (cell_at (msys_queue s) (dequeue_pos (msys_queue s))) = dequeue_pos (msys_queue s) + 1 \<longleftrightarrow>
            length (consumed s) < length (reserved s)) \<and>
         (length (consumed s) < length (reserved s) \<longrightarrow>
            cell_data (cell_at (msys_queue s) (dequeue_pos (msys_queue s))) = reserved s ! length (consumed s))"
proof -
  let ?q = "msys_queue s" and ?E = "length (reserved s)" and ?D = "length (consumed s)"
  have I: "mpsc_shape ?q ?E ?D" "cells_inv ?q ?E ?D (held (msys_prod s)) (reserved s)"
    using mpsc_sys_invD [OF mpsc_reachable_inv [OF assms(1,2)]] by simp_all
  have u: "unat (dequeue_pos ?q) = ?D" "0 < length (ring_buffer ?q)"
    using I(1) mpsc_shape_cap(1) [OF I(1)] by (auto simp: mpsc_shape_def unat_of_nat take_bit_nat_eq_self)
  have nh: "?D \<notin> held (msys_prod s)"
    using assms(3) by (simp add: held_def)
  have "?D < 2 ^ 63"
    using I(1) assms(2) by (simp add: mpsc_shape_def)
  then have "unat (dequeue_pos ?q + 1) = Suc ?D"
    using unat_Suc_small [of "dequeue_pos ?q"] u(1) by simp
  then show ?thesis
    using I(2) u nh
    by (simp add: cells_inv_def cell_at_ticket [OF I(1)] word_unat_eq_iff)
qed

theorem mpsc_published_visible_witness:
  "cell_data (cell_at (msys_queue mpsc_example) (dequeue_pos (msys_queue mpsc_example))) = Some 7"
  using mpsc_published_visible [OF mpsc_example_reachable]
  by (simp add: mpsc_example_def mpsc_empty2_def)

text \<open>
  C27: The plain accesses to cell data never race: the slots two producers are about to fill
  differ, and a producer's slot is never the one the consumer is about to read.
\<close>

theorem mpsc_cells_race_free:
  assumes "mpsc_reachable s" and "length (reserved s) < 2 ^ 63"
    and "msys_prod s i = M_Fill p (v # vs)"
  shows "(\<forall>j p' w ws. j \<noteq> i \<longrightarrow> msys_prod s j = M_Fill p' (w # ws) \<longrightarrow>
            p AND ring_mask (msys_queue s) \<noteq> p' AND ring_mask (msys_queue s)) \<and>
         (msys_cons s = MC_Read \<longrightarrow>
            p AND ring_mask (msys_queue s) \<noteq> dequeue_pos (msys_queue s) AND ring_mask (msys_queue s))"
proof -
  let ?q = "msys_queue s" and ?E = "length (reserved s)" and ?D = "length (consumed s)"
  let ?m = "length (ring_buffer ?q)"
  note I = mpsc_sys_invD [OF mpsc_reachable_inv [OF assms(1,2)]]
  have sh: "mpsc_shape ?q ?E ?D" using I by simp
  have win: "?D \<le> unat (r :: u64) \<and> unat r < ?D + ?m" if "msys_prod s j = M_Fill r (w # ws)" for j r w ws
    using mpsc_pc_invD [OF mpsc_reachable_inv [OF assms(1,2)], of j] that sh
    by (auto simp: mpsc_shape_def)
  have u: "unat (dequeue_pos ?q) = ?D" "0 < ?m"
    using sh mpsc_shape_cap(1) [OF sh] by (auto simp: mpsc_shape_def unat_of_nat take_bit_nat_eq_self)
  have slot: "unat (r AND ring_mask ?q) = unat r mod ?m" for r
    using sh ring_capacity_slot0 by (auto simp: mpsc_shape_def)
  have mine: "unat p \<in> tickets (msys_prod s i)"
    by (simp add: assms(3))
  have sep: "p AND ring_mask ?q \<noteq> r AND ring_mask ?q" if "unat r \<noteq> unat p" "?D \<le> unat r" "unat r < ?D + ?m" for r
    using window_inj [of ?D "unat p" ?m "unat r"] win [OF assms(3)] that slot by metis
  have "p AND ring_mask ?q \<noteq> r AND ring_mask ?q" if j: "j \<noteq> i" "msys_prod s j = M_Fill r (w # ws)" for j r w ws
  proof (rule sep)
    have "unat r \<in> tickets (msys_prod s j)" by (simp add: j(2))
    moreover have "tickets (msys_prod s i) \<inter> tickets (msys_prod s j) = {}"
      using I j(1) by metis
    ultimately show "unat r \<noteq> unat p" using mine by auto
  qed (use win [OF j(2)] in auto)
  moreover have "p AND ring_mask ?q \<noteq> dequeue_pos ?q AND ring_mask ?q" if c: "msys_cons s = MC_Read"
  proof (rule sep)
    have "?D \<notin> held (msys_prod s)" using I c by simp
    then show "unat (dequeue_pos ?q) \<noteq> unat p" using mine u(1) by (auto simp: held_def)
  qed (use u in auto)
  ultimately show ?thesis by blast
qed

text \<open>Two producers have reserved a cell each and are about to fill it.\<close>

definition mpsc_filling :: "nat mpsc_sys" where
  "mpsc_filling = \<lparr>
     msys_queue = mpsc_empty2\<lparr>enqueue_pos := 2\<rparr>,
     msys_prod = (\<lambda>_. M_Idle)(0 := M_Fill 0 [Some 7], 1 := M_Fill 1 [Some 8]),
     msys_cons = MC_Idle, reserved = [Some 7, Some 8], consumed = []\<rparr>"

lemma mpsc_filling_reachable: "mpsc_reachable mpsc_filling"
proof -
  let ?q = mpsc_empty2
  let ?st = "\<lambda>q a b R. \<lparr>msys_queue = q, msys_prod = (\<lambda>_. M_Idle)(0 := a, 1 := b), msys_cons = MC_Idle,
                     reserved = R, consumed = []\<rparr>"
  note simps = mpsc_empty2_def cell_at_def set_cell_def fun_eq_iff
  have "mpsc_reachable (?st ?q M_Idle M_Idle [])"
    using mpsc_reachable.start [OF mpsc_new_2] by (simp add: fun_upd_idem)
  then have "mpsc_reachable (?st ?q (M_LoadSeq 0 (Some 7)) M_Idle [])"
    by (rule mpsc_reachable_next [OF _ push_call [where i = 0]]) (auto simp: simps)
  then have "mpsc_reachable (?st ?q (M_Cas 0 (Some 7)) M_Idle [])"
    by (rule mpsc_reachable_next [OF _ push_seq_ready [where i = 0 and seq = 0]]) (auto simp: simps)
  then have "mpsc_reachable (?st (?q\<lparr>enqueue_pos := 1\<rparr>) (M_Fill 0 [Some 7]) M_Idle [Some 7])"
    by (rule mpsc_reachable_next [OF _ push_cas_ok [where i = 0]]) (auto simp: simps)
  then have "mpsc_reachable (?st (?q\<lparr>enqueue_pos := 1\<rparr>) (M_Fill 0 [Some 7]) (M_LoadSeq 1 (Some 8)) [Some 7])"
    by (rule mpsc_reachable_next [OF _ push_call [where i = 1]]) (auto simp: simps)
  then have "mpsc_reachable (?st (?q\<lparr>enqueue_pos := 1\<rparr>) (M_Fill 0 [Some 7]) (M_Cas 1 (Some 8)) [Some 7])"
    by (rule mpsc_reachable_next [OF _ push_seq_ready [where i = 1 and seq = 1]]) (auto simp: simps)
  then show ?thesis
    by (rule mpsc_reachable_next [OF _ push_cas_ok [where i = 1]]) (auto simp: simps mpsc_filling_def)
qed

theorem mpsc_cells_race_free_witness:
  "(mpsc_reachable mpsc_filling \<and> msys_prod mpsc_filling 0 = M_Fill 0 [Some 7] \<and> msys_prod mpsc_filling 1 = M_Fill 1 [Some 8] \<and>
      0 AND ring_mask (msys_queue mpsc_filling) \<noteq> 1 AND ring_mask (msys_queue mpsc_filling)) \<and>
   (mpsc_reachable mpsc_example \<and> msys_prod mpsc_example 1 = M_Fill 1 [Some 8] \<and> msys_cons mpsc_example = MC_Read \<and>
      1 AND ring_mask (msys_queue mpsc_example) \<noteq> dequeue_pos (msys_queue mpsc_example) AND ring_mask (msys_queue mpsc_example))"
proof -
  have two: "msys_prod mpsc_filling 0 = M_Fill 0 [Some 7]" "msys_prod mpsc_filling 1 = M_Fill 1 [Some 8]"
    "length (reserved mpsc_filling) < 2 ^ 63"
    by (simp_all add: mpsc_filling_def)
  have one: "msys_prod mpsc_example 1 = M_Fill 1 [Some 8]" "msys_cons mpsc_example = MC_Read"
    "length (reserved mpsc_example) < 2 ^ 63"
    by (simp_all add: mpsc_example_def)
  have "0 AND ring_mask (msys_queue mpsc_filling) \<noteq> 1 AND ring_mask (msys_queue mpsc_filling)"
    using conjunct1 [OF mpsc_cells_race_free [OF mpsc_filling_reachable two(3,1)], rule_format, OF _ two(2)] by simp
  moreover have "1 AND ring_mask (msys_queue mpsc_example) \<noteq>
      dequeue_pos (msys_queue mpsc_example) AND ring_mask (msys_queue mpsc_example)"
    by (rule conjunct2 [OF mpsc_cells_race_free [OF mpsc_example_reachable one(3,1)], rule_format, OF one(2)])
  ultimately show ?thesis using mpsc_filling_reachable mpsc_example_reachable one two by (intro conjI)
qed

end
