(* ===== verification/Buffer_Store.thy ===== *)
theory Buffer_Store
  imports Af_Prelude
begin

section \<open>Buffers over shared storage\<close>

text \<open>
  \<^verbatim>\<open>buffer/buffer.hpp\<close>: \<^verbatim>\<open>BufferView\<close>, \<^verbatim>\<open>Buffer\<close> and \<^verbatim>\<open>BufferChain\<close>.  A \<^verbatim>\<open>Buffer\<close> is a window on a
  reference-counted byte vector, and slices share that vector, so the model keeps the vectors
  in an explicit store: a list of blocks, the shared pointer being the block's index.  A block
  is never removed from the store: a window keeps its block alive in the code, and a block
  without windows cannot be observed.  Views are pointers into the same store.
  \<^verbatim>\<open>std::vector\<close> refuses more than \<^verbatim>\<open>PTRDIFF_MAX\<close> bytes with a \<^verbatim>\<open>length_error\<close>.
\<close>

type_synonym store = "u8 list list"

record byte_ptr =
  ptr_block :: nat
  ptr_offset :: u64

record buffer_view =
  view_data :: "byte_ptr option"
  view_size :: u64

record buffer =
  buf_storage :: "nat option"
  buf_offset :: u64
  buf_size :: u64

subsection \<open>Store\<close>

definition vector_max_size :: u64 where
  "vector_max_size = 2 ^ 63 - 1"

definition make_shared_vector :: "store \<Rightarrow> u64 \<Rightarrow> af_error + store \<times> nat" where
  "make_shared_vector h n =
     (if n > vector_max_size then Inl (length_error ''cannot create std::vector larger than max_size()'')
      else Inr (h @ [replicate (unat n) 0], length h))"

text \<open>The bytes a pointer and a length denote, and \<^verbatim>\<open>memcpy\<close> of such a range.\<close>

definition load_bytes :: "store \<Rightarrow> byte_ptr option \<Rightarrow> u64 \<Rightarrow> u8 list" where
  "load_bytes h p n =
     (case p of None \<Rightarrow> [] | Some a \<Rightarrow> take (unat n) (drop (unat (ptr_offset a)) (h ! ptr_block a)))"

definition write_at :: "u8 list \<Rightarrow> nat \<Rightarrow> u8 list \<Rightarrow> u8 list" where
  "write_at block off bs = take off block @ bs @ drop (off + length bs) block"

definition memcpy :: "store \<Rightarrow> byte_ptr option \<Rightarrow> byte_ptr option \<Rightarrow> u64 \<Rightarrow> store" where
  "memcpy h dst src n =
     (case dst of
        None \<Rightarrow> h
      | Some d \<Rightarrow> h[ptr_block d := write_at (h ! ptr_block d) (unat (ptr_offset d)) (load_bytes h src n)])"

subsection \<open>Views\<close>

definition view_empty :: "buffer_view \<Rightarrow> bool" where
  "view_empty v \<longleftrightarrow> view_size v = 0"

definition view_bytes :: "store \<Rightarrow> buffer_view \<Rightarrow> u8 list" where
  "view_bytes h v = load_bytes h (view_data v) (view_size v)"

subsection \<open>Buffer\<close>

definition npos :: u64 where
  "npos = - 1"

definition buffer_default :: buffer where
  "buffer_default = \<lparr>buf_storage = None, buf_offset = 0, buf_size = 0\<rparr>"

definition buffer_new :: "store \<Rightarrow> u64 \<Rightarrow> af_error + store \<times> buffer" where
  "buffer_new h n =
     (case make_shared_vector h n of
        Inl e \<Rightarrow> Inl e
      | Inr (h', a) \<Rightarrow> Inr (h', \<lparr>buf_storage = Some a, buf_offset = 0, buf_size = n\<rparr>))"

definition buffer_with_capacity :: "store \<Rightarrow> u64 \<Rightarrow> u64 \<Rightarrow> af_error + store \<times> buffer" where
  "buffer_with_capacity h capacity headroom =
     (let headroom = (if headroom > capacity then capacity else headroom)
      in case make_shared_vector h capacity of
           Inl e \<Rightarrow> Inl e
         | Inr (h', a) \<Rightarrow> Inr (h', \<lparr>buf_storage = Some a, buf_offset = headroom, buf_size = 0\<rparr>))"

definition buffer_data :: "buffer \<Rightarrow> byte_ptr option" where
  "buffer_data b =
     (case buf_storage b of None \<Rightarrow> None
      | Some a \<Rightarrow> Some \<lparr>ptr_block = a, ptr_offset = buf_offset b\<rparr>)"

definition buffer_tail_data :: "buffer \<Rightarrow> byte_ptr option" where
  "buffer_tail_data b =
     (case buf_storage b of None \<Rightarrow> None
      | Some a \<Rightarrow> Some \<lparr>ptr_block = a, ptr_offset = buf_offset b + buf_size b\<rparr>)"

definition buffer_empty :: "buffer \<Rightarrow> bool" where
  "buffer_empty b \<longleftrightarrow> buf_size b = 0"

definition buffer_view_of :: "buffer \<Rightarrow> buffer_view" where
  "buffer_view_of b = \<lparr>view_data = buffer_data b, view_size = buf_size b\<rparr>"

definition buffer_capacity :: "store \<Rightarrow> buffer \<Rightarrow> u64" where
  "buffer_capacity h b =
     (case buf_storage b of None \<Rightarrow> 0 | Some a \<Rightarrow> of_nat (length (h ! a)))"

definition buffer_headroom :: "buffer \<Rightarrow> u64" where
  "buffer_headroom b = (case buf_storage b of None \<Rightarrow> 0 | Some a \<Rightarrow> buf_offset b)"

definition buffer_tailroom :: "store \<Rightarrow> buffer \<Rightarrow> u64" where
  "buffer_tailroom h b =
     (case buf_storage b of
        None \<Rightarrow> 0
      | Some a \<Rightarrow>
          let end_pos = buf_offset b + buf_size b
          in if end_pos \<ge> of_nat (length (h ! a)) then 0 else of_nat (length (h ! a)) - end_pos)"

definition buffer_copy :: "store \<Rightarrow> buffer_view \<Rightarrow> af_error + store \<times> buffer" where
  "buffer_copy h v =
     (case buffer_new h (view_size v) of
        Inl e \<Rightarrow> Inl e
      | Inr (h', b) \<Rightarrow>
          Inr (if \<not> view_empty v then memcpy h' (buffer_data b) (view_data v) (view_size v) else h', b))"

definition buffer_try_append_uninitialized :: "store \<Rightarrow> buffer \<Rightarrow> u64 \<Rightarrow> bool \<times> buffer" where
  "buffer_try_append_uninitialized h b count =
     (if count > buffer_tailroom h b then (False, b)
      else (True, b\<lparr>buf_size := buf_size b + count\<rparr>))"

definition buffer_try_append_uninitialized_data :: "store \<Rightarrow> buffer \<Rightarrow> u64 \<Rightarrow> byte_ptr option \<times> buffer" where
  "buffer_try_append_uninitialized_data h b count =
     (let tail = buffer_tail_data b; (ok, b') = buffer_try_append_uninitialized h b count
      in (if ok then tail else None, b'))"

definition buffer_try_append :: "store \<Rightarrow> buffer \<Rightarrow> buffer_view \<Rightarrow> bool \<times> store \<times> buffer" where
  "buffer_try_append h b v =
     (if view_size v > buffer_tailroom h b then (False, h, b)
      else if \<not> view_empty v
      then (True, memcpy h (buffer_tail_data b) (view_data v) (view_size v),
            b\<lparr>buf_size := buf_size b + view_size v\<rparr>)
      else (True, h, b))"

definition buffer_slice :: "buffer \<Rightarrow> u64 \<Rightarrow> u64 \<Rightarrow> buffer" where
  "buffer_slice b offset count =
     (if buf_storage b = None \<or> offset > buf_size b then buffer_default
      else let available = buf_size b - offset;
               slice_size = (if count = npos \<or> count > available then available else count)
           in \<lparr>buf_storage = buf_storage b, buf_offset = buf_offset b + offset, buf_size = slice_size\<rparr>)"

definition buffer_remove_prefix :: "buffer \<Rightarrow> u64 \<Rightarrow> buffer" where
  "buffer_remove_prefix b count =
     (if count \<ge> buf_size b then b\<lparr>buf_offset := buf_offset b + buf_size b, buf_size := 0\<rparr>
      else b\<lparr>buf_offset := buf_offset b + count, buf_size := buf_size b - count\<rparr>)"

definition buffer_remove_suffix :: "buffer \<Rightarrow> u64 \<Rightarrow> buffer" where
  "buffer_remove_suffix b count =
     (if count \<ge> buf_size b then b\<lparr>buf_size := 0\<rparr>
      else b\<lparr>buf_size := buf_size b - count\<rparr>)"

subsection \<open>Well-formed buffers and their bytes\<close>

definition buffer_ok :: "store \<Rightarrow> buffer \<Rightarrow> bool" where
  "buffer_ok h b \<longleftrightarrow>
     (case buf_storage b of
        None \<Rightarrow> buf_offset b = 0 \<and> buf_size b = 0
      | Some a \<Rightarrow> a < length h \<and> length (h ! a) < 2 ^ 63 \<and>
                  unat (buf_offset b) + unat (buf_size b) \<le> length (h ! a))"

definition view_ok :: "store \<Rightarrow> buffer_view \<Rightarrow> bool" where
  "view_ok h v \<longleftrightarrow>
     (case view_data v of
        None \<Rightarrow> view_size v = 0
      | Some p \<Rightarrow> ptr_block p < length h \<and>
                  unat (ptr_offset p) + unat (view_size v) \<le> length (h ! ptr_block p))"

definition buffer_bytes :: "store \<Rightarrow> buffer \<Rightarrow> u8 list" where
  "buffer_bytes h b = view_bytes h (buffer_view_of b)"

lemmas buffer_defs = buffer_bytes_def view_bytes_def load_bytes_def buffer_view_of_def buffer_data_def
  buffer_tail_data_def

lemma buffer_bytes_none: "buf_storage b = None \<Longrightarrow> buffer_bytes h b = []"
  by (simp add: buffer_defs)

lemma buffer_bytes_some:
  "buf_storage b = Some a \<Longrightarrow> buffer_bytes h b = take (unat (buf_size b)) (drop (unat (buf_offset b)) (h ! a))"
  by (simp add: buffer_defs)

lemma buffer_bytes_length:
  "buffer_ok h b \<Longrightarrow> length (buffer_bytes h b) = unat (buf_size b)"
  by (cases "buf_storage b") (auto simp: buffer_ok_def buffer_bytes_none buffer_bytes_some)

lemma view_bytes_length:
  "view_ok h v \<Longrightarrow> length (view_bytes h v) = unat (view_size v)"
  by (cases "view_data v") (auto simp: view_ok_def view_bytes_def load_bytes_def)

lemma unat_add_small:
  fixes a b :: u64
  assumes "unat a + unat b < 2 ^ 64"
  shows "unat (a + b) = unat a + unat b"
  using assms by (simp add: unat_word_ariths(1))

lemma unat_sub_le:
  fixes a b :: u64
  assumes "b \<le> a"
  shows "unat (a - b) = unat a - unat b"
  using assms by (simp add: unat_sub_if' word_le_nat_alt)

lemma buffer_end:
  assumes "buffer_ok h b"
  shows "unat (buf_offset b + buf_size b) = unat (buf_offset b) + unat (buf_size b)"
  using assms by (intro unat_add_small) (auto simp: buffer_ok_def split: option.splits)

lemma tailroom_unat:
  assumes "buffer_ok h b"
  shows "unat (buffer_tailroom h b) =
    (case buf_storage b of None \<Rightarrow> 0 | Some a \<Rightarrow> length (h ! a) - (unat (buf_offset b) + unat (buf_size b)))"
proof (cases "buf_storage b")
  case None
  then show ?thesis by (simp add: buffer_tailroom_def)
next
  case (Some a)
  then have len: "length (h ! a) < 2 ^ 64"
    using assms by (simp add: buffer_ok_def)
  then have u: "unat (of_nat (length (h ! a)) :: u64) = length (h ! a)"
    by (simp add: unat_of_nat take_bit_nat_eq_self)
  show ?thesis
    using Some by (simp add: buffer_tailroom_def Let_def word_le_nat_alt u buffer_end [OF assms] unat_sub_le)
qed

lemma write_at_length: "off + length bs \<le> length block \<Longrightarrow> length (write_at block off bs) = length block"
  by (simp add: write_at_def)

lemma write_at_before:
  "off + length bs \<le> length block \<Longrightarrow> i + n \<le> off \<Longrightarrow>
   take n (drop i (write_at block off bs)) = take n (drop i block)"
  by (simp add: write_at_def drop_take min_absorb1)

lemma write_at_after:
  assumes "off + length bs \<le> length block" "off + length bs \<le> i"
  shows "take n (drop i (write_at block off bs)) = take n (drop i block)"
  using assms by (simp add: write_at_def)

lemma write_at_appends:
  assumes "i + n + length bs \<le> length block"
  shows "take (n + length bs) (drop i (write_at block (i + n) bs)) = take n (drop i block) @ bs"
  using assms by (simp add: write_at_def drop_take)

subsection \<open>Each operation on the bytes\<close>

lemma make_shared_ok:
  assumes "make_shared_vector h n = Inr (h', a)"
  shows "h' = h @ [replicate (unat n) 0]" "a = length h" "unat n < 2 ^ 63"
  using assms by (auto simp: make_shared_vector_def vector_max_size_def word_le_nat_alt not_less split: if_splits)

lemma buffer_new_spec:
  assumes "buffer_new h n = Inr (h', b)"
  shows "buffer_ok h' b" and "buffer_bytes h' b = replicate (unat n) 0"
    and "h' = h @ [replicate (unat n) 0]" and "buf_storage b = Some (length h)"
    and "buf_offset b = 0" and "buf_size b = n"
proof -
  have b: "b = \<lparr>buf_storage = Some (length h), buf_offset = 0, buf_size = n\<rparr>"
    and h': "h' = h @ [replicate (unat n) 0]" and n: "unat n < 2 ^ 63"
    using assms by (simp_all add: buffer_new_def make_shared_vector_def split: if_splits)
      (simp add: vector_max_size_def word_le_nat_alt not_less)
  show "buffer_ok h' b" and "buffer_bytes h' b = replicate (unat n) 0"
    and "h' = h @ [replicate (unat n) 0]" and "buf_storage b = Some (length h)"
    and "buf_offset b = 0" and "buf_size b = n"
    using n by (simp_all add: b h' buffer_ok_def buffer_bytes_some)
qed

lemma buffer_with_capacity_spec:
  assumes "buffer_with_capacity h c r = Inr (h', b)"
  shows "buffer_ok h' b" and "buffer_bytes h' b = []" and "h' = h @ [replicate (unat c) 0]"
    and "buffer_capacity h' b = c" and "buffer_headroom b = min r c" and "buffer_tailroom h' b = c - min r c"
proof -
  have b: "b = \<lparr>buf_storage = Some (length h), buf_offset = min r c, buf_size = 0\<rparr>"
    and h': "h' = h @ [replicate (unat c) 0]" and c: "unat c < 2 ^ 63"
    using assms by (simp_all add: buffer_with_capacity_def make_shared_vector_def Let_def min_def not_less split: if_splits)
      (simp_all add: vector_max_size_def word_le_nat_alt)
  show ok: "buffer_ok h' b"
    using c by (simp add: b h' buffer_ok_def min_def word_le_nat_alt)
  show "h' = h @ [replicate (unat c) 0]" by (rule h')
  show "buffer_bytes h' b = []" and "buffer_capacity h' b = c" and "buffer_headroom b = min r c"
    by (simp_all add: b h' buffer_bytes_some buffer_capacity_def buffer_headroom_def)
  show "buffer_tailroom h' b = c - min r c"
    by (auto simp: b h' buffer_tailroom_def min_def)
qed

lemma slice_spec:
  assumes "buffer_ok h b"
  shows "buffer_ok h (buffer_slice b off cnt)"
    and "buffer_bytes h (buffer_slice b off cnt) =
         (if cnt = npos then drop (unat off) (buffer_bytes h b)
          else take (unat cnt) (drop (unat off) (buffer_bytes h b)))"
proof -
  have *: "buffer_ok h (buffer_slice b off cnt) \<and>
    buffer_bytes h (buffer_slice b off cnt) =
         (if cnt = npos then drop (unat off) (buffer_bytes h b)
          else take (unat cnt) (drop (unat off) (buffer_bytes h b)))"
  proof (cases "buf_storage b = None \<or> off > buf_size b")
    case True
    then have "drop (unat off) (buffer_bytes h b) = []"
      using buffer_bytes_length [OF assms] by (auto simp: buffer_bytes_none word_less_nat_alt)
    then show ?thesis
      using True by (simp add: buffer_slice_def buffer_default_def buffer_ok_def buffer_bytes_none)
  next
    case False
    then obtain a where a: "buf_storage b = Some a" and le: "off \<le> buf_size b"
      by auto
    have B: "a < length h" "length (h ! a) < 2 ^ 63" "unat (buf_offset b) + unat (buf_size b) \<le> length (h ! a)"
      using assms by (simp_all add: buffer_ok_def a)
    have le': "unat off \<le> unat (buf_size b)" and sub: "unat (buf_size b - off) = unat (buf_size b) - unat off"
      using le by (simp_all add: word_le_nat_alt unat_sub_le)
    have add: "unat (buf_offset b + off) = unat (buf_offset b) + unat off"
      using B le' by (intro unat_add_small) simp
    define n where "n = (if cnt = npos \<or> cnt > buf_size b - off then buf_size b - off else cnt)"
    have n: "unat n = (if cnt = npos then unat (buf_size b) - unat off
                       else min (unat cnt) (unat (buf_size b) - unat off))"
      by (auto simp: n_def sub word_less_nat_alt min_def)
    have sl: "buffer_slice b off cnt = \<lparr>buf_storage = Some a, buf_offset = buf_offset b + off, buf_size = n\<rparr>"
      using a le by (simp add: buffer_slice_def Let_def n_def not_less)
    show ?thesis
      using B le' by (simp add: sl buffer_ok_def buffer_bytes_some [OF a] buffer_bytes_some n add drop_take add.commute [of "unat off" "unat (buf_offset b)"])
        (auto simp: min_def)
  qed
  show "buffer_ok h (buffer_slice b off cnt)"
    and "buffer_bytes h (buffer_slice b off cnt) =
         (if cnt = npos then drop (unat off) (buffer_bytes h b)
          else take (unat cnt) (drop (unat off) (buffer_bytes h b)))"
    using * by simp_all
qed

lemma remove_prefix_spec:
  assumes "buffer_ok h b"
  shows "buffer_ok h (buffer_remove_prefix b n)"
    and "buffer_bytes h (buffer_remove_prefix b n) = drop (unat n) (buffer_bytes h b)"
    and "unat (buf_size (buffer_remove_prefix b n)) = unat (buf_size b) - unat n"
proof -
  let ?m = "min n (buf_size b)"
  have b': "buffer_remove_prefix b n = b\<lparr>buf_offset := buf_offset b + ?m, buf_size := buf_size b - ?m\<rparr>"
    by (auto simp: buffer_remove_prefix_def min_def)
  have m: "?m \<le> buf_size b" "unat ?m = min (unat n) (unat (buf_size b))"
    by (auto simp: min_def word_le_nat_alt)
  have sub: "unat (buf_size b - ?m) = unat (buf_size b) - unat n"
    using unat_sub_le [OF m(1)] m(2) by simp
  then show "unat (buf_size (buffer_remove_prefix b n)) = unat (buf_size b) - unat n"
    by (simp add: b')
  have "buffer_ok h (buffer_remove_prefix b n) \<and>
        buffer_bytes h (buffer_remove_prefix b n) = drop (unat n) (buffer_bytes h b)"
  proof (cases "buf_storage b")
    case None
    then show ?thesis using assms by (simp add: b' buffer_ok_def buffer_bytes_none)
  next
    case (Some a)
    have B: "a < length h" "length (h ! a) < 2 ^ 63" "unat (buf_offset b) + unat (buf_size b) \<le> length (h ! a)"
      using assms by (simp_all add: buffer_ok_def Some)
    have add: "unat (buf_offset b + ?m) = unat (buf_offset b) + unat ?m"
      using B m(2) by (intro unat_add_small) simp
    have "unat (buf_size b) \<le> unat n \<or> unat ?m = unat n"
      using m(2) by linarith
    then show ?thesis
      using B Some m(2) by (auto simp: b' buffer_ok_def buffer_bytes_some sub add drop_take add.commute)
  qed
  then show "buffer_ok h (buffer_remove_prefix b n)"
    and "buffer_bytes h (buffer_remove_prefix b n) = drop (unat n) (buffer_bytes h b)"
    by simp_all
qed

lemma remove_suffix_spec:
  assumes "buffer_ok h b"
  shows "buffer_ok h (buffer_remove_suffix b n)"
    and "buffer_bytes h (buffer_remove_suffix b n) =
         take (length (buffer_bytes h b) - unat n) (buffer_bytes h b)"
proof -
  have sub: "unat (buf_size (buffer_remove_suffix b n)) = unat (buf_size b) - unat n"
    by (simp add: buffer_remove_suffix_def unat_sub_le word_le_nat_alt)
  have st: "buf_storage (buffer_remove_suffix b n) = buf_storage b"
    "buf_offset (buffer_remove_suffix b n) = buf_offset b"
    by (simp_all add: buffer_remove_suffix_def)
  show "buffer_ok h (buffer_remove_suffix b n)"
    using assms sub by (auto simp: buffer_ok_def st word_unat_eq_iff split: option.splits)
  show "buffer_bytes h (buffer_remove_suffix b n) =
         take (length (buffer_bytes h b) - unat n) (buffer_bytes h b)"
    using buffer_bytes_length [OF assms]
    by (cases "buf_storage b") (simp_all add: buffer_bytes_none buffer_bytes_some st sub min_absorb1)
qed

lemma append_uninitialized_spec:
  assumes "buffer_ok h b" "buffer_try_append_uninitialized h b n = (ok, b')"
  shows "ok \<longleftrightarrow> n \<le> buffer_tailroom h b"
    and "\<not> ok \<Longrightarrow> b' = b"
    and "ok \<Longrightarrow> buffer_ok h b' \<and> unat (buf_size b') = unat (buf_size b) + unat n \<and>
          take (unat (buf_size b)) (buffer_bytes h b') = buffer_bytes h b"
proof -
  show "ok \<longleftrightarrow> n \<le> buffer_tailroom h b" and "\<not> ok \<Longrightarrow> b' = b"
    using assms(2) by (auto simp: buffer_try_append_uninitialized_def split: if_splits)
  assume ok
  then have le: "n \<le> buffer_tailroom h b" and b': "b' = b\<lparr>buf_size := buf_size b + n\<rparr>"
    using assms(2) by (auto simp: buffer_try_append_uninitialized_def split: if_splits)
  show "buffer_ok h b' \<and> unat (buf_size b') = unat (buf_size b) + unat n \<and>
          take (unat (buf_size b)) (buffer_bytes h b') = buffer_bytes h b"
  proof (cases "buf_storage b")
    case None
    then show ?thesis
      using le assms(1) by (simp add: b' buffer_ok_def buffer_bytes_none buffer_tailroom_def)
  next
    case (Some a)
    have B: "a < length h" "length (h ! a) < 2 ^ 63"
      "unat (buf_offset b) + unat (buf_size b) + unat n \<le> length (h ! a)"
      using assms(1) le tailroom_unat [OF assms(1)] by (auto simp: buffer_ok_def Some word_le_nat_alt)
    then have "unat (buf_size b + n) = unat (buf_size b) + unat n"
      by (intro unat_add_small) simp
    then show ?thesis
      using B Some by (simp add: b' buffer_ok_def buffer_bytes_some min_absorb1)
  qed
qed

text \<open>
  \<^verbatim>\<open>memcpy\<close> asks for ranges that do not overlap: the source view does not reach into the bytes
  that the append is about to write.  A window is untouched by the append when it lies before or
  after those bytes, or in another block.
\<close>

definition append_separate :: "buffer \<Rightarrow> buffer_view \<Rightarrow> bool" where
  "append_separate b v \<longleftrightarrow>
     (case view_data v of
        None \<Rightarrow> True
      | Some p \<Rightarrow> Some (ptr_block p) \<noteq> buf_storage b \<or>
          unat (ptr_offset p) + unat (view_size v) \<le> unat (buf_offset b) + unat (buf_size b) \<or>
          unat (buf_offset b) + unat (buf_size b) + unat (view_size v) \<le> unat (ptr_offset p))"

definition window_apart :: "buffer \<Rightarrow> nat \<Rightarrow> buffer \<Rightarrow> bool" where
  "window_apart b n c \<longleftrightarrow>
     buf_storage c \<noteq> buf_storage b \<or>
     unat (buf_offset c) + unat (buf_size c) \<le> unat (buf_offset b) + unat (buf_size b) \<or>
     unat (buf_offset b) + unat (buf_size b) + n \<le> unat (buf_offset c)"

lemma try_append_cases:
  assumes "buffer_ok h b" "view_ok h v" "buffer_try_append h b v = (ok, h', b')"
  obtains (rejected) "view_size v > buffer_tailroom h b" "\<not> ok" "h' = h" "b' = b"
  | (empty) "view_size v = 0" ok "h' = h" "b' = b"
  | (copied) a where "buf_storage b = Some a" ok "a < length h" "length (h ! a) < 2 ^ 63"
      "unat (buf_offset b) + unat (buf_size b) + unat (view_size v) \<le> length (h ! a)"
      "h' = h[a := write_at (h ! a) (unat (buf_offset b) + unat (buf_size b)) (view_bytes h v)]"
      "b' = b\<lparr>buf_size := buf_size b + view_size v\<rparr>"
      "unat (buf_size b + view_size v) = unat (buf_size b) + unat (view_size v)"
proof (cases "view_size v > buffer_tailroom h b \<or> view_size v = 0")
  case True
  then show ?thesis
    using rejected empty assms(3) by (auto simp: buffer_try_append_def view_empty_def split: if_splits)
next
  case False
  then have le: "view_size v \<le> buffer_tailroom h b" and pos: "view_size v \<noteq> 0"
    by auto
  then obtain a where a: "buf_storage b = Some a"
    by (cases "buf_storage b") (auto simp: buffer_tailroom_def)
  have B: "a < length h" "length (h ! a) < 2 ^ 63"
    "unat (buf_offset b) + unat (buf_size b) + unat (view_size v) \<le> length (h ! a)"
    using assms(1) le tailroom_unat [OF assms(1)] by (auto simp: buffer_ok_def a word_le_nat_alt)
  have "unat (buf_size b + view_size v) = unat (buf_size b) + unat (view_size v)"
    using B by (intro unat_add_small) simp
  then show ?thesis
    using copied [OF a _ B] assms(3) le pos
    by (auto simp: buffer_try_append_def view_empty_def memcpy_def buffer_tail_data_def a
        buffer_end [OF assms(1)] view_bytes_def not_less [symmetric])
qed

lemma try_append_spec:
  assumes "buffer_ok h b" "view_ok h v" "buffer_try_append h b v = (ok, h', b')"
  shows "ok \<longleftrightarrow> view_size v \<le> buffer_tailroom h b"
    and "\<not> ok \<Longrightarrow> h' = h \<and> b' = b"
    and "ok \<Longrightarrow> buffer_ok h' b' \<and> buffer_bytes h' b' = buffer_bytes h b @ view_bytes h v"
    and "length h' = length h \<and> (\<forall>i<length h. length (h' ! i) = length (h ! i))"
    and "buffer_ok h c \<Longrightarrow> window_apart b (unat (view_size v)) c \<Longrightarrow>
           buffer_ok h' c \<and> buffer_bytes h' c = buffer_bytes h c"
proof -
  note len = view_bytes_length [OF assms(2)]
  show "ok \<longleftrightarrow> view_size v \<le> buffer_tailroom h b" and "\<not> ok \<Longrightarrow> h' = h \<and> b' = b"
    using assms(3) by (auto simp: buffer_try_append_def view_empty_def split: if_splits)
  show "ok \<Longrightarrow> buffer_ok h' b' \<and> buffer_bytes h' b' = buffer_bytes h b @ view_bytes h v"
    using assms
  proof (cases rule: try_append_cases)
    case empty
    then show ?thesis using len assms(1) by simp
  next
    case (copied a)
    then show ?thesis
      using len write_at_appends [of "unat (buf_offset b)" "unat (buf_size b)" "view_bytes h v" "h ! a"]
      by (simp add: buffer_ok_def buffer_bytes_some write_at_length)
  qed simp
  show "length h' = length h \<and> (\<forall>i<length h. length (h' ! i) = length (h ! i))"
    using assms by (cases rule: try_append_cases) (simp_all add: len nth_list_update write_at_length)
  assume c: "buffer_ok h c" and apart: "window_apart b (unat (view_size v)) c"
  show "buffer_ok h' c \<and> buffer_bytes h' c = buffer_bytes h c"
    using assms
  proof (cases rule: try_append_cases)
    case (copied a)
    show ?thesis
    proof (cases "buf_storage c")
      case None
      then show ?thesis using c by (simp add: buffer_ok_def buffer_bytes_none)
    next
      case (Some d)
      then show ?thesis
        using c copied apart len write_at_before write_at_after
        by (cases "d = a") (auto simp: buffer_ok_def buffer_bytes_some window_apart_def write_at_length)
    qed
  qed (use c in simp_all)
qed

lemma buffer_copy_spec:
  assumes "view_ok h v" "buffer_copy h v = Inr (h', b)"
  shows "buffer_ok h' b" and "buffer_bytes h' b = view_bytes h v"
    and "buf_storage b = Some (length h)" and "length h' = Suc (length h)" and "\<forall>i<length h. h' ! i = h ! i"
proof -
  obtain h1 where n: "buffer_new h (view_size v) = Inr (h1, b)"
    and h': "h' = (if \<not> view_empty v then memcpy h1 (buffer_data b) (view_data v) (view_size v) else h1)"
    using assms(2) by (auto simp: buffer_copy_def split: sum.splits)
  note N = buffer_new_spec [OF n]
  note len = view_bytes_length [OF assms(1)]
  have same: "load_bytes h1 (view_data v) (view_size v) = view_bytes h v"
    using assms(1) by (auto simp: view_ok_def load_bytes_def view_bytes_def N(3) nth_append split: option.splits)
  have "h' = h @ [view_bytes h v]"
    using len by (auto simp: h' memcpy_def buffer_data_def N(3-6) same [unfolded N(3)] write_at_def view_empty_def list_update_append)
  then show "buffer_ok h' b" and "buffer_bytes h' b = view_bytes h v" and "buf_storage b = Some (length h)"
    and "length h' = Suc (length h)" and "\<forall>i<length h. h' ! i = h ! i"
    using N(1) len by (simp_all add: N(3-6) buffer_ok_def buffer_bytes_some nth_append)
qed

end
