(* ===== verification/Buffer_Chain.thy ===== *)
theory Buffer_Chain
  imports Buffer_Store
begin

section \<open>Chains of buffers\<close>

text \<open>
  \<^verbatim>\<open>BufferChain\<close> of \<^verbatim>\<open>buffer/buffer.hpp\<close>: a vector of buffers with a cursor \<^verbatim>\<open>first_\<close> to the
  first live one and a cached byte count that is recomputed when it is dirty.  The operations
  that the code declares \<^verbatim>\<open>const\<close> change the \<^verbatim>\<open>mutable\<close> fields, so they return the chain too.
  \<^verbatim>\<open>first_\<close> never exceeds the vector's size and is kept as a natural number; the byte count wraps.
\<close>

record buffer_chain =
  chain_buffers :: "buffer list"
  chain_first :: nat
  chain_total_bytes :: u64
  chain_total_dirty :: bool

definition chain_new :: buffer_chain where
  "chain_new = \<lparr>chain_buffers = [], chain_first = 0, chain_total_bytes = 0, chain_total_dirty = False\<rparr>"

definition chain_push_back :: "buffer_chain \<Rightarrow> buffer \<Rightarrow> buffer_chain" where
  "chain_push_back c b =
     (if \<not> buffer_empty b
      then let c' = (if \<not> chain_total_dirty c
                     then c\<lparr>chain_total_bytes := chain_total_bytes c + buf_size b\<rparr> else c)
           in c'\<lparr>chain_buffers := chain_buffers c' @ [b]\<rparr>
      else c)"

definition chain_empty :: "buffer_chain \<Rightarrow> bool" where
  "chain_empty c \<longleftrightarrow> chain_first c \<ge> length (chain_buffers c)"

definition ensure_total_clean :: "buffer_chain \<Rightarrow> buffer_chain" where
  "ensure_total_clean c =
     (if \<not> chain_total_dirty c then c
      else c\<lparr>chain_total_bytes := fold (\<lambda>b total. total + buf_size b) (drop (chain_first c) (chain_buffers c)) 0,
             chain_total_dirty := False\<rparr>)"

definition chain_size :: "buffer_chain \<Rightarrow> u64 \<times> buffer_chain" where
  "chain_size c = (let c' = ensure_total_clean c in (chain_total_bytes c', c'))"

definition chain_clear :: "buffer_chain \<Rightarrow> buffer_chain" where
  "chain_clear c = \<lparr>chain_buffers = [], chain_first = 0, chain_total_bytes = 0, chain_total_dirty = False\<rparr>"

definition compact_front :: "buffer_chain \<Rightarrow> buffer_chain" where
  "compact_front c =
     (if chain_first c = 0 then c
      else if chain_first c \<ge> length (chain_buffers c) then c\<lparr>chain_buffers := [], chain_first := 0\<rparr>
      else c\<lparr>chain_buffers := drop (chain_first c) (chain_buffers c), chain_first := 0\<rparr>)"

definition compact_front_if_needed :: "buffer_chain \<Rightarrow> buffer_chain" where
  "compact_front_if_needed c =
     (if chain_first c \<ge> length (chain_buffers c) then c\<lparr>chain_buffers := [], chain_first := 0\<rparr>
      else if chain_first c \<ge> 32 \<and> chain_first c * 2 \<ge> length (chain_buffers c) then compact_front c
      else c)"

definition chain_pop_front :: "buffer_chain \<Rightarrow> buffer_chain" where
  "chain_pop_front c =
     (if chain_empty c then c
      else let c = ensure_total_clean c;
               c = c\<lparr>chain_total_bytes := chain_total_bytes c - buf_size (chain_buffers c ! chain_first c)\<rparr>;
               c = c\<lparr>chain_first := chain_first c + 1\<rparr>
           in compact_front_if_needed c)"

text \<open>One iteration of the loop of \<^verbatim>\<open>remove_prefix\<close>, and the loop itself.\<close>

definition chain_remove_step :: "buffer_chain \<Rightarrow> u64 \<Rightarrow> buffer_chain \<times> u64" where
  "chain_remove_step c count =
     (let front = chain_buffers c ! chain_first c;
          consumed = (if count < buf_size front then count else buf_size front);
          front' = buffer_remove_prefix front consumed;
          c = c\<lparr>chain_buffers := (chain_buffers c)[chain_first c := front'],
                chain_total_bytes := chain_total_bytes c - consumed\<rparr>
      in (if buffer_empty front' then compact_front_if_needed (c\<lparr>chain_first := chain_first c + 1\<rparr>) else c,
          count - consumed))"

definition live_buffers :: "buffer_chain \<Rightarrow> buffer list" where
  "live_buffers c = drop (chain_first c) (chain_buffers c)"

lemma compact_live [simp]:
  "live_buffers (compact_front c) = live_buffers c"
  "live_buffers (compact_front_if_needed c) = live_buffers c"
  by (simp_all add: live_buffers_def compact_front_def compact_front_if_needed_def)

lemma compact_total [simp]:
  "chain_total_bytes (compact_front c) = chain_total_bytes c"
  "chain_total_bytes (compact_front_if_needed c) = chain_total_bytes c"
  "chain_total_dirty (compact_front c) = chain_total_dirty c"
  "chain_total_dirty (compact_front_if_needed c) = chain_total_dirty c"
  by (simp_all add: compact_front_def compact_front_if_needed_def)

lemma chain_empty_live: "chain_empty c \<longleftrightarrow> live_buffers c = []"
  by (simp add: chain_empty_def live_buffers_def)

lemma live_front:
  assumes "\<not> chain_empty c"
  shows "live_buffers c = chain_buffers c ! chain_first c # drop (Suc (chain_first c)) (chain_buffers c)"
  using assms by (simp add: live_buffers_def chain_empty_def Cons_nth_drop_Suc)

lemma remove_step_live:
  assumes "live_buffers c = b # bs"
  shows "live_buffers (fst (chain_remove_step c n)) =
           (if n < buf_size b then buffer_remove_prefix b n # bs else bs)"
    and "snd (chain_remove_step c n) = (if n < buf_size b then 0 else n - buf_size b)"
    and "chain_total_bytes (fst (chain_remove_step c n)) = chain_total_bytes c - min n (buf_size b)"
    and "chain_total_dirty (fst (chain_remove_step c n)) = chain_total_dirty c"
proof -
  have lt: "chain_first c < length (chain_buffers c)"
    using assms by (simp add: live_buffers_def) (metis drop_eq_Nil2 list.distinct(1) not_le)
  have b: "chain_buffers c ! chain_first c = b" and bs: "drop (Suc (chain_first c)) (chain_buffers c) = bs"
    using live_front [of c] assms lt by (simp_all add: chain_empty_def)
  show "live_buffers (fst (chain_remove_step c n)) =
           (if n < buf_size b then buffer_remove_prefix b n # bs else bs)"
    using lt bs by (simp add: chain_remove_step_def Let_def b buffer_remove_prefix_def buffer_empty_def not_less)
      (auto simp: live_buffers_def drop_update_first)
  show "snd (chain_remove_step c n) = (if n < buf_size b then 0 else n - buf_size b)"
    and "chain_total_bytes (fst (chain_remove_step c n)) = chain_total_bytes c - min n (buf_size b)"
    and "chain_total_dirty (fst (chain_remove_step c n)) = chain_total_dirty c"
    by (auto simp: chain_remove_step_def Let_def b min_def)
qed

function chain_remove_loop :: "buffer_chain \<Rightarrow> u64 \<Rightarrow> buffer_chain" where
  "chain_remove_loop c count =
     (if count \<noteq> 0 \<and> \<not> chain_empty c
      then chain_remove_loop (fst (chain_remove_step c count)) (snd (chain_remove_step c count))
      else c)"
  by auto
termination
proof (relation "measures [\<lambda>(c, n). length (live_buffers c), \<lambda>(c, n). unat n]", simp)
  fix c :: buffer_chain and n :: u64
  assume "n \<noteq> 0 \<and> \<not> chain_empty c"
  moreover from this obtain b bs where "live_buffers c = b # bs"
    by (auto simp: chain_empty_live neq_Nil_conv)
  ultimately show "((fst (chain_remove_step c n), snd (chain_remove_step c n)), c, n)
      \<in> measures [\<lambda>(c, n). length (live_buffers c), \<lambda>(c, n). unat n]"
    using remove_step_live [of c b bs n] by (auto simp: unat_gt_0)
qed

declare chain_remove_loop.simps [simp del]

definition chain_remove_prefix :: "buffer_chain \<Rightarrow> u64 \<Rightarrow> buffer_chain" where
  "chain_remove_prefix c count = chain_remove_loop (ensure_total_clean c) count"

definition chain_buffers_mut :: "buffer_chain \<Rightarrow> buffer list \<times> buffer_chain" where
  "chain_buffers_mut c =
     (let c = (compact_front c)\<lparr>chain_total_dirty := True\<rparr> in (chain_buffers c, c))"

definition chain_buffers_const :: "buffer_chain \<Rightarrow> buffer list \<times> buffer_chain" where
  "chain_buffers_const c = (let c = compact_front c in (chain_buffers c, c))"

fun fill_views_loop :: "buffer list \<Rightarrow> nat \<Rightarrow> buffer_view list" where
  "fill_views_loop [] room = []"
| "fill_views_loop (b # bs) room =
     (if room = 0 then []
      else if buffer_empty b then fill_views_loop bs room
      else buffer_view_of b # fill_views_loop bs (room - 1))"

definition chain_fill_views :: "buffer_chain \<Rightarrow> nat \<Rightarrow> buffer_view list" where
  "chain_fill_views c room = fill_views_loop (drop (chain_first c) (chain_buffers c)) room"

subsection \<open>Invariant and bytes\<close>

definition chain_ok :: "store \<Rightarrow> buffer_chain \<Rightarrow> bool" where
  "chain_ok h c \<longleftrightarrow>
     chain_first c \<le> length (chain_buffers c) \<and> list_all (buffer_ok h) (live_buffers c) \<and>
     (\<not> chain_total_dirty c \<longrightarrow> chain_total_bytes c = sum_list (map buf_size (live_buffers c)))"

definition chain_bytes :: "store \<Rightarrow> buffer_chain \<Rightarrow> u8 list" where
  "chain_bytes h c = concat (map (buffer_bytes h) (live_buffers c))"

lemma fold_size: "fold (\<lambda>b total. total + buf_size b) bs t = t + sum_list (map buf_size bs)"
  by (induction bs arbitrary: t) (simp_all add: add.assoc)

lemma ensure_clean_live [simp]: "live_buffers (ensure_total_clean c) = live_buffers c"
  by (simp add: ensure_total_clean_def live_buffers_def)

lemma ensure_clean_spec:
  assumes "chain_ok h c"
  shows "chain_ok h (ensure_total_clean c)" and "\<not> chain_total_dirty (ensure_total_clean c)"
    and "chain_bytes h (ensure_total_clean c) = chain_bytes h c"
    and "chain_first (ensure_total_clean c) = chain_first c"
    and "chain_buffers (ensure_total_clean c) = chain_buffers c"
  using assms by (auto simp: chain_ok_def chain_bytes_def ensure_total_clean_def fold_size live_buffers_def)

lemma chain_length:
  "list_all (buffer_ok h) bs \<Longrightarrow>
   sum_list (map buf_size bs) = of_nat (length (concat (map (buffer_bytes h) bs)))"
  by (induction bs) (simp_all add: buffer_bytes_length)

lemma chain_new_ok: "chain_ok h chain_new" "chain_bytes h chain_new = []"
  by (simp_all add: chain_ok_def chain_new_def chain_bytes_def live_buffers_def)

lemma chain_clear_ok: "chain_ok h (chain_clear c)" "chain_bytes h (chain_clear c) = []"
  by (simp_all add: chain_ok_def chain_clear_def chain_bytes_def live_buffers_def)

lemma chain_size_spec:
  assumes "chain_ok h c" "chain_size c = (n, c')"
  shows "n = of_nat (length (chain_bytes h c))" and "chain_ok h c'" and "chain_bytes h c' = chain_bytes h c"
proof -
  note E = ensure_clean_spec [OF assms(1)]
  have n: "n = chain_total_bytes (ensure_total_clean c)" and c': "c' = ensure_total_clean c"
    using assms(2) by (auto simp: chain_size_def Let_def)
  show "n = of_nat (length (chain_bytes h c))"
    using E(1,2) chain_length [of h "live_buffers c"] by (simp add: n chain_ok_def chain_bytes_def)
  show "chain_ok h c'" and "chain_bytes h c' = chain_bytes h c"
    using E by (simp_all add: c')
qed

lemma chain_push_back_spec:
  assumes "chain_ok h c" "buffer_ok h b"
  shows "chain_ok h (chain_push_back c b)"
    and "chain_bytes h (chain_push_back c b) = chain_bytes h c @ buffer_bytes h b"
proof -
  have e: "buffer_bytes h b = []" if "buffer_empty b"
    using that buffer_bytes_length [OF assms(2)] by (simp add: buffer_empty_def)
  have l: "live_buffers (chain_push_back c b) = (if buffer_empty b then live_buffers c else live_buffers c @ [b])"
    using assms(1) by (simp add: chain_push_back_def Let_def live_buffers_def chain_ok_def)
  have f: "chain_first (chain_push_back c b) \<le> length (chain_buffers (chain_push_back c b))"
    using assms(1) by (simp add: chain_push_back_def Let_def chain_ok_def)
  have t: "chain_total_dirty (chain_push_back c b) = chain_total_dirty c"
    "\<not> chain_total_dirty c \<Longrightarrow> chain_total_bytes (chain_push_back c b) = chain_total_bytes c + buf_size b"
    by (auto simp: chain_push_back_def Let_def buffer_empty_def)
  show "chain_bytes h (chain_push_back c b) = chain_bytes h c @ buffer_bytes h b"
    using e by (simp add: chain_bytes_def l)
  show "chain_ok h (chain_push_back c b)"
    using assms f unfolding chain_ok_def t(1) l by (auto simp: t(2) buffer_empty_def)
qed

lemma compact_first_le:
  "chain_first c \<le> length (chain_buffers c) \<Longrightarrow>
   chain_first (compact_front_if_needed c) \<le> length (chain_buffers (compact_front_if_needed c))"
  by (simp add: compact_front_if_needed_def compact_front_def)

lemma chain_pop_front_spec:
  assumes "chain_ok h c"
  shows "chain_ok h (chain_pop_front c)"
    and "live_buffers (chain_pop_front c) = tl (live_buffers c)"
proof -
  have "chain_ok h (chain_pop_front c) \<and> live_buffers (chain_pop_front c) = tl (live_buffers c)"
  proof (cases "chain_empty c")
    case True
    then show ?thesis using assms by (simp add: chain_pop_front_def chain_empty_live)
  next
    case False
    let ?e = "ensure_total_clean c"
    define d where "d = ?e\<lparr>chain_total_bytes := chain_total_bytes ?e - buf_size (chain_buffers c ! chain_first c),
                          chain_first := chain_first c + 1\<rparr>"
    note E = ensure_clean_spec [OF assms]
    have L: "live_buffers c = chain_buffers c ! chain_first c # live_buffers d"
      using live_front [OF False] by (simp add: d_def live_buffers_def E)
    have "chain_first d \<le> length (chain_buffers d)"
      using False by (simp add: d_def chain_empty_def E)
    moreover have "chain_total_bytes d = chain_total_bytes ?e - buf_size (chain_buffers c ! chain_first c)"
      by (simp add: d_def)
    ultimately have "chain_ok h (compact_front_if_needed d)"
      using E(1,2) L by (simp add: chain_ok_def compact_first_le)
    moreover have "chain_pop_front c = compact_front_if_needed d"
      using False by (simp add: chain_pop_front_def Let_def d_def E)
    ultimately show ?thesis using L by simp
  qed
  then show "chain_ok h (chain_pop_front c)" and "live_buffers (chain_pop_front c) = tl (live_buffers c)"
    by simp_all
qed

lemma remove_step_first_le:
  assumes "chain_first c < length (chain_buffers c)"
  shows "chain_first (fst (chain_remove_step c n)) \<le> length (chain_buffers (fst (chain_remove_step c n)))"
  using assms by (simp add: chain_remove_step_def Let_def compact_first_le)

lemma remove_step_spec:
  assumes ok: "chain_ok h c" and clean: "\<not> chain_total_dirty c" and ne: "\<not> chain_empty c"
  shows "chain_ok h (fst (chain_remove_step c n))" and "\<not> chain_total_dirty (fst (chain_remove_step c n))"
    and "drop (unat (snd (chain_remove_step c n))) (chain_bytes h (fst (chain_remove_step c n))) =
         drop (unat n) (chain_bytes h c)"
proof -
  obtain b bs where l: "live_buffers c = b # bs"
    using ne by (auto simp: chain_empty_live neq_Nil_conv)
  note S = remove_step_live [OF l, of n]
  have b: "buffer_ok h b"
    using ok by (simp add: chain_ok_def l)
  show "\<not> chain_total_dirty (fst (chain_remove_step c n))"
    using clean S(4) by simp
  have "chain_first (fst (chain_remove_step c n)) \<le> length (chain_buffers (fst (chain_remove_step c n)))"
    by (rule remove_step_first_le) (use ne in \<open>simp add: chain_empty_def\<close>)
  moreover have "buf_size (buffer_remove_prefix b n) = buf_size b - n" if "n < buf_size b"
    using that by (auto simp: buffer_remove_prefix_def)
  ultimately show "chain_ok h (fst (chain_remove_step c n))"
    using ok clean remove_prefix_spec(1) [OF b, of n] unfolding chain_ok_def S(1,3) l
    by (auto simp: min_def)
  show "drop (unat (snd (chain_remove_step c n))) (chain_bytes h (fst (chain_remove_step c n))) =
         drop (unat n) (chain_bytes h c)"
  proof (cases "n < buf_size b")
    case True
    then show ?thesis
      using remove_prefix_spec(2) [OF b, of n] buffer_bytes_length [OF b]
      by (simp add: chain_bytes_def S l word_less_nat_alt)
  next
    case False
    then have "unat (n - buf_size b) = unat n - unat (buf_size b)" "unat (buf_size b) \<le> unat n"
      by (simp_all add: unat_sub_le word_le_nat_alt not_less)
    with False show ?thesis
      using buffer_bytes_length [OF b] by (simp add: chain_bytes_def S l)
  qed
qed

lemma chain_remove_loop_spec:
  assumes "chain_ok h c" "\<not> chain_total_dirty c"
  shows "chain_ok h (chain_remove_loop c n) \<and> \<not> chain_total_dirty (chain_remove_loop c n) \<and>
         chain_bytes h (chain_remove_loop c n) = drop (unat n) (chain_bytes h c)"
  using assms
proof (induction c n rule: chain_remove_loop.induct)
  case (1 c n)
  show ?case
  proof (cases "n \<noteq> 0 \<and> \<not> chain_empty c")
    case True
    then show ?thesis
      using "1.IH" remove_step_spec [OF "1.prems", of n] by (simp add: chain_remove_loop.simps [of c n])
  next
    case False
    then show ?thesis
      using "1.prems" by (auto simp: chain_remove_loop.simps [of c n] chain_empty_live chain_bytes_def)
  qed
qed

lemma chain_remove_prefix_spec:
  assumes "chain_ok h c"
  shows "chain_ok h (chain_remove_prefix c n)"
    and "chain_bytes h (chain_remove_prefix c n) = drop (unat n) (chain_bytes h c)"
  using chain_remove_loop_spec [OF ensure_clean_spec(1,2) [OF assms]] ensure_clean_spec(3) [OF assms]
  by (simp_all add: chain_remove_prefix_def)

lemma chain_buffers_spec:
  assumes "chain_ok h c"
  shows "chain_ok h (snd (chain_buffers_const c))" "fst (chain_buffers_const c) = live_buffers c"
    "chain_ok h (snd (chain_buffers_mut c))" "fst (chain_buffers_mut c) = live_buffers c"
    "chain_total_dirty (snd (chain_buffers_mut c))"
proof -
  have "chain_buffers (compact_front c) = live_buffers c" "chain_first (compact_front c) = 0"
    by (simp_all add: compact_front_def live_buffers_def)
  then show "chain_ok h (snd (chain_buffers_const c))" "fst (chain_buffers_const c) = live_buffers c"
    "chain_ok h (snd (chain_buffers_mut c))" "fst (chain_buffers_mut c) = live_buffers c"
    "chain_total_dirty (snd (chain_buffers_mut c))"
    using assms by (simp_all add: chain_buffers_const_def chain_buffers_mut_def Let_def chain_ok_def live_buffers_def)
qed

lemma fill_views_loop_spec:
  "list_all (buffer_ok h) bs \<Longrightarrow>
   length (fill_views_loop bs n) \<le> n \<and>
   (\<forall>v \<in> set (fill_views_loop bs n). view_size v \<noteq> 0 \<and> view_ok h v) \<and>
   (\<exists>rest. concat (map (buffer_bytes h) bs) = concat (map (view_bytes h) (fill_views_loop bs n)) @ rest \<and>
           (length (fill_views_loop bs n) < n \<longrightarrow> rest = []))"
proof (induction bs n rule: fill_views_loop.induct)
  case (2 b bs room)
  have e: "buffer_empty b \<Longrightarrow> buffer_bytes h b = []"
    using buffer_bytes_length [of h b] "2.prems" by (auto simp: buffer_empty_def)
  have ok: "view_ok h (buffer_view_of b)" "view_size (buffer_view_of b) = buf_size b"
    using "2.prems" by (auto simp: view_ok_def buffer_view_of_def buffer_data_def buffer_ok_def split: option.splits)
  consider (full) "room = 0" | (skip) "room \<noteq> 0" "buffer_empty b" | (take) "room \<noteq> 0" "\<not> buffer_empty b"
    by blast
  then show ?case
  proof cases
    case skip
    then show ?thesis using 2 e by simp
  next
    case take
    then obtain rest where "concat (map (buffer_bytes h) bs) =
        concat (map (view_bytes h) (fill_views_loop bs (room - 1))) @ rest"
      "length (fill_views_loop bs (room - 1)) < room - 1 \<longrightarrow> rest = []"
      using "2.IH"(2) "2.prems" by auto
    then show ?thesis
      using take "2.IH"(2) "2.prems" ok by (auto simp: buffer_bytes_def buffer_empty_def)
  qed simp
qed simp

subsection \<open>Sources that are consumed from the front\<close>

text \<open>
  What the senders rely on: after \<^verbatim>\<open>n\<close> bytes have gone out, \<^verbatim>\<open>remove_prefix(n)\<close> leaves exactly the
  bytes that have not.  \<open>write_out\<close> is that use: a sequence of partial writes.
\<close>

fun write_out :: "('s \<Rightarrow> u8 list) \<Rightarrow> ('s \<Rightarrow> u64 \<Rightarrow> 's) \<Rightarrow> 's \<Rightarrow> u64 list \<Rightarrow> u8 list \<times> 's" where
  "write_out bytes consume s [] = ([], s)"
| "write_out bytes consume s (n # ns) =
     (let (sent, s') = write_out bytes consume (consume s n) ns in (take (unat n) (bytes s) @ sent, s'))"

locale byte_source =
  fixes ok :: "'s \<Rightarrow> bool"
    and bytes :: "'s \<Rightarrow> u8 list"
    and consume :: "'s \<Rightarrow> u64 \<Rightarrow> 's"
  assumes consume_ok: "ok s \<Longrightarrow> ok (consume s n)"
    and consume_bytes: "ok s \<Longrightarrow> bytes (consume s n) = drop (unat n) (bytes s)"
begin

lemma write_out_ok: "ok s \<Longrightarrow> write_out bytes consume s ns = (sent, s') \<Longrightarrow> ok s'"
  by (induction ns arbitrary: s sent) (auto dest: consume_ok split: prod.splits)

lemma write_out_complete:
  "ok s \<Longrightarrow> write_out bytes consume s ns = (sent, s') \<Longrightarrow> sent @ bytes s' = bytes s"
proof (induction ns arbitrary: s sent)
  case (Cons n ns)
  then obtain rest where "write_out bytes consume (consume s n) ns = (rest, s')"
    and "sent = take (unat n) (bytes s) @ rest"
    by (auto split: prod.splits)
  with Cons show ?case
    using Cons.IH [OF consume_ok] by (simp add: consume_bytes)
qed simp

end

interpretation buffer_source: byte_source "buffer_ok h" "buffer_bytes h" buffer_remove_prefix for h
  by unfold_locales (simp_all add: remove_prefix_spec)

interpretation chain_source: byte_source "chain_ok h" "chain_bytes h" chain_remove_prefix for h
  by unfold_locales (simp_all add: chain_remove_prefix_spec)

subsection \<open>Properties\<close>

text \<open>
  Appending a view to a buffer succeeds exactly when the view fits in the tail room.  Then
  the buffer's bytes are the old ones followed by the view's, and every other window on the
  shared storage that does not reach into the written range keeps its bytes; a refused append
  changes nothing.  The view does not overlap the destination, as \<^verbatim>\<open>memcpy\<close> requires.
\<close>

theorem buffer_try_append_correct:
  assumes "buffer_ok h b" and "view_ok h v" and "append_separate b v"
    and "buffer_try_append h b v = (ok, h', b')"
  shows "(ok \<longleftrightarrow> view_size v \<le> buffer_tailroom h b) \<and>
         (if ok then buffer_ok h' b' \<and> buffer_bytes h' b' = buffer_bytes h b @ view_bytes h v
          else h' = h \<and> b' = b) \<and>
         (\<forall>c. buffer_ok h c \<longrightarrow> window_apart b (unat (view_size v)) c \<longrightarrow>
              buffer_ok h' c \<and> buffer_bytes h' c = buffer_bytes h c)"
  using try_append_spec [OF assms(1,2,4)] by simp

theorem buffer_try_append_correct_witness:
  "let h = [[1, 2, 0, 0], [9, 8]];
       b = \<lparr>buf_storage = Some 0, buf_offset = 0, buf_size = 2\<rparr>;
       v = \<lparr>view_data = Some \<lparr>ptr_block = 1, ptr_offset = 0\<rparr>, view_size = 2\<rparr>
   in fst (buffer_try_append h b v) \<and> fst (snd (buffer_try_append h b v)) = [[1, 2, 9, 8], [9, 8]] \<and>
      buffer_bytes (fst (snd (buffer_try_append h b v))) (snd (snd (buffer_try_append h b v))) = [1, 2, 9, 8]"
  using buffer_try_append_correct [of "[[1, 2, 0, 0], [9, 8]]" "\<lparr>buf_storage = Some 0, buf_offset = 0, buf_size = 2\<rparr>"
      "\<lparr>view_data = Some \<lparr>ptr_block = 1, ptr_offset = 0\<rparr>, view_size = 2\<rparr>" True "[[1, 2, 9, 8], [9, 8]]"
      "\<lparr>buf_storage = Some 0, buf_offset = 0, buf_size = 4\<rparr>"]
  by (simp add: buffer_ok_def view_ok_def append_separate_def buffer_try_append_def buffer_tailroom_def
      view_empty_def memcpy_def buffer_tail_data_def load_bytes_def write_at_def buffer_bytes_some view_bytes_def)

text \<open>
  A slice denotes exactly the requested sub-range of the buffer's bytes, clipped to its end,
  and is a well-formed window on the store.
\<close>

theorem buffer_slice_correct:
  assumes "buffer_ok h b"
  shows "buffer_ok h (buffer_slice b off cnt) \<and>
         buffer_bytes h (buffer_slice b off cnt) =
           (if cnt = npos then drop (unat off) (buffer_bytes h b)
            else take (unat cnt) (drop (unat off) (buffer_bytes h b)))"
  using slice_spec [OF assms] by blast

theorem buffer_slice_correct_witness:
  "buffer_bytes [[1, 2, 3, 4]] (buffer_slice \<lparr>buf_storage = Some 0, buf_offset = 1, buf_size = 3\<rparr> 1 1) = [3]"
  using buffer_slice_correct [of "[[1, 2, 3, 4]]" "\<lparr>buf_storage = Some 0, buf_offset = 1, buf_size = 3\<rparr>" 1 1]
  by (simp add: buffer_ok_def buffer_bytes_some npos_def)

text \<open>
  Removing a prefix of a chain drops exactly that many bytes from the front, across buffer
  boundaries and compactions, terminates, and keeps the cached byte count equal to the number of
  live bytes, which is what \<^verbatim>\<open>size()\<close> returns.
\<close>

theorem chain_remove_prefix_correct:
  assumes "chain_ok h c"
  shows "chain_ok h (chain_remove_prefix c n) \<and>
         chain_bytes h (chain_remove_prefix c n) = drop (unat n) (chain_bytes h c) \<and>
         fst (chain_size (chain_remove_prefix c n)) = of_nat (length (chain_bytes h c) - unat n)"
  using chain_remove_prefix_spec [OF assms, of n]
    chain_size_spec(1) [OF chain_remove_prefix_spec(1) [OF assms, of n] surjective_pairing]
  by simp

definition two_buffer_chain :: buffer_chain where
  "two_buffer_chain = chain_push_back
     (chain_push_back chain_new \<lparr>buf_storage = Some 0, buf_offset = 0, buf_size = 2\<rparr>)
     \<lparr>buf_storage = Some 0, buf_offset = 1, buf_size = 3\<rparr>"

lemma two_buffer_chain_ok:
  "chain_ok [[1, 2, 3, 4]] two_buffer_chain" "chain_bytes [[1, 2, 3, 4]] two_buffer_chain = [1, 2, 2, 3, 4]"
  by (simp_all add: two_buffer_chain_def chain_push_back_spec chain_new_ok buffer_ok_def buffer_bytes_some)

theorem chain_remove_prefix_correct_witness:
  "chain_bytes [[1, 2, 3, 4]] (chain_remove_prefix two_buffer_chain 3) = [3, 4] \<and>
   fst (chain_size (chain_remove_prefix two_buffer_chain 3)) = 2"
  using chain_remove_prefix_correct [OF two_buffer_chain_ok(1), of 3] by (simp add: two_buffer_chain_ok)

text \<open>
  Partial writes lose and duplicate nothing: however a sender splits its writes, the bytes it
  sent followed by what the chain still holds are the bytes the chain held at first.
\<close>

theorem chain_partial_writes_complete:
  assumes "chain_ok h c" and "write_out (chain_bytes h) chain_remove_prefix c ns = (sent, c')"
  shows "chain_ok h c' \<and> sent @ chain_bytes h c' = chain_bytes h c"
  using chain_source.write_out_ok [OF assms] chain_source.write_out_complete [OF assms] by simp

theorem chain_partial_writes_complete_witness:
  "fst (write_out (chain_bytes [[1, 2, 3, 4]]) chain_remove_prefix two_buffer_chain [1, 3]) @
   chain_bytes [[1, 2, 3, 4]] (snd (write_out (chain_bytes [[1, 2, 3, 4]]) chain_remove_prefix two_buffer_chain [1, 3])) =
   [1, 2, 2, 3, 4]"
  using chain_partial_writes_complete [OF two_buffer_chain_ok(1) surjective_pairing]
  by (simp only: two_buffer_chain_ok)

text \<open>
  The views handed to a vectored write are at most as many as asked for, none is empty, and
  together they are a prefix of the chain's bytes; all of them when there was room to spare.
\<close>

theorem chain_fill_views_correct:
  assumes "chain_ok h c"
  shows "length (chain_fill_views c n) \<le> n \<and>
         (\<forall>v \<in> set (chain_fill_views c n). view_size v \<noteq> 0 \<and> view_ok h v) \<and>
         (\<exists>rest. chain_bytes h c = concat (map (view_bytes h) (chain_fill_views c n)) @ rest \<and>
                 (length (chain_fill_views c n) < n \<longrightarrow> rest = []))"
  using fill_views_loop_spec [of h "live_buffers c" n] assms
  by (simp add: chain_ok_def chain_fill_views_def chain_bytes_def flip: live_buffers_def)

theorem chain_fill_views_correct_witness:
  "length (chain_fill_views two_buffer_chain 1) \<le> 1"
  using chain_fill_views_correct [OF two_buffer_chain_ok(1), of 1] by blast

end
