(* ===== verification/Batch_Sequencer.thy ===== *)
theory Batch_Sequencer
  imports Af_Prelude
begin

section \<open>Ordered batches\<close>

text \<open>
  \<^verbatim>\<open>batch_sequencer.hpp\<close>: the retry policy and \<^verbatim>\<open>BatchSequencer\<close>; and \<^verbatim>\<open>OrderedStartState\<close> of
  \<^verbatim>\<open>detail/runtime/runtime_parallel.hpp\<close>, which does the same with a fallible start.

  \<^verbatim>\<open>absl::flat_hash_map\<close> is not part of the repository: its operations are the argument \<open>M\<close> of the
  definitions, and \<open>hash_map_laws M\<close> states the documented behaviour they rely on.  The callback
  \<^verbatim>\<open>submit_fn\<close> and \<^verbatim>\<open>start_task\<close> are arguments too, as functions on a state of the caller's.
\<close>

record ('m, 'k, 'v) hash_map_ops =
  hm_empty :: 'm
  hm_find :: "'m \<Rightarrow> 'k \<Rightarrow> 'v option"
  hm_assign :: "'m \<Rightarrow> 'k \<Rightarrow> 'v \<Rightarrow> 'm"
  hm_emplace :: "'m \<Rightarrow> 'k \<Rightarrow> 'v \<Rightarrow> 'm \<times> bool"
  hm_erase :: "'m \<Rightarrow> 'k \<Rightarrow> 'm"

text \<open>
  \<open>hm_assign\<close> is \<^verbatim>\<open>m[k] = v\<close>; \<open>hm_emplace\<close> inserts only when the key is absent and says whether it did.
\<close>

definition hash_map_laws :: "('m, 'k, 'v) hash_map_ops \<Rightarrow> bool" where
  "hash_map_laws M \<longleftrightarrow>
     (\<forall>k. hm_find M (hm_empty M) k = None) \<and>
     (\<forall>m k v. hm_find M (hm_assign M m k v) = (hm_find M m)(k \<mapsto> v)) \<and>
     (\<forall>m k v. snd (hm_emplace M m k v) \<longleftrightarrow> hm_find M m k = None) \<and>
     (\<forall>m k v. hm_find M (fst (hm_emplace M m k v)) =
                (if hm_find M m k = None then (hm_find M m)(k \<mapsto> v) else hm_find M m)) \<and>
     (\<forall>m k. hm_find M (hm_erase M m k) = (hm_find M m)(k := None)) \<and>
     (\<forall>m. finite (dom (hm_find M m)))"

lemma hash_map_lawsD:
  assumes "hash_map_laws M"
  shows "hm_find M (hm_empty M) k = None"
    and "hm_find M (hm_assign M m k v) = (hm_find M m)(k \<mapsto> v)"
    and "snd (hm_emplace M m k v) \<longleftrightarrow> hm_find M m k = None"
    and "hm_find M (fst (hm_emplace M m k v)) =
           (if hm_find M m k = None then (hm_find M m)(k \<mapsto> v) else hm_find M m)"
    and "hm_find M (hm_erase M m k) = (hm_find M m)(k := None)"
    and "finite (dom (hm_find M m))"
  using assms by (simp_all add: hash_map_laws_def)

text \<open>An association list is such a map.\<close>

definition alist_ops :: "(('k \<times> 'v) list, 'k, 'v) hash_map_ops" where
  "alist_ops = \<lparr>hm_empty = [], hm_find = map_of, hm_assign = (\<lambda>m k v. (k, v) # m),
     hm_emplace = (\<lambda>m k v. if map_of m k = None then ((k, v) # m, True) else (m, False)),
     hm_erase = (\<lambda>m k. filter (\<lambda>(k', _). k' \<noteq> k) m)\<rparr>"

lemma map_of_erase: "map_of (filter (\<lambda>(k', _). k' \<noteq> k) m) = (map_of m)(k := None)"
  by (induction m) (auto simp: fun_eq_iff)

lemma alist_ops_laws: "hash_map_laws alist_ops"
  by (auto simp: hash_map_laws_def alist_ops_def map_of_erase finite_dom_map_of)

subsection \<open>Retry policy\<close>

datatype OrderedBatchFailureAction = Retry | Skip | Stop

record OrderedBatchRetrySkipOptions =
  max_retries :: u32
  skip_after_retries :: bool

record OrderedBatchFailureDecision =
  action :: OrderedBatchFailureAction
  failure_count_of :: u32

record 'm retry_policy =
  policy_options :: OrderedBatchRetrySkipOptions
  policy_failures :: 'm

definition policy_new :: "('m, 'k, u32) hash_map_ops \<Rightarrow> OrderedBatchRetrySkipOptions \<Rightarrow> 'm retry_policy" where
  "policy_new M opts = \<lparr>policy_options = opts, policy_failures = hm_empty M\<rparr>"

definition record_failure ::
    "('m, 'k, u32) hash_map_ops \<Rightarrow> 'm retry_policy \<Rightarrow> 'k \<Rightarrow> OrderedBatchFailureDecision \<times> 'm retry_policy" where
  "record_failure M p batch_id =
     (let failure_count = (case hm_find M (policy_failures p) batch_id of None \<Rightarrow> 0 | Some n \<Rightarrow> n) + 1;
          p' = p\<lparr>policy_failures := hm_assign M (policy_failures p) batch_id failure_count\<rparr>
      in if failure_count \<le> max_retries (policy_options p)
         then (\<lparr>action = Retry, failure_count_of = failure_count\<rparr>, p')
         else if skip_after_retries (policy_options p)
         then (\<lparr>action = Skip, failure_count_of = failure_count\<rparr>, p')
         else (\<lparr>action = Stop, failure_count_of = failure_count\<rparr>, p'))"

definition record_success :: "('m, 'k, u32) hash_map_ops \<Rightarrow> 'm retry_policy \<Rightarrow> 'k \<Rightarrow> 'm retry_policy" where
  "record_success M p batch_id = p\<lparr>policy_failures := hm_erase M (policy_failures p) batch_id\<rparr>"

definition policy_reset :: "('m, 'k, u32) hash_map_ops \<Rightarrow> 'm retry_policy \<Rightarrow> 'k \<Rightarrow> 'm retry_policy" where
  "policy_reset M p batch_id = p\<lparr>policy_failures := hm_erase M (policy_failures p) batch_id\<rparr>"

definition policy_clear :: "('m, 'k, u32) hash_map_ops \<Rightarrow> 'm retry_policy \<Rightarrow> 'm retry_policy" where
  "policy_clear M p = p\<lparr>policy_failures := hm_empty M\<rparr>"

definition failure_count :: "('m, 'k, u32) hash_map_ops \<Rightarrow> 'm retry_policy \<Rightarrow> 'k \<Rightarrow> u32" where
  "failure_count M p batch_id =
     (case hm_find M (policy_failures p) batch_id of None \<Rightarrow> 0 | Some n \<Rightarrow> n)"

text \<open>A history of reports to the policy, and the decisions it gives.\<close>

datatype 'k policy_event = Failure 'k | Success 'k

fun policy_run ::
    "('m, 'k, u32) hash_map_ops \<Rightarrow> 'm retry_policy \<Rightarrow> 'k policy_event list \<Rightarrow> 'm retry_policy" where
  "policy_run M p [] = p"
| "policy_run M p (Failure k # es) = policy_run M (snd (record_failure M p k)) es"
| "policy_run M p (Success k # es) = policy_run M (record_success M p k) es"

text \<open>Failures of a batch since its last success.\<close>

fun recent_failures :: "'k \<Rightarrow> 'k policy_event list \<Rightarrow> nat \<Rightarrow> nat" where
  "recent_failures k [] n = n"
| "recent_failures k (Failure j # es) n = recent_failures k es (if j = k then Suc n else n)"
| "recent_failures k (Success j # es) n = recent_failures k es (if j = k then 0 else n)"

lemma failure_count_step:
  assumes "hash_map_laws M"
  shows "failure_count M (snd (record_failure M p j)) k =
           (if j = k then failure_count M p k + 1 else failure_count M p k)"
    and "failure_count M (record_success M p j) k = (if j = k then 0 else failure_count M p k)"
  by (auto simp: failure_count_def record_failure_def record_success_def Let_def hash_map_lawsD [OF assms])

lemma policy_options_kept [simp]:
  "policy_options (snd (record_failure M p j)) = policy_options p"
  "policy_options (record_success M p j) = policy_options p"
  by (simp_all add: record_failure_def record_success_def Let_def)

lemma policy_run_count:
  assumes "hash_map_laws M"
  shows "failure_count M p k = of_nat n \<Longrightarrow>
    failure_count M (policy_run M p es) k = of_nat (recent_failures k es n) \<and>
    policy_options (policy_run M p es) = policy_options p"
proof (induction es arbitrary: p n)
  case (Cons e es)
  show ?case
  proof (cases e)
    case (Failure j)
    then show ?thesis
      using Cons.IH [of "snd (record_failure M p j)" "if j = k then Suc n else n"] Cons.prems
      by (simp add: failure_count_step [OF assms] add.commute)
  next
    case (Success j)
    then show ?thesis
      using Cons.IH [of "record_success M p j" "if j = k then 0 else n"] Cons.prems
      by (simp add: failure_count_step [OF assms])
  qed
qed simp

subsection \<open>The sequencer\<close>

datatype BatchSubmitStatus = Submitted | Buffered | Duplicate

record 'm sequencer =
  next_batch_id :: u64
  pending :: 'm

definition sequencer_new :: "('m, u64, 'b) hash_map_ops \<Rightarrow> u64 \<Rightarrow> 'm sequencer" where
  "sequencer_new M first_batch_id = \<lparr>next_batch_id = first_batch_id, pending = hm_empty M\<rparr>"

definition submit_ready :: "('s \<Rightarrow> 'b \<Rightarrow> 's) \<Rightarrow> 'm sequencer \<Rightarrow> 's \<Rightarrow> 'b \<Rightarrow> 'm sequencer \<times> 's" where
  "submit_ready submit_fn q s batch = (q\<lparr>next_batch_id := next_batch_id q + 1\<rparr>, submit_fn s batch)"

partial_function (option) drain_ready ::
    "('m, u64, 'b) hash_map_ops \<Rightarrow> ('s \<Rightarrow> 'b \<Rightarrow> 's) \<Rightarrow> 'm sequencer \<Rightarrow> 's \<Rightarrow> ('m sequencer \<times> 's) option" where
  "drain_ready M submit_fn q s =
     (case hm_find M (pending q) (next_batch_id q) of
        None \<Rightarrow> Some (q, s)
      | Some batch \<Rightarrow>
          drain_ready M submit_fn
            (fst (submit_ready submit_fn (q\<lparr>pending := hm_erase M (pending q) (next_batch_id q)\<rparr>) s batch))
            (snd (submit_ready submit_fn (q\<lparr>pending := hm_erase M (pending q) (next_batch_id q)\<rparr>) s batch)))"

definition submit ::
    "('m, u64, 'b) hash_map_ops \<Rightarrow> ('s \<Rightarrow> 'b \<Rightarrow> 's) \<Rightarrow> 'm sequencer \<Rightarrow> 's \<Rightarrow> u64 \<Rightarrow> 'b \<Rightarrow>
     (BatchSubmitStatus \<times> 'm sequencer \<times> 's) option" where
  "submit M submit_fn q s batch_id batch =
     (if batch_id < next_batch_id q then Some (Duplicate, q, s)
      else if batch_id > next_batch_id q
      then let (m, inserted) = hm_emplace M (pending q) batch_id batch
           in if \<not> inserted then Some (Duplicate, q\<lparr>pending := m\<rparr>, s)
              else Some (Buffered, q\<lparr>pending := m\<rparr>, s)
      else let (q, s) = submit_ready submit_fn q s batch
           in case drain_ready M submit_fn q s of
                None \<Rightarrow> None
              | Some (q, s) \<Rightarrow> Some (Submitted, q, s))"

text \<open>A sequence of submissions to one sequencer.\<close>

fun submit_all ::
    "('m, u64, 'b) hash_map_ops \<Rightarrow> ('s \<Rightarrow> 'b \<Rightarrow> 's) \<Rightarrow> 'm sequencer \<Rightarrow> 's \<Rightarrow> (u64 \<times> 'b) list \<Rightarrow>
     ('m sequencer \<times> 's) option" where
  "submit_all M submit_fn q s [] = Some (q, s)"
| "submit_all M submit_fn q s ((i, b) # rs) =
     (case submit M submit_fn q s i b of
        None \<Rightarrow> None
      | Some (_, q, s) \<Rightarrow> submit_all M submit_fn q s rs)"

text \<open>
  \<open>first_batch f rs\<close> is the first batch offered for each id from \<open>f\<close> on.  \<open>delivered_upto\<close> are those
  of the ids from \<open>f\<close> to before \<open>n\<close>, in order of id.
\<close>

definition first_batch :: "u64 \<Rightarrow> (u64 \<times> 'b) list \<Rightarrow> u64 \<Rightarrow> 'b option" where
  "first_batch f rs i = (if i < f then None else map_of rs i)"

definition delivered_upto :: "(u64 \<Rightarrow> 'b option) \<Rightarrow> u64 \<Rightarrow> u64 \<Rightarrow> 'b list" where
  "delivered_upto F f n = map (\<lambda>k. the (F (f + of_nat k))) [0..<unat (n - f)]"

definition sequencer_inv ::
    "('m, u64, 'b) hash_map_ops \<Rightarrow> (u64 \<Rightarrow> 'b option) \<Rightarrow> u64 \<Rightarrow> 'm sequencer \<Rightarrow> bool" where
  "sequencer_inv M F f q \<longleftrightarrow>
     f \<le> next_batch_id q \<and> (\<forall>i. f \<le> i \<and> i < next_batch_id q \<longrightarrow> F i \<noteq> None) \<and>
     (\<forall>i. hm_find M (pending q) i = (if next_batch_id q \<le> i then F i else None)) \<and>
     (\<forall>i. F i \<noteq> None \<longrightarrow> i < - 1)"

lemma word_succ_less:
  fixes n :: u64
  assumes "n < - 1"
  shows "n < n + 1" and "i < n + 1 \<longleftrightarrow> i \<le> n" and "unat (n + 1) = Suc (unat n)"
    and "n + 1 \<le> i \<longleftrightarrow> n < i"
proof -
  have "unat (- 1 :: u64) = 2 ^ 64 - 1"
    by (simp add: unsigned_minus_1_eq_mask mask_eq_exp_minus_1)
  then have "unat n < 2 ^ 64 - 1"
    using assms by (simp add: word_less_nat_alt)
  then show s: "unat (n + 1) = Suc (unat n)"
    by (simp add: unat_word_ariths(1))
  show "n < n + 1" and "i < n + 1 \<longleftrightarrow> i \<le> n" and "n + 1 \<le> i \<longleftrightarrow> n < i"
    by (simp_all add: word_less_nat_alt word_le_nat_alt s less_Suc_eq_le Suc_le_eq)
qed

lemma delivered_step:
  assumes "f \<le> n" "n < - 1"
  shows "delivered_upto F f (n + 1) = delivered_upto F f n @ [the (F n)]"
proof -
  have "n + 1 - f = (n - f) + 1" by simp
  moreover have "unat (n - f) = unat n - unat f"
    using assms(1) by (simp add: unat_sub_if' word_le_nat_alt)
  moreover have "unat (n + 1 - f) = unat (n + 1) - unat f"
    using assms word_succ_less(1) [OF assms(2)] by (simp add: unat_sub_if' word_le_nat_alt word_less_nat_alt)
  ultimately have "unat (n + 1 - f) = Suc (unat (n - f))"
    using assms word_succ_less(3) [OF assms(2)] by (simp add: word_le_nat_alt)
  then show ?thesis
    by (simp add: delivered_upto_def)
qed

lemma drain_ready_spec:
  assumes M: "hash_map_laws M"
  shows "sequencer_inv M F f q \<Longrightarrow> log = delivered_upto F f (next_batch_id q) \<Longrightarrow>
    \<exists>q'. drain_ready M (\<lambda>s b. s @ [b]) q log = Some (q', delivered_upto F f (next_batch_id q')) \<and>
         sequencer_inv M F f q' \<and> next_batch_id q \<le> next_batch_id q' \<and> F (next_batch_id q') = None"
proof (induction "card (dom (hm_find M (pending q)))" arbitrary: q log rule: less_induct)
  case less
  let ?n = "next_batch_id q"
  show ?case
  proof (cases "F ?n")
    case None
    then have "hm_find M (pending q) ?n = None"
      using less.prems(1) by (simp add: sequencer_inv_def)
    then show ?thesis
      using less.prems None by (simp add: drain_ready.simps [of M _ q])
  next
    case (Some b)
    let ?q = "q\<lparr>pending := hm_erase M (pending q) ?n, next_batch_id := ?n + 1\<rparr>"
    have n: "?n < - 1" and found: "hm_find M (pending q) ?n = Some b" and f: "f \<le> ?n"
      using less.prems(1) Some by (simp_all add: sequencer_inv_def)
    have dom: "dom (hm_find M (pending ?q)) = dom (hm_find M (pending q)) - {?n}"
      by (auto simp: hash_map_lawsD(5) [OF M] split: if_splits)
    have "?n \<in> dom (hm_find M (pending q))"
      using found by auto
    then have "card (dom (hm_find M (pending ?q))) < card (dom (hm_find M (pending q)))"
      unfolding dom by (intro card_Diff1_less hash_map_lawsD(6) [OF M])
    moreover have "sequencer_inv M F f ?q"
      using less.prems(1) f Some word_succ_less(2,4) [OF n]
      by (auto simp: sequencer_inv_def hash_map_lawsD(5) [OF M] order_le_less)
    moreover have "log @ [b] = delivered_upto F f (next_batch_id ?q)"
      using delivered_step [OF f n, of F] Some less.prems(2) by simp
    ultimately obtain q' where "drain_ready M (\<lambda>s b. s @ [b]) ?q (log @ [b]) = Some (q', delivered_upto F f (next_batch_id q'))"
      "sequencer_inv M F f q'" "next_batch_id ?q \<le> next_batch_id q'" "F (next_batch_id q') = None"
      using less.hyps [of ?q "log @ [b]"] by blast
    moreover have "drain_ready M (\<lambda>s b. s @ [b]) q log = drain_ready M (\<lambda>s b. s @ [b]) ?q (log @ [b])"
      by (simp add: drain_ready.simps [of M _ q] found submit_ready_def)
    ultimately show ?thesis
      using word_succ_less(1) [OF n] by auto
  qed
qed

lemma delivered_cong:
  assumes "f \<le> n" "\<And>i. f \<le> i \<Longrightarrow> i < n \<Longrightarrow> F i = G i"
  shows "delivered_upto F f n = delivered_upto G f n"
  unfolding delivered_upto_def
proof (intro map_cong arg_cong [where f = the] refl)
  fix k assume "k \<in> set [0..<unat (n - f)]"
  then have k: "k < unat n - unat f"
    using assms(1) by (simp add: unat_sub_if' word_le_nat_alt)
  then have "unat (f + of_nat k) = unat f + k"
    using unat_lt_2_64 [of n] by (simp add: unat_word_ariths(1) unat_of_nat take_bit_nat_eq_self)
  with k show "F (f + of_nat k) = G (f + of_nat k)"
    by (intro assms(2)) (simp_all add: word_le_nat_alt word_less_nat_alt)
qed

definition sequencer_ready ::
    "('m, u64, 'b) hash_map_ops \<Rightarrow> (u64 \<Rightarrow> 'b option) \<Rightarrow> u64 \<Rightarrow> 'm sequencer \<Rightarrow> bool" where
  "sequencer_ready M F f q \<longleftrightarrow> sequencer_inv M F f q \<and> F (next_batch_id q) = None"

lemma first_batch_snoc:
  "first_batch f (rs @ [(i, b)]) =
     (if f \<le> i \<and> first_batch f rs i = None then (first_batch f rs)(i \<mapsto> b) else first_batch f rs)"
  by (auto simp: first_batch_def fun_eq_iff map_add_def split: option.splits)

lemma submit_spec:
  assumes M: "hash_map_laws M" and inv: "sequencer_ready M F f q" and i: "i < - 1"
    and G: "G = (if f \<le> i \<and> F i = None then F(i \<mapsto> b) else F)"
  shows "\<exists>st q'. submit M (\<lambda>s b. s @ [b]) q (delivered_upto F f (next_batch_id q)) i b =
           Some (st, q', delivered_upto G f (next_batch_id q')) \<and> sequencer_ready M G f q' \<and>
           (st = Submitted \<longleftrightarrow> i = next_batch_id q) \<and>
           (st = Buffered \<longleftrightarrow> next_batch_id q < i \<and> F i = None)"
proof -
  let ?n = "next_batch_id q" and ?log = "delivered_upto F f (next_batch_id q)"
  have I: "f \<le> ?n" "\<And>i. f \<le> i \<Longrightarrow> i < ?n \<Longrightarrow> F i \<noteq> None" "\<And>i. F i \<noteq> None \<Longrightarrow> i < - 1"
    "\<And>i. hm_find M (pending q) i = (if ?n \<le> i then F i else None)" "F ?n = None"
    using inv by (simp_all add: sequencer_ready_def sequencer_inv_def)
  consider (dup) "i < ?n" | (later) "?n < i" | (now) "i = ?n"
    by force
  then show ?thesis
  proof cases
    case dup
    then have "G = F" using I(2) [of i] by (auto simp: G)
    then show ?thesis
      using dup inv by (auto simp: submit_def)
  next
    case later
    let ?e = "hm_emplace M (pending q) i b"
    let ?q = "q\<lparr>pending := fst ?e\<rparr>"
    have Gi: "\<And>j. j \<le> ?n \<Longrightarrow> G j = F j" and fi: "f \<le> i"
      using later I(1) by (auto simp: G)
    have find: "hm_find M (pending q) i = F i"
      using later I(4) [of i] by (simp add: less_imp_le)
    have "sequencer_ready M G f ?q"
      using later I fi i find by (auto simp: sequencer_ready_def sequencer_inv_def G hash_map_lawsD(4) [OF M])
    moreover have "delivered_upto F f ?n = delivered_upto G f ?n"
      by (rule delivered_cong [OF I(1)]) (simp add: Gi)
    moreover have "submit M (\<lambda>s b. s @ [b]) q ?log i b =
        Some (if F i = None then Buffered else Duplicate, ?q, ?log)"
      using later hash_map_lawsD(3) [OF M, of "pending q" i b]
      by (cases ?e) (auto simp: submit_def find)
    ultimately show ?thesis
      using later by auto
  next
    case now
    let ?q = "q\<lparr>next_batch_id := ?n + 1\<rparr>"
    have G': "G = F(?n \<mapsto> b)" and n: "?n < - 1"
      using now I i by (simp_all add: G)
    have "sequencer_inv M G f ?q"
      using I n word_succ_less(2,4) [OF n] unfolding sequencer_inv_def G'
      by (auto simp: order_le_less)
    moreover have "delivered_upto F f ?n = delivered_upto G f ?n"
      by (rule delivered_cong [OF I(1)]) (auto simp: G')
    then have "?log @ [b] = delivered_upto G f (next_batch_id ?q)"
      using delivered_step [OF I(1) n, of G] by (simp add: G')
    ultimately obtain q' where d: "drain_ready M (\<lambda>s b. s @ [b]) ?q (?log @ [b]) =
        Some (q', delivered_upto G f (next_batch_id q'))"
      and q': "sequencer_inv M G f q'" "G (next_batch_id q') = None"
      using drain_ready_spec [OF M, of G f ?q "?log @ [b]"] by blast
    then have "submit M (\<lambda>s b. s @ [b]) q ?log i b = Some (Submitted, q', delivered_upto G f (next_batch_id q'))"
      using now by (simp add: submit_def submit_ready_def)
    then show ?thesis
      using q' now by (auto simp: sequencer_ready_def)
  qed
qed

lemma sequencer_new_ready:
  "hash_map_laws M \<Longrightarrow> sequencer_ready M (\<lambda>_. None) f (sequencer_new M f)"
  by (simp add: sequencer_new_def sequencer_ready_def sequencer_inv_def hash_map_lawsD(1) not_less)

lemma below_max_word: "unat (i :: u64) < 2 ^ 64 - 1 \<Longrightarrow> i < - 1"
  by (simp add: word_less_nat_alt unsigned_minus_1_eq_mask mask_eq_exp_minus_1)

lemma submit_all_append:
  "submit_all M fn q s (rs @ [(i, b)]) =
   (case submit_all M fn q s rs of None \<Rightarrow> None
    | Some (q, s) \<Rightarrow> (case submit M fn q s i b of None \<Rightarrow> None | Some (_, q, s) \<Rightarrow> Some (q, s)))"
  by (induction rs arbitrary: q s) (auto split: option.splits prod.splits)

lemma submit_all_spec:
  assumes M: "hash_map_laws M"
  shows "\<forall>(i, b) \<in> set rs. i < - 1 \<Longrightarrow>
    \<exists>q'. submit_all M (\<lambda>s b. s @ [b]) (sequencer_new M f) [] rs =
           Some (q', delivered_upto (first_batch f rs) f (next_batch_id q')) \<and>
         sequencer_ready M (first_batch f rs) f q'"
proof (induction rs rule: rev_induct)
  case Nil
  then show ?case
    by (simp add: sequencer_new_def sequencer_ready_def sequencer_inv_def first_batch_def
        hash_map_lawsD(1) [OF M] delivered_upto_def not_less)
next
  case (snoc r rs)
  obtain i b where r: "r = (i, b)" by force
  from snoc obtain q where q: "submit_all M (\<lambda>s b. s @ [b]) (sequencer_new M f) [] rs =
      Some (q, delivered_upto (first_batch f rs) f (next_batch_id q))"
    "sequencer_ready M (first_batch f rs) f q"
    by auto
  have "i < - 1" using snoc.prems r by simp
  from submit_spec [OF M q(2) this first_batch_snoc [of f rs i b]]
  show ?case
    by (auto simp: r submit_all_append q(1))
qed

subsection \<open>Ordered starts on a runtime thread\<close>

text \<open>
  \<^verbatim>\<open>OrderedStartState\<close>: \<open>start\<close> stands for \<^verbatim>\<open>AsyncRuntime::start_task<ApplyTaskT>\<close>, which may refuse,
  and \<open>id_of\<close> for the \<^verbatim>\<open>batch_id\<close> field of the batch type.
\<close>

record 'm ordered_start =
  ord_next_batch_id :: u64
  ord_generation :: u64
  ord_pending :: 'm

definition ordered_reset :: "('m, u64, 'b) hash_map_ops \<Rightarrow> 'm ordered_start \<Rightarrow> u64 \<Rightarrow> 'm ordered_start" where
  "ordered_reset M q runtime_generation =
     q\<lparr>ord_next_batch_id := 1, ord_generation := runtime_generation, ord_pending := hm_empty M\<rparr>"

definition ordered_start_ready ::
    "('s \<Rightarrow> 'b \<Rightarrow> bool \<times> 's) \<Rightarrow> 'm ordered_start \<Rightarrow> 's \<Rightarrow> 'b \<Rightarrow> bool \<times> 'm ordered_start \<times> 's" where
  "ordered_start_ready start q s batch =
     (let (ok, s) = start s batch
      in if \<not> ok then (False, q, s)
         else (True, q\<lparr>ord_next_batch_id := ord_next_batch_id q + 1\<rparr>, s))"

partial_function (option) ordered_drain_ready ::
    "('m, u64, 'b) hash_map_ops \<Rightarrow> ('s \<Rightarrow> 'b \<Rightarrow> bool \<times> 's) \<Rightarrow> 'm ordered_start \<Rightarrow> 's \<Rightarrow>
     (bool \<times> 'm ordered_start \<times> 's) option" where
  "ordered_drain_ready M start q s =
     (case hm_find M (ord_pending q) (ord_next_batch_id q) of
        None \<Rightarrow> Some (True, q, s)
      | Some batch \<Rightarrow>
          (case ordered_start_ready start
                  (q\<lparr>ord_pending := hm_erase M (ord_pending q) (ord_next_batch_id q)\<rparr>) s batch of
             (ok, q, s) \<Rightarrow> if \<not> ok then Some (False, q, s) else ordered_drain_ready M start q s))"

definition ordered_submit ::
    "('m, u64, 'b) hash_map_ops \<Rightarrow> ('b \<Rightarrow> u64) \<Rightarrow> ('s \<Rightarrow> 'b \<Rightarrow> bool \<times> 's) \<Rightarrow>
     'm ordered_start \<Rightarrow> 's \<Rightarrow> 'b \<Rightarrow> (bool \<times> 'm ordered_start \<times> 's) option" where
  "ordered_submit M id_of start q s batch =
     (let batch_id = id_of batch
      in if batch_id < ord_next_batch_id q then Some (True, q, s)
         else if batch_id > ord_next_batch_id q
         then Some (True, q\<lparr>ord_pending := fst (hm_emplace M (ord_pending q) batch_id batch)\<rparr>, s)
         else case ordered_start_ready start q s batch of
                (ok, q, s) \<Rightarrow> if \<not> ok then Some (False, q, s) else ordered_drain_ready M start q s)"

definition ordered_start_state ::
    "('m, u64, 'b) hash_map_ops \<Rightarrow> u64 \<Rightarrow> 'm ordered_start \<Rightarrow> 'm ordered_start" where
  "ordered_start_state M runtime_generation q =
     (if ord_generation q \<noteq> runtime_generation then ordered_reset M q runtime_generation else q)"

definition sequencer_view :: "'m ordered_start \<Rightarrow> 'm sequencer" where
  "sequencer_view q = \<lparr>next_batch_id = ord_next_batch_id q, pending = ord_pending q\<rparr>"


text \<open>With a start that never refuses, it is the sequencer.\<close>

lemma ordered_drain_refines:
  assumes M: "hash_map_laws M"
  shows "map_option (\<lambda>(ok, q, s). (ok, sequencer_view q, s)) (ordered_drain_ready M (\<lambda>s b. (True, fn s b)) q s) =
         map_option (\<lambda>(q, s). (True, q, s)) (drain_ready M fn (sequencer_view q) s)"
proof (induction "card (dom (hm_find M (ord_pending q)))" arbitrary: q s rule: less_induct)
  case less
  let ?n = "ord_next_batch_id q"
  show ?case
  proof (cases "hm_find M (ord_pending q) ?n")
    case None
    then show ?thesis
      unfolding ordered_drain_ready.simps [of M _ q s] drain_ready.simps [of M _ "sequencer_view q" s]
      by (simp add: sequencer_view_def)
  next
    case (Some b)
    let ?p = "hm_erase M (ord_pending q) ?n"
    let ?q = "q\<lparr>ord_pending := ?p, ord_next_batch_id := ?n + 1\<rparr>"
    have dom: "dom (hm_find M ?p) = dom (hm_find M (ord_pending q)) - {?n}"
      by (auto simp: hash_map_lawsD(5) [OF M] split: if_splits)
    have "?n \<in> dom (hm_find M (ord_pending q))"
      using Some by auto
    then have "card (dom (hm_find M (ord_pending ?q))) < card (dom (hm_find M (ord_pending q)))"
      using dom card_Diff1_less [OF hash_map_lawsD(6) [OF M]] by simp
    from less.hyps [OF this, of "fn s b"] show ?thesis
      using Some unfolding ordered_drain_ready.simps [of M _ q s] drain_ready.simps [of M _ "sequencer_view q" s]
      by (simp add: ordered_start_ready_def submit_ready_def sequencer_view_def)
  qed
qed

subsection \<open>Properties\<close>

text \<open>
  C34: Whatever the order and the duplicates of the submissions, every call of \<^verbatim>\<open>submit\<close> returns,
  and the batches handed to the callback are exactly those of the ids from the first one up to
  the sequencer's next id, in the order of the ids, each once, and each the first batch offered
  for its id; the next id has not been offered yet.  Ids are below the largest 64-bit value, after
  which the counter would wrap.
\<close>

theorem sequencer_delivers_in_order:
  assumes "hash_map_laws M" and "\<forall>(i, b) \<in> set rs. i < - 1"
  shows "\<exists>q log. submit_all M (\<lambda>s b. s @ [b]) (sequencer_new M f) [] rs = Some (q, log) \<and>
           log = delivered_upto (first_batch f rs) f (next_batch_id q) \<and>
           (\<forall>i. f \<le> i \<and> i < next_batch_id q \<longrightarrow> first_batch f rs i \<noteq> None) \<and>
           first_batch f rs (next_batch_id q) = None"
  using submit_all_spec [OF assms, of f] by (auto simp: sequencer_ready_def sequencer_inv_def)

theorem sequencer_delivers_in_order_witness:
  "\<exists>q. submit_all alist_ops (\<lambda>s b. s @ [b]) (sequencer_new alist_ops 1) []
        [(2, ''b''), (1, ''a''), (2, ''x''), (4, ''d'')] =
      Some (q, delivered_upto (first_batch 1 [(2, ''b''), (1, ''a''), (2, ''x''), (4, ''d'')]) 1 (next_batch_id q))"
proof -
  let ?rs = "[(2, ''b''), (1, ''a''), (2, ''x''), (4, ''d'')] :: (u64 \<times> string) list"
  have "\<forall>(i, b) \<in> set ?rs. i < - 1"
    by (simp add: below_max_word)
  from sequencer_delivers_in_order [OF alist_ops_laws this, of 1] show ?thesis
    by blast
qed

text \<open>
  The status of a submission: a batch is handed on at once exactly when its id is the next
  one, buffered exactly when it is later and new, and reported as a duplicate otherwise.
\<close>

theorem sequencer_status:
  assumes "hash_map_laws M" and "sequencer_ready M F f q" and "i < - 1"
  shows "\<exists>st q' log. submit M (\<lambda>s b. s @ [b]) q (delivered_upto F f (next_batch_id q)) i b = Some (st, q', log) \<and>
           st = (if i = next_batch_id q then Submitted
                 else if next_batch_id q < i \<and> F i = None then Buffered else Duplicate)"
proof -
  obtain st q' where *: "submit M (\<lambda>s b. s @ [b]) q (delivered_upto F f (next_batch_id q)) i b =
      Some (st, q', delivered_upto (if f \<le> i \<and> F i = None then F(i \<mapsto> b) else F) f (next_batch_id q'))"
    "st = Submitted \<longleftrightarrow> i = next_batch_id q" "st = Buffered \<longleftrightarrow> next_batch_id q < i \<and> F i = None"
    using submit_spec [OF assms refl] by blast
  then show ?thesis by (cases st) auto
qed

theorem sequencer_status_witness:
  "\<exists>st q' log. submit alist_ops (\<lambda>s b. s @ [b]) (sequencer_new alist_ops 1)
     (delivered_upto (\<lambda>_. None) 1 1) 1 True = Some (st, q', log) \<and> st = Submitted"
  using sequencer_status [OF alist_ops_laws sequencer_new_ready [OF alist_ops_laws], of 1 1 True]
  by (simp add: below_max_word) (simp add: sequencer_new_def)

text \<open>
  C35: \<^verbatim>\<open>OrderedStartState\<close> with a start that accepts is the sequencer: on every state and batch it
  ends in the same state and makes the same calls.
\<close>

theorem ordered_start_is_sequencer:
  assumes "hash_map_laws M"
  shows "map_option (\<lambda>(ok, q, s). (ok, sequencer_view q, s))
           (ordered_submit M id_of (\<lambda>s b. (True, fn s b)) q s b) =
         map_option (\<lambda>(st, q, s). (True, q, s)) (submit M fn (sequencer_view q) s (id_of b) b)"
proof (cases "id_of b = ord_next_batch_id q")
  case True
  then show ?thesis
    using ordered_drain_refines [OF assms, of fn "q\<lparr>ord_next_batch_id := ord_next_batch_id q + 1\<rparr>" "fn s b"]
    by (auto simp: ordered_submit_def submit_def ordered_start_ready_def submit_ready_def sequencer_view_def
        map_option_case split: option.splits prod.splits)
next
  case False
  then show ?thesis
    by (auto simp: ordered_submit_def submit_def sequencer_view_def Let_def split: prod.splits)
qed

theorem ordered_start_is_sequencer_witness:
  "map_option (\<lambda>(ok, q, s). (ok, sequencer_view q, s))
     (ordered_submit alist_ops id (\<lambda>s b. (True, s @ [b]))
        \<lparr>ord_next_batch_id = 1, ord_generation = 1, ord_pending = []\<rparr> [] 1) =
   map_option (\<lambda>(st, q, s). (True, q, s)) (submit alist_ops (\<lambda>s b. s @ [b]) \<lparr>next_batch_id = 1, pending = []\<rparr> [] 1 1)"
  using ordered_start_is_sequencer [OF alist_ops_laws, of id "\<lambda>s b. s @ [b]"
      "\<lparr>ord_next_batch_id = 1, ord_generation = 1, ord_pending = []\<rparr>" "[]" 1]
  by (simp add: sequencer_view_def)



text \<open>
  The retry policy counts the failures of a batch since its last success and decides by that
  count: retry up to the limit, then skip or stop as configured.  The count is a 32-bit value, so
  the history has fewer than \<open>2 ^ 32\<close> such failures.
\<close>

theorem policy_decides_by_recent_failures:
  assumes "hash_map_laws M" and "Suc (recent_failures k es 0) < 2 ^ 32"
  shows "fst (record_failure M (policy_run M (policy_new M opts) es) k) =
           \<lparr>action = (if Suc (recent_failures k es 0) \<le> unat (max_retries opts) then Retry
                      else if skip_after_retries opts then Skip else Stop),
            failure_count_of = of_nat (Suc (recent_failures k es 0))\<rparr>"
proof -
  let ?p = "policy_run M (policy_new M opts) es" and ?n = "recent_failures k es 0"
  have "failure_count M (policy_new M opts) k = of_nat 0"
    by (simp add: failure_count_def policy_new_def hash_map_lawsD(1) [OF assms(1)])
  then have c: "failure_count M ?p k = of_nat ?n" and o: "policy_options ?p = opts"
    using policy_run_count [OF assms(1), of "policy_new M opts" k 0 es] by (simp_all add: policy_new_def)
  define w :: u32 where "w = of_nat (Suc ?n)"
  have w: "(case hm_find M (policy_failures ?p) k of None \<Rightarrow> 0 | Some n \<Rightarrow> n) + 1 = w"
    using c by (simp add: w_def failure_count_def)
  have "unat w = Suc ?n"
    unfolding w_def using assms(2) by (simp only: unat_of_nat) (simp add: take_bit_nat_eq_self)
  then have le: "w \<le> max_retries opts \<longleftrightarrow> Suc ?n \<le> unat (max_retries opts)"
    by (simp add: word_le_nat_alt)
  show ?thesis
    unfolding record_failure_def Let_def w o le w_def [symmetric] by simp
qed

theorem policy_decides_by_recent_failures_witness:
  "action (fst (record_failure alist_ops
      (policy_run alist_ops (policy_new alist_ops \<lparr>max_retries = 1, skip_after_retries = True\<rparr>)
         [Failure 5, Failure 6]) (5 :: u64))) = Skip"
  using policy_decides_by_recent_failures [OF alist_ops_laws, of "5 :: u64" "[Failure 5, Failure 6]"
      "\<lparr>max_retries = 1, skip_after_retries = True\<rparr>"]
  by simp

end
