(* ===== verification/Thread_Layouts.thy ===== *)
theory Thread_Layouts
  imports Af_Prelude
begin

section \<open>Thread layouts\<close>

text \<open>
  \<^verbatim>\<open>thread_layout.hpp\<close> and \<^verbatim>\<open>thread_kind.hpp\<close>: a runtime's threads are declared as a list of groups, and
  a thread is a 16-bit index into their concatenation.  What the code computes at compile time
  from template arguments is computed here from a list of group specifications; the code's
  static assertions are \<open>layout_valid\<close>, and a tag that is not in the layout, which does not
  compile, is \<^term>\<open>None\<close>.  The 64-bit sum of the 16-bit counts does not wrap, since a compiler
  accepts far fewer than \<open>2 ^ 48\<close> template arguments.
\<close>

datatype ThreadKind = Worker | Log | Io | Epoll | Kqueue

record 'tag ThreadGroupSpec =
  spec_tag :: 'tag
  spec_count :: u16
  spec_kind :: ThreadKind
  spec_name :: string

record ThreadLayoutEntry =
  entry_kind :: ThreadKind
  entry_name :: string
  entry_group_offset :: u16

record ThreadGroup =
  begin_index :: u16
  group_size :: u16

subsection \<open>Groups\<close>

definition end_index :: "ThreadGroup \<Rightarrow> u16" where
  "end_index g = begin_index g + group_size g"

definition group_at :: "ThreadGroup \<Rightarrow> u16 \<Rightarrow> u16" where
  "group_at g offset = begin_index g + offset"

definition group_shard :: "ThreadGroup \<Rightarrow> u64 \<Rightarrow> u16" where
  "group_shard g key = group_at g (ucast (key mod ucast (group_size g)))"

definition group_contains :: "ThreadGroup \<Rightarrow> u16 \<Rightarrow> bool" where
  "group_contains g index \<longleftrightarrow> index \<ge> begin_index g \<and> index < end_index g"

definition group_offset_of :: "ThreadGroup \<Rightarrow> u16 \<Rightarrow> u16" where
  "group_offset_of g index = index - begin_index g"

subsection \<open>Layouts\<close>

fun thread_group_tag_count :: "'tag \<Rightarrow> 'tag ThreadGroupSpec list \<Rightarrow> nat" where
  "thread_group_tag_count t [] = 0"
| "thread_group_tag_count t (s # ss) = (if t = spec_tag s then 1 else 0) + thread_group_tag_count t ss"

fun thread_group_begin_index :: "'tag \<Rightarrow> 'tag ThreadGroupSpec list \<Rightarrow> u16 \<Rightarrow> u16 option" where
  "thread_group_begin_index t [] offset = None"
| "thread_group_begin_index t (s # ss) offset =
     (if t = spec_tag s then Some offset
      else thread_group_begin_index t ss (offset + spec_count s))"

fun thread_group_count :: "'tag \<Rightarrow> 'tag ThreadGroupSpec list \<Rightarrow> u16 option" where
  "thread_group_count t [] = None"
| "thread_group_count t (s # ss) =
     (if t = spec_tag s then Some (spec_count s) else thread_group_count t ss)"

definition total_thread_count :: "'tag ThreadGroupSpec list \<Rightarrow> u64" where
  "total_thread_count specs = fold (\<lambda>s n. n + ucast (spec_count s)) specs 0"

definition layout_valid :: "'tag ThreadGroupSpec list \<Rightarrow> bool" where
  "layout_valid specs \<longleftrightarrow>
     length specs > 0 \<and> list_all (\<lambda>s. spec_count s > 0) specs \<and>
     list_all (\<lambda>s. thread_group_tag_count (spec_tag s) specs = 1) specs \<and>
     (\<Sum>s\<leftarrow>specs. unat (spec_count s)) < 2 ^ 64 \<and>
     total_thread_count specs > 0 \<and> total_thread_count specs \<le> 65535"

definition thread_count :: "'tag ThreadGroupSpec list \<Rightarrow> u16" where
  "thread_count specs = ucast (total_thread_count specs)"

definition invalid_thread_index :: "'tag ThreadGroupSpec list \<Rightarrow> u16" where
  "invalid_thread_index specs = thread_count specs"

definition layout_group :: "'tag \<Rightarrow> 'tag ThreadGroupSpec list \<Rightarrow> ThreadGroup option" where
  "layout_group t specs =
     (case (thread_group_begin_index t specs 0, thread_group_count t specs) of
        (Some b, Some n) \<Rightarrow> Some \<lparr>begin_index = b, group_size = n\<rparr>
      | _ \<Rightarrow> None)"

text \<open>The entry table: the loop over a group's threads, then the loop over the groups.\<close>

definition default_entry :: ThreadLayoutEntry where
  "default_entry = \<lparr>entry_kind = Worker, entry_name = ''worker'', entry_group_offset = 0\<rparr>"

definition spec_entry :: "'tag ThreadGroupSpec \<Rightarrow> u16 \<Rightarrow> ThreadLayoutEntry" where
  "spec_entry s i = \<lparr>entry_kind = spec_kind s, entry_name = spec_name s, entry_group_offset = i\<rparr>"

definition fill_group :: "'tag ThreadGroupSpec \<Rightarrow> ThreadLayoutEntry list \<times> u16 \<Rightarrow> ThreadLayoutEntry list \<times> u16" where
  "fill_group s st =
     fold (\<lambda>i (result, index). (result[unat index := spec_entry s (of_nat i)], index + 1))
       [0..<unat (spec_count s)] st"

definition make_entry_table :: "'tag ThreadGroupSpec list \<Rightarrow> ThreadLayoutEntry list" where
  "make_entry_table specs = fst (fold fill_group specs (replicate (unat (thread_count specs)) default_entry, 0))"

definition thread_kind :: "'tag ThreadGroupSpec list \<Rightarrow> u16 \<Rightarrow> ThreadKind" where
  "thread_kind specs index =
     (if index \<ge> thread_count specs then Worker else entry_kind (make_entry_table specs ! unat index))"

definition thread_name :: "'tag ThreadGroupSpec list \<Rightarrow> u16 \<Rightarrow> string" where
  "thread_name specs index =
     (if index \<ge> thread_count specs then ''invalid'' else entry_name (make_entry_table specs ! unat index))"

definition thread_group_offset :: "'tag ThreadGroupSpec list \<Rightarrow> u16 \<Rightarrow> u16" where
  "thread_group_offset specs index =
     (if index \<ge> thread_count specs then 0 else entry_group_offset (make_entry_table specs ! unat index))"

subsection \<open>The table is the concatenation of the groups\<close>

definition thread_total :: "'tag ThreadGroupSpec list \<Rightarrow> nat" where
  "thread_total specs = (\<Sum>s\<leftarrow>specs. unat (spec_count s))"

lemma thread_total_simps [simp]:
  "thread_total [] = 0" "thread_total (s # ss) = unat (spec_count s) + thread_total ss"
  "thread_total (xs @ ys) = thread_total xs + thread_total ys"
  by (simp_all add: thread_total_def)

definition group_entries :: "'tag ThreadGroupSpec \<Rightarrow> ThreadLayoutEntry list" where
  "group_entries s = map (\<lambda>i. spec_entry s (of_nat i)) [0..<unat (spec_count s)]"

lemma group_entries_length [simp]: "length (group_entries s) = unat (spec_count s)"
  by (simp add: group_entries_def)

lemma total_fold: "fold (\<lambda>s n. n + ucast (spec_count s)) specs (k :: u64) = k + of_nat (thread_total specs)"
  by (induction specs arbitrary: k) (simp_all add: ac_simps)

lemma thread_count_total:
  assumes "layout_valid specs"
  shows "unat (thread_count specs) = thread_total specs" "0 < thread_total specs" "thread_total specs \<le> 65535"
proof -
  have T: "total_thread_count specs = of_nat (thread_total specs)"
    by (simp add: total_thread_count_def total_fold)
  have "thread_total specs < 2 ^ 64"
    using assms by (simp add: layout_valid_def thread_total_def)
  then have u: "unat (total_thread_count specs) = thread_total specs"
    by (simp add: T unat_of_nat take_bit_nat_eq_self)
  have "total_thread_count specs > 0" "total_thread_count specs \<le> 65535"
    using assms by (simp_all add: layout_valid_def)
  then show "0 < thread_total specs" and le: "thread_total specs \<le> 65535"
    using u by (simp_all add: word_less_nat_alt word_le_nat_alt)
  then show "unat (thread_count specs) = thread_total specs"
    using u by (simp add: thread_count_def unat_ucast_u64_u16)
qed

lemma fill_loop:
  assumes "k + n \<le> length result" "length result \<le> 65535"
  shows "fold (\<lambda>i (result, index). (result[unat (index :: u16) := e i], index + 1)) [0..<n] (result, of_nat k) =
         (take k result @ map e [0..<n] @ drop (k + n) result, of_nat (k + n))"
  using assms
proof (induction n)
  case (Suc n)
  let ?r = "take k result @ map e [0..<n] @ drop (k + n) result"
  have u: "unat (of_nat (k + n) :: u16) = k + n"
    using Suc.prems by (intro unat_of_nat_u16) simp
  have "?r[k + n := e n] = take k result @ map e [0..<Suc n] @ drop (k + Suc n) result"
    using Suc.prems by (simp add: list_update_append Cons_nth_drop_Suc [of "k + n", symmetric])
  then show ?case
    using Suc u by (simp del: of_nat_add)
qed simp

lemma fill_group_fold:
  assumes "k + thread_total specs \<le> length result" "length result \<le> 65535"
  shows "fold fill_group specs (result, of_nat k) =
         (take k result @ concat (map group_entries specs) @ drop (k + thread_total specs) result,
          of_nat (k + thread_total specs))"
  using assms
proof (induction specs arbitrary: result k)
  case (Cons s ss)
  let ?c = "unat (spec_count s)"
  let ?r = "take k result @ group_entries s @ drop (k + ?c) result"
  have "fill_group s (result, of_nat k) = (?r, of_nat (k + ?c))"
    using fill_loop [of k ?c result] Cons.prems by (simp add: fill_group_def group_entries_def)
  moreover have "length ?r = length result" "take (k + ?c) ?r = take k result @ group_entries s"
    "drop (k + ?c + thread_total ss) ?r = drop (k + ?c + thread_total ss) result"
    using Cons.prems by (simp_all add: min_absorb2 ac_simps)
  ultimately show ?case
    using Cons.IH [of "k + ?c" ?r] Cons.prems by (simp add: add.assoc del: of_nat_add)
qed simp

lemma entry_table_concat:
  assumes "layout_valid specs"
  shows "make_entry_table specs = concat (map group_entries specs)"
  using thread_count_total [OF assms]
    fill_group_fold [of 0 specs "replicate (thread_total specs) default_entry"]
  by (simp add: make_entry_table_def)

lemma concat_group_nth:
  assumes "i < unat (spec_count s)"
  shows "concat (map group_entries (pre @ s # post)) ! (thread_total pre + i) = spec_entry s (of_nat i)"
proof -
  have "length (concat (map group_entries pre)) = thread_total pre"
    by (induction pre) simp_all
  then show ?thesis
    using assms by (simp add: nth_append group_entries_def)
qed

subsection \<open>Groups partition the threads\<close>

lemma tag_count_zero: "thread_group_tag_count t ss = 0 \<longleftrightarrow> t \<notin> spec_tag ` set ss"
  by (induction ss) auto

lemma tag_count_append: "thread_group_tag_count t (xs @ ys) = thread_group_tag_count t xs + thread_group_tag_count t ys"
  by (induction xs) simp_all

lemma valid_tag_new:
  assumes "layout_valid (pre @ s # post)"
  shows "spec_tag s \<notin> spec_tag ` set pre"
proof -
  have "thread_group_tag_count (spec_tag s) (pre @ s # post) = 1"
    using assms by (simp add: layout_valid_def)
  then have "thread_group_tag_count (spec_tag s) pre = 0"
    by (simp add: tag_count_append)
  then show ?thesis
    by (simp only: tag_count_zero) simp
qed

lemma begin_index_at:
  "spec_tag s \<notin> spec_tag ` set pre \<Longrightarrow>
   thread_group_begin_index (spec_tag s) (pre @ s # post) off = Some (off + of_nat (thread_total pre)) \<and>
   thread_group_count (spec_tag s) (pre @ s # post) = Some (spec_count s)"
  by (induction pre arbitrary: off) (auto simp: ac_simps)

lemma layout_group_at:
  assumes "layout_valid (pre @ s # post)"
  shows "layout_group (spec_tag s) (pre @ s # post) =
         Some \<lparr>begin_index = of_nat (thread_total pre), group_size = spec_count s\<rparr>"
  using begin_index_at [OF valid_tag_new [OF assms], of post 0] by (simp add: layout_group_def)

lemma group_bounds:
  assumes "layout_valid (pre @ s # post)" "layout_group (spec_tag s) (pre @ s # post) = Some g"
  shows "unat (begin_index g) = thread_total pre" "group_size g = spec_count s"
    "unat (end_index g) = thread_total pre + unat (spec_count s)"
    "i < spec_count s \<Longrightarrow> unat (group_at g i) = thread_total pre + unat i"
proof -
  have g: "g = \<lparr>begin_index = of_nat (thread_total pre), group_size = spec_count s\<rparr>"
    using layout_group_at [OF assms(1)] assms(2) by simp
  have T: "thread_total pre + unat (spec_count s) \<le> 65535"
    using thread_count_total(3) [OF assms(1)] by simp
  show b: "unat (begin_index g) = thread_total pre"
    using T by (simp add: g unat_of_nat_u16)
  show "group_size g = spec_count s"
    by (simp add: g)
  then show "unat (end_index g) = thread_total pre + unat (spec_count s)"
    using T b by (simp add: end_index_def unat_word_ariths(1))
  show "i < spec_count s \<Longrightarrow> unat (group_at g i) = thread_total pre + unat i"
    using T b by (simp add: group_at_def unat_word_ariths(1) word_less_nat_alt)
qed

lemma locate_group:
  "n < thread_total specs \<Longrightarrow>
   \<exists>pre s post. specs = pre @ s # post \<and> thread_total pre \<le> n \<and> n < thread_total pre + unat (spec_count s)"
proof (induction specs arbitrary: n)
  case (Cons s ss)
  show ?case
  proof (cases "n < unat (spec_count s)")
    case True
    then show ?thesis by (intro exI [of _ "[]"] exI [of _ s] exI [of _ ss]) simp
  next
    case False
    then have "n - unat (spec_count s) < thread_total ss"
      using Cons.prems by auto
    from Cons.IH [OF this] obtain pre r post where "ss = pre @ r # post" "thread_total pre \<le> n - unat (spec_count s)"
      "n - unat (spec_count s) < thread_total pre + unat (spec_count r)"
      by blast
    then show ?thesis
      using False by (intro exI [of _ "s # pre"] exI [of _ r] exI [of _ post]) auto
  qed
qed simp

text \<open>Two positions of the list that cover the same index are the same position.\<close>

lemma same_offset_same_group:
  assumes "pre @ s # post = p @ r # q"
    and "thread_total pre \<le> n" "n < thread_total pre + unat (spec_count s)"
    and "thread_total p \<le> n" "n < thread_total p + unat (spec_count r)"
  shows "r = s"
  using assms
proof (induction pre arbitrary: p n)
  case Nil
  then show ?case by (cases p) auto
next
  case (Cons a pre)
  then show ?case
  proof (cases p)
    case (Cons b p')
    then show ?thesis
      using Cons.IH [of p' "n - unat (spec_count a)"] Cons.prems by auto
  qed auto
qed

subsection \<open>Properties\<close>

text \<open>
  In a valid layout the thread at offset \<open>i\<close> of a group is a thread of the runtime that the
  group contains, its offset is \<open>i\<close> again, and the entry table gives it the group's kind and name
  and that offset.
\<close>

theorem thread_group_round_trip:
  assumes "layout_valid (pre @ s # post)" and "layout_group (spec_tag s) (pre @ s # post) = Some g"
    and "i < spec_count s"
  shows "group_at g i < thread_count (pre @ s # post) \<and> group_contains g (group_at g i) \<and>
         group_offset_of g (group_at g i) = i \<and>
         thread_kind (pre @ s # post) (group_at g i) = spec_kind s \<and>
         thread_name (pre @ s # post) (group_at g i) = spec_name s \<and>
         thread_group_offset (pre @ s # post) (group_at g i) = i"
proof -
  let ?specs = "pre @ s # post"
  note B = group_bounds [OF assms(1,2)]
  have i: "unat i < unat (spec_count s)"
    using assms(3) by (simp add: word_less_nat_alt)
  have lt: "group_at g i < thread_count ?specs"
    using B(4) [OF assms(3)] i thread_count_total(1) [OF assms(1)] by (simp add: word_less_nat_alt)
  moreover have "group_contains g (group_at g i)"
    using B(1,3) B(4) [OF assms(3)] i by (simp add: group_contains_def word_less_nat_alt word_le_nat_alt)
  moreover have "make_entry_table ?specs ! unat (group_at g i) = spec_entry s i"
    using concat_group_nth [OF i, of pre post] B(4) [OF assms(3)] by (simp add: entry_table_concat [OF assms(1)])
  moreover have "group_offset_of g (group_at g i) = i"
    by (simp add: group_offset_of_def group_at_def)
  moreover have "\<not> thread_count ?specs \<le> group_at g i"
    using lt by (simp add: not_le)
  ultimately show ?thesis
    by (simp add: thread_kind_def thread_name_def thread_group_offset_def spec_entry_def)
qed

text \<open>Two groups: two workers and one I/O thread.\<close>

definition sample_layout :: "nat ThreadGroupSpec list" where
  "sample_layout = [\<lparr>spec_tag = 0, spec_count = 2, spec_kind = Worker, spec_name = ''w''\<rparr>,
                    \<lparr>spec_tag = 1, spec_count = 1, spec_kind = Io, spec_name = ''io''\<rparr>]"

lemma sample_layout_valid: "layout_valid sample_layout"
  by (simp add: sample_layout_def layout_valid_def total_thread_count_def)

theorem thread_group_round_trip_witness:
  "thread_kind sample_layout 2 = Io \<and> thread_group_offset sample_layout 2 = 0"
  using thread_group_round_trip [of "[\<lparr>spec_tag = 0 :: nat, spec_count = 2, spec_kind = Worker, spec_name = ''w''\<rparr>]"
      "\<lparr>spec_tag = 1, spec_count = 1, spec_kind = Io, spec_name = ''io''\<rparr>" "[]" "\<lparr>begin_index = 2, group_size = 1\<rparr>" 0]
    sample_layout_valid
  by (simp add: sample_layout_def layout_group_def group_at_def)

text \<open>
  The groups of a valid layout partition its threads: every index below the thread count lies
  in exactly one group.
\<close>

theorem thread_groups_partition:
  assumes "layout_valid specs" and "index < thread_count specs"
  shows "\<exists>!s. s \<in> set specs \<and>
           (\<exists>g. layout_group (spec_tag s) specs = Some g \<and> group_contains g index)"
proof -
  have lt: "unat index < thread_total specs"
    using assms(2) thread_count_total(1) [OF assms(1)] by (simp add: word_less_nat_alt)
  then obtain pre s post where sp: "specs = pre @ s # post"
    and rng: "thread_total pre \<le> unat index" "unat index < thread_total pre + unat (spec_count s)"
    using locate_group by blast
  have range: "thread_total p \<le> unat index \<and> unat index < thread_total p + unat (spec_count r)"
    if "specs = p @ r # q" "layout_group (spec_tag r) specs = Some g" "group_contains g index" for p r q g
    using group_bounds(1,3) [of p r q g] assms(1) that
    by (simp add: group_contains_def word_le_nat_alt word_less_nat_alt)
  show ?thesis
  proof (rule ex1I [of _ s], intro conjI)
    show "s \<in> set specs" by (simp add: sp)
    obtain g where g: "layout_group (spec_tag s) specs = Some g"
      using layout_group_at [of pre s post] assms(1) by (simp add: sp)
    moreover have "group_contains g index"
      using group_bounds(1,3) [of pre s post g] assms(1) g rng
      by (simp add: sp group_contains_def word_le_nat_alt word_less_nat_alt)
    ultimately show "\<exists>g. layout_group (spec_tag s) specs = Some g \<and> group_contains g index" by blast
  next
    fix r assume r: "r \<in> set specs \<and> (\<exists>g. layout_group (spec_tag r) specs = Some g \<and> group_contains g index)"
    then obtain p q where pq: "specs = p @ r # q" by (meson split_list)
    then have "thread_total p \<le> unat index \<and> unat index < thread_total p + unat (spec_count r)"
      using r range by blast
    then show "r = s"
      using rng same_offset_same_group [of pre s post p r q "unat index"] sp pq by simp
  qed
qed

theorem thread_groups_partition_witness:
  "\<exists>!s. s \<in> set sample_layout \<and> (\<exists>g. layout_group (spec_tag s) sample_layout = Some g \<and> group_contains g 1)"
  using thread_groups_partition [OF sample_layout_valid, of 1]
  by (simp add: sample_layout_def thread_count_def total_thread_count_def)

text \<open>
  Sharding a key over a group always gives a thread of that group, the one at the key's
  remainder by the group's size.
\<close>

theorem group_shard_in_group:
  assumes "layout_valid (pre @ s # post)" and "layout_group (spec_tag s) (pre @ s # post) = Some g"
  shows "group_contains g (group_shard g key) \<and>
         unat (group_offset_of g (group_shard g key)) = unat key mod unat (spec_count s)"
proof -
  note B = group_bounds [OF assms]
  have pos: "0 < unat (spec_count s)"
    using assms(1) by (simp add: layout_valid_def word_less_nat_alt)
  define i :: u16 where "i = ucast (key mod ucast (group_size g))"
  have lt: "unat key mod unat (spec_count s) < unat (spec_count s)"
    using pos by simp
  then have i: "unat i = unat key mod unat (spec_count s)"
    using unat_lt_2_16 [of "spec_count s"]
    by (simp add: i_def B(2) unat_ucast_u64_u16 unat_mod_distrib)
  then have "unat (group_shard g key) = thread_total pre + unat i"
    using B(4) [of i] lt by (simp add: group_shard_def i_def word_less_nat_alt)
  then have "group_contains g (group_shard g key)"
    using B(1,3) i lt by (simp add: group_contains_def word_le_nat_alt word_less_nat_alt)
  moreover have "group_offset_of g (group_shard g key) = i"
    by (simp add: group_offset_of_def group_shard_def group_at_def i_def)
  ultimately show ?thesis
    using i by simp
qed

theorem group_shard_in_group_witness:
  "group_contains \<lparr>begin_index = 0, group_size = 2\<rparr> (group_shard \<lparr>begin_index = 0, group_size = 2\<rparr> 7)"
  using group_shard_in_group [of "[]" "\<lparr>spec_tag = 0 :: nat, spec_count = 2, spec_kind = Worker, spec_name = ''w''\<rparr>"
      "[\<lparr>spec_tag = 1, spec_count = 1, spec_kind = Io, spec_name = ''io''\<rparr>]" "\<lparr>begin_index = 0, group_size = 2\<rparr>" 7]
    sample_layout_valid
  by (simp add: sample_layout_def layout_group_def)

end
