(* ===== verification/Task_Core.thy ===== *)
theory Task_Core
  imports Af_Prelude
begin

unbundle bit_operations_syntax

section \<open>Tasks\<close>

text \<open>
  \<^verbatim>\<open>detail/task\<close>: the task types, the result of an I/O operation, and the fields and operations of
  \<^verbatim>\<open>BasicTask\<close> as one thread sees them without interference.  The same operations under
  interleaving are in \<open>Task_Wake\<close>.  Enumeration constructors carry a prefix where two
  enumerations of the code share a name.  A loop that would spin forever without interference
  (\<^verbatim>\<open>request_schedule\<close> on a task that is starting) is \<^term>\<open>None\<close>.
\<close>

subsection \<open>Types\<close>

datatype TaskResult = RDone | RPending | RAgain | RFailed | RCancelled
datatype QueueFullPolicy = Reject | Yield
datatype ScheduleMode = Auto | Fast | Ordered
datatype ShutdownPolicy = WaitForTasks | StopImmediately
datatype TaskState = Created | Queued | Starting | Running | Pending | Done

datatype ScheduleAction = Enqueue | Deferred | Rejected

record ScheduleRequest =
  request_action :: ScheduleAction
  request_previous :: TaskState

record RequestedSchedule =
  schedule_thread :: u16
  schedule_mode :: ScheduleMode

subsection \<open>Results of I/O operations\<close>

definition io_readable :: u32 where "io_readable = push_bit 0 1"
definition io_writable :: u32 where "io_writable = push_bit 1 1"
definition io_error :: u32 where "io_error = push_bit 2 1"
definition io_hangup :: u32 where "io_hangup = push_bit 3 1"
definition io_more :: u32 where "io_more = push_bit 4 1"
definition io_buffer_selected :: u32 where "io_buffer_selected = push_bit 5 1"
definition io_buffer_id_shift :: nat where "io_buffer_id_shift = 16"
definition io_buffer_id_mask :: u32 where "io_buffer_id_mask = 0xffff0000"

record IoResult =
  io_fd :: int
  io_events :: u32
  io_errno :: int
  io_value :: int
  io_wait_token :: "nat ptr"

definition io_result_default :: IoResult where
  "io_result_default = \<lparr>io_fd = -1, io_events = 0, io_errno = 0, io_value = 0, io_wait_token = None\<rparr>"

definition result_readable :: "IoResult \<Rightarrow> bool" where
  "result_readable r \<longleftrightarrow> io_events r AND io_readable \<noteq> 0"

definition result_writable :: "IoResult \<Rightarrow> bool" where
  "result_writable r \<longleftrightarrow> io_events r AND io_writable \<noteq> 0"

definition result_failed :: "IoResult \<Rightarrow> bool" where
  "result_failed r \<longleftrightarrow> io_errno r \<noteq> 0 \<or> io_events r AND (io_error OR io_hangup) \<noteq> 0"

definition result_buffer_selected :: "IoResult \<Rightarrow> bool" where
  "result_buffer_selected r \<longleftrightarrow> io_events r AND io_buffer_selected \<noteq> 0"

definition result_buffer_id :: "IoResult \<Rightarrow> u16" where
  "result_buffer_id r = ucast (drop_bit io_buffer_id_shift (io_events r AND io_buffer_id_mask))"

text \<open>\<open>EIO\<close> is the platform's error number for an input/output error.\<close>

definition EIO :: int where
  "EIO = 5"

definition set_io_result_error :: "IoResult \<Rightarrow> int \<Rightarrow> int \<Rightarrow> IoResult" where
  "set_io_result_error result fd error =
     (let normalized_error = (if error = 0 then EIO else error)
      in result\<lparr>io_fd := fd, io_events := io_error, io_errno := normalized_error,
                io_value := - normalized_error, io_wait_token := None\<rparr>)"

datatype IoWaitKind = WaitNone | Readiness | Timer

record IoOpState =
  op_wait :: IoResult
  op_wait_kind :: IoWaitKind
  op_waiting :: bool

definition io_op_reset :: "IoOpState \<Rightarrow> IoOpState" where
  "io_op_reset s = s\<lparr>op_wait := io_result_default, op_wait_kind := WaitNone, op_waiting := False\<rparr>"

subsection \<open>The packed wake request\<close>

definition no_requested_thread :: u64 where "no_requested_thread = 0"
definition requested_thread_mask :: u64 where "requested_thread_mask = 0xFFFF"
definition requested_mode_shift :: nat where "requested_mode_shift = 16"
definition requested_mode_mask :: u64 where "requested_mode_mask = 0x3"
definition requested_epoch_shift :: nat where "requested_epoch_shift = 18"
definition requested_epoch_mask :: u64 where "requested_epoch_mask = drop_bit requested_epoch_shift (- 1)"

fun mode_code :: "ScheduleMode \<Rightarrow> u64" where
  "mode_code Auto = 0"
| "mode_code Fast = 1"
| "mode_code Ordered = 2"

definition mode_of_code :: "u64 \<Rightarrow> ScheduleMode" where
  "mode_of_code c = (if c = 0 then Auto else if c = 1 then Fast else Ordered)"

definition pack_requested_thread :: "u64 \<Rightarrow> u16 \<Rightarrow> ScheduleMode \<Rightarrow> u64" where
  "pack_requested_thread epoch thread_index mode =
     push_bit requested_epoch_shift (epoch AND requested_epoch_mask) OR
     push_bit requested_mode_shift (mode_code mode AND requested_mode_mask) OR
     (ucast thread_index + 1)"

definition requested_epoch :: "u64 \<Rightarrow> u64" where
  "requested_epoch request = drop_bit requested_epoch_shift request"

definition requested_target :: "u64 \<Rightarrow> u16" where
  "requested_target request = ucast ((request AND requested_thread_mask) - 1)"

definition requested_mode :: "u64 \<Rightarrow> ScheduleMode" where
  "requested_mode request = mode_of_code (drop_bit requested_mode_shift request AND requested_mode_mask)"

lemma bit_small_word:
  fixes y :: u64
  assumes "unat y < 2 ^ j" "j \<le> k"
  shows "\<not> bit y k"
proof -
  have "take_bit j (unat y) = unat y"
    using assms(1) by (simp add: take_bit_nat_eq_self)
  then have "unat (take_bit j y) = unat y"
    by (simp add: unsigned_take_bit_eq)
  then have "take_bit j y = y"
    by (simp add: word_unat_eq_iff)
  then have "bit y k = bit (take_bit j y) k" by simp
  then show ?thesis
    using assms(2) by (simp add: bit_take_bit_iff)
qed

lemma packed_thread_small:
  assumes "th < (0xFFFF :: u16)"
  shows "unat (ucast th + 1 :: u64) = Suc (unat th)" "unat (ucast th + 1 :: u64) < 2 ^ 16"
  using assms by (simp_all add: unat_word_ariths(1) word_less_nat_alt)

lemma mask_u64_bits:
  "requested_thread_mask = mask 16" "requested_mode_mask = mask 2" "requested_epoch_mask = mask 46"
proof -
  show "requested_thread_mask = mask 16" "requested_mode_mask = mask 2"
    by (simp_all add: requested_thread_mask_def requested_mode_mask_def mask_eq_exp_minus_1)
  show "requested_epoch_mask = mask 46"
    by (rule bit_word_eqI) (auto simp: requested_epoch_mask_def requested_epoch_shift_def bit_drop_bit_eq bit_mask_iff)
qed

lemma requested_epoch_pack:
  assumes "th < 0xFFFF"
  shows "requested_epoch (pack_requested_thread e th m) = take_bit 46 e"
proof (rule bit_word_eqI)
  fix n
  show "bit (requested_epoch (pack_requested_thread e th m)) n \<longleftrightarrow> bit (take_bit 46 e) n"
    using bit_small_word [OF packed_thread_small(2) [OF assms], of "18 + n"]
    by (auto simp: requested_epoch_def pack_requested_thread_def requested_epoch_shift_def requested_mode_shift_def
        mask_u64_bits bit_simps)
qed

lemma pack_and_thread:
  assumes "th < 0xFFFF"
  shows "pack_requested_thread e th m AND requested_thread_mask = ucast th + 1"
proof (rule bit_word_eqI)
  fix n
  show "bit (pack_requested_thread e th m AND requested_thread_mask) n \<longleftrightarrow> bit (ucast th + 1 :: u64) n"
  proof (cases "n < 16")
    case True
    then show ?thesis
      by (auto simp: pack_requested_thread_def requested_epoch_shift_def requested_mode_shift_def
          mask_u64_bits bit_simps)
  next
    case False
    then show ?thesis
      using bit_small_word [OF packed_thread_small(2) [OF assms], of n] by (simp add: mask_u64_bits bit_simps)
  qed
qed

lemma requested_target_pack:
  assumes "th < 0xFFFF"
  shows "requested_target (pack_requested_thread e th m) = th"
  by (simp add: requested_target_def pack_and_thread [OF assms])

lemma requested_mode_pack:
  assumes "th < 0xFFFF"
  shows "requested_mode (pack_requested_thread e th m) = m"
proof -
  have "drop_bit requested_mode_shift (pack_requested_thread e th m) AND requested_mode_mask =
      mode_code m AND requested_mode_mask"
  proof (rule bit_word_eqI)
    fix n
    show "bit (drop_bit requested_mode_shift (pack_requested_thread e th m) AND requested_mode_mask) n \<longleftrightarrow>
        bit (mode_code m AND requested_mode_mask) n"
      using bit_small_word [OF packed_thread_small(2) [OF assms], of "16 + n"]
      by (auto simp: pack_requested_thread_def requested_epoch_shift_def requested_mode_shift_def
          mask_u64_bits bit_simps)
  qed
  then show ?thesis
    by (cases m) (simp_all add: requested_mode_def mode_of_code_def requested_mode_mask_def)
qed

lemma pack_nonzero:
  assumes "th < 0xFFFF"
  shows "pack_requested_thread e th m \<noteq> no_requested_thread"
proof
  assume "pack_requested_thread e th m = no_requested_thread"
  then have "ucast th + 1 = (0 :: u64)"
    using pack_and_thread [OF assms, of e m] by (simp add: no_requested_thread_def)
  then show False
    using packed_thread_small(1) [OF assms] by simp
qed

subsection \<open>Fields and operations\<close>

text \<open>\<open>task_destroyed\<close> records that \<^verbatim>\<open>destroy_self\<close> has been called.\<close>

record task =
  task_state :: TaskState
  requested_thread :: u64
  run_epoch :: u64
  lifetime_refs :: u32
  task_id :: u64
  last_parallel_failures :: u32
  task_destroyed :: bool

definition task_new :: "u64 \<Rightarrow> task" where
  "task_new i = \<lparr>task_state = Created, requested_thread = no_requested_thread, run_epoch = 0, lifetime_refs = 1,
     task_id = i, last_parallel_failures = 0, task_destroyed = False\<rparr>"

definition add_lifetime_ref :: "task \<Rightarrow> task" where
  "add_lifetime_ref t = t\<lparr>lifetime_refs := lifetime_refs t + 1\<rparr>"

definition attach_start_handle :: "task \<Rightarrow> task" where
  "attach_start_handle t = add_lifetime_ref t"

definition destroy_self :: "task \<Rightarrow> task" where
  "destroy_self t = t\<lparr>task_destroyed := True\<rparr>"

definition release_lifetime_ref :: "task \<Rightarrow> task" where
  "release_lifetime_ref t =
     (let t' = t\<lparr>lifetime_refs := lifetime_refs t - 1\<rparr>
      in if lifetime_refs t = 1 then destroy_self t' else t')"

definition is_created :: "task \<Rightarrow> bool" where
  "is_created t \<longleftrightarrow> task_state t = Created"

definition cancel_schedule :: "task \<Rightarrow> TaskState \<Rightarrow> task" where
  "cancel_schedule t previous = (if task_state t = Queued then t\<lparr>task_state := previous\<rparr> else t)"

definition set_last_parallel_failures :: "task \<Rightarrow> u32 \<Rightarrow> task" where
  "set_last_parallel_failures t failures = t\<lparr>last_parallel_failures := failures\<rparr>"

definition prepare_running_epoch :: "task \<Rightarrow> task" where
  "prepare_running_epoch t = t\<lparr>run_epoch := run_epoch t + 1\<rparr>"

definition clear_requested_thread_if :: "task \<Rightarrow> u64 \<Rightarrow> bool \<times> task" where
  "clear_requested_thread_if t desired =
     (if requested_thread t = desired then (True, t\<lparr>requested_thread := no_requested_thread\<rparr>) else (False, t))"

definition take_requested_schedule :: "u16 \<Rightarrow> task \<Rightarrow> RequestedSchedule \<times> task" where
  "take_requested_schedule invalid_index t =
     (let value = requested_thread t; t' = t\<lparr>requested_thread := no_requested_thread\<rparr>
      in if value = no_requested_thread
         then (\<lparr>schedule_thread = invalid_index, schedule_mode = Auto\<rparr>, t')
         else if requested_epoch value \<noteq> run_epoch t'
         then (\<lparr>schedule_thread = invalid_index, schedule_mode = Auto\<rparr>, t')
         else (\<lparr>schedule_thread = requested_target value, schedule_mode = requested_mode value\<rparr>, t'))"

definition take_requested_thread :: "u16 \<Rightarrow> task \<Rightarrow> u16 \<times> task" where
  "take_requested_thread invalid_index t =
     (let (r, t') = take_requested_schedule invalid_index t in (schedule_thread r, t'))"

partial_function (option) resolve_running_wake_request ::
    "task \<Rightarrow> u64 \<Rightarrow> u64 \<Rightarrow> (ScheduleRequest \<times> task) option" where
  "resolve_running_wake_request t epoch desired =
     (let state = task_state t
      in if state = Running \<and> run_epoch t = epoch
         then Some (\<lparr>request_action = Deferred, request_previous = state\<rparr>, t)
         else case clear_requested_thread_if t desired of (cleared, t) \<Rightarrow>
           if \<not> cleared then Some (\<lparr>request_action = Deferred, request_previous = state\<rparr>, t)
           else if state = Pending
           then (if task_state t = Pending
                 then Some (\<lparr>request_action = Enqueue, request_previous = Pending\<rparr>, t\<lparr>task_state := Queued\<rparr>)
                 else resolve_running_wake_request t epoch desired)
           else if state = Queued \<or> state = Starting \<or> state = Running
           then Some (\<lparr>request_action = Deferred, request_previous = state\<rparr>, t)
           else if state = Done then Some (\<lparr>request_action = Deferred, request_previous = state\<rparr>, t)
           else Some (\<lparr>request_action = Rejected, request_previous = state\<rparr>, t))"

partial_function (option) request_wake_while_running ::
    "task \<Rightarrow> u16 \<Rightarrow> ScheduleMode \<Rightarrow> (ScheduleRequest \<times> task) option" where
  "request_wake_while_running t thread_index mode =
     (let epoch = run_epoch t;
          desired = pack_requested_thread epoch thread_index mode;
          expected = requested_thread t
      in if expected = no_requested_thread
         then resolve_running_wake_request (t\<lparr>requested_thread := desired\<rparr>) epoch desired
         else if expected = desired then resolve_running_wake_request t epoch desired
         else if requested_epoch expected \<noteq> epoch
         then request_wake_while_running (snd (clear_requested_thread_if t expected)) thread_index mode
         else Some (\<lparr>request_action = Rejected, request_previous = Running\<rparr>, t))"

partial_function (option) request_schedule ::
    "task \<Rightarrow> u16 \<Rightarrow> ScheduleMode \<Rightarrow> (ScheduleRequest \<times> task) option" where
  "request_schedule t thread_index mode =
     (let state = task_state t
      in case state of
           Created \<Rightarrow> Some (\<lparr>request_action = Enqueue, request_previous = state\<rparr>, t\<lparr>task_state := Queued\<rparr>)
         | Pending \<Rightarrow> Some (\<lparr>request_action = Enqueue, request_previous = state\<rparr>, t\<lparr>task_state := Queued\<rparr>)
         | Starting \<Rightarrow> request_schedule t thread_index mode
         | Running \<Rightarrow> request_wake_while_running t thread_index mode
         | Queued \<Rightarrow> Some (\<lparr>request_action = Rejected, request_previous = state\<rparr>, t)
         | Done \<Rightarrow> Some (\<lparr>request_action = Rejected, request_previous = state\<rparr>, t))"

subsection \<open>What a wake request does\<close>

lemma take_bit_46:
  fixes e :: u64
  assumes "unat e < 2 ^ 46"
  shows "take_bit 46 e = e"
  using assms by (simp add: word_unat_eq_iff unsigned_take_bit_eq take_bit_nat_eq_self)

lemma resolve_running:
  "task_state t = Running \<Longrightarrow> run_epoch t = e \<Longrightarrow>
   resolve_running_wake_request t e d = Some (\<lparr>request_action = Deferred, request_previous = Running\<rparr>, t)"
  by (simp add: resolve_running_wake_request.simps)

lemma wake_running_fresh:
  assumes "task_state t = Running" "requested_thread t = no_requested_thread"
  shows "request_wake_while_running t th m =
    Some (\<lparr>request_action = Deferred, request_previous = Running\<rparr>,
          t\<lparr>requested_thread := pack_requested_thread (run_epoch t) th m\<rparr>)"
  using assms by (simp add: request_wake_while_running.simps Let_def resolve_running)

lemma wake_running_cases:
  assumes "task_state t = Running"
  shows "request_wake_while_running t th m =
    (let d = pack_requested_thread (run_epoch t) th m; r = requested_thread t
     in if r = no_requested_thread \<or> r = d \<or> requested_epoch r \<noteq> run_epoch t
        then Some (\<lparr>request_action = Deferred, request_previous = Running\<rparr>, t\<lparr>requested_thread := d\<rparr>)
        else Some (\<lparr>request_action = Rejected, request_previous = Running\<rparr>, t))"
proof (cases "requested_thread t = no_requested_thread \<or> requested_thread t = pack_requested_thread (run_epoch t) th m")
  case True
  then show ?thesis
    using assms wake_running_fresh [OF assms]
    by (auto simp: request_wake_while_running.simps [of t] Let_def resolve_running)
next
  case False
  then show ?thesis
    using assms wake_running_fresh [of "t\<lparr>requested_thread := no_requested_thread\<rparr>"]
    by (simp add: request_wake_while_running.simps [of t] Let_def clear_requested_thread_if_def)
qed

subsection \<open>Task ids\<close>

text \<open>
  Ids are handed out in blocks: each thread takes a block of the shared counter with one
  \<^verbatim>\<open>fetch_add\<close> and then counts through it on its own.
\<close>

definition task_id_block_size :: u64 where
  "task_id_block_size = 1024"

record id_state =
  next_task_id :: u64
  local_ids :: "nat \<Rightarrow> u64 \<times> u64"

definition id_state_init :: id_state where
  "id_state_init = \<lparr>next_task_id = 1, local_ids = (\<lambda>_. (0, 0))\<rparr>"

definition allocate_task_id :: "nat \<Rightarrow> id_state \<Rightarrow> u64 \<times> id_state" where
  "allocate_task_id thread s =
     (let (next_local, limit) = local_ids s thread;
          (next_local, limit, s) =
            (if next_local = limit
             then (next_task_id s, next_task_id s + task_id_block_size,
                   s\<lparr>next_task_id := next_task_id s + task_id_block_size\<rparr>)
             else (next_local, limit, s))
      in (next_local, s\<lparr>local_ids := (local_ids s)(thread := (next_local + 1, limit))\<rparr>))"

fun allocate_ids :: "nat list \<Rightarrow> id_state \<Rightarrow> u64 list" where
  "allocate_ids [] s = []"
| "allocate_ids (th # ths) s = (let (i, s') = allocate_task_id th s in i # allocate_ids ths s')"

text \<open>The ids a thread has reserved and not used yet.\<close>

definition reserved_ids :: "id_state \<Rightarrow> nat \<Rightarrow> nat set" where
  "reserved_ids s th = {unat (fst (local_ids s th))..<unat (snd (local_ids s th))}"

definition id_state_inv :: "id_state \<Rightarrow> bool" where
  "id_state_inv s \<longleftrightarrow>
     0 < unat (next_task_id s) \<and>
     (\<forall>th. fst (local_ids s th) \<le> snd (local_ids s th)) \<and>
     (\<forall>th. reserved_ids s th \<subseteq> {0<..<unat (next_task_id s)}) \<and>
     (\<forall>a b. a \<noteq> b \<longrightarrow> reserved_ids s a \<inter> reserved_ids s b = {})"

definition free_ids :: "id_state \<Rightarrow> nat set" where
  "free_ids s = {unat (next_task_id s)..} \<union> (\<Union>th. reserved_ids s th)"

lemma allocate_task_id_step:
  assumes inv: "id_state_inv s" and room: "unat (next_task_id s) + 1024 < 2 ^ 64"
    and al: "allocate_task_id th s = (i, s')"
  shows "id_state_inv s' \<and> unat (next_task_id s') \<le> unat (next_task_id s) + 1024 \<and>
         0 < unat i \<and> unat i \<in> free_ids s \<and> free_ids s' \<subseteq> free_ids s - {unat i}"
proof -
  obtain nx lim where l: "local_ids s th = (nx, lim)" by force
  have up: "unat (next_task_id s + 1024) = unat (next_task_id s) + 1024"
    using room by (simp add: unat_word_ariths(1))
  have pos: "0 < unat (next_task_id s)"
    using inv by (simp add: id_state_inv_def)
  define n0 l0 N where "n0 = (if nx = lim then next_task_id s else nx)"
    and "l0 = (if nx = lim then next_task_id s + 1024 else lim)"
    and "N = (if nx = lim then next_task_id s + 1024 else next_task_id s)"
  have i: "i = n0" and s': "s' = s\<lparr>next_task_id := N, local_ids := (local_ids s)(th := (n0 + 1, l0))\<rparr>"
    using al by (auto simp: allocate_task_id_def l n0_def l0_def N_def task_id_block_size_def Let_def split: if_splits)
  have le: "nx \<le> lim"
    using inv l by (metis id_state_inv_def fst_conv snd_conv)
  have lt: "unat n0 < unat l0"
    using le up by (auto simp: n0_def l0_def word_le_nat_alt le_less word_unat_eq_iff)
  then have suc: "unat (n0 + 1) = Suc (unat n0)"
    using unat_lt_2_64 [of l0] by (simp add: unat_word_ariths(1))
  have res: "reserved_ids s' th = {Suc (unat n0)..<unat l0}"
    "\<And>a. a \<noteq> th \<Longrightarrow> reserved_ids s' a = reserved_ids s a"
    by (simp_all add: reserved_ids_def s' suc)
  have N: "next_task_id s' = N" "unat (next_task_id s) \<le> unat N" "unat N \<le> unat (next_task_id s) + 1024"
    using up by (auto simp: s' N_def)
  have old: "reserved_ids s a \<subseteq> {0<..<unat (next_task_id s)}" for a
    using inv by (simp add: id_state_inv_def)
  have block: "{unat n0..<unat l0} \<subseteq> (if nx = lim then {unat (next_task_id s)..<unat N} else reserved_ids s th)"
    using up by (auto simp: n0_def l0_def N_def reserved_ids_def l)
  have sub: "{unat n0..<unat l0} \<subseteq> {0<..<unat N}"
  proof (cases "nx = lim")
    case True
    then show ?thesis using block pos by (auto simp: subset_eq)
  next
    case False
    then have "{unat n0..<unat l0} \<subseteq> reserved_ids s th" using block by simp
    also have "\<dots> \<subseteq> {0<..<unat (next_task_id s)}" by (rule old)
    finally show ?thesis using N(2) by fastforce
  qed
  have dis: "reserved_ids s a \<inter> {unat n0..<unat l0} = {}" if "a \<noteq> th" for a
  proof (cases "nx = lim")
    case True
    then show ?thesis using block old [of a] by fastforce
  next
    case False
    have "reserved_ids s a \<inter> reserved_ids s th = {}"
      using inv that by (simp add: id_state_inv_def)
    then show ?thesis using block False by auto
  qed
  have "id_state_inv s'"
    unfolding id_state_inv_def
  proof (intro conjI allI impI)
    show "0 < unat (next_task_id s')" using pos N by simp
    show "fst (local_ids s' a) \<le> snd (local_ids s' a)" for a
      using inv lt suc by (simp add: s' id_state_inv_def word_le_nat_alt)
    show "reserved_ids s' a \<subseteq> {0<..<unat (next_task_id s')}" for a
      using res sub old [of a] N(1,2) by (cases "a = th") (auto simp: subset_eq)
    show "reserved_ids s' a \<inter> reserved_ids s' b = {}" if ne: "a \<noteq> b" for a b
    proof -
      have shrink: "reserved_ids s' th \<subseteq> {unat n0..<unat l0}"
        using res(1) by auto
      consider "a = th" "b \<noteq> th" | "b = th" "a \<noteq> th" | "a \<noteq> th" "b \<noteq> th"
        using ne by blast
      then show ?thesis
      proof cases
        case 1
        then show ?thesis using shrink dis [of b] unfolding res(2) [OF 1(2)] 1(1) by blast
      next
        case 2
        then show ?thesis using shrink dis [of a] unfolding res(2) [OF 2(2)] 2(1) by blast
      next
        case 3
        then show ?thesis using inv ne by (simp add: res(2) id_state_inv_def)
      qed
    qed
  qed
  moreover have "unat i \<in> free_ids s" "0 < unat i"
  proof -
    have n: "unat n0 \<in> {unat n0..<unat l0}" using lt by simp
    show "unat i \<in> free_ids s"
      using subsetD [OF block n] by (cases "nx = lim") (auto simp: i free_ids_def)
    show "0 < unat i"
      using subsetD [OF sub n] by (simp add: i)
  qed
  moreover have "free_ids s' \<subseteq> free_ids s - {unat i}"
  proof
    fix x assume "x \<in> free_ids s'"
    from this consider "unat N \<le> x" | "x \<in> {Suc (unat n0)..<unat l0}" | a where "a \<noteq> th" "x \<in> reserved_ids s a"
    proof -
      assume x: "x \<in> free_ids s'"
      consider "unat N \<le> x" | "x \<in> reserved_ids s' th" | a where "a \<noteq> th" "x \<in> reserved_ids s' a"
        using x N(1) unfolding free_ids_def by (metis UN_E Un_iff atLeast_iff)
      then show thesis
        using that res by cases auto
    qed
    then show "x \<in> free_ids s - {unat i}"
    proof cases
      case 1
      have "unat n0 \<in> {0<..<unat N}"
        by (rule subsetD [OF sub]) (use lt in simp)
      then show ?thesis using N(2) 1 by (simp add: free_ids_def i)
    next
      case 2
      then have "x \<in> {unat n0..<unat l0}" by simp
      then have "x \<in> (if nx = lim then {unat (next_task_id s)..<unat N} else reserved_ids s th)"
        by (rule subsetD [OF block])
      then show ?thesis using 2 by (cases "nx = lim") (auto simp: free_ids_def i)
    next
      case 3
      have "unat n0 \<in> {unat n0..<unat l0}" using lt by simp
      then have "x \<noteq> unat n0" using dis [OF 3(1)] 3(2) by blast
      then show ?thesis using 3 by (auto simp: free_ids_def i)
    qed
  qed
  ultimately show ?thesis using N by simp
qed

lemma allocate_ids_distinct:
  assumes "id_state_inv s" "unat (next_task_id s) + 1024 * length ths < 2 ^ 64"
  shows "distinct (allocate_ids ths s) \<and> unat ` set (allocate_ids ths s) \<subseteq> free_ids s \<and> 0 \<notin> set (allocate_ids ths s)"
  using assms
proof (induction ths arbitrary: s)
  case (Cons th ths)
  obtain i s' where al: "allocate_task_id th s = (i, s')" by force
  note S = allocate_task_id_step [OF Cons.prems(1) _ al]
  have S': "id_state_inv s'" "unat (next_task_id s') \<le> unat (next_task_id s) + 1024" "0 < unat i"
    "unat i \<in> free_ids s" "free_ids s' \<subseteq> free_ids s - {unat i}"
    using S Cons.prems(2) by simp_all
  have IH: "distinct (allocate_ids ths s')" "unat ` set (allocate_ids ths s') \<subseteq> free_ids s'"
    "0 \<notin> set (allocate_ids ths s')"
    using Cons.IH [OF S'(1)] S'(2) Cons.prems(2) by simp_all
  have "i \<notin> set (allocate_ids ths s')"
    using IH(2) S'(5) by blast
  then show ?case
    using IH S' by (auto simp: al)
qed simp

subsection \<open>Properties\<close>

text \<open>
  A wake request packed for a run below \<open>2 ^ 46\<close> and a thread of the runtime is read back as
  that epoch, thread and mode, and is never the empty request.
\<close>

theorem wake_request_round_trip:
  assumes "th < 0xFFFF" and "unat e < 2 ^ 46"
  shows "requested_epoch (pack_requested_thread e th m) = e \<and>
         requested_target (pack_requested_thread e th m) = th \<and>
         requested_mode (pack_requested_thread e th m) = m \<and>
         pack_requested_thread e th m \<noteq> no_requested_thread"
  using requested_epoch_pack [OF assms(1)] take_bit_46 [OF assms(2)] requested_target_pack [OF assms(1)]
    requested_mode_pack [OF assms(1)] pack_nonzero [OF assms(1)] by simp

theorem wake_request_round_trip_witness:
  "requested_target (pack_requested_thread 7 3 Ordered) = 3 \<and> requested_mode (pack_requested_thread 7 3 Ordered) = Ordered"
  using wake_request_round_trip [of 3 7 Ordered] by simp

text \<open>A request of the present run, other than the one asked for, stands in the slot of a task.\<close>

definition slot_taken :: "task \<Rightarrow> u16 \<Rightarrow> ScheduleMode \<Rightarrow> bool" where
  "slot_taken t th m \<longleftrightarrow>
     requested_thread t \<noteq> no_requested_thread \<and> requested_epoch (requested_thread t) = run_epoch t \<and>
     requested_thread t \<noteq> pack_requested_thread (run_epoch t) th m"

text \<open>
  A request to schedule a task in any state but \<^term>\<open>Starting\<close>, in which the request waits for the
  next state, returns, and its outcome is this: it asks the caller to enqueue exactly when the task
  was created or pending, and then the task is queued; it is deferred exactly when the task is
  running and no other request of the same run is in its slot, and then it is in the slot; in every
  other case it is rejected.  Nothing else of the task changes.
\<close>

theorem request_schedule_effect:
  assumes "task_state t \<noteq> Starting"
  shows "\<exists>r t'. request_schedule t th m = Some (r, t') \<and> request_previous r = task_state t \<and>
           (request_action r = Enqueue \<longleftrightarrow> task_state t \<in> {Created, Pending}) \<and>
           (request_action r = Deferred \<longleftrightarrow> task_state t = Running \<and> \<not> slot_taken t th m) \<and>
           t' = (case request_action r of
                   Enqueue \<Rightarrow> t\<lparr>task_state := Queued\<rparr>
                 | Deferred \<Rightarrow> t\<lparr>requested_thread := pack_requested_thread (run_epoch t) th m\<rparr>
                 | Rejected \<Rightarrow> t)"
  using assms wake_running_cases [of t th m]
  by (subst request_schedule.simps) (cases "task_state t"; auto simp: Let_def slot_taken_def)

theorem request_schedule_effect_witness:
  "\<exists>r t'. request_schedule ((task_new 1)\<lparr>task_state := Running\<rparr>) 0 Auto = Some (r, t') \<and> request_action r = Deferred \<and>
     requested_thread t' = pack_requested_thread 0 0 Auto"
  using request_schedule_effect [of "(task_new 1)\<lparr>task_state := Running\<rparr>" 0 Auto] by (auto simp: task_new_def slot_taken_def)

text \<open>Requests to schedule a task, one after the other.\<close>

fun request_all :: "task \<Rightarrow> (u16 \<times> ScheduleMode) list \<Rightarrow> task option" where
  "request_all t [] = Some t"
| "request_all t ((th, m) # later) =
     (case request_schedule t th m of None \<Rightarrow> None | Some (r, t) \<Rightarrow> request_all t later)"

lemma request_keeps_slot:
  assumes "task_state t = Running" "requested_thread t = pack_requested_thread (run_epoch t) th m" "th < 0xFFFF"
    "unat (run_epoch t) < 2 ^ 46"
  shows "\<exists>r. request_schedule t th' m' = Some (r, t)"
proof -
  let ?d = "pack_requested_thread (run_epoch t) th m"
  have "requested_epoch ?d = run_epoch t" "?d \<noteq> no_requested_thread"
    using requested_epoch_pack [OF assms(3)] take_bit_46 [OF assms(4)] pack_nonzero [OF assms(3)] by simp_all
  moreover have "t\<lparr>requested_thread := ?d\<rparr> = t" using assms(2) by simp
  ultimately show ?thesis
    using wake_running_cases [OF assms(1), of th' m'] assms(1,2) by (subst request_schedule.simps) (auto simp: Let_def)
qed

lemma request_all_keeps_slot:
  assumes "task_state t = Running" "requested_thread t = pack_requested_thread (run_epoch t) th m" "th < 0xFFFF"
    "unat (run_epoch t) < 2 ^ 46"
  shows "request_all t later = Some t"
proof (induction later)
  case (Cons x later)
  then show ?case using request_keeps_slot [OF assms, of "fst x" "snd x"] by (cases x) auto
qed simp

text \<open>
  C39: A wake request that a running task defers is not overwritten by the requests that follow it in
  that run, and it is what the end of the run finds: the thread and mode asked for, once; the slot
  is empty afterwards.  This needs a thread index below the invalid one, and a task that has not run
  \<open>2\<^sup>4\<^sup>6\<close> times; from then on the request is lost, as shown below.
\<close>

theorem deferred_wake_is_taken:
  assumes running: "task_state t = Running" and th: "th < 0xFFFF" and epoch: "unat (run_epoch t) < 2 ^ 46"
    and request: "request_schedule t th m = Some (r, t')" "request_action r = Deferred"
  shows "\<exists>t''. request_all t' later = Some t'' \<and>
    take_requested_schedule nt t'' =
      (\<lparr>schedule_thread = th, schedule_mode = m\<rparr>, t\<lparr>requested_thread := no_requested_thread\<rparr>)"
proof -
  have "request_wake_while_running t th m = Some (r, t')"
    using request(1) running by (subst (asm) request_schedule.simps) simp
  then have t': "t' = t\<lparr>requested_thread := pack_requested_thread (run_epoch t) th m\<rparr>"
    using request(2) by (auto simp: wake_running_cases [OF running] Let_def split: if_splits)
  then have "request_all t' later = Some t'"
    using request_all_keeps_slot [of t' th m later] running th epoch by simp
  moreover have "take_requested_schedule nt t' =
      (\<lparr>schedule_thread = th, schedule_mode = m\<rparr>, t\<lparr>requested_thread := no_requested_thread\<rparr>)"
    using requested_epoch_pack [OF th] take_bit_46 [OF epoch] requested_target_pack [OF th]
      requested_mode_pack [OF th] pack_nonzero [OF th]
    by (simp add: t' take_requested_schedule_def Let_def)
  ultimately show ?thesis by blast
qed

theorem deferred_wake_is_taken_witness:
  "let t = (task_new 1)\<lparr>task_state := Running, run_epoch := 1\<rparr>
   in \<exists>r t' t''. request_schedule t 3 Fast = Some (r, t') \<and> request_all t' [(5, Auto), (3, Ordered)] = Some t'' \<and>
        fst (take_requested_schedule 9 t'') = \<lparr>schedule_thread = 3, schedule_mode = Fast\<rparr>"
proof -
  let ?t = "(task_new 1)\<lparr>task_state := Running, run_epoch := 1\<rparr>"
  have "request_schedule ?t 3 Fast = Some (\<lparr>request_action = Deferred, request_previous = Running\<rparr>,
      ?t\<lparr>requested_thread := pack_requested_thread 1 3 Fast\<rparr>)"
    using wake_running_fresh [of ?t 3 Fast] by (subst request_schedule.simps) (simp add: task_new_def)
  then show ?thesis
    using deferred_wake_is_taken [of ?t 3 Fast _ _ "[(5, Auto), (3, Ordered)]" 9] unfolding Let_def by fastforce
qed

text \<open>
  The epoch is kept in 46 bits of the request but compared with all 64 bits of the run
  counter.  From run \<open>2 ^ 46\<close> on, a wake request that was accepted as deferred is dropped by the
  end of the run.
\<close>

theorem wake_dropped_after_epoch_overflow:
  assumes "task_state t = Running" and "th < 0xFFFF" and "2 ^ 46 \<le> unat (run_epoch t)"
    and "requested_thread t = no_requested_thread"
  shows "\<exists>r t'. request_wake_while_running t th m = Some (r, t') \<and> request_action r = Deferred \<and>
           schedule_thread (fst (take_requested_schedule nt t')) = nt"
proof -
  let ?d = "pack_requested_thread (run_epoch t) th m"
  have "unat (take_bit 46 (run_epoch t)) < 2 ^ 46"
    using take_bit_nat_less_exp [of 46 "unat (run_epoch t)"] by (simp add: unsigned_take_bit_eq)
  then have "requested_epoch ?d \<noteq> run_epoch t"
    using requested_epoch_pack [OF assms(2)] assms(3) by auto
  then have "schedule_thread (fst (take_requested_schedule nt (t\<lparr>requested_thread := ?d\<rparr>))) = nt"
    by (simp add: take_requested_schedule_def Let_def)
  then show ?thesis
    using wake_running_fresh [OF assms(1,4), of th m] by auto
qed

theorem wake_dropped_after_epoch_overflow_witness:
  "\<exists>r t'. request_wake_while_running ((task_new 1)\<lparr>task_state := Running, run_epoch := 0x400000000000\<rparr>) 3 Auto =
      Some (r, t') \<and> request_action r = Deferred \<and> schedule_thread (fst (take_requested_schedule 9 t')) = 9"
  using wake_dropped_after_epoch_overflow [of "(task_new 1)\<lparr>task_state := Running, run_epoch := 0x400000000000\<rparr>" 3 Auto 9]
  by (simp add: task_new_def)

text \<open>
  Task ids are unique and never the invalid id, whatever threads allocate them in whatever
  order, as long as the counter does not run out of 64-bit blocks.
\<close>

theorem task_ids_unique:
  assumes "length ths < 2 ^ 53"
  shows "distinct (allocate_ids ths id_state_init) \<and> 0 \<notin> set (allocate_ids ths id_state_init)"
proof -
  have "id_state_inv id_state_init"
    by (simp add: id_state_inv_def id_state_init_def reserved_ids_def)
  then show ?thesis
    using allocate_ids_distinct [of id_state_init ths] assms by (simp add: id_state_init_def)
qed

theorem task_ids_unique_witness:
  "distinct (allocate_ids [0, 1, 0] id_state_init)"
  using task_ids_unique [of "[0, 1, 0]"] by simp

end
