(* ===== verification/Task_Wake.thy ===== *)
theory Task_Wake
  imports Task_Core
begin

section \<open>Scheduling a task under interleaving\<close>

text \<open>
  The wake protocol of \<^verbatim>\<open>BasicTask\<close> and of the executor, for one task, any number of threads that
  schedule it and any number of executor threads.  A step is one access to the task's atomic
  fields or to a ready queue; loads and stores interleave in one total order.  A scheduling call
  follows \<^verbatim>\<open>request_schedule\<close>, \<^verbatim>\<open>request_wake_while_running\<close>, \<^verbatim>\<open>resolve_running_wake_request\<close> and the
  enqueue of \<^verbatim>\<open>AsyncRuntime::post\<close>, with its undo by \<^verbatim>\<open>cancel_schedule\<close> when a bounded queue refuses;
  an executor follows \<^verbatim>\<open>Executor::execute\<close>, \<^verbatim>\<open>finish_done\<close>, \<^verbatim>\<open>finish_pending\<close> and \<^verbatim>\<open>finish_again\<close>.
  What \<^verbatim>\<open>run()\<close> does is left open: it may return any result.

  \<open>accepted_after\<close> is a ghost: one more than the largest number of runs that had started when an
  accepted call began.  Every accepted call has been followed by the start of a run exactly when
  it is at most the number of runs started.
\<close>

datatype exec_pc =
    X_Idle | X_Popped | X_Starting | X_Epoch | X_Running
  | X_PendTake | X_PendCheck u64 | X_PendCas u16 | X_Enqueue u16 | X_AgainTake | X_DoneTake

text \<open>A call for a thread and a mode, with the number of runs started when it began.\<close>

record call =
  call_thread :: u16
  call_mode :: ScheduleMode
  call_start :: nat

datatype waker_pc =
    W_Idle
  | W_Load call
  | W_CasQueued call TaskState
  | W_Enqueue call TaskState
  | W_Epoch call
  | W_Install call u64
  | W_Clear call u64
  | W_Resolve call u64 u64
  | W_ResolveEpoch call u64 u64
  | W_ResolveClear call u64 u64 TaskState
  | W_ResolveCas call u64 u64

record wake_sys =
  wk_task :: task
  wk_queue :: "u16 \<Rightarrow> nat"
  wk_exec :: "u16 \<Rightarrow> exec_pc"
  wk_waker :: "nat \<Rightarrow> waker_pc"
  accepted_after :: nat

abbreviation wstate :: "wake_sys \<Rightarrow> TaskState" where
  "wstate s \<equiv> task_state (wk_task s)"

abbreviation wslot :: "wake_sys \<Rightarrow> u64" where
  "wslot s \<equiv> requested_thread (wk_task s)"

abbreviation wepoch :: "wake_sys \<Rightarrow> u64" where
  "wepoch s \<equiv> run_epoch (wk_task s)"

definition set_state :: "wake_sys \<Rightarrow> TaskState \<Rightarrow> wake_sys" where
  "set_state s st = s\<lparr>wk_task := (wk_task s)\<lparr>task_state := st\<rparr>\<rparr>"

definition set_slot :: "wake_sys \<Rightarrow> u64 \<Rightarrow> wake_sys" where
  "set_slot s r = s\<lparr>wk_task := (wk_task s)\<lparr>requested_thread := r\<rparr>\<rparr>"

definition exec_to :: "wake_sys \<Rightarrow> u16 \<Rightarrow> exec_pc \<Rightarrow> wake_sys" where
  "exec_to s x pc = s\<lparr>wk_exec := (wk_exec s)(x := pc)\<rparr>"

definition waker_to :: "wake_sys \<Rightarrow> nat \<Rightarrow> waker_pc \<Rightarrow> wake_sys" where
  "waker_to s i pc = s\<lparr>wk_waker := (wk_waker s)(i := pc)\<rparr>"

definition add_entry :: "wake_sys \<Rightarrow> u16 \<Rightarrow> wake_sys" where
  "add_entry s th = s\<lparr>wk_queue := (wk_queue s)(th := Suc (wk_queue s th))\<rparr>"

definition accept :: "wake_sys \<Rightarrow> nat \<Rightarrow> call \<Rightarrow> wake_sys" where
  "accept s i c = (waker_to s i W_Idle)\<lparr>accepted_after := max (accepted_after s) (Suc (call_start c))\<rparr>"

inductive exec_step :: "wake_sys \<Rightarrow> wake_sys \<Rightarrow> bool" where
  pop: "wk_exec s x = X_Idle \<Longrightarrow> wk_queue s x = Suc n \<Longrightarrow>
    exec_step s (exec_to (s\<lparr>wk_queue := (wk_queue s)(x := n)\<rparr>) x X_Popped)"
| claim: "wk_exec s x = X_Popped \<Longrightarrow> wstate s = Queued \<Longrightarrow>
    exec_step s (exec_to (set_state s Starting) x X_Starting)"
| claim_fails: "wk_exec s x = X_Popped \<Longrightarrow> wstate s \<noteq> Queued \<Longrightarrow> exec_step s (exec_to s x X_Idle)"
| new_epoch: "wk_exec s x = X_Starting \<Longrightarrow>
    exec_step s (exec_to (s\<lparr>wk_task := prepare_running_epoch (wk_task s)\<rparr>) x X_Epoch)"
| begin_run: "wk_exec s x = X_Epoch \<Longrightarrow> exec_step s (exec_to (set_state s Running) x X_Running)"
| run_pending: "wk_exec s x = X_Running \<Longrightarrow> exec_step s (exec_to (set_state s Pending) x X_PendTake)"
| run_again: "wk_exec s x = X_Running \<Longrightarrow> exec_step s (exec_to (set_state s Queued) x X_AgainTake)"
| run_done: "wk_exec s x = X_Running \<Longrightarrow> exec_step s (exec_to (set_state s Done) x X_DoneTake)"
| pend_take: "wk_exec s x = X_PendTake \<Longrightarrow>
    exec_step s (exec_to (set_slot s no_requested_thread) x
      (if wslot s = no_requested_thread then X_Idle else X_PendCheck (wslot s)))"
| pend_check: "wk_exec s x = X_PendCheck v \<Longrightarrow>
    exec_step s (exec_to s x (if requested_epoch v \<noteq> wepoch s then X_Idle else X_PendCas (requested_target v)))"
| pend_cas: "wk_exec s x = X_PendCas th \<Longrightarrow> wstate s = Pending \<Longrightarrow>
    exec_step s (exec_to (set_state s Queued) x (X_Enqueue th))"
| pend_cas_fails: "wk_exec s x = X_PendCas th \<Longrightarrow> wstate s \<noteq> Pending \<Longrightarrow> exec_step s (exec_to s x X_Idle)"
| exec_enqueue: "wk_exec s x = X_Enqueue th \<Longrightarrow> exec_step s (exec_to (add_entry s th) x X_Idle)"
| again_take: "wk_exec s x = X_AgainTake \<Longrightarrow>
    exec_step s (exec_to (set_slot s no_requested_thread) x (X_Enqueue x))"
| done_take: "wk_exec s x = X_DoneTake \<Longrightarrow>
    exec_step s (exec_to (set_slot s no_requested_thread) x X_Idle)"

inductive waker_step :: "wake_sys \<Rightarrow> wake_sys \<Rightarrow> bool" where
  call_begins: "wk_waker s i = W_Idle \<Longrightarrow>
    waker_step s (waker_to s i (W_Load \<lparr>call_thread = th, call_mode = m, call_start = unat (wepoch s)\<rparr>))"
| load_ready: "wk_waker s i = W_Load c \<Longrightarrow> wstate s = st \<Longrightarrow> st = Created \<or> st = Pending \<Longrightarrow>
    waker_step s (waker_to s i (W_CasQueued c st))"
| load_running: "wk_waker s i = W_Load c \<Longrightarrow> wstate s = Running \<Longrightarrow>
    waker_step s (waker_to s i (W_Epoch c))"
| load_rejected: "wk_waker s i = W_Load c \<Longrightarrow> wstate s = Queued \<or> wstate s = Done \<Longrightarrow>
    waker_step s (waker_to s i W_Idle)"
| cas_queued: "wk_waker s i = W_CasQueued c st \<Longrightarrow> wstate s = st \<Longrightarrow>
    waker_step s (waker_to (set_state s Queued) i (W_Enqueue c st))"
| cas_queued_fails: "wk_waker s i = W_CasQueued c st \<Longrightarrow> waker_step s (waker_to s i (W_Load c))"
| enqueue: "wk_waker s i = W_Enqueue c st \<Longrightarrow> waker_step s (accept (add_entry s (call_thread c)) i c)"
| enqueue_refused: "wk_waker s i = W_Enqueue c st \<Longrightarrow>
    waker_step s (waker_to (s\<lparr>wk_task := cancel_schedule (wk_task s) st\<rparr>) i W_Idle)"
| load_epoch: "wk_waker s i = W_Epoch c \<Longrightarrow> waker_step s (waker_to s i (W_Install c (wepoch s)))"
| install: "wk_waker s i = W_Install c e \<Longrightarrow> d = pack_requested_thread e (call_thread c) (call_mode c) \<Longrightarrow>
    wslot s = no_requested_thread \<or> wslot s = d \<Longrightarrow>
    waker_step s (waker_to (set_slot s d) i (W_Resolve c e d))"
| install_stale: "wk_waker s i = W_Install c e \<Longrightarrow> d = pack_requested_thread e (call_thread c) (call_mode c) \<Longrightarrow>
    wslot s \<noteq> no_requested_thread \<Longrightarrow> wslot s \<noteq> d \<Longrightarrow> requested_epoch (wslot s) \<noteq> e \<Longrightarrow>
    waker_step s (waker_to s i (W_Clear c (wslot s)))"
| install_rejected: "wk_waker s i = W_Install c e \<Longrightarrow> d = pack_requested_thread e (call_thread c) (call_mode c) \<Longrightarrow>
    wslot s \<noteq> no_requested_thread \<Longrightarrow> wslot s \<noteq> d \<Longrightarrow> requested_epoch (wslot s) = e \<Longrightarrow>
    waker_step s (waker_to s i W_Idle)"
| clear_stale: "wk_waker s i = W_Clear c old \<Longrightarrow>
    waker_step s (waker_to (if wslot s = old then set_slot s no_requested_thread else s) i (W_Epoch c))"
| resolve_load: "wk_waker s i = W_Resolve c e d \<Longrightarrow>
    waker_step s (waker_to s i
      (if wstate s = Running then W_ResolveEpoch c e d else W_ResolveClear c e d (wstate s)))"
| resolve_same_run: "wk_waker s i = W_ResolveEpoch c e d \<Longrightarrow> wepoch s = e \<Longrightarrow> waker_step s (accept s i c)"
| resolve_later_run: "wk_waker s i = W_ResolveEpoch c e d \<Longrightarrow> wepoch s \<noteq> e \<Longrightarrow>
    waker_step s (waker_to s i (W_ResolveClear c e d Running))"
| resolve_taken: "wk_waker s i = W_ResolveClear c e d st \<Longrightarrow> wslot s \<noteq> d \<Longrightarrow> waker_step s (accept s i c)"
| resolve_pending: "wk_waker s i = W_ResolveClear c e d Pending \<Longrightarrow> wslot s = d \<Longrightarrow>
    waker_step s (waker_to (set_slot s no_requested_thread) i (W_ResolveCas c e d))"
| resolve_active: "wk_waker s i = W_ResolveClear c e d st \<Longrightarrow> wslot s = d \<Longrightarrow>
    st \<in> {Queued, Starting, Running, Done} \<Longrightarrow>
    waker_step s (accept (set_slot s no_requested_thread) i c)"
| resolve_created: "wk_waker s i = W_ResolveClear c e d Created \<Longrightarrow> wslot s = d \<Longrightarrow>
    waker_step s (waker_to (set_slot s no_requested_thread) i W_Idle)"
| resolve_cas: "wk_waker s i = W_ResolveCas c e d \<Longrightarrow> wstate s = Pending \<Longrightarrow>
    waker_step s (waker_to (set_state s Queued) i (W_Enqueue c Pending))"
| resolve_cas_fails: "wk_waker s i = W_ResolveCas c e d \<Longrightarrow> wstate s \<noteq> Pending \<Longrightarrow>
    waker_step s (waker_to s i (W_Resolve c e d))"

definition wake_init :: "u64 \<Rightarrow> wake_sys" where
  "wake_init i = \<lparr>wk_task = task_new i, wk_queue = (\<lambda>_. 0), wk_exec = (\<lambda>_. X_Idle), wk_waker = (\<lambda>_. W_Idle),
     accepted_after = 0\<rparr>"

inductive wake_reachable :: "wake_sys \<Rightarrow> bool" where
  start: "wake_reachable (wake_init i)"
| exec: "wake_reachable s \<Longrightarrow> exec_step s t \<Longrightarrow> wake_reachable t"
| waker: "wake_reachable s \<Longrightarrow> waker_step s t \<Longrightarrow> wake_reachable t"

subsection \<open>One holder at a time\<close>

text \<open>
  Who may move a queued, starting or running task on: its queue entry, a caller that is about to
  enqueue it, or an executor between the pop and the end of the run.  \<open>phase\<close> is the task state that
  fits the holder.
\<close>

datatype holder = H_Queue u16 nat | H_Exec u16 | H_Waker nat

fun exec_holds :: "exec_pc \<Rightarrow> bool" where
  "exec_holds X_Popped = True"
| "exec_holds X_Starting = True"
| "exec_holds X_Epoch = True"
| "exec_holds X_Running = True"
| "exec_holds (X_Enqueue th) = True"
| "exec_holds X_AgainTake = True"
| "exec_holds pc = False"

fun exec_phase :: "exec_pc \<Rightarrow> TaskState" where
  "exec_phase X_Starting = Starting"
| "exec_phase X_Epoch = Starting"
| "exec_phase X_Running = Running"
| "exec_phase pc = Queued"

fun waker_holds :: "waker_pc \<Rightarrow> bool" where
  "waker_holds (W_Enqueue c st) = True"
| "waker_holds pc = False"

definition holders :: "wake_sys \<Rightarrow> holder set" where
  "holders s = {H_Queue th k |th k. k < wk_queue s th} \<union> {H_Exec x |x. exec_holds (wk_exec s x)} \<union>
     {H_Waker i |i. waker_holds (wk_waker s i)}"

fun phase :: "wake_sys \<Rightarrow> holder \<Rightarrow> TaskState" where
  "phase s (H_Exec x) = exec_phase (wk_exec s x)"
| "phase s h = Queued"

definition active_state :: "TaskState \<Rightarrow> bool" where
  "active_state st \<longleftrightarrow> st \<in> {Queued, Starting, Running}"

lemma active_simps [simp]:
  "active_state Queued" "active_state Starting" "active_state Running"
  "\<not> active_state Created" "\<not> active_state Pending" "\<not> active_state Done"
  by (simp_all add: active_state_def)

definition pc_ok :: "waker_pc \<Rightarrow> bool" where
  "pc_ok pc \<longleftrightarrow> (\<forall>c st. pc = W_Enqueue c st \<or> pc = W_CasQueued c st \<longrightarrow> st = Created \<or> st = Pending)"

definition token_inv :: "wake_sys \<Rightarrow> bool" where
  "token_inv s \<longleftrightarrow>
     (if active_state (wstate s) then \<exists>h. holders s = {h} \<and> phase s h = wstate s else holders s = {}) \<and>
     (\<forall>i. pc_ok (wk_waker s i))"

lemmas wake_updates = set_state_def set_slot_def exec_to_def waker_to_def add_entry_def accept_def
  prepare_running_epoch_def cancel_schedule_def

lemma in_holders:
  "H_Queue th k \<in> holders s \<longleftrightarrow> k < wk_queue s th"
  "H_Exec x \<in> holders s \<longleftrightarrow> exec_holds (wk_exec s x)"
  "H_Waker i \<in> holders s \<longleftrightarrow> waker_holds (wk_waker s i)"
  by (auto simp: holders_def)

lemma holders_eqI:
  assumes "\<And>th k. H_Queue th k \<in> A \<longleftrightarrow> k < wk_queue s th" "\<And>x. H_Exec x \<in> A \<longleftrightarrow> exec_holds (wk_exec s x)"
    "\<And>i. H_Waker i \<in> A \<longleftrightarrow> waker_holds (wk_waker s i)"
  shows "holders s = A"
proof (rule set_eqI)
  fix h show "h \<in> holders s \<longleftrightarrow> h \<in> A"
    by (cases h) (simp_all add: in_holders assms)
qed

lemma holders_exec: "holders (exec_to s x pc) = (holders s - {H_Exec x}) \<union> (if exec_holds pc then {H_Exec x} else {})"
  by (rule holders_eqI) (auto simp: in_holders exec_to_def)

lemma holders_waker: "holders (waker_to s i pc) = (holders s - {H_Waker i}) \<union> (if waker_holds pc then {H_Waker i} else {})"
  by (rule holders_eqI) (auto simp: in_holders waker_to_def)

lemma holders_accept: "holders (accept s i c) = holders s - {H_Waker i}"
  by (rule holders_eqI) (auto simp: in_holders accept_def waker_to_def)

lemma holders_add: "holders (add_entry s th) = insert (H_Queue th (wk_queue s th)) (holders s)"
  by (rule holders_eqI) (auto simp: in_holders add_entry_def)

lemma holders_pop: "wk_queue s x = Suc n \<Longrightarrow> holders (s\<lparr>wk_queue := (wk_queue s)(x := n)\<rparr>) = holders s - {H_Queue x n}"
  by (rule holders_eqI) (auto simp: in_holders)

lemma holders_task [simp]: "holders (s\<lparr>wk_task := t\<rparr>) = holders s" "holders (set_state s st) = holders s"
  "holders (set_slot s r) = holders s"
  by (simp_all add: holders_def set_state_def set_slot_def)

lemma holder_state:
  assumes "token_inv s" "h \<in> holders s"
  shows "holders s = {h}" "wstate s = phase s h"
  using assms by (auto simp: token_inv_def split: if_splits)

lemma exec_keeps:
  assumes inv: "token_inv s" and h: "exec_holds (wk_exec s x)"
    and st: "if active_state (task_state tk) then exec_holds pc \<and> exec_phase pc = task_state tk else \<not> exec_holds pc"
  shows "token_inv (exec_to (s\<lparr>wk_task := tk\<rparr>) x pc)"
proof -
  have "holders s = {H_Exec x}"
    using holder_state(1) [OF inv, of "H_Exec x"] h by (simp add: in_holders)
  moreover have "\<forall>i. pc_ok (wk_waker s i)" using inv by (simp add: token_inv_def)
  ultimately show ?thesis
    using st unfolding token_inv_def holders_exec by (auto simp: exec_to_def)
qed

lemma exec_outside:
  assumes inv: "token_inv s" and h: "\<not> exec_holds (wk_exec s x)" and pc: "\<not> exec_holds pc"
    and st: "task_state tk = wstate s"
  shows "token_inv (exec_to (s\<lparr>wk_task := tk\<rparr>) x pc)"
proof -
  have nh: "H_Exec x \<notin> holders s" using h by (simp add: in_holders)
  have H: "holders (exec_to (s\<lparr>wk_task := tk\<rparr>) x pc) = holders s"
    using nh pc by (simp add: holders_exec)
  have "phase (exec_to (s\<lparr>wk_task := tk\<rparr>) x pc) k = phase s k" if "k \<in> holders s" for k
    using that nh by (cases k) (auto simp: exec_to_def)
  then show ?thesis
    using inv st unfolding token_inv_def H by (auto simp: exec_to_def split: if_splits)
qed

lemma exec_gains:
  assumes inv: "token_inv s" and st: "\<not> active_state (wstate s)" and pc: "exec_holds pc" "exec_phase pc = task_state tk"
    and act: "active_state (task_state tk)"
  shows "token_inv (exec_to (s\<lparr>wk_task := tk\<rparr>) x pc)"
  using inv st pc act unfolding token_inv_def holders_exec by (auto simp: exec_to_def)

lemma token_inv_exec:
  assumes "exec_step s t" "token_inv s"
  shows "token_inv t"
  using assms
proof (induction rule: exec_step.induct)
  case (pop s x n)
  have h: "H_Queue x n \<in> holders s" using pop by (simp add: in_holders)
  note H = holder_state [OF pop.prems h]
  show ?case
    using pop.prems H(2) unfolding token_inv_def holders_exec holders_pop [OF pop(2)] H(1)
    by (simp add: exec_to_def)
next
  case (claim s x)
  then show ?case using exec_keeps [of s x "(wk_task s)\<lparr>task_state := Starting\<rparr>"] by (simp add: set_state_def)
next
  case (claim_fails s x)
  then show ?case using holder_state(2) [of s "H_Exec x"] by (simp add: in_holders)
next
  case (new_epoch s x)
  then show ?case
    using exec_keeps [of s x "prepare_running_epoch (wk_task s)" X_Epoch] holder_state(2) [of s "H_Exec x"]
    by (simp add: in_holders prepare_running_epoch_def)
next
  case (begin_run s x)
  then show ?case using exec_keeps [of s x "(wk_task s)\<lparr>task_state := Running\<rparr>"] by (simp add: set_state_def)
next
  case (run_pending s x)
  then show ?case using exec_keeps [of s x "(wk_task s)\<lparr>task_state := Pending\<rparr>"] by (simp add: set_state_def)
next
  case (run_again s x)
  then show ?case using exec_keeps [of s x "(wk_task s)\<lparr>task_state := Queued\<rparr>"] by (simp add: set_state_def)
next
  case (run_done s x)
  then show ?case using exec_keeps [of s x "(wk_task s)\<lparr>task_state := Done\<rparr>"] by (simp add: set_state_def)
next
  case (pend_take s x)
  then show ?case by (simp add: set_slot_def exec_outside)
next
  case (pend_check s x v)
  then show ?case using exec_outside [of s x _ "wk_task s"] by simp
next
  case (pend_cas s x th)
  then show ?case using exec_gains [of s "X_Enqueue th" "(wk_task s)\<lparr>task_state := Queued\<rparr>"] by (simp add: set_state_def)
next
  case (pend_cas_fails s x th)
  then show ?case using exec_outside [of s x X_Idle "wk_task s"] by simp
next
  case (exec_enqueue s x th)
  have "H_Exec x \<in> holders s" using exec_enqueue by (simp add: in_holders)
  note H = holder_state [OF exec_enqueue.prems this]
  show ?case
    using exec_enqueue H(2) unfolding token_inv_def holders_exec holders_add H(1)
    by (simp add: exec_to_def add_entry_def insert_Diff_if)
next
  case (again_take s x)
  then show ?case
    using exec_keeps [of s x "(wk_task s)\<lparr>requested_thread := no_requested_thread\<rparr>" "X_Enqueue x"]
      holder_state(2) [of s "H_Exec x"] by (simp add: set_slot_def in_holders)
next
  case (done_take s x)
  then show ?case by (simp add: set_slot_def exec_outside)
qed

lemma waker_outside:
  assumes inv: "token_inv s" and h: "\<not> waker_holds (wk_waker s i)" and pc: "\<not> waker_holds pc" "pc_ok pc"
    and st: "task_state tk = wstate s"
  shows "token_inv (waker_to (s\<lparr>wk_task := tk\<rparr>) i pc)"
proof -
  have nh: "H_Waker i \<notin> holders s" using h by (simp add: in_holders)
  have H: "holders (waker_to (s\<lparr>wk_task := tk\<rparr>) i pc) = holders s"
    using nh pc by (simp add: holders_waker)
  have "phase (waker_to (s\<lparr>wk_task := tk\<rparr>) i pc) k = phase s k" for k
    by (cases k) (auto simp: waker_to_def)
  then show ?thesis
    using inv st pc(2) unfolding token_inv_def H by (auto simp: waker_to_def split: if_splits)
qed

lemma waker_moves:
  assumes "token_inv s" "\<not> waker_holds (wk_waker s i)" "\<not> waker_holds pc" "pc_ok pc"
  shows "token_inv (waker_to s i pc)"
  using waker_outside [OF assms, of "wk_task s"] by simp

lemma waker_gains:
  assumes inv: "token_inv s" and st: "\<not> active_state (wstate s)" and pc: "st = Created \<or> st = Pending"
  shows "token_inv (waker_to (set_state s Queued) i (W_Enqueue c st))"
  using inv st pc unfolding token_inv_def holders_waker
  by (auto simp: waker_to_def set_state_def pc_ok_def)

lemma waker_enqueues:
  assumes inv: "token_inv s" and pc: "wk_waker s i = W_Enqueue c st"
  shows "token_inv (accept (add_entry s th) i c)"
proof -
  have "H_Waker i \<in> holders s" using pc by (simp add: in_holders)
  note H = holder_state [OF inv this]
  show ?thesis
    using inv H(2) unfolding token_inv_def holders_accept holders_add H(1)
    by (auto simp: accept_def waker_to_def add_entry_def insert_Diff_if pc_ok_def)
qed

lemma waker_undoes:
  assumes inv: "token_inv s" and pc: "wk_waker s i = W_Enqueue c st"
  shows "token_inv (waker_to (s\<lparr>wk_task := cancel_schedule (wk_task s) st\<rparr>) i W_Idle)"
proof -
  have "H_Waker i \<in> holders s" using pc by (simp add: in_holders)
  note H = holder_state [OF inv this]
  have "pc_ok (W_Enqueue c st)"
    using inv pc by (metis token_inv_def)
  then have "\<not> active_state st"
    by (auto simp: pc_ok_def)
  then show ?thesis
    using inv H(2) unfolding token_inv_def holders_waker holders_task H(1)
    by (auto simp: waker_to_def cancel_schedule_def pc_ok_def)
qed

lemma token_inv_accept: "token_inv (accept s i c) \<longleftrightarrow> token_inv (waker_to s i W_Idle)"
proof -
  have "phase (accept s i c) h = phase (waker_to s i W_Idle) h" for h
    by (cases h) (simp_all add: accept_def waker_to_def)
  then show ?thesis
    by (simp add: token_inv_def holders_accept holders_waker) (simp add: accept_def waker_to_def)
qed

lemma token_inv_waker:
  assumes "waker_step s t" "token_inv s"
  shows "token_inv t"
  using assms
proof (induction rule: waker_step.induct)
  case (cas_queued s i c st)
  then have "pc_ok (W_CasQueued c st)" by (metis token_inv_def)
  then show ?case
    using cas_queued by (intro waker_gains) (auto simp: pc_ok_def)
next
  case (enqueue s i c st)
  then show ?case by (intro waker_enqueues)
next
  case (enqueue_refused s i c st)
  then show ?case by (intro waker_undoes)
next
  case (resolve_cas s i c e d)
  then show ?case by (intro waker_gains) auto
next
  case (load_ready s i c st)
  then show ?case using waker_outside [of s i "W_CasQueued c st" "wk_task s"] by (auto simp: pc_ok_def)
next
  case (clear_stale s i c old)
  then show ?case
    using waker_outside [of s i "W_Epoch c" "wk_task s"]
      waker_outside [of s i "W_Epoch c" "(wk_task s)\<lparr>requested_thread := no_requested_thread\<rparr>"]
    by (simp add: set_slot_def pc_ok_def)
next
  case (resolve_load s i c e d)
  then show ?case using waker_outside [of s i _ "wk_task s"] by (simp add: pc_ok_def)
qed (auto simp: token_inv_accept set_slot_def pc_ok_def intro: waker_outside waker_moves)

lemma wake_reachable_token: "wake_reachable s \<Longrightarrow> token_inv s"
proof (induction rule: wake_reachable.induct)
  case (start i)
  have "holders (wake_init i) = {}"
    by (rule holders_eqI) (simp_all add: wake_init_def)
  then show ?case by (simp add: token_inv_def wake_init_def task_new_def pc_ok_def)
qed (simp_all add: token_inv_exec token_inv_waker)

subsection \<open>Executing a schedule\<close>

text \<open>
  The steps as functions: which thread moves, what its run returns, what it calls for, whether
  its enqueue is refused.
\<close>

datatype wake_event = Exec u16 TaskResult | Call nat u16 ScheduleMode | Wake nat | Refuse nat

definition exec_next :: "wake_sys \<Rightarrow> u16 \<Rightarrow> TaskResult \<Rightarrow> wake_sys option" where
  "exec_next s x r =
     (case wk_exec s x of
        X_Idle \<Rightarrow> (case wk_queue s x of 0 \<Rightarrow> None
                   | Suc n \<Rightarrow> Some (exec_to (s\<lparr>wk_queue := (wk_queue s)(x := n)\<rparr>) x X_Popped))
      | X_Popped \<Rightarrow> Some (if wstate s = Queued then exec_to (set_state s Starting) x X_Starting else exec_to s x X_Idle)
      | X_Starting \<Rightarrow> Some (exec_to (s\<lparr>wk_task := prepare_running_epoch (wk_task s)\<rparr>) x X_Epoch)
      | X_Epoch \<Rightarrow> Some (exec_to (set_state s Running) x X_Running)
      | X_Running \<Rightarrow> Some (if r = RPending then exec_to (set_state s Pending) x X_PendTake
                            else if r = RAgain then exec_to (set_state s Queued) x X_AgainTake
                            else exec_to (set_state s Done) x X_DoneTake)
      | X_PendTake \<Rightarrow> Some (exec_to (set_slot s no_requested_thread) x
            (if wslot s = no_requested_thread then X_Idle else X_PendCheck (wslot s)))
      | X_PendCheck v \<Rightarrow> Some (exec_to s x (if requested_epoch v \<noteq> wepoch s then X_Idle else X_PendCas (requested_target v)))
      | X_PendCas th \<Rightarrow> Some (if wstate s = Pending then exec_to (set_state s Queued) x (X_Enqueue th) else exec_to s x X_Idle)
      | X_Enqueue th \<Rightarrow> Some (exec_to (add_entry s th) x X_Idle)
      | X_AgainTake \<Rightarrow> Some (exec_to (set_slot s no_requested_thread) x (X_Enqueue x))
      | X_DoneTake \<Rightarrow> Some (exec_to (set_slot s no_requested_thread) x X_Idle))"

definition waker_next :: "wake_sys \<Rightarrow> nat \<Rightarrow> wake_sys option" where
  "waker_next s i =
     (case wk_waker s i of
        W_Idle \<Rightarrow> None
      | W_Load c \<Rightarrow> (case wstate s of
            Created \<Rightarrow> Some (waker_to s i (W_CasQueued c Created))
          | Pending \<Rightarrow> Some (waker_to s i (W_CasQueued c Pending))
          | Starting \<Rightarrow> None
          | Running \<Rightarrow> Some (waker_to s i (W_Epoch c))
          | _ \<Rightarrow> Some (waker_to s i W_Idle))
      | W_CasQueued c st \<Rightarrow> Some (if wstate s = st then waker_to (set_state s Queued) i (W_Enqueue c st)
                                  else waker_to s i (W_Load c))
      | W_Enqueue c st \<Rightarrow> Some (accept (add_entry s (call_thread c)) i c)
      | W_Epoch c \<Rightarrow> Some (waker_to s i (W_Install c (wepoch s)))
      | W_Install c e \<Rightarrow>
          (let d = pack_requested_thread e (call_thread c) (call_mode c)
           in Some (if wslot s = no_requested_thread \<or> wslot s = d then waker_to (set_slot s d) i (W_Resolve c e d)
                    else if requested_epoch (wslot s) \<noteq> e then waker_to s i (W_Clear c (wslot s))
                    else waker_to s i W_Idle))
      | W_Clear c old \<Rightarrow>
          Some (waker_to (if wslot s = old then set_slot s no_requested_thread else s) i (W_Epoch c))
      | W_Resolve c e d \<Rightarrow>
          Some (waker_to s i (if wstate s = Running then W_ResolveEpoch c e d else W_ResolveClear c e d (wstate s)))
      | W_ResolveEpoch c e d \<Rightarrow>
          Some (if wepoch s = e then accept s i c else waker_to s i (W_ResolveClear c e d Running))
      | W_ResolveClear c e d st \<Rightarrow>
          Some (if wslot s \<noteq> d then accept s i c
                else if st = Pending then waker_to (set_slot s no_requested_thread) i (W_ResolveCas c e d)
                else if st = Created then waker_to (set_slot s no_requested_thread) i W_Idle
                else accept (set_slot s no_requested_thread) i c)
      | W_ResolveCas c e d \<Rightarrow>
          Some (if wstate s = Pending then waker_to (set_state s Queued) i (W_Enqueue c Pending)
                else waker_to s i (W_Resolve c e d)))"

definition refuse_next :: "wake_sys \<Rightarrow> nat \<Rightarrow> wake_sys option" where
  "refuse_next s i =
     (case wk_waker s i of
        W_Enqueue c st \<Rightarrow> Some (waker_to (s\<lparr>wk_task := cancel_schedule (wk_task s) st\<rparr>) i W_Idle)
      | _ \<Rightarrow> None)"

fun event_next :: "wake_event \<Rightarrow> wake_sys \<Rightarrow> wake_sys option" where
  "event_next (Exec x r) s = exec_next s x r"
| "event_next (Call i th m) s =
     (if wk_waker s i = W_Idle
      then Some (waker_to s i (W_Load \<lparr>call_thread = th, call_mode = m, call_start = unat (wepoch s)\<rparr>)) else None)"
| "event_next (Wake i) s = waker_next s i"
| "event_next (Refuse i) s = refuse_next s i"

fun run_schedule :: "wake_event list \<Rightarrow> wake_sys \<Rightarrow> wake_sys option" where
  "run_schedule [] s = Some s"
| "run_schedule (ev # evs) s = (case event_next ev s of None \<Rightarrow> None | Some t \<Rightarrow> run_schedule evs t)"

lemma exec_next_sound:
  assumes "exec_next s x r = Some t"
  shows "exec_step s t"
proof (cases "wk_exec s x")
  case X_PendTake
  then show ?thesis using assms pend_take [OF X_PendTake] by (simp add: exec_next_def)
next
  case (X_PendCheck v)
  then show ?thesis using assms pend_check [OF X_PendCheck] by (simp add: exec_next_def)
qed (use assms in \<open>auto simp: exec_next_def split: if_splits nat.splits intro: exec_step.intros\<close>)

lemma waker_next_sound:
  assumes "waker_next s i = Some t"
  shows "waker_step s t"
proof (cases "wk_waker s i")
  case (W_Clear c old)
  then show ?thesis using assms clear_stale [OF W_Clear] by (simp add: waker_next_def)
next
  case (W_Resolve c e d)
  then show ?thesis using assms resolve_load [OF W_Resolve] by (simp add: waker_next_def)
next
  case (W_ResolveClear c e d st)
  then show ?thesis
    using assms by (cases st) (auto simp: waker_next_def split: if_splits intro: waker_step.intros)
qed (use assms in \<open>auto simp: waker_next_def Let_def split: if_splits TaskState.splits intro: waker_step.intros\<close>)

lemma event_next_sound: "event_next ev s = Some t \<Longrightarrow> wake_reachable s \<Longrightarrow> wake_reachable t"
proof (cases ev)
  case (Refuse i)
  then show "event_next ev s = Some t \<Longrightarrow> wake_reachable s \<Longrightarrow> wake_reachable t"
    by (auto simp: refuse_next_def split: waker_pc.splits intro: wake_reachable.waker enqueue_refused)
qed (auto intro: wake_reachable.exec wake_reachable.waker exec_next_sound waker_next_sound call_begins split: if_splits)

lemma run_schedule_sound: "run_schedule evs s = Some t \<Longrightarrow> wake_reachable s \<Longrightarrow> wake_reachable t"
  by (induction evs arbitrary: s) (auto intro: event_next_sound split: option.splits)

text \<open>
  No thread is at work on the task, nothing is queued or asked for, the task waits to be woken,
  and yet an accepted call was not followed by the start of a run.
\<close>

definition wake_lost :: "wake_sys \<Rightarrow> bool" where
  "wake_lost s \<longleftrightarrow>
     wk_exec s = (\<lambda>_. X_Idle) \<and> wk_waker s = (\<lambda>_. W_Idle) \<and> wk_queue s = (\<lambda>_. 0) \<and>
     wstate s = Pending \<and> wslot s = no_requested_thread \<and> unat (wepoch s) < accepted_after s"

lemmas schedule_simps = wake_init_def task_new_def exec_next_def waker_next_def refuse_next_def
  wake_updates Let_def pack_nonzero

definition lost_refused :: "wake_event list" where
  "lost_refused =
     [Call 0 0 Auto, Wake 0, Wake 0, Wake 0, Exec 0 RPending, Exec 0 RPending, Exec 0 RPending, Exec 0 RPending,
      Call 1 0 Auto, Wake 1, Wake 1, Exec 0 RPending, Exec 0 RPending,
      Wake 1, Call 0 0 Auto, Wake 0, Wake 0, Wake 1, Wake 1, Refuse 0]"

definition lost_shared :: "wake_event list" where
  "lost_shared =
     [Call 0 0 Auto, Wake 0, Wake 0, Wake 0, Exec 0 RPending, Exec 0 RPending, Exec 0 RPending, Exec 0 RPending,
      Call 2 0 Auto, Wake 2, Exec 0 RPending, Exec 0 RPending,
      Call 0 0 Auto, Wake 0, Wake 0, Wake 0, Exec 0 RPending, Exec 0 RPending, Exec 0 RPending,
      Wake 2, Wake 2, Wake 2, Exec 0 RPending,
      Call 1 0 Auto, Wake 1, Wake 1, Wake 1, Wake 1, Wake 1, Wake 2, Exec 0 RPending, Exec 0 RPending]"

definition lost_overlap :: "wake_event list" where
  "lost_overlap =
     [Call 0 0 Auto, Wake 0, Wake 0, Wake 0, Exec 0 RPending, Exec 0 RPending, Exec 0 RPending, Exec 0 RPending, Exec 0 RPending,
      Call 0 1 Auto, Wake 0, Wake 0, Wake 0, Exec 1 RPending, Exec 1 RPending, Exec 1 RPending, Exec 1 RPending,
      Call 1 1 Auto, Wake 1, Wake 1, Wake 1, Wake 1, Wake 1, Exec 0 RPending, Exec 0 RPending, Exec 0 RPending,
      Exec 1 RPending, Exec 1 RPending]"

lemma lost_refused_run: "\<exists>s. run_schedule lost_refused (wake_init 1) = Some s \<and> wake_lost s"
  by (simp add: lost_refused_def schedule_simps) (simp add: wake_lost_def fun_eq_iff)

lemma lost_shared_run: "\<exists>s. run_schedule lost_shared (wake_init 1) = Some s \<and> wake_lost s"
  by (simp add: lost_shared_def schedule_simps) (simp add: wake_lost_def fun_eq_iff)

lemma lost_overlap_run: "\<exists>s. run_schedule lost_overlap (wake_init 1) = Some s \<and> wake_lost s"
  by (simp add: lost_overlap_def schedule_simps requested_epoch_pack requested_target_pack)
    (simp add: wake_lost_def fun_eq_iff)

subsection \<open>Properties\<close>

definition run_in_progress :: "exec_pc \<Rightarrow> bool" where
  "run_in_progress pc \<longleftrightarrow> pc = X_Starting \<or> pc = X_Epoch \<or> pc = X_Running"

text \<open>
  C2: Under every interleaving of callers and executors a task is run by at most one executor
  at a time and has at most one ready-queue entry over all threads, and never both.
\<close>

theorem task_runs_exclusively:
  assumes "wake_reachable s"
  shows "(\<forall>x y. run_in_progress (wk_exec s x) \<longrightarrow> run_in_progress (wk_exec s y) \<longrightarrow> x = y) \<and>
         (\<forall>x. wk_queue s x \<le> 1) \<and> (\<forall>x y. 0 < wk_queue s x \<longrightarrow> 0 < wk_queue s y \<longrightarrow> x = y) \<and>
         (\<forall>x y. 0 < wk_queue s x \<longrightarrow> \<not> run_in_progress (wk_exec s y))"
proof -
  have one: "h = k" if "h \<in> holders s" "k \<in> holders s" for h k
    using holder_state(1) [OF wake_reachable_token [OF assms] that(1)] that(2) by simp
  have run: "H_Exec x \<in> holders s" if "run_in_progress (wk_exec s x)" for x
    using that by (auto simp: run_in_progress_def in_holders)
  have ent: "H_Queue x k \<in> holders s" if "k < wk_queue s x" for x k
    using that by (simp add: in_holders)
  have "wk_queue s x \<le> 1" for x
    using one [OF ent [of 0 x] ent [of 1 x]] by force
  then show ?thesis
    using one run ent by (metis holder.inject(1,2) holder.distinct(1))
qed

text \<open>A task that has been posted once and popped.\<close>

definition popped_once :: wake_sys where
  "popped_once = the (run_schedule [Call 0 0 Auto, Wake 0, Wake 0, Wake 0, Exec 0 RPending] (wake_init 1))"

lemma popped_once_reachable: "wake_reachable popped_once" "wk_exec popped_once 0 = X_Popped"
proof -
  have "\<exists>s. run_schedule [Call 0 0 Auto, Wake 0, Wake 0, Wake 0, Exec 0 RPending] (wake_init 1) = Some s \<and>
      wk_exec s 0 = X_Popped"
    by (simp add: schedule_simps)
  then obtain s where s: "run_schedule [Call 0 0 Auto, Wake 0, Wake 0, Wake 0, Exec 0 RPending] (wake_init 1) = Some s"
    "wk_exec s 0 = X_Popped" by blast
  then have "popped_once = s" by (simp only: popped_once_def option.sel)
  then show "wake_reachable popped_once" "wk_exec popped_once 0 = X_Popped"
    using s run_schedule_sound [OF s(1) wake_reachable.start] by simp_all
qed

theorem task_runs_exclusively_witness:
  "\<forall>x. wk_queue popped_once x \<le> 1"
  using task_runs_exclusively [OF popped_once_reachable(1)] by blast

text \<open>
  C38: The assertions on the task's state hold: an executor that popped a task finds it queued,
  and a caller that undoes or completes its enqueue still finds it queued.
\<close>

theorem schedule_assertions_hold:
  assumes "wake_reachable s"
  shows "(\<forall>x. wk_exec s x = X_Popped \<longrightarrow> wstate s = Queued) \<and>
         (\<forall>i c st. wk_waker s i = W_Enqueue c st \<longrightarrow> wstate s = Queued)"
proof -
  note H = holder_state(2) [OF wake_reachable_token [OF assms]]
  have "wstate s = Queued" if "wk_exec s x = X_Popped" for x
    using H [of "H_Exec x"] that by (simp add: in_holders)
  moreover have "wstate s = Queued" if "wk_waker s i = W_Enqueue c st" for i c st
    using H [of "H_Waker i"] that by (simp add: in_holders)
  ultimately show ?thesis by blast
qed

theorem schedule_assertions_hold_witness:
  "wstate popped_once = Queued"
  using schedule_assertions_hold [OF popped_once_reachable(1)] popped_once_reachable(2) by blast

fun never_refused :: "wake_event \<Rightarrow> bool" where
  "never_refused (Refuse i) = False"
| "never_refused ev = True"

fun calls_thread :: "u16 \<Rightarrow> wake_event \<Rightarrow> bool" where
  "calls_thread h (Call i th m) = (th = h)"
| "calls_thread h ev = True"

text \<open>
  C40: A wake-up can be lost when the task moves between threads.  Executor 0 has stored
  \<^verbatim>\<open>Pending\<close> and not yet emptied the request slot; the task is woken and runs on executor 1; a call
  that finds it running leaves its request for that run and is accepted; executor 0 then takes
  this request, compares it with the current epoch instead of its own, finds the task running
  and drops it.  No enqueue is refused on the way.
\<close>

theorem wake_lost_when_finish_overlaps:
  "\<exists>s. run_schedule lost_overlap (wake_init 1) = Some s \<and> wake_reachable s \<and> wake_lost s \<and>
       list_all never_refused lost_overlap"
proof -
  have "list_all never_refused lost_overlap" by (simp add: lost_overlap_def)
  then show ?thesis
    using lost_overlap_run run_schedule_sound [OF _ wake_reachable.start] by blast
qed

text \<open>
  A wake-up can be lost on a single executor thread too.  A call that began in the previous
  run reads the new epoch while the task is starting and leaves its request; a second call finds
  the task running, sees its own request already there and is accepted; the first call, which had
  seen the task starting, removes the request they share.
\<close>

theorem wake_lost_when_request_shared:
  "\<exists>s. run_schedule lost_shared (wake_init 1) = Some s \<and> wake_reachable s \<and> wake_lost s \<and>
       list_all never_refused lost_shared \<and> list_all (calls_thread 0) lost_shared"
proof -
  have "list_all never_refused lost_shared" "list_all (calls_thread 0) lost_shared"
    by (simp_all add: lost_shared_def)
  then show ?thesis
    using lost_shared_run run_schedule_sound [OF _ wake_reachable.start] by blast
qed

text \<open>
  A wake-up can be lost when a ready queue refuses a task.  A call that finds the task queued
  is accepted without leaving a request; the caller that queued it is refused by the full queue
  and puts the task back to pending.
\<close>

theorem wake_lost_when_enqueue_refused:
  "\<exists>s. run_schedule lost_refused (wake_init 1) = Some s \<and> wake_reachable s \<and> wake_lost s"
  using lost_refused_run run_schedule_sound [OF _ wake_reachable.start] by auto

end
