(* ===== verification/Task_Wake_Serial.thy ===== *)
theory Task_Wake_Serial
  imports Task_Wake
begin

section \<open>Wake-ups that are never lost\<close>

text \<open>
  The races of \<open>Task_Wake\<close> need two calls in progress, two executors, or a refused enqueue.  Without
  them the protocol is sound: when every call names the same thread, at most one call is in
  progress at a time and no enqueue is refused, every accepted call is followed by the start of a
  run, as long as the task has run fewer than \<open>2 ^ 46\<close> times.
\<close>

inductive serial_step :: "u16 \<Rightarrow> wake_sys \<Rightarrow> wake_sys \<Rightarrow> bool" where
  serial_exec: "exec_step s t \<Longrightarrow> serial_step h s t"
| serial_call: "\<forall>j. wk_waker s j = W_Idle \<Longrightarrow>
    serial_step h s (waker_to s i (W_Load \<lparr>call_thread = h, call_mode = m, call_start = unat (wepoch s)\<rparr>))"
| serial_wake: "waker_step s t \<Longrightarrow> wk_waker s i \<noteq> W_Idle \<Longrightarrow>
    (\<forall>c st. wk_waker s i = W_Enqueue c st \<longrightarrow> wk_queue t \<noteq> wk_queue s) \<Longrightarrow>
    (\<forall>j. j \<noteq> i \<longrightarrow> wk_waker t j = W_Idle) \<Longrightarrow> serial_step h s t"

inductive serial_reachable :: "u16 \<Rightarrow> wake_sys \<Rightarrow> bool" where
  start: "serial_reachable h (wake_init i)"
| step: "serial_reachable h s \<Longrightarrow> unat (wepoch s) < 2 ^ 46 \<Longrightarrow> serial_step h s t \<Longrightarrow> serial_reachable h t"

subsection \<open>Invariant\<close>

text \<open>
  \<open>covered\<close>: another run is certain to start, because the task is queued or starting, or because
  the executor has the request of the current run or will find it in the slot (or the task is
  done).  The invariant is stated on the task's state and slot, the epoch, the executor's and the
  caller's program counters and the ghost counter.
\<close>

definition live :: "u64 \<Rightarrow> u64 \<Rightarrow> bool" where
  "live slot ep \<longleftrightarrow> slot \<noteq> no_requested_thread \<and> requested_epoch slot = ep"

definition covered :: "TaskState \<Rightarrow> u64 \<Rightarrow> u64 \<Rightarrow> exec_pc \<Rightarrow> bool" where
  "covered st slot ep x \<longleftrightarrow>
     st = Queued \<or> st = Done \<or> x = X_Starting \<or>
     (st = Pending \<and> ((\<exists>v. x = X_PendCheck v \<and> requested_epoch v = ep) \<or> (\<exists>th. x = X_PendCas th))) \<or>
     (live slot ep \<and> (x = X_Epoch \<or> x = X_Running \<or> x = X_PendTake))"

definition firmly :: "TaskState \<Rightarrow> exec_pc \<Rightarrow> bool" where
  "firmly st x \<longleftrightarrow> st = Queued \<or> st = Done \<or> x = X_Starting"

definition call_ok :: "u16 \<Rightarrow> u64 \<Rightarrow> nat \<Rightarrow> call \<Rightarrow> bool" where
  "call_ok h ep acc c \<longleftrightarrow> call_thread c = h \<and> call_start c \<le> unat ep \<and> acc \<le> Suc (call_start c)"

definition deep_ok :: "u16 \<Rightarrow> TaskState \<Rightarrow> u64 \<Rightarrow> exec_pc \<Rightarrow> nat \<Rightarrow> call \<Rightarrow> bool" where
  "deep_ok h st ep x acc c \<longleftrightarrow>
     call_ok h ep acc c \<and> st \<noteq> Created \<and> (x = X_Epoch \<longrightarrow> call_start c < unat ep)"

definition request_ok :: "u16 \<Rightarrow> u64 \<Rightarrow> call \<Rightarrow> u64 \<Rightarrow> u64 \<Rightarrow> bool" where
  "request_ok h ep c e d \<longleftrightarrow> call_start c \<le> unat e \<and> unat e \<le> unat ep \<and> (\<exists>m. d = pack_requested_thread e h m)"

fun waker_ok :: "u16 \<Rightarrow> TaskState \<Rightarrow> u64 \<Rightarrow> u64 \<Rightarrow> exec_pc \<Rightarrow> nat \<Rightarrow> waker_pc \<Rightarrow> bool" where
  "waker_ok h st slot ep x acc W_Idle \<longleftrightarrow> True"
| "waker_ok h st slot ep x acc (W_Load c) \<longleftrightarrow> call_ok h ep acc c"
| "waker_ok h st slot ep x acc (W_CasQueued c s0) \<longleftrightarrow> call_ok h ep acc c"
| "waker_ok h st slot ep x acc (W_Enqueue c s0) \<longleftrightarrow> call_ok h ep acc c"
| "waker_ok h st slot ep x acc (W_Epoch c) \<longleftrightarrow> deep_ok h st ep x acc c"
| "waker_ok h st slot ep x acc (W_Install c e) \<longleftrightarrow>
     deep_ok h st ep x acc c \<and> call_start c \<le> unat e \<and> unat e \<le> unat ep \<and>
     (slot \<noteq> no_requested_thread \<longrightarrow> unat (requested_epoch slot) \<le> unat e)"
| "waker_ok h st slot ep x acc (W_Clear c old) \<longleftrightarrow>
     deep_ok h st ep x acc c \<and> unat (requested_epoch old) < unat ep"
| "waker_ok h st slot ep x acc (W_Resolve c e d) \<longleftrightarrow>
     deep_ok h st ep x acc c \<and> request_ok h ep c e d \<and>
     (call_start c < unat ep \<or> covered st slot ep x \<or> (slot = d \<and> st = Pending))"
| "waker_ok h st slot ep x acc (W_ResolveEpoch c e d) \<longleftrightarrow>
     deep_ok h st ep x acc c \<and> request_ok h ep c e d \<and> (call_start c < unat ep \<or> covered st slot ep x)"
| "waker_ok h st slot ep x acc (W_ResolveClear c e d s0) \<longleftrightarrow>
     deep_ok h st ep x acc c \<and> request_ok h ep c e d \<and>
     (if s0 = Pending
      then (call_start c < unat ep \<or> covered st slot ep x \<or> (slot = d \<and> st = Pending)) \<and>
           (e = ep \<longrightarrow> x \<noteq> X_Epoch \<and> x \<noteq> X_Running)
      else call_start c < unat ep \<or> firmly st x)"
| "waker_ok h st slot ep x acc (W_ResolveCas c e d) \<longleftrightarrow>
     deep_ok h st ep x acc c \<and> request_ok h ep c e d \<and>
     (call_start c < unat ep \<or> st = Pending \<or> covered st slot ep x)"

text \<open>A caller that will queue the task itself.\<close>

fun committed :: "TaskState \<Rightarrow> u64 \<Rightarrow> waker_pc \<Rightarrow> bool" where
  "committed st slot (W_Resolve c e d) \<longleftrightarrow> slot = d \<and> st = Pending"
| "committed st slot (W_ResolveClear c e d s0) \<longleftrightarrow> s0 = Pending \<and> slot = d \<and> st = Pending"
| "committed st slot (W_ResolveCas c e d) \<longleftrightarrow> st = Pending"
| "committed st slot pc \<longleftrightarrow> False"

fun exec_ok :: "u16 \<Rightarrow> TaskState \<Rightarrow> u64 \<Rightarrow> exec_pc \<Rightarrow> bool" where
  "exec_ok h st ep X_PendTake \<longleftrightarrow> st = Pending \<or> st = Queued"
| "exec_ok h st ep (X_PendCheck v) \<longleftrightarrow> (st = Pending \<or> st = Queued) \<and> (\<exists>e m. v = pack_requested_thread e h m)"
| "exec_ok h st ep (X_PendCas th) \<longleftrightarrow> (st = Pending \<or> st = Queued) \<and> th = h"
| "exec_ok h st ep (X_Enqueue th) \<longleftrightarrow> th = h"
| "exec_ok h st ep X_DoneTake \<longleftrightarrow> st = Done"
| "exec_ok h st ep pc \<longleftrightarrow> True"

definition agree :: "TaskState \<Rightarrow> exec_pc \<Rightarrow> bool" where
  "agree st x \<longleftrightarrow> (exec_holds x \<longrightarrow> st = exec_phase x) \<and> (st = Starting \<or> st = Running \<longrightarrow> exec_holds x)"

definition slot_ok :: "u16 \<Rightarrow> u64 \<Rightarrow> u64 \<Rightarrow> bool" where
  "slot_ok h slot ep \<longleftrightarrow>
     slot = no_requested_thread \<or> (\<exists>e m. slot = pack_requested_thread e h m \<and> unat e \<le> unat ep)"

definition serial_core :: "u16 \<Rightarrow> TaskState \<Rightarrow> u64 \<Rightarrow> u64 \<Rightarrow> exec_pc \<Rightarrow> nat \<Rightarrow> waker_pc \<Rightarrow> bool" where
  "serial_core h st slot ep x acc pc \<longleftrightarrow>
     agree st x \<and> exec_ok h st ep x \<and> slot_ok h slot ep \<and> acc \<le> Suc (unat ep) \<and>
     waker_ok h st slot ep x acc pc \<and>
     (acc = Suc (unat ep) \<longrightarrow> covered st slot ep x \<or> committed st slot pc)"

subsection \<open>Executor steps\<close>

lemmas core_defs = serial_core_def covered_def firmly_def live_def call_ok_def deep_ok_def request_ok_def agree_def
  slot_ok_def

lemma core_pop: "serial_core h st slot ep X_Idle acc pc \<Longrightarrow> st = Queued \<Longrightarrow> serial_core h st slot ep X_Popped acc pc"
  by (cases pc) (auto simp: core_defs split: if_splits)

lemma core_claim: "serial_core h Queued slot ep X_Popped acc pc \<Longrightarrow> serial_core h Starting slot ep X_Starting acc pc"
  by (cases pc) (auto simp: core_defs split: if_splits)

lemma core_epoch:
  assumes "serial_core h st slot ep X_Starting acc pc" "unat ep < 2 ^ 46" "h < 0xFFFF"
  shows "serial_core h st slot (ep + 1) X_Epoch acc pc"
proof -
  have u: "unat (ep + 1) = Suc (unat ep)"
    using assms(2) by (simp add: unat_word_ariths(1))
  then show ?thesis
    using assms(1) by (cases pc) (auto simp: core_defs split: if_splits)
qed

lemma core_begin: "serial_core h st slot ep X_Epoch acc pc \<Longrightarrow> serial_core h Running slot ep X_Running acc pc"
  by (cases pc) (auto simp: core_defs split: if_splits)

lemma core_pending: "serial_core h st slot ep X_Running acc pc \<Longrightarrow> serial_core h Pending slot ep X_PendTake acc pc"
  by (cases pc) (auto simp: core_defs split: if_splits)

lemma core_again: "serial_core h st slot ep X_Running acc pc \<Longrightarrow> serial_core h Queued slot ep X_AgainTake acc pc"
  by (cases pc) (auto simp: core_defs split: if_splits)

lemma core_done: "serial_core h st slot ep X_Running acc pc \<Longrightarrow> serial_core h Done slot ep X_DoneTake acc pc"
  by (cases pc) (auto simp: core_defs split: if_splits)

lemma core_again_take:
  "serial_core h st slot ep X_AgainTake acc pc \<Longrightarrow> serial_core h st no_requested_thread ep (X_Enqueue h) acc pc"
  by (cases pc) (auto simp: core_defs split: if_splits)

lemma core_done_take:
  "serial_core h st slot ep X_DoneTake acc pc \<Longrightarrow> serial_core h st no_requested_thread ep X_Idle acc pc"
  by (cases pc) (auto simp: core_defs split: if_splits)

lemma core_enqueue: "serial_core h st slot ep (X_Enqueue th) acc pc \<Longrightarrow> serial_core h st slot ep X_Idle acc pc"
  by (cases pc) (auto simp: core_defs split: if_splits)

lemma core_pend_cas:
  "serial_core h Pending slot ep (X_PendCas th) acc pc \<Longrightarrow> serial_core h Queued slot ep (X_Enqueue th) acc pc"
  by (cases pc) (auto simp: core_defs split: if_splits)

lemma core_pend_cas_fails:
  "serial_core h st slot ep (X_PendCas th) acc pc \<Longrightarrow> st \<noteq> Pending \<Longrightarrow> serial_core h st slot ep X_Idle acc pc"
  by (cases pc) (auto simp: core_defs split: if_splits)

lemma core_pend_check:
  assumes "serial_core h st slot ep (X_PendCheck v) acc pc" "h < 0xFFFF"
  shows "serial_core h st slot ep (if requested_epoch v \<noteq> ep then X_Idle else X_PendCas (requested_target v)) acc pc"
proof -
  have "requested_target v = h"
    using assms requested_target_pack by (auto simp: serial_core_def)
  then show ?thesis
    using assms(1) by (cases pc) (auto simp: core_defs split: if_splits)
qed

lemma request_current:
  assumes "request_ok h ep c e d" "\<not> call_start c < unat ep" "h < 0xFFFF" "unat ep < 2 ^ 46"
  shows "e = ep" "live d ep"
proof -
  show e: "e = ep"
    using assms(1,2) by (auto simp: request_ok_def word_unat_eq_iff)
  show "live d ep"
    using assms(1,3,4) requested_epoch_pack [OF assms(3)] take_bit_46 [of ep] pack_nonzero [OF assms(3)]
    by (auto simp: request_ok_def live_def e)
qed

lemma deep_owed: "deep_ok h st ep x (Suc (unat ep)) c \<Longrightarrow> \<not> call_start c < unat ep"
  by (simp add: deep_ok_def call_ok_def)

lemma core_pend_take:
  assumes core: "serial_core h st slot ep X_PendTake acc pc" and h: "h < 0xFFFF" and ep: "unat ep < 2 ^ 46"
  shows "serial_core h st no_requested_thread ep
           (if slot = no_requested_thread then X_Idle else X_PendCheck slot) acc pc"
proof -
  let ?x = "if slot = no_requested_thread then X_Idle else X_PendCheck slot"
  have st: "st = Pending \<or> st = Queued" and ok: "waker_ok h st slot ep X_PendTake acc pc"
    using core by (simp_all add: serial_core_def)
  have live: "covered st no_requested_thread ep ?x" if "live slot ep"
    using that st by (auto simp: covered_def live_def)
  have cov: "covered st no_requested_thread ep ?x" if "covered st slot ep X_PendTake"
    using that live by (auto simp: covered_def)
  have req: "call_start c < unat ep \<or> live d ep" if "request_ok h ep c e d" for c e d
    using request_current(2) [OF that _ h ep] by blast
  have "waker_ok h st no_requested_thread ep ?x acc pc"
    using ok cov live st by (cases pc) (auto simp: deep_ok_def firmly_def dest: req split: if_splits)
  moreover have "covered st no_requested_thread ep ?x \<or> committed st no_requested_thread pc" if "acc = Suc (unat ep)"
  proof -
    have "covered st slot ep X_PendTake \<or> committed st slot pc"
      using core that by (simp add: serial_core_def)
    then show ?thesis
      using cov live ok that by (cases pc) (auto dest: req deep_owed split: if_splits)
  qed
  ultimately show ?thesis
    using core st by (auto simp: serial_core_def agree_def slot_ok_def)
qed


subsection \<open>Steps of a call\<close>

lemma core_call:
  "serial_core h st slot ep x acc W_Idle \<Longrightarrow>
   serial_core h st slot ep x acc (W_Load \<lparr>call_thread = h, call_mode = m, call_start = unat ep\<rparr>)"
  by (simp add: serial_core_def call_ok_def)

lemma core_load:
  assumes "serial_core h st slot ep x acc (W_Load c)"
  shows "serial_core h st slot ep x acc (W_CasQueued c s0)" "serial_core h st slot ep x acc W_Idle"
    "st = Running \<Longrightarrow> serial_core h st slot ep x acc (W_Epoch c)"
  using assms by (cases x; auto simp: core_defs)+

lemma core_cas_fails: "serial_core h st slot ep x acc (W_CasQueued c s0) \<Longrightarrow> serial_core h st slot ep x acc (W_Load c)"
  by (simp add: serial_core_def)

lemma core_cas:
  "serial_core h st slot ep x acc (W_CasQueued c s0) \<Longrightarrow> st = Created \<or> st = Pending \<Longrightarrow>
   serial_core h Queued slot ep x acc (W_Enqueue c s0)"
  by (cases x) (auto simp: serial_core_def agree_def covered_def)

lemma core_accepted:
  "serial_core h Queued slot ep x acc (W_Enqueue c s0) \<Longrightarrow>
   serial_core h Queued slot ep x (max acc (Suc (call_start c))) W_Idle"
  by (simp add: serial_core_def covered_def call_ok_def)

lemma slot_epoch_le:
  assumes "slot_ok h slot ep" "slot \<noteq> no_requested_thread" "h < 0xFFFF"
  shows "unat (requested_epoch slot) \<le> unat ep"
proof -
  obtain e m where "slot = pack_requested_thread e h m" "unat e \<le> unat ep"
    using assms(1,2) by (auto simp: slot_ok_def)
  then show ?thesis
    using requested_epoch_pack [OF assms(3), of e m] by (simp add: unsigned_take_bit_eq take_bit_nat_def
        order_trans [OF mod_less_eq_dividend])
qed

lemma core_load_epoch:
  "serial_core h st slot ep x acc (W_Epoch c) \<Longrightarrow> h < 0xFFFF \<Longrightarrow> serial_core h st slot ep x acc (W_Install c ep)"
  using slot_epoch_le [of h slot ep] by (auto simp: serial_core_def deep_ok_def call_ok_def)

lemma active_covered:
  assumes "agree st x" "st \<noteq> Created" "st \<noteq> Pending" "live slot ep"
  shows "covered st slot ep x"
  using assms by (cases st; cases x) (auto simp: agree_def covered_def)

lemma core_install:
  assumes core: "serial_core h st slot ep x acc (W_Install c e)" and h: "h < 0xFFFF" and ep: "unat ep < 2 ^ 46"
    and d: "d = pack_requested_thread e h m"
  shows "serial_core h st d ep x acc (W_Resolve c e d)"
proof -
  have deep: "deep_ok h st ep x acc c" and req: "request_ok h ep c e d" and ag: "agree st x"
    using core d by (auto simp: serial_core_def request_ok_def)
  have key: "covered st d ep x \<or> st = Pending" if "\<not> call_start c < unat ep"
    using active_covered [OF ag _ _ request_current(2) [OF req that h ep]] deep by (auto simp: deep_ok_def)
  have "slot_ok h d ep"
    using req d by (auto simp: slot_ok_def request_ok_def)
  moreover have "covered st d ep x \<or> committed st d (W_Resolve c e d)" if "acc = Suc (unat ep)"
    using key deep_owed [of h st ep x c] deep that by auto
  ultimately show ?thesis
    using core key deep req by (auto simp: serial_core_def)
qed

lemma core_install_stale:
  "serial_core h st slot ep x acc (W_Install c e) \<Longrightarrow> slot \<noteq> no_requested_thread \<Longrightarrow> requested_epoch slot \<noteq> e \<Longrightarrow>
   serial_core h st slot ep x acc (W_Clear c slot)"
  by (auto simp: serial_core_def word_unat_eq_iff)

lemma core_install_rejected: "serial_core h st slot ep x acc (W_Install c e) \<Longrightarrow> serial_core h st slot ep x acc W_Idle"
  by (auto simp: serial_core_def)

lemma covered_stale: "unat (requested_epoch slot) < unat ep \<Longrightarrow> covered st slot ep x \<Longrightarrow> covered st slot' ep x"
  by (auto simp: covered_def live_def)

lemma core_clear:
  assumes "serial_core h st slot ep x acc (W_Clear c old)"
  shows "serial_core h st slot ep x acc (W_Epoch c)"
    "slot = old \<Longrightarrow> serial_core h st no_requested_thread ep x acc (W_Epoch c)"
  using assms covered_stale [of slot ep st x no_requested_thread] by (simp_all add: serial_core_def slot_ok_def)

lemma core_resolve_load:
  assumes "serial_core h st slot ep x acc (W_Resolve c e d)"
  shows "serial_core h st slot ep x acc (if st = Running then W_ResolveEpoch c e d else W_ResolveClear c e d st)"
  using assms by (cases st; cases x) (auto simp: serial_core_def agree_def deep_ok_def firmly_def)

lemma core_same_run:
  "serial_core h st slot ep x acc (W_ResolveEpoch c ep d) \<Longrightarrow>
   serial_core h st slot ep x (max acc (Suc (call_start c))) W_Idle"
  by (auto simp: serial_core_def deep_ok_def call_ok_def max_def)

lemma core_later_run:
  "serial_core h st slot ep x acc (W_ResolveEpoch c e d) \<Longrightarrow> ep \<noteq> e \<Longrightarrow>
   serial_core h st slot ep x acc (W_ResolveClear c e d Running)"
  by (auto simp: serial_core_def request_ok_def word_unat_eq_iff)

lemma firmly_covered: "firmly st x \<Longrightarrow> covered st slot ep x"
  by (auto simp: firmly_def covered_def)

lemma core_taken:
  "serial_core h st slot ep x acc (W_ResolveClear c e d s0) \<Longrightarrow> slot \<noteq> d \<Longrightarrow>
   serial_core h st slot ep x (max acc (Suc (call_start c))) W_Idle"
  by (auto simp: serial_core_def deep_ok_def call_ok_def max_def firmly_covered split: if_splits)

lemma core_resolve_active:
  "serial_core h st slot ep x acc (W_ResolveClear c e d s0) \<Longrightarrow> s0 \<noteq> Pending \<Longrightarrow>
   serial_core h st no_requested_thread ep x (max acc (Suc (call_start c))) W_Idle"
  by (auto simp: serial_core_def deep_ok_def call_ok_def max_def firmly_covered slot_ok_def split: if_splits)

lemma core_resolve_created:
  "serial_core h st slot ep x acc (W_ResolveClear c e d s0) \<Longrightarrow> s0 \<noteq> Pending \<Longrightarrow>
   serial_core h st no_requested_thread ep x acc W_Idle"
  by (auto simp: serial_core_def deep_ok_def call_ok_def firmly_covered slot_ok_def split: if_splits)

lemma core_resolve_pending:
  assumes core: "serial_core h st d ep x acc (W_ResolveClear c e d Pending)" and h: "h < 0xFFFF" and ep: "unat ep < 2 ^ 46"
  shows "serial_core h st no_requested_thread ep x acc (W_ResolveCas c e d)"
proof -
  have deep: "deep_ok h st ep x acc c" and req: "request_ok h ep c e d" and ex: "exec_ok h st ep x"
    and ok: "call_start c < unat ep \<or> covered st d ep x \<or> st = Pending" and
    late: "e = ep \<longrightarrow> x \<noteq> X_Epoch \<and> x \<noteq> X_Running"
    using core by (auto simp: serial_core_def)
  have key: "st = Pending \<or> covered st no_requested_thread ep x" if "\<not> call_start c < unat ep"
    using ok late that request_current(1) [OF req that h ep] ex by (auto simp: covered_def)
  then show ?thesis
    using core deep_owed [of h st ep x c] deep by (simp add: serial_core_def slot_ok_def) metis
qed

lemma core_resolve_cas:
  "serial_core h Pending slot ep x acc (W_ResolveCas c e d) \<Longrightarrow> serial_core h Queued slot ep x acc (W_Enqueue c Pending)"
  by (cases x) (auto simp: serial_core_def agree_def covered_def deep_ok_def)

lemma core_resolve_cas_fails:
  "serial_core h st slot ep x acc (W_ResolveCas c e d) \<Longrightarrow> st \<noteq> Pending \<Longrightarrow>
   serial_core h st slot ep x acc (W_Resolve c e d)"
  by (auto simp: serial_core_def)


subsection \<open>Reachable states\<close>

definition others_idle :: "u16 \<Rightarrow> wake_sys \<Rightarrow> bool" where
  "others_idle h s \<longleftrightarrow> (\<forall>x. x \<noteq> h \<longrightarrow> wk_exec s x = X_Idle \<and> wk_queue s x = 0)"

definition core_at :: "u16 \<Rightarrow> wake_sys \<Rightarrow> nat \<Rightarrow> bool" where
  "core_at h s i \<longleftrightarrow>
     serial_core h (wstate s) (wslot s) (wepoch s) (wk_exec s h) (accepted_after s) (wk_waker s i)"

definition serial_inv :: "u16 \<Rightarrow> wake_sys \<Rightarrow> bool" where
  "serial_inv h s \<longleftrightarrow>
     token_inv s \<and> others_idle h s \<and> (\<exists>i. (\<forall>j. j \<noteq> i \<longrightarrow> wk_waker s j = W_Idle) \<and> core_at h s i)"

lemma core_at_exec:
  assumes step: "exec_step s t" and tok: "token_inv s" and oth: "others_idle h s" and core: "core_at h s i"
    and ep: "unat (wepoch s) < 2 ^ 46" and h: "h < 0xFFFF"
  shows "core_at h t i \<and> others_idle h t \<and> wk_waker t = wk_waker s"
proof -
  have at: "x = h" if "wk_exec s x \<noteq> X_Idle \<or> wk_queue s x \<noteq> 0" for x
    using that oth by (auto simp: others_idle_def)
  note core' = core [unfolded core_at_def]
  note ups = core_at_def others_idle_def wake_updates
  show ?thesis
    using step
  proof (cases rule: exec_step.cases)
    case (pop x n)
    have "wstate s = Queued"
      using holder_state(2) [OF tok, of "H_Queue x n"] pop by (simp add: in_holders)
    then show ?thesis
      using pop at [of x] oth core_pop core' by (auto simp: ups)
  next
    case (claim x)
    then show ?thesis
      using at [of x] oth core_claim core' by (auto simp: ups)
  next
    case (claim_fails x)
    then show ?thesis
      using holder_state(2) [OF tok, of "H_Exec x"] by (simp add: in_holders)
  next
    case (new_epoch x)
    then show ?thesis
      using at [of x] oth core_epoch [OF _ ep h] core' by (auto simp: ups)
  next
    case (begin_run x)
    then show ?thesis
      using at [of x] oth core_begin core' by (auto simp: ups)
  next
    case (run_pending x)
    then show ?thesis
      using at [of x] oth core_pending core' by (auto simp: ups)
  next
    case (run_again x)
    then show ?thesis
      using at [of x] oth core_again core' by (auto simp: ups)
  next
    case (run_done x)
    then show ?thesis
      using at [of x] oth core_done core' by (auto simp: ups)
  next
    case (pend_take x)
    then show ?thesis
      using at [of x] oth core_pend_take [OF _ h ep] core' by (simp add: ups)
  next
    case (pend_check x v)
    then show ?thesis
      using at [of x] oth core_pend_check [OF _ h] core' by (simp add: ups)
  next
    case (pend_cas x th)
    then show ?thesis
      using at [of x] oth core_pend_cas core' by (auto simp: ups)
  next
    case (pend_cas_fails x th)
    then show ?thesis
      using at [of x] oth core_pend_cas_fails core' by (auto simp: ups)
  next
    case (exec_enqueue x th)
    moreover have "th = h"
      using exec_enqueue at [of x] core' by (simp add: serial_core_def)
    ultimately show ?thesis
      using at [of x] oth core_enqueue core' by (auto simp: ups)
  next
    case (again_take x)
    then show ?thesis
      using at [of x] oth core_again_take core' by (auto simp: ups)
  next
    case (done_take x)
    then show ?thesis
      using at [of x] oth core_done_take core' by (auto simp: ups)
  qed
qed


lemma core_at_waker:
  assumes step: "waker_step s t" and tok: "token_inv s" and oth: "others_idle h s" and core: "core_at h s i"
    and idle: "\<forall>j. j \<noteq> i \<longrightarrow> wk_waker s j = W_Idle" "\<forall>j. j \<noteq> i \<longrightarrow> wk_waker t j = W_Idle"
    and busy: "wk_waker s i \<noteq> W_Idle"
    and fits: "\<forall>c st. wk_waker s i = W_Enqueue c st \<longrightarrow> wk_queue t \<noteq> wk_queue s"
    and ep: "unat (wepoch s) < 2 ^ 46" and h: "h < 0xFFFF"
  shows "core_at h t i \<and> others_idle h t"
proof -
  have at: "j = i" if "wk_waker s j \<noteq> W_Idle" for j
    using that idle(1) by auto
  note core' = core [unfolded core_at_def]
  note ups = core_at_def others_idle_def wake_updates
  have pc: "pc_ok (wk_waker s i)"
    using tok by (simp add: token_inv_def)
  have thread: "call_thread c = h" if "wk_waker s i = W_Enqueue c st \<or> wk_waker s i = W_Install c e" for c st e
    using that core' by (auto simp: serial_core_def call_ok_def deep_ok_def)
  show ?thesis
    using step
  proof (cases rule: waker_step.cases)
    case (call_begins j th m)
    then show ?thesis
      using busy idle(2) by (cases "j = i") (auto simp: waker_to_def)
  next
    case (load_ready j c st)
    then show ?thesis
      using at [of j] oth core_load(1) core' by (auto simp: ups)
  next
    case (load_running j c)
    then show ?thesis
      using at [of j] oth core_load(3) core' by (auto simp: ups)
  next
    case (load_rejected j c)
    then show ?thesis
      using at [of j] oth core_load(2) core' by (auto simp: ups)
  next
    case (cas_queued j c st)
    then have "st = Created \<or> st = Pending"
      using at [of j] pc by (simp add: pc_ok_def)
    then show ?thesis
      using cas_queued at [of j] oth core_cas core' by (auto simp: ups)
  next
    case (cas_queued_fails j c st)
    then show ?thesis
      using at [of j] oth core_cas_fails core' by (auto simp: ups)
  next
    case (enqueue j c st)
    moreover have "wstate s = Queued"
      using holder_state(2) [OF tok, of "H_Waker j"] enqueue by (simp add: in_holders)
    ultimately show ?thesis
      using at [of j] thread [of c st] oth core_accepted core' by (auto simp: ups)
  next
    case (enqueue_refused j c st)
    then show ?thesis
      using fits at [of j] by (simp add: ups)
  next
    case (load_epoch j c)
    then show ?thesis
      using at [of j] oth core_load_epoch [OF _ h] core' by (simp add: ups)
  next
    case (install j c e d)
    then show ?thesis
      using at [of j] oth core_install [OF _ h ep, of "wstate s" "wslot s" "wk_exec s h" "accepted_after s" c e d "call_mode c"]
        thread [of c _ e] core' by (simp add: ups)
  next
    case (install_stale j c e d)
    then show ?thesis
      using at [of j] oth core_install_stale core' by (auto simp: ups)
  next
    case (install_rejected j c e d)
    then show ?thesis
      using at [of j] oth core_install_rejected core' by (auto simp: ups)
  next
    case (clear_stale j c old)
    then show ?thesis
      using at [of j] oth core_clear core' by (auto simp: ups)
  next
    case (resolve_load j c e d)
    then show ?thesis
      using at [of j] oth core_resolve_load core' by (simp add: ups)
  next
    case (resolve_same_run j c e d)
    then show ?thesis
      using at [of j] oth core_same_run core' by (auto simp: ups)
  next
    case (resolve_later_run j c e d)
    then show ?thesis
      using at [of j] oth core_later_run core' by (auto simp: ups)
  next
    case (resolve_taken j c e d st)
    then show ?thesis
      using at [of j] oth core_taken core' by (auto simp: ups)
  next
    case (resolve_pending j c e d)
    then show ?thesis
      using at [of j] oth core_resolve_pending [OF _ h ep] core' by (simp add: ups)
  next
    case (resolve_active j c e d st)
    then show ?thesis
      using at [of j] oth core_resolve_active core' by (auto simp: ups)
  next
    case (resolve_created j c e d)
    then show ?thesis
      using at [of j] oth core_resolve_created core' by (auto simp: ups)
  next
    case (resolve_cas j c e d)
    then show ?thesis
      using at [of j] oth core_resolve_cas core' by (auto simp: ups)
  next
    case (resolve_cas_fails j c e d)
    then show ?thesis
      using at [of j] oth core_resolve_cas_fails core' by (auto simp: ups)
  qed
qed

lemma serial_inv_reachable:
  assumes "serial_reachable h s" "h < 0xFFFF"
  shows "serial_inv h s"
  using assms
proof (induction rule: serial_reachable.induct)
  case (start h i)
  have "core_at h (wake_init i) 0"
    by (simp add: core_at_def wake_init_def task_new_def serial_core_def agree_def slot_ok_def)
  then show ?case
    using wake_reachable_token [OF wake_reachable.start, of i]
    unfolding serial_inv_def others_idle_def by (auto simp: wake_init_def)
next
  case (step h s t)
  then obtain i where inv: "token_inv s" "others_idle h s" "core_at h s i"
    and idle: "\<forall>j. j \<noteq> i \<longrightarrow> wk_waker s j = W_Idle"
    by (auto simp: serial_inv_def)
  note ep = \<open>unat (wepoch s) < 2 ^ 46\<close> and h = \<open>h < 0xFFFF\<close>
  from \<open>serial_step h s t\<close> show ?case
  proof (cases rule: serial_step.cases)
    case serial_exec
    then show ?thesis
      using core_at_exec [OF serial_exec inv ep h] token_inv_exec [OF serial_exec inv(1)] idle
      by (auto simp: serial_inv_def)
  next
    case (serial_call j m)
    have "waker_step s t"
      using serial_call waker_step.call_begins by simp
    then have "token_inv t"
      using token_inv_waker inv(1) by blast
    moreover have "core_at h t j"
      using serial_call core_call [of h "wstate s" "wslot s"] inv(3) by (simp add: core_at_def waker_to_def)
    ultimately show ?thesis
      using serial_call inv(2) by (auto simp: serial_inv_def others_idle_def waker_to_def)
  next
    case (serial_wake j)
    have "j = i"
      using serial_wake(2) idle by blast
    then show ?thesis
      using core_at_waker [OF serial_wake(1) inv idle _ _ _ ep h] token_inv_waker [OF serial_wake(1) inv(1)] serial_wake
      unfolding serial_inv_def by blast
  qed
qed


text \<open>A task that was created and posted once to thread 0.\<close>

definition first_call :: call where
  "first_call = \<lparr>call_thread = 0, call_mode = Auto, call_start = 0\<rparr>"

definition posting :: wake_sys where
  "posting = waker_to (set_state (wake_init 1) Queued) 0 (W_Enqueue first_call Created)"

definition posted :: wake_sys where
  "posted = accept (add_entry posting 0) 0 first_call"

lemma posted_reachable: "serial_reachable 0 posted"
proof -
  let ?s1 = "waker_to (wake_init 1) 0 (W_Load first_call)"
  let ?s2 = "waker_to ?s1 0 (W_CasQueued first_call Created)"
  have e: "unat (wepoch (wake_init 1)) = 0" "wepoch (waker_to s i pc) = wepoch s" for s i pc
    by (simp_all add: wake_init_def task_new_def waker_to_def)
  have s1: "serial_reachable 0 ?s1"
    using serial_reachable.step [OF serial_reachable.start _ serial_call [of "wake_init 1" 0 0 Auto]] e
    by (simp add: wake_init_def first_call_def task_new_def)
  have "waker_step ?s1 ?s2"
    by (rule load_ready) (simp_all add: waker_to_def wake_init_def task_new_def)
  then have s2: "serial_reachable 0 ?s2"
    using serial_reachable.step [OF s1 _ serial_wake [of _ _ 0]] e by (simp add: waker_to_def wake_init_def)
  have p: "posting = waker_to (set_state ?s2 Queued) 0 (W_Enqueue first_call Created)"
    by (simp add: posting_def waker_to_def set_state_def wake_init_def)
  have "waker_step ?s2 posting"
    unfolding p by (rule cas_queued) (simp_all add: waker_to_def wake_init_def task_new_def)
  then have s3: "serial_reachable 0 posting"
    using serial_reachable.step [OF s2 _ serial_wake [of _ _ 0]] e
    by (simp add: p waker_to_def wake_init_def set_state_def)
  have "waker_step posting posted"
    using enqueue [of posting 0 first_call Created] by (simp add: posted_def posting_def waker_to_def first_call_def)
  then show ?thesis
    using serial_reachable.step [OF s3 _ serial_wake [of _ _ 0]]
    by (simp add: posting_def posted_def wake_updates wake_init_def task_new_def fun_eq_iff)
qed

text \<open>
  C1: No accepted wake-up is lost when the task's calls follow each other, name one thread and are
  not refused: whenever that thread and the callers are at rest, a run has started after the
  beginning of every accepted call, or the task waits in the thread's ready queue, or it is done.
\<close>

theorem serial_wake_never_lost:
  assumes "serial_reachable h s" and "h < 0xFFFF" and "wk_exec s h = X_Idle" and "\<forall>i. wk_waker s i = W_Idle"
  shows "accepted_after s \<le> unat (wepoch s) \<or> wstate s = Queued \<and> 0 < wk_queue s h \<or> wstate s = Done"
proof -
  obtain i where tok: "token_inv s" and oth: "others_idle h s" and core: "core_at h s i"
    using serial_inv_reachable [OF assms(1,2)] by (auto simp: serial_inv_def)
  have "accepted_after s \<le> Suc (unat (wepoch s))"
    using core by (simp add: core_at_def serial_core_def)
  moreover have "wstate s = Queued \<or> wstate s = Done" if "accepted_after s = Suc (unat (wepoch s))"
    using core that assms(3,4) by (auto simp: core_at_def serial_core_def covered_def)
  moreover have "0 < wk_queue s h" if queued: "wstate s = Queued"
  proof -
    have idle: "wk_exec s x = X_Idle" for x
      using oth assms(3) by (cases "x = h") (auto simp: others_idle_def)
    obtain k where "k \<in> holders s"
      using tok queued by (auto simp: token_inv_def)
    then obtain x n where "n < wk_queue s x"
      using assms(4) idle by (cases k) (simp_all add: in_holders)
    then show ?thesis
      using oth by (cases "x = h") (auto simp: others_idle_def)
  qed
  ultimately show ?thesis by linarith
qed

theorem serial_wake_never_lost_witness:
  "accepted_after posted = 1 \<and> wstate posted = Queued \<and> 0 < wk_queue posted 0"
  using serial_wake_never_lost [OF posted_reachable]
  by (auto simp: posted_def posting_def wake_updates wake_init_def task_new_def first_call_def)

end
