(* ===== verification/Ready_Sources.thy ===== *)
theory Ready_Sources
  imports Af_Prelude
begin

unbundle bit_operations_syntax

section \<open>The set of ready sources\<close>

text \<open>
  Models \<^verbatim>\<open>runtime_ready_source_set.hpp\<close>: one bit per runtime thread, packed in 64-bit words.  The
  words are a list; \<open>thread_total\<close> is the template argument.  \<open>ready_set\<close> is the abstraction to a
  set of thread indices.
\<close>

definition word_count :: "nat \<Rightarrow> nat" where
  "word_count threads = (threads + 64 - 1) div 64"

definition word_index :: "u16 \<Rightarrow> nat" where
  "word_index source = unat source div 64"

definition source_bit :: "u16 \<Rightarrow> u64" where
  "source_bit source = push_bit (unat source mod 64) 1"

definition ready_new :: "nat \<Rightarrow> u64 list" where
  "ready_new threads = replicate (word_count threads) 0"

definition ready_mark :: "u64 list \<Rightarrow> u16 \<Rightarrow> u64 list" where
  "ready_mark words source =
     (let w = word_index source in words[w := (words ! w) OR source_bit source])"

definition ready_clear :: "u64 list \<Rightarrow> u16 \<Rightarrow> u64 list" where
  "ready_clear words source =
     (let w = word_index source in words[w := (words ! w) AND NOT (source_bit source)])"

definition valid_mask :: "nat \<Rightarrow> nat \<Rightarrow> u64" where
  "valid_mask threads word =
     (if word + 1 \<noteq> word_count threads \<or> threads mod 64 = 0 then NOT 0
      else push_bit (threads mod 64) 1 - 1)"

definition load_word :: "nat \<Rightarrow> u64 list \<Rightarrow> nat \<Rightarrow> u64" where
  "load_word threads words word = (words ! word) AND valid_mask threads word"

definition word_base :: "nat \<Rightarrow> u16" where
  "word_base word = of_nat (word * 64)"

text \<open>\<^verbatim>\<open>std::countr_zero\<close>: the number of trailing zero bits.\<close>

definition countr_zero :: "u64 \<Rightarrow> nat" where
  "countr_zero w = length (takeWhile (\<lambda>i. \<not> bit w i) [0..<64])"

definition ready_set :: "u64 list \<Rightarrow> nat set" where
  "ready_set words = {s. s div 64 < length words \<and> bit (words ! (s div 64)) (s mod 64)}"

lemma bit_source_bit: "bit (source_bit s) i \<longleftrightarrow> i = unat s mod 64"
proof -
  have "unat s mod 64 < 64" by simp
  then show ?thesis
    by (auto simp: source_bit_def bit_simps)
qed

lemma same_word_bit: "(s :: nat) div 64 = t div 64 \<Longrightarrow> s mod 64 = t mod 64 \<longleftrightarrow> s = t"
  by (metis div_mult_mod_eq)

lemma ready_set_mark:
  assumes "word_index s < length words"
  shows "ready_set (ready_mark words s) = insert (unat s) (ready_set words)"
proof (rule set_eqI)
  fix t
  have b: "bit ((words ! k) OR source_bit s) (t mod 64) \<longleftrightarrow> bit (words ! k) (t mod 64) \<or> t mod 64 = unat s mod 64" for k
    by (simp add: bit_simps bit_source_bit)
  show "t \<in> ready_set (ready_mark words s) \<longleftrightarrow> t \<in> insert (unat s) (ready_set words)"
    using assms same_word_bit [of t "unat s"] b
    by (cases "t div 64 = unat s div 64")
      (auto simp: ready_set_def ready_mark_def word_index_def Let_def nth_list_update)
qed

lemma ready_set_clear:
  assumes "word_index s < length words"
  shows "ready_set (ready_clear words s) = ready_set words - {unat s}"
proof (rule set_eqI)
  fix t
  have b: "bit ((words ! k) AND NOT (source_bit s)) (t mod 64) \<longleftrightarrow> bit (words ! k) (t mod 64) \<and> t mod 64 \<noteq> unat s mod 64" for k
    by (auto simp: bit_simps bit_source_bit)
  show "t \<in> ready_set (ready_clear words s) \<longleftrightarrow> t \<in> ready_set words - {unat s}"
    using assms same_word_bit [of t "unat s"] b
    by (cases "t div 64 = unat s div 64")
      (auto simp: ready_set_def ready_clear_def word_index_def Let_def nth_list_update)
qed

lemma ready_set_new [simp]: "ready_set (ready_new n) = {}"
  by (simp add: ready_set_def ready_new_def)

lemma length_ready [simp]: "length (ready_mark ws s) = length ws" "length (ready_clear ws s) = length ws"
  by (simp_all add: ready_mark_def ready_clear_def Let_def)

lemma word_index_bound: "unat s < n \<Longrightarrow> word_index s < word_count n"
  by (simp add: word_index_def word_count_def div_le_mono less_Suc_eq_le)

lemma valid_mask_bit:
  assumes "i < 64" "w < word_count n"
  shows "bit (valid_mask n w) i \<longleftrightarrow> w * 64 + i < n"
proof (cases "w + 1 \<noteq> word_count n \<or> n mod 64 = 0")
  case True
  have "w * 64 + 64 \<le> n"
  proof (cases "w + 1 = word_count n")
    case True
    then have "n mod 64 = 0" using \<open>w + 1 \<noteq> word_count n \<or> n mod 64 = 0\<close> by simp
    then have "n = n div 64 * 64" using div_mult_mod_eq [of n 64] by simp
    then have "word_count n = n div 64" by (simp add: word_count_def)
    then show ?thesis using True \<open>n = n div 64 * 64\<close> by simp
  next
    case False
    then have "w + 2 \<le> (n + 64 - 1) div 64" using assms(2) by (simp add: word_count_def)
    then show ?thesis by linarith
  qed
  then show ?thesis
    using True assms(1) by (auto simp: valid_mask_def bit_simps)
next
  case False
  then have k: "n mod 64 < 64" "0 < n mod 64" "w + 1 = word_count n" by auto
  have "(n mod 64 + 63) div 64 = 1"
    using k(1,2) by (intro div_nat_eqI) auto
  moreover have "(n + 64 - 1) div 64 = (n mod 64 + 63) div 64 + n div 64"
    using div_mult_self1 [of 64 "n mod 64 + 63" "n div 64"] by simp
  ultimately have "n div 64 = w"
    using k(3) by (simp add: word_count_def)
  then have n: "n = w * 64 + n mod 64"
    using div_mult_mod_eq [of n 64] by simp
  have "valid_mask n w = mask (n mod 64)"
    using False by (simp add: valid_mask_def mask_eq_exp_minus_1 push_bit_eq_mult)
  then show ?thesis
    using n assms(1) k by (simp add: bit_simps) linarith
qed

lemma load_word_bit:
  assumes "w < word_count n" "length words = word_count n" "i < 64"
  shows "bit (load_word n words w) i \<longleftrightarrow> w * 64 + i < n \<and> w * 64 + i \<in> ready_set words"
  using assms valid_mask_bit [OF assms(3,1)]
  by (auto simp: load_word_def bit_simps ready_set_def)

lemma countr_zero_set:
  assumes "w \<noteq> 0"
  shows "countr_zero w < 64" "bit w (countr_zero w)"
proof -
  obtain i where i: "bit w i" using assms bit_eq_iff [of w 0] by auto
  then have "i < 64" using bit_imp_le_length [OF i] by simp
  have ex: "\<exists>x \<in> set [0..<64]. bit w x" using i \<open>i < 64\<close> by auto
  have lt: "countr_zero w < length [0::nat..<64]"
  proof (rule ccontr)
    assume "\<not> ?thesis"
    then have "length (takeWhile (\<lambda>i. \<not> bit w i) [0..<64]) = length [0::nat..<64]"
      using length_takeWhile_le [of "\<lambda>i. \<not> bit w i" "[0..<64]"] by (simp add: countr_zero_def)
    then have "takeWhile (\<lambda>i. \<not> bit w i) [0..<64] = [0..<64]"
      by (metis takeWhile_eq_take take_all order_refl)
    then show False using ex by (metis takeWhile_eq_all_conv)
  qed
  then show "countr_zero w < 64" by simp
  have "\<not> \<not> bit w ([0..<64] ! countr_zero w)"
    using nth_length_takeWhile [of "\<lambda>i. \<not> bit w i" "[0..<64]"] lt by (simp add: countr_zero_def)
  then show "bit w (countr_zero w)"
    using \<open>countr_zero w < 64\<close> by simp
qed

text \<open>Clearing the lowest set bit makes a mask smaller.\<close>

lemma clear_bit_less:
  fixes mask :: u64
  assumes "bit mask i" "i < 64"
  shows "unat (mask AND NOT (push_bit i 1)) < unat mask"
proof -
  have dis: "(mask AND NOT (push_bit i 1)) AND push_bit i 1 = 0"
    by (rule bit_eqI) (auto simp: bit_simps)
  have "mask = (mask AND NOT (push_bit i 1)) OR push_bit i 1"
    by (rule bit_eqI) (use assms in \<open>auto simp: bit_simps\<close>)
  also have "\<dots> = (mask AND NOT (push_bit i 1)) + push_bit i 1"
    using dis by (simp add: disjunctive_add_eq_or)
  finally have eq: "mask = (mask AND NOT (push_bit i 1)) + push_bit i 1" .
  have "(mask AND NOT (push_bit i 1)) \<le> mask"
    by (rule word_and_le2)
  moreover have "push_bit i (1 :: u64) \<noteq> 0"
    using assms(2) by (simp add: push_bit_eq_mult)
  ultimately show ?thesis
    using eq by (metis add.right_neutral add_left_cancel order_le_less word_less_nat_alt)
qed

end
