(* ===== verification/Task_Registry.thy ===== *)
theory Task_Registry
  imports Task_Core
begin

section \<open>The registry of started tasks\<close>

text \<open>
  Models \<^verbatim>\<open>runtime_task_registry.hpp\<close>, the registry half of \<^verbatim>\<open>runtime_task_lifecycle.hpp\<close> and
  \<^verbatim>\<open>TaskRegistryLinks\<close>.  Tasks live at addresses; the registry is a doubly linked list threaded
  through their links, kept under a mutex, so that its operations are atomic.  \<open>registered_as\<close> is
  the abstraction to the list of registered tasks, newest first.  \<^verbatim>\<open>on_runtime_cancel\<close> is code of
  the task classes: a parameter that may change the state outside the heap.
\<close>

type_synonym taddr = nat

record task_links =
  link_prev :: "taddr ptr"
  link_next :: "taddr ptr"
  link_registered :: bool

definition links_default :: task_links where
  "links_default = \<lparr>link_prev = None, link_next = None, link_registered = False\<rparr>"

record task_heap =
  reg_head :: "taddr ptr"
  reg_links :: "taddr \<Rightarrow> task_links"
  task_at :: "taddr \<Rightarrow> task"
  unfinished_tasks :: u32

definition set_task :: "'z task_heap_scheme \<Rightarrow> taddr \<Rightarrow> task \<Rightarrow> 'z task_heap_scheme" where
  "set_task r a t = r\<lparr>task_at := (task_at r)(a := t)\<rparr>"

definition set_prev :: "taddr ptr \<Rightarrow> taddr ptr \<Rightarrow> (taddr \<Rightarrow> task_links) \<Rightarrow> taddr \<Rightarrow> task_links" where
  "set_prev p v L = (case p of None \<Rightarrow> L | Some a \<Rightarrow> L(a := (L a)\<lparr>link_prev := v\<rparr>))"

definition set_next :: "taddr ptr \<Rightarrow> taddr ptr \<Rightarrow> (taddr \<Rightarrow> task_links) \<Rightarrow> taddr \<Rightarrow> task_links" where
  "set_next p v L = (case p of None \<Rightarrow> L | Some a \<Rightarrow> L(a := (L a)\<lparr>link_next := v\<rparr>))"

definition reset_task_registry :: "bool \<Rightarrow> 'z task_heap_scheme \<Rightarrow> 'z task_heap_scheme" where
  "reset_task_registry enabled r = (if enabled then r\<lparr>reg_head := None\<rparr> else r)"

definition register_task :: "bool \<Rightarrow> taddr \<Rightarrow> 'z task_heap_scheme \<Rightarrow> 'z task_heap_scheme" where
  "register_task enabled a r =
     (if enabled
      then let L = (reg_links r)(a := (reg_links r a)\<lparr>link_prev := None\<rparr>);
               L = L(a := (L a)\<lparr>link_next := reg_head r\<rparr>);
               L = set_prev (reg_head r) (Some a) L
           in r\<lparr>reg_head := Some a, reg_links := L(a := (L a)\<lparr>link_registered := True\<rparr>)\<rparr>
      else r)"

definition unregister_task :: "bool \<Rightarrow> taddr \<Rightarrow> 'z task_heap_scheme \<Rightarrow> 'z task_heap_scheme" where
  "unregister_task enabled a r =
     (if enabled
      then if \<not> link_registered (reg_links r a) then r
           else let L = reg_links r;
                    prev = link_prev (L a);
                    head = (if prev \<noteq> None then reg_head r else link_next (L a));
                    L = set_next prev (link_next (L a)) L;
                    L = set_prev (link_next (L a)) (link_prev (L a)) L
                in r\<lparr>reg_head := head, reg_links := L(a := links_default)\<rparr>
      else r)"

definition cancel_registered_task ::
    "u16 \<Rightarrow> (taddr \<Rightarrow> 'z \<Rightarrow> 'z) \<Rightarrow> taddr \<Rightarrow> 'z task_heap_scheme \<Rightarrow> 'z task_heap_scheme" where
  "cancel_registered_task invalid_index on_cancel a r =
     (case task_state (task_at r a) of
        Pending \<Rightarrow>
          let t = (task_at r a)\<lparr>task_state := Done\<rparr>;
              r = set_task r a (snd (take_requested_thread invalid_index t));
              r = task_heap.more_update (on_cancel a) r
          in set_task r a (release_lifetime_ref (task_at r a))
      | Queued \<Rightarrow>
          let t = (task_at r a)\<lparr>task_state := Done\<rparr>;
              r = set_task r a (snd (take_requested_thread invalid_index t));
              r = task_heap.more_update (on_cancel a) r
          in set_task r a (release_lifetime_ref (task_at r a))
      | _ \<Rightarrow> r)"

partial_function (option) cancel_loop ::
    "u16 \<Rightarrow> (taddr \<Rightarrow> 'z \<Rightarrow> 'z) \<Rightarrow> taddr ptr \<Rightarrow> 'z task_heap_scheme \<Rightarrow> 'z task_heap_scheme option" where
  "cancel_loop invalid_index on_cancel p r =
     (case p of
        None \<Rightarrow> Some r
      | Some a \<Rightarrow>
          let next = link_next (reg_links r a);
              r = r\<lparr>reg_links := (reg_links r)(a := links_default)\<rparr>
          in cancel_loop invalid_index on_cancel next (cancel_registered_task invalid_index on_cancel a r))"

definition cancel_registered_tasks ::
    "bool \<Rightarrow> u16 \<Rightarrow> (taddr \<Rightarrow> 'z \<Rightarrow> 'z) \<Rightarrow> 'z task_heap_scheme \<Rightarrow> 'z task_heap_scheme option" where
  "cancel_registered_tasks enabled invalid_index on_cancel r =
     (if enabled then cancel_loop invalid_index on_cancel (reg_head r) (r\<lparr>reg_head := None\<rparr>) else Some r)"

definition on_task_started :: "bool \<Rightarrow> ShutdownPolicy \<Rightarrow> taddr \<Rightarrow> 'z task_heap_scheme \<Rightarrow> 'z task_heap_scheme" where
  "on_task_started enabled policy a r =
     (let r = register_task enabled a r
      in if policy = WaitForTasks then r\<lparr>unfinished_tasks := unfinished_tasks r + 1\<rparr> else r)"

definition on_task_finished :: "bool \<Rightarrow> ShutdownPolicy \<Rightarrow> taddr \<Rightarrow> 'z task_heap_scheme \<Rightarrow> 'z task_heap_scheme" where
  "on_task_finished enabled policy a r =
     (let r = unregister_task enabled a r
      in if policy = WaitForTasks then r\<lparr>unfinished_tasks := unfinished_tasks r - 1\<rparr> else r)"

subsection \<open>Doubly linked lists\<close>

fun dll :: "(taddr \<Rightarrow> task_links) \<Rightarrow> taddr ptr \<Rightarrow> taddr ptr \<Rightarrow> taddr list \<Rightarrow> bool" where
  "dll L p x [] \<longleftrightarrow> x = None"
| "dll L p x (a # as) \<longleftrightarrow> x = Some a \<and> link_prev (L a) = p \<and> dll L (Some a) (link_next (L a)) as"

definition registered_as :: "'z task_heap_scheme \<Rightarrow> taddr list \<Rightarrow> bool" where
  "registered_as r as \<longleftrightarrow>
     dll (reg_links r) None (reg_head r) as \<and> distinct as \<and> (\<forall>a. link_registered (reg_links r a) \<longleftrightarrow> a \<in> set as)"

definition first_of :: "taddr list \<Rightarrow> taddr ptr \<Rightarrow> taddr ptr" where
  "first_of as y = (case as of [] \<Rightarrow> y | a # _ \<Rightarrow> Some a)"

definition last_of :: "taddr list \<Rightarrow> taddr ptr \<Rightarrow> taddr ptr" where
  "last_of as p = (if as = [] then p else Some (last as))"

lemma last_of_simps [simp]: "last_of [] p = p" "last_of (a # as) p = last_of as (Some a)"
  by (simp_all add: last_of_def)

lemma first_of_simps [simp]: "first_of [] y = y" "first_of (a # as) y = Some a"
  by (simp_all add: first_of_def)

lemma dll_frame: "(\<And>a. a \<in> set as \<Longrightarrow> link_prev (L' a) = link_prev (L a) \<and> link_next (L' a) = link_next (L a)) \<Longrightarrow>
  dll L' p x as = dll L p x as"
  by (induction as arbitrary: p x) auto

lemma dll_first: "dll L p x as \<Longrightarrow> x = first_of as None"
  by (cases as) auto

text \<open>A list that may be followed by more nodes: its last node's link is \<open>y\<close>.\<close>

fun seg :: "(taddr \<Rightarrow> task_links) \<Rightarrow> taddr ptr \<Rightarrow> taddr ptr \<Rightarrow> taddr list \<Rightarrow> taddr ptr \<Rightarrow> bool" where
  "seg L p x [] y \<longleftrightarrow> x = y"
| "seg L p x (a # as) y \<longleftrightarrow> x = Some a \<and> link_prev (L a) = p \<and> seg L (Some a) (link_next (L a)) as y"

lemma seg_frame: "(\<And>a. a \<in> set as \<Longrightarrow> link_prev (L' a) = link_prev (L a) \<and> link_next (L' a) = link_next (L a)) \<Longrightarrow>
  seg L' p x as y = seg L p x as y"
  by (induction as arbitrary: p x) auto

lemma upd_other [simp]:
  assumes "a \<notin> set as"
  shows "dll (L(a := l)) p x as = dll L p x as" "seg (L(a := l)) p x as y = seg L p x as y"
  using assms by (auto intro!: dll_frame seg_frame)

lemma dll_append: "dll L p x (as @ bs) \<longleftrightarrow> (\<exists>y. seg L p x as y \<and> dll L (last_of as p) y bs)"
  by (induction as arbitrary: p x) auto

lemma dll_set_prev: "dll L p x as \<Longrightarrow> distinct as \<Longrightarrow> dll (set_prev x q L) q x as"
proof (cases as)
  case (Cons a as')
  assume "dll L p x as" "distinct as"
  then have "dll (L(a := (L a)\<lparr>link_prev := q\<rparr>)) (Some a) (link_next (L a)) as'"
    using Cons by simp
  then show ?thesis
    using Cons \<open>dll L p x as\<close> by (simp add: set_prev_def)
qed (simp add: set_prev_def)

lemma seg_set_next:
  "seg L p x as y \<Longrightarrow> distinct as \<Longrightarrow> as \<noteq> [] \<Longrightarrow> seg (set_next (last_of as p) z L) p x as z"
proof (induction as arbitrary: p x)
  case (Cons a as)
  show ?case
  proof (cases "as = []")
    case True
    then show ?thesis using Cons.prems by (simp add: set_next_def)
  next
    case False
    then have "seg (set_next (last_of as (Some a)) z L) (Some a) (link_next (L a)) as z"
      using Cons by simp
    moreover have "set_next (last_of as (Some a)) z L a = L a"
      using Cons.prems False by (auto simp: set_next_def last_of_def)
    ultimately show ?thesis
      using Cons.prems by simp
  qed
qed simp

lemma set_prev_other: "p \<noteq> Some a \<Longrightarrow> set_prev p v L a = L a"
  by (simp add: set_prev_def split: option.splits)

lemma set_next_other: "p \<noteq> Some a \<Longrightarrow> set_next p v L a = L a"
  by (simp add: set_next_def split: option.splits)

lemma set_links_registered [simp]:
  "link_registered (set_prev p v L a) = link_registered (L a)"
  "link_registered (set_next p v L a) = link_registered (L a)"
  by (simp_all add: set_prev_def set_next_def split: option.splits)

lemma set_links_keep [simp]: "link_next (set_prev p v L a) = link_next (L a)" "link_prev (set_next p v L a) = link_prev (L a)"
  by (simp_all add: set_prev_def set_next_def split: option.splits)

lemma last_of_in: "last_of as p = Some a \<Longrightarrow> a \<in> set as \<or> p = Some a"
  by (auto simp: last_of_def split: if_splits)

subsection \<open>Registering and unregistering\<close>

lemma register_registered:
  assumes "registered_as r as" "a \<notin> set as"
  shows "registered_as (register_task True a r) (a # as)"
proof -
  let ?L = "(reg_links r)(a := \<lparr>link_prev = None, link_next = reg_head r, link_registered = True\<rparr>)"
  have dll: "dll (reg_links r) None (reg_head r) as" and dist: "distinct as"
    using assms(1) by (simp_all add: registered_as_def)
  have head: "reg_head r \<noteq> Some a"
    using dll_first [OF dll] assms(2) by (auto simp: first_of_def split: list.splits)
  have eq: "reg_links (register_task True a r) = set_prev (reg_head r) (Some a) ?L"
    using head
    by (cases "reg_head r") (auto simp: register_task_def set_prev_def Let_def fun_eq_iff split: option.splits)
  have "dll (set_prev (reg_head r) (Some a) (reg_links r)) (Some a) (reg_head r) as"
    by (rule dll_set_prev [OF dll dist])
  then have "dll (set_prev (reg_head r) (Some a) ?L) (Some a) (reg_head r) as"
    by (subst dll_frame [of as _ "set_prev (reg_head r) (Some a) (reg_links r)"])
      (use assms(2) in \<open>auto simp: set_prev_def split: option.splits\<close>)
  then show ?thesis
    using assms dist head set_prev_other [OF head, of "Some a" ?L]
    by (auto simp: registered_as_def eq) (simp_all add: register_task_def Let_def)
qed

lemma unregister_registered:
  assumes "registered_as r (as @ a # bs)"
  shows "registered_as (unregister_task True a r) (as @ bs)"
proof -
  let ?L = "reg_links r"
  have dist: "distinct (as @ a # bs)" and reg: "\<forall>c. link_registered (?L c) \<longleftrightarrow> c \<in> set (as @ a # bs)"
    using assms by (simp_all add: registered_as_def)
  obtain y where seg: "seg ?L None (reg_head r) as y" and dll: "dll ?L (last_of as None) y (a # bs)"
    using assms by (auto simp: registered_as_def dll_append)
  let ?p = "last_of as None" and ?n = "link_next (?L a)"
  have p: "link_prev (?L a) = ?p" and tail: "dll ?L (Some a) ?n bs"
    using dll by simp_all
  have na: "?p \<noteq> Some a" "?n \<noteq> Some a"
    using dist last_of_in [of as None a] dll_first [OF tail] by (auto simp: first_of_def split: list.splits)
  let ?M = "set_prev ?n ?p (set_next ?p ?n ?L)"
  have n_out: "?n \<noteq> Some c" if "c \<in> set as" for c
    using dist that dll_first [OF tail] by (auto simp: first_of_def split: list.splits)
  have p_out: "?p \<noteq> Some c" if "c \<in> set bs" for c
    using dist that last_of_in [of as None c] by auto
  have tail': "dll ?M ?p ?n bs"
  proof -
    have "dll (set_prev ?n ?p ?L) ?p ?n bs"
      using dll_set_prev [OF tail] dist by simp
    then show ?thesis
      by (subst dll_frame [of bs _ "set_prev ?n ?p ?L"])
        (use p_out in \<open>auto simp: set_prev_def set_next_other split: option.splits\<close>)
  qed
  have head': "seg ?M None (if ?p \<noteq> None then reg_head r else ?n) as ?n"
  proof (cases "as = []")
    case False
    then have "seg (set_next ?p ?n ?L) None (reg_head r) as ?n"
      using seg_set_next [OF seg] dist by simp
    then show ?thesis
      using False n_out by (subst seg_frame [of as _ "set_next ?p ?n ?L"])
        (auto simp: set_prev_other last_of_def)
  qed simp
  have links: "reg_links (unregister_task True a r) = ?M(a := links_default)"
    "reg_head (unregister_task True a r) = (if ?p \<noteq> None then reg_head r else ?n)"
    using reg na by (simp_all add: unregister_task_def Let_def p set_next_other)
  have "dll (?M(a := links_default)) None (if ?p \<noteq> None then reg_head r else ?n) (as @ bs)"
    using head' tail' dist unfolding dll_append by auto
  then show ?thesis
    using dist reg by (auto simp: registered_as_def links links_default_def)
qed

lemma unregister_unregistered: "registered_as r as \<Longrightarrow> a \<notin> set as \<Longrightarrow> unregister_task True a r = r"
  by (simp add: unregister_task_def registered_as_def)


subsection \<open>Histories\<close>

datatype task_event = Started taddr | Finished taddr

fun registry_event :: "ShutdownPolicy \<Rightarrow> task_event \<Rightarrow> 'z task_heap_scheme \<Rightarrow> 'z task_heap_scheme" where
  "registry_event policy (Started a) r = on_task_started True policy a r"
| "registry_event policy (Finished a) r = on_task_finished True policy a r"

fun live_tasks :: "task_event list \<Rightarrow> taddr list \<Rightarrow> taddr list" where
  "live_tasks [] as = as"
| "live_tasks (Started a # evs) as = live_tasks evs (a # as)"
| "live_tasks (Finished a # evs) as = live_tasks evs (remove1 a as)"

text \<open>Tasks start when they are not live and finish when they are.\<close>

fun well_timed :: "task_event list \<Rightarrow> taddr list \<Rightarrow> bool" where
  "well_timed [] as \<longleftrightarrow> True"
| "well_timed (Started a # evs) as \<longleftrightarrow> a \<notin> set as \<and> well_timed evs (a # as)"
| "well_timed (Finished a # evs) as \<longleftrightarrow> a \<in> set as \<and> well_timed evs (remove1 a as)"

definition tracks :: "ShutdownPolicy \<Rightarrow> 'z task_heap_scheme \<Rightarrow> taddr list \<Rightarrow> bool" where
  "tracks policy r as \<longleftrightarrow>
     registered_as r as \<and> (policy = WaitForTasks \<longrightarrow> unfinished_tasks r = of_nat (length as))"

lemma registered_as_count [simp]: "registered_as (r\<lparr>unfinished_tasks := n\<rparr>) as = registered_as r as"
  by (simp add: registered_as_def)

lemma tracks_started:
  assumes "tracks policy r as" "a \<notin> set as"
  shows "tracks policy (on_task_started True policy a r) (a # as)"
proof -
  have "unfinished_tasks (register_task True a r) = unfinished_tasks r"
    by (simp add: register_task_def Let_def)
  then show ?thesis
    using assms register_registered [of r as a]
    by (simp add: tracks_def on_task_started_def Let_def)
qed

lemma tracks_finished:
  assumes "tracks policy r as" "a \<in> set as"
  shows "tracks policy (on_task_finished True policy a r) (remove1 a as)"
proof -
  obtain xs ys where as: "as = xs @ a # ys" "a \<notin> set xs"
    using assms(2) by (meson split_list_first)
  then have "remove1 a as = xs @ ys"
    by (simp add: remove1_append)
  moreover have "unfinished_tasks (unregister_task True a r) = unfinished_tasks r"
    by (simp add: unregister_task_def Let_def)
  ultimately show ?thesis
    using assms(1) unregister_registered [of r xs a ys] as(1)
    by (simp add: tracks_def on_task_finished_def Let_def)
qed

lemma tracks_run: "tracks policy r as \<Longrightarrow> well_timed evs as \<Longrightarrow>
  tracks policy (fold (registry_event policy) evs r) (live_tasks evs as)"
proof (induction evs arbitrary: r as)
  case (Cons ev evs)
  then show ?case
    by (cases ev) (simp_all add: tracks_started tracks_finished)
qed simp

definition empty_heap :: "task_heap" where
  "empty_heap = \<lparr>reg_head = None, reg_links = (\<lambda>_. links_default), task_at = (\<lambda>a. task_new (of_nat a)), unfinished_tasks = 0\<rparr>"

lemma tracks_empty: "tracks policy empty_heap []"
  by (simp add: tracks_def registered_as_def empty_heap_def links_default_def)

text \<open>
  C32: The linked registry is the set of started tasks: after any history in which tasks start when
  they are not live and finish when they are, the links form a well-formed doubly linked list of
  exactly the live tasks, newest first, the registered flags agree with it, and under the waiting
  shutdown policy the counter of unfinished tasks is its length (modulo \<open>2 ^ 32\<close>).
\<close>

theorem registry_is_live_tasks:
  assumes "well_timed evs []"
  shows "registered_as (fold (registry_event policy) evs empty_heap) (live_tasks evs []) \<and>
         (policy = WaitForTasks \<longrightarrow>
            unfinished_tasks (fold (registry_event policy) evs empty_heap) = of_nat (length (live_tasks evs [])))"
  using tracks_run [OF tracks_empty assms] by (simp add: tracks_def)

theorem registry_is_live_tasks_witness:
  "registered_as (fold (registry_event WaitForTasks) [Started 1, Started 2, Started 3, Finished 2] empty_heap) [3, 1]"
  using registry_is_live_tasks [of "[Started 1, Started 2, Started 3, Finished 2]" WaitForTasks] by simp

subsection \<open>Cancelling what is left\<close>

definition cancelled :: "task \<Rightarrow> task" where
  "cancelled t = release_lifetime_ref (t\<lparr>task_state := Done, requested_thread := no_requested_thread\<rparr>)"

definition cancellable :: "'z task_heap_scheme \<Rightarrow> taddr \<Rightarrow> bool" where
  "cancellable r a \<longleftrightarrow> task_state (task_at r a) = Pending \<or> task_state (task_at r a) = Queued"

lemma cancellable_head: "cancellable (r\<lparr>reg_head := x\<rparr>) = cancellable r"
  by (simp add: cancellable_def fun_eq_iff)

lemma take_requested_thread_task: "snd (take_requested_thread i t) = t\<lparr>requested_thread := no_requested_thread\<rparr>"
  by (simp add: take_requested_thread_def take_requested_schedule_def Let_def split_def)

lemma cancel_registered_task_eq:
  "cancel_registered_task i oc a r =
     (if cancellable r a
      then task_heap.more_update (oc a) (r\<lparr>task_at := (task_at r)(a := cancelled (task_at r a))\<rparr>)
      else r)"
  by (simp add: cancel_registered_task_def cancellable_def cancelled_def set_task_def Let_def
      take_requested_thread_task split: TaskState.splits)

lemma cancel_loop_spec:
  assumes "dll (reg_links r) p x as" "distinct as"
  shows "\<exists>r'. cancel_loop i oc x r = Some r' \<and> reg_head r' = reg_head r \<and>
           unfinished_tasks r' = unfinished_tasks r \<and>
           reg_links r' = (\<lambda>a. if a \<in> set as then links_default else reg_links r a) \<and>
           task_at r' = (\<lambda>a. if a \<in> set as \<and> cancellable r a then cancelled (task_at r a) else task_at r a) \<and>
           task_heap.more r' = fold oc (filter (cancellable r) as) (task_heap.more r)"
  using assms
proof (induction as arbitrary: r p x)
  case Nil
  then show ?case
    by (subst cancel_loop.simps) auto
next
  case (Cons a as)
  let ?r1 = "cancel_registered_task i oc a (r\<lparr>reg_links := (reg_links r)(a := links_default)\<rparr>)"
  have links: "reg_links ?r1 = (reg_links r)(a := links_default)"
    "reg_head ?r1 = reg_head r" "unfinished_tasks ?r1 = unfinished_tasks r"
    by (simp_all add: cancel_registered_task_eq)
  have a: "a \<notin> set as" "distinct as" "x = Some a"
    using Cons.prems by simp_all
  have "dll (reg_links ?r1) (Some a) (link_next (reg_links r a)) as"
    using Cons.prems a by (simp add: links)
  from Cons.IH [OF this a(2)] obtain r' where r': "cancel_loop i oc (link_next (reg_links r a)) ?r1 = Some r'"
    "reg_head r' = reg_head ?r1" "unfinished_tasks r' = unfinished_tasks ?r1"
    "reg_links r' = (\<lambda>b. if b \<in> set as then links_default else reg_links ?r1 b)"
    "task_at r' = (\<lambda>b. if b \<in> set as \<and> cancellable ?r1 b then cancelled (task_at ?r1 b) else task_at ?r1 b)"
    "task_heap.more r' = fold oc (filter (cancellable ?r1) as) (task_heap.more ?r1)"
    by blast
  have same: "task_at ?r1 b = task_at r b" "cancellable ?r1 b = cancellable r b" if "b \<noteq> a" for b
    using that by (simp_all add: cancel_registered_task_eq cancellable_def)
  have "filter (cancellable ?r1) as = filter (cancellable r) as"
    using same a(1) by (metis filter_cong)
  moreover have "task_at ?r1 a = (if cancellable r a then cancelled (task_at r a) else task_at r a)"
    "task_heap.more ?r1 = (if cancellable r a then oc a (task_heap.more r) else task_heap.more r)"
    by (simp_all add: cancel_registered_task_eq cancellable_def)
  moreover have "cancel_loop i oc x r = Some r'"
    using r'(1) a(3) by (subst cancel_loop.simps) (simp add: Let_def)
  moreover have "task_at r' b =
      (if b \<in> set (a # as) \<and> cancellable r b then cancelled (task_at r b) else task_at r b)" for b
    using r'(5) calculation(2) same [of b] a(1) by (cases "b = a") auto
  moreover have "reg_links r' b = (if b \<in> set (a # as) then links_default else reg_links r b)" for b
    using r'(4) links(1) by (cases "b = a") auto
  ultimately show ?case
    using r'(2,3,6) links(2,3) by (simp add: fun_eq_iff)
qed

text \<open>
  C33: Stopping without waiting ends: it visits every registered task exactly once, in registry
  order, marks each queued or pending one done, empties its request, calls its cancel hook and
  drops the runtime's reference (destroying the task when that was the last one), leaves every
  other task alone and leaves the registry empty.
\<close>

theorem cancel_visits_registered_once:
  assumes "registered_as r as"
  shows "\<exists>r'. cancel_registered_tasks True i on_cancel r = Some r' \<and>
           registered_as r' [] \<and>
           (\<forall>a. task_at r' a = (if a \<in> set as \<and> cancellable r a then cancelled (task_at r a) else task_at r a)) \<and>
           task_heap.more r' = fold on_cancel (filter (cancellable r) as) (task_heap.more r)"
proof -
  have "dll (reg_links (r\<lparr>reg_head := None\<rparr>)) None (reg_head r) as" "distinct as"
    and flags: "\<forall>a. link_registered (reg_links r a) \<longleftrightarrow> a \<in> set as"
    using assms by (simp_all add: registered_as_def)
  from cancel_loop_spec [OF this(1,2), of i on_cancel] obtain r' where
    r': "cancel_registered_tasks True i on_cancel r = Some r'" "reg_head r' = None"
    "reg_links r' = (\<lambda>a. if a \<in> set as then links_default else reg_links r a)"
    "task_at r' = (\<lambda>a. if a \<in> set as \<and> cancellable r a then cancelled (task_at r a) else task_at r a)"
    "task_heap.more r' = fold on_cancel (filter (cancellable r) as) (task_heap.more r)"
    by (auto simp: cancel_registered_tasks_def cancellable_head cong: if_cong)
  moreover have "registered_as r' []"
    using r'(2,3) flags by (simp add: registered_as_def links_default_def)
  ultimately show ?thesis by auto
qed

definition two_tasks :: "nat list task_heap_scheme" where
  "two_tasks =
     \<lparr>reg_head = Some 1,
      reg_links = (\<lambda>_. links_default)(1 := \<lparr>link_prev = None, link_next = Some 2, link_registered = True\<rparr>,
                                      2 := \<lparr>link_prev = Some 1, link_next = None, link_registered = True\<rparr>),
      task_at = (\<lambda>a. (task_new (of_nat a))\<lparr>task_state := (if a = 1 then Queued else Pending)\<rparr>),
      unfinished_tasks = 0, \<dots> = []\<rparr>"

theorem cancel_visits_registered_once_witness:
  "\<exists>r'. cancel_registered_tasks True 9 (\<lambda>a log. a # log) two_tasks = Some r' \<and>
     task_destroyed (task_at r' 1) \<and> task_destroyed (task_at r' 2) \<and> task_heap.more r' = [2, 1]"
proof -
  have reg: "registered_as two_tasks [1, 2]"
    by (auto simp: registered_as_def two_tasks_def links_default_def)
  have c: "cancellable two_tasks 1" "cancellable two_tasks 2"
    by (simp_all add: cancellable_def two_tasks_def)
  have d: "task_destroyed (cancelled (task_at two_tasks a))" for a
    by (simp add: cancelled_def two_tasks_def release_lifetime_ref_def destroy_self_def task_new_def Let_def)
  have m: "task_heap.more two_tasks = []"
    by (simp add: two_tasks_def)
  show ?thesis
    using cancel_visits_registered_once [OF reg, of 9 "\<lambda>a log. a # log"] c d m by auto
qed

end
