(* ===== verification/Runtime_Config.thy ===== *)
theory Runtime_Config
  imports Task_Core Thread_Layouts Queue_Common
begin

section \<open>Runtime traits and configuration\<close>

text \<open>
  Models \<^verbatim>\<open>runtime_traits.hpp\<close>, \<^verbatim>\<open>runtime_config.hpp\<close> and \<^verbatim>\<open>task_registry_enabled_v\<close> of
  \<^verbatim>\<open>task_registry.hpp\<close>.  A traits class is a record of optional members: \<^term>\<open>None\<close> is a member the
  class does not declare, which a \<^verbatim>\<open>requires\<close> test finds missing.  The static assertions of
  \<^verbatim>\<open>RuntimeConfig\<close> are the predicate \<open>config_valid\<close>.
\<close>

record 'tag runtime_traits =
  tr_threads :: "'tag ThreadGroupSpec list"
  tr_spsc_queue_capacity :: "u64 option"
  tr_external_queue_capacity :: "u64 option"
  tr_runtime_queue_full_policy :: "QueueFullPolicy option"
  tr_external_queue_full_policy :: "QueueFullPolicy option"
  tr_queue_full_spin_count :: "u64 option"
  tr_shutdown_policy :: "ShutdownPolicy option"
  tr_enable_task_registry :: "bool option"
  tr_task_pool_remote_release_batch_size :: "u64 option"
  tr_task_pool_chunk_size :: "u64 option"
  tr_task_pool_cache_slot_index :: "bool option"
  tr_task_pool_local_cache_set_size :: "u64 option"
  tr_task_pool_direct_release_set_size :: "u64 option"
  tr_task_pool_local_cache_capacity :: "u64 option"
  tr_io_wait_reserve :: "u64 option"

text \<open>The lambda of every constant: the declared member, else the default.\<close>

definition declared_or :: "'a option \<Rightarrow> 'a \<Rightarrow> 'a" where
  "declared_or m d = (case m of Some x \<Rightarrow> x | None \<Rightarrow> d)"

record 'tag runtime_config =
  cf_threads :: "'tag ThreadGroupSpec list"
  cf_spsc_queue_capacity :: u64
  cf_external_queue_capacity :: u64
  cf_runtime_queue_full_policy :: QueueFullPolicy
  cf_external_queue_full_policy :: QueueFullPolicy
  cf_queue_full_spin_count :: u64
  cf_shutdown_policy :: ShutdownPolicy
  cf_task_registry_enabled :: bool
  cf_task_pool_remote_release_batch_size :: u64
  cf_task_pool_chunk_size :: u64
  cf_task_pool_cache_slot_index :: bool
  cf_task_pool_local_cache_set_size :: u64
  cf_task_pool_direct_release_set_size :: u64
  cf_task_pool_local_cache_capacity :: u64
  cf_io_wait_reserve :: u64

definition runtime_shutdown_policy :: "'tag runtime_traits \<Rightarrow> ShutdownPolicy" where
  "runtime_shutdown_policy t = declared_or (tr_shutdown_policy t) WaitForTasks"

definition runtime_registry_enabled :: "'tag runtime_traits \<Rightarrow> bool" where
  "runtime_registry_enabled t =
     (let explicitly_enabled = declared_or (tr_enable_task_registry t) False
      in if runtime_shutdown_policy t = StopImmediately then True else explicitly_enabled)"

definition task_registry_enabled_v :: "'tag runtime_traits \<Rightarrow> bool" where
  "task_registry_enabled_v t =
     (let explicitly_enabled = declared_or (tr_enable_task_registry t) False
      in case tr_shutdown_policy t of
           Some p \<Rightarrow> explicitly_enabled \<or> p = StopImmediately
         | None \<Rightarrow> explicitly_enabled)"

definition runtime_config_of :: "'tag runtime_traits \<Rightarrow> 'tag runtime_config" where
  "runtime_config_of t =
     (let spsc = declared_or (tr_spsc_queue_capacity t) 1024
      in \<lparr>cf_threads = tr_threads t,
          cf_spsc_queue_capacity = spsc,
          cf_external_queue_capacity = declared_or (tr_external_queue_capacity t) 1024,
          cf_runtime_queue_full_policy = declared_or (tr_runtime_queue_full_policy t) Reject,
          cf_external_queue_full_policy = declared_or (tr_external_queue_full_policy t) Reject,
          cf_queue_full_spin_count = declared_or (tr_queue_full_spin_count t) 64,
          cf_shutdown_policy = runtime_shutdown_policy t,
          cf_task_registry_enabled = runtime_registry_enabled t,
          cf_task_pool_remote_release_batch_size = declared_or (tr_task_pool_remote_release_batch_size t) 64,
          cf_task_pool_chunk_size = declared_or (tr_task_pool_chunk_size t) 256,
          cf_task_pool_cache_slot_index = declared_or (tr_task_pool_cache_slot_index t) False,
          cf_task_pool_local_cache_set_size = declared_or (tr_task_pool_local_cache_set_size t) 1,
          cf_task_pool_direct_release_set_size = declared_or (tr_task_pool_direct_release_set_size t) 4,
          cf_task_pool_local_cache_capacity = declared_or (tr_task_pool_local_cache_capacity t) 64,
          cf_io_wait_reserve = declared_or (tr_io_wait_reserve t) spsc\<rparr>)"

definition config_valid :: "'tag runtime_config \<Rightarrow> bool" where
  "config_valid c \<longleftrightarrow>
     layout_valid (cf_threads c) \<and>
     0 < cf_spsc_queue_capacity c \<and>
     0 < cf_external_queue_capacity c \<and>
     0 < cf_task_pool_remote_release_batch_size c \<and>
     0 < cf_task_pool_chunk_size c \<and>
     cf_task_pool_chunk_size c < 0xFFFF \<and>
     1 \<le> cf_task_pool_local_cache_set_size c \<and>
     0 < cf_task_pool_direct_release_set_size c \<and>
     0 < cf_task_pool_local_cache_capacity c \<and>
     cf_task_pool_remote_release_batch_size c \<le> cf_task_pool_local_cache_capacity c"

definition default_traits :: "'tag ThreadGroupSpec list \<Rightarrow> 'tag runtime_traits" where
  "default_traits specs =
     \<lparr>tr_threads = specs, tr_spsc_queue_capacity = None, tr_external_queue_capacity = None,
      tr_runtime_queue_full_policy = None, tr_external_queue_full_policy = None,
      tr_queue_full_spin_count = None, tr_shutdown_policy = None, tr_enable_task_registry = None,
      tr_task_pool_remote_release_batch_size = None, tr_task_pool_chunk_size = None,
      tr_task_pool_cache_slot_index = None, tr_task_pool_local_cache_set_size = None,
      tr_task_pool_direct_release_set_size = None, tr_task_pool_local_cache_capacity = None,
      tr_io_wait_reserve = None\<rparr>"

lemma default_traits_valid: "layout_valid specs \<Longrightarrow> config_valid (runtime_config_of (default_traits specs))"
  by (simp add: config_valid_def runtime_config_of_def default_traits_def declared_or_def Let_def)

text \<open>
  The two places that decide whether tasks carry registry links agree: the task class has the
  links exactly when the runtime keeps the registry, for every traits class, and always when the
  runtime stops without waiting for its tasks.
\<close>

theorem task_registry_flags_agree:
  "task_registry_enabled_v t = cf_task_registry_enabled (runtime_config_of t) \<and>
   (cf_shutdown_policy (runtime_config_of t) = StopImmediately \<longrightarrow> task_registry_enabled_v t)"
  by (simp add: task_registry_enabled_v_def runtime_config_of_def runtime_registry_enabled_def
      runtime_shutdown_policy_def declared_or_def Let_def split: option.splits)

theorem task_registry_flags_agree_witness:
  "task_registry_enabled_v ((default_traits [] :: nat runtime_traits)\<lparr>tr_shutdown_policy := Some StopImmediately\<rparr>)"
proof -
  let ?t = "(default_traits [] :: nat runtime_traits)\<lparr>tr_shutdown_policy := Some StopImmediately\<rparr>"
  have "cf_shutdown_policy (runtime_config_of ?t) = StopImmediately"
    by (simp add: runtime_config_of_def runtime_shutdown_policy_def declared_or_def Let_def)
  then show ?thesis
    using task_registry_flags_agree [of ?t] by blast
qed

text \<open>
  A valid configuration can build its queues: the capacities round up to powers of two without an
  error as long as they are at most \<open>2 ^ 62\<close>.
\<close>

lemma config_queues_fit:
  assumes "config_valid c" "unat (cf_spsc_queue_capacity c) \<le> 2 ^ 62"
  shows "\<exists>cap. normalize_bounded_queue_capacity (cf_spsc_queue_capacity c) = Inr cap \<and>
           unat (cf_spsc_queue_capacity c) \<le> unat cap"
  using normalize_capacity_ok [of "cf_spsc_queue_capacity c"] assms(2) by (auto simp: ring_capacity_def unat_pow2)

end
