(* ===== verification/Executor_State.thy ===== *)
theory Executor_State
  imports Ready_Sources Task_Registry Runtime_Config Spsc_Queue Mpsc_Queue
begin

unbundle bit_operations_syntax

section \<open>Executors and ready queues\<close>

text \<open>
  Models the fields of \<^verbatim>\<open>Executor\<close> (\<^verbatim>\<open>runtime_executor.hpp\<close>), its constructor and wake-up calls
  (\<^verbatim>\<open>runtime_executor_lifecycle.hpp\<close>), its local queue and \<^verbatim>\<open>pop_one\<close>
  (\<^verbatim>\<open>runtime_executor_scheduler.hpp\<close>), and the queues of \<^verbatim>\<open>AsyncRuntime\<close> (\<^verbatim>\<open>runtime_dispatch.hpp\<close>).
  The runtime's static members are one record on top of the task heap; a call is run by one thread
  without interleaving (the interleaved accesses are in \<open>Spsc_Concurrent\<close>, \<open>Mpsc_Concurrent\<close>,
  \<open>Task_Wake\<close> and \<open>Executor_Sleep\<close>).  \<open>rt_current\<close> is the calling thread's \<^verbatim>\<open>current_thread_index_\<close>.
  The wake-ups an executor was sent are recorded in \<open>ex_signals\<close>.
\<close>

datatype wake_signal = Notify_One | Native_Wake

record executor =
  ex_index :: u16
  ex_kind :: ThreadKind
  ex_next_source :: u16
  ex_next_ready_word :: u16
  ex_local_queue :: "taddr ptr list"
  ex_local_capacity :: u64
  ex_local_mask :: u64
  ex_local_head :: u64
  ex_local_tail :: u64
  ex_local_size :: u64
  ex_ready :: "u64 list"
  ex_external_ready :: bool
  ex_wake_epoch :: u32
  ex_sleeping :: bool
  ex_stop_requested :: bool
  ex_running_task :: "taddr ptr"
  ex_io_epoll_fd :: int
  ex_io_wake_pending :: bool
  ex_signals :: "wake_signal list"

definition executor_new :: "'tag runtime_config \<Rightarrow> u16 \<Rightarrow> af_error + executor" where
  "executor_new c index =
     (case normalize_bounded_queue_capacity (cf_spsc_queue_capacity c) of
        Inl e \<Rightarrow> Inl e
      | Inr cap \<Rightarrow> Inr
          \<lparr>ex_index = index, ex_kind = thread_kind (cf_threads c) index, ex_next_source = 0,
           ex_next_ready_word = 0, ex_local_queue = replicate (unat cap) None, ex_local_capacity = cap,
           ex_local_mask = cap - 1, ex_local_head = 0, ex_local_tail = 0, ex_local_size = 0,
           ex_ready = ready_new (unat (thread_count (cf_threads c))), ex_external_ready = False,
           ex_wake_epoch = 0, ex_sleeping = False, ex_stop_requested = False, ex_running_task = None,
           ex_io_epoll_fd = - 1, ex_io_wake_pending = False, ex_signals = []\<rparr>)"

subsection \<open>The local queue\<close>

definition try_push_local :: "executor \<Rightarrow> taddr \<Rightarrow> bool \<times> executor" where
  "try_push_local e task =
     (if ex_local_size e = ex_local_capacity e then (False, e)
      else (True, e\<lparr>ex_local_queue := (ex_local_queue e)[unat (ex_local_tail e AND ex_local_mask e) := Some task],
                    ex_local_tail := ex_local_tail e + 1, ex_local_size := ex_local_size e + 1\<rparr>))"

definition try_pop_local :: "executor \<Rightarrow> taddr ptr \<times> executor" where
  "try_pop_local e =
     (if ex_local_size e = 0 then (None, e)
      else (ex_local_queue e ! unat (ex_local_head e AND ex_local_mask e),
            e\<lparr>ex_local_head := ex_local_head e + 1, ex_local_size := ex_local_size e - 1\<rparr>))"

definition local_raw :: "executor \<Rightarrow> taddr ptr list" where
  "local_raw e = ring_slots (ex_local_queue e) (unat (ex_local_head e)) (unat (ex_local_size e))"

definition local_ok :: "executor \<Rightarrow> bool" where
  "local_ok e \<longleftrightarrow>
     (\<exists>k. ring_capacity k (ex_local_capacity e)) \<and> ex_local_mask e = ex_local_capacity e - 1 \<and>
     length (ex_local_queue e) = unat (ex_local_capacity e) \<and>
     unat (ex_local_size e) \<le> unat (ex_local_capacity e) \<and>
     ex_local_tail e = ex_local_head e + ex_local_size e \<and> None \<notin> set (local_raw e)"

definition local_content :: "executor \<Rightarrow> taddr list" where
  "local_content e = map the (local_raw e)"

definition local_push :: "executor \<Rightarrow> taddr \<Rightarrow> (bool \<times> executor) option" where
  "local_push e t = Some (try_push_local e t)"

definition local_pop :: "executor \<Rightarrow> (taddr option \<times> executor) option" where
  "local_pop e = Some (try_pop_local e)"

lemma length_local_content [simp]: "length (local_content e) = unat (ex_local_size e)"
  by (simp add: local_content_def local_raw_def)

lemma local_push_accepts:
  assumes ok: "local_ok e" and lt: "unat (ex_local_size e) < unat (ex_local_capacity e)"
  obtains e' where "try_push_local e t = (True, e')" "local_ok e'" "local_content e' = local_content e @ [t]"
    "ex_local_capacity e' = ex_local_capacity e"
proof -
  let ?e = "snd (try_push_local e t)"
  obtain k where k: "ring_capacity k (ex_local_capacity e)"
    using ok by (auto simp: local_ok_def)
  note bounds = ring_capacity_bounds [OF k]
  have len: "length (ex_local_queue e) = unat (ex_local_capacity e)"
    using ok by (simp add: local_ok_def)
  have tail: "unat (ex_local_tail e AND ex_local_mask e) =
      (unat (ex_local_head e) + unat (ex_local_size e)) mod unat (ex_local_capacity e)"
    using ok ring_capacity_slot [OF k, of "ex_local_head e" "unat (ex_local_size e)"] by (simp add: local_ok_def)
  have sz: "unat (ex_local_size e + 1) = Suc (unat (ex_local_size e))"
    using lt bounds by (simp add: unat_word_ariths(1))
  have ne: "ex_local_size e \<noteq> ex_local_capacity e"
    using lt by auto
  have raw: "local_raw ?e = local_raw e @ [Some t]"
    using ring_slots_push [of "unat (ex_local_size e)" "ex_local_queue e" "unat (ex_local_head e)" "Some t"] lt len sz ne
    by (simp add: try_push_local_def local_raw_def tail)
  have "local_ok ?e"
    using ok lt sz ne raw by (simp add: local_ok_def, simp add: try_push_local_def)
  moreover have "try_push_local e t = (True, ?e)" "ex_local_capacity ?e = ex_local_capacity e"
    using ne by (simp_all add: try_push_local_def)
  ultimately show thesis
    using that raw by (simp add: local_content_def)
qed

lemma local_pop_takes:
  assumes ok: "local_ok e" and ne: "ex_local_size e \<noteq> 0"
  obtains t e' where "try_pop_local e = (Some t, e')" "local_ok e'" "local_content e = t # local_content e'"
    "ex_local_capacity e' = ex_local_capacity e"
proof -
  let ?e = "snd (try_pop_local e)"
  obtain k where k: "ring_capacity k (ex_local_capacity e)"
    using ok by (auto simp: local_ok_def)
  have len: "length (ex_local_queue e) = unat (ex_local_capacity e)"
    using ok by (simp add: local_ok_def)
  obtain n where n: "unat (ex_local_size e) = Suc n"
    using ne by (metis not0_implies_Suc unat_eq_zero)
  have n': "unat (ex_local_size e - 1) = n"
    using n by (simp add: unat_minus_one [OF ne])
  have head: "unat (ex_local_head e AND ex_local_mask e) = unat (ex_local_head e) mod unat (ex_local_capacity e)"
    using ok ring_capacity_slot0 [OF k] by (simp add: local_ok_def)
  have "ring_slots (ex_local_queue e) (unat (ex_local_head e + 1)) n =
        ring_slots (ex_local_queue e) (Suc (unat (ex_local_head e))) n"
    using ring_capacity_mod_add [OF k, of "ex_local_head e" 1] by (intro ring_slots_mod) (simp add: len)
  then have raw: "local_raw e = fst (try_pop_local e) # local_raw ?e"
    using ne n n' head by (simp add: local_raw_def try_pop_local_def ring_slots_Suc len)
  then have some: "fst (try_pop_local e) \<noteq> None" "None \<notin> set (local_raw ?e)"
    using ok unfolding local_ok_def by (metis list.set_intros)+
  have "local_ok ?e"
    using ok ne n n' some(2) by (simp add: local_ok_def, simp add: try_pop_local_def)
  moreover obtain t where "fst (try_pop_local e) = Some t" using some(1) by auto
  ultimately show thesis
    using that raw ne by (simp add: local_content_def try_pop_local_def)
qed

interpretation local_queue: bounded_queue local_ok local_content "\<lambda>e. unat (ex_local_capacity e)" local_push local_pop
proof
  fix e x xs
  show "length (local_content e) \<le> unat (ex_local_capacity e)" if "local_ok e"
    using that by (simp add: local_ok_def)
  show "\<exists>q'. local_push e x = Some (True, q') \<and> local_ok q' \<and> local_content q' = local_content e @ [x] \<and>
      unat (ex_local_capacity q') = unat (ex_local_capacity e)"
    if ok: "local_ok e" and lt: "length (local_content e) < unat (ex_local_capacity e)"
  proof -
    obtain e' where "try_push_local e x = (True, e')" "local_ok e'" "local_content e' = local_content e @ [x]"
      "ex_local_capacity e' = ex_local_capacity e"
      using local_push_accepts [OF ok] lt length_local_content by metis
    then show ?thesis by (simp add: local_push_def)
  qed
  show "\<exists>q'. local_push e x = Some (False, q') \<and> local_ok q' \<and> local_content q' = local_content e \<and>
      unat (ex_local_capacity q') = unat (ex_local_capacity e)"
    if "local_ok e" "length (local_content e) = unat (ex_local_capacity e)"
    using that by (simp add: local_push_def try_push_local_def word_unat_eq_iff)
  show "\<exists>q'. local_pop e = Some (Some x, q') \<and> local_ok q' \<and> local_content q' = xs \<and>
      unat (ex_local_capacity q') = unat (ex_local_capacity e)"
    if ok: "local_ok e" and con: "local_content e = x # xs"
  proof -
    have "ex_local_size e \<noteq> 0"
      using con length_local_content [of e] by auto
    then obtain t e' where "try_pop_local e = (Some t, e')" "local_ok e'" "local_content e = t # local_content e'"
      "ex_local_capacity e' = ex_local_capacity e"
      using local_pop_takes [OF ok] by metis
    then show ?thesis using con by (simp add: local_pop_def)
  qed
  show "\<exists>q'. local_pop e = Some (None, q') \<and> local_ok q' \<and> local_content q' = [] \<and>
      unat (ex_local_capacity q') = unat (ex_local_capacity e)"
    if "local_ok e" "local_content e = []"
  proof -
    have "ex_local_size e = 0"
      using that(2) length_local_content [of e] by (simp add: unat_eq_zero)
    then show ?thesis
      using that by (simp add: local_pop_def try_pop_local_def)
  qed
qed

lemma executor_new_ok:
  assumes "executor_new c i = Inr e"
  shows "local_ok e" "local_content e = []" "ex_index e = i"
proof -
  obtain cap where cap: "normalize_bounded_queue_capacity (cf_spsc_queue_capacity c) = Inr cap"
    using assms by (auto simp: executor_new_def split: sum.splits)
  have "\<exists>k. ring_capacity k cap"
    using cap normalize_capacity_ok [of "cf_spsc_queue_capacity c"]
      normalize_capacity_too_large [of "cf_spsc_queue_capacity c"]
    by (cases "unat (cf_spsc_queue_capacity c) \<le> 2 ^ 62") auto
  then show "local_ok e" "local_content e = []" "ex_index e = i"
    using assms cap by (auto simp: executor_new_def local_ok_def local_content_def local_raw_def)
qed

end
