(* ===== verification/Runtime_State.thy ===== *)
theory Runtime_State
  imports Executor_State
begin

section \<open>The state of the runtime\<close>

text \<open>
  Models the static members of \<^verbatim>\<open>AsyncRuntime\<close> (\<^verbatim>\<open>async_runtime.hpp\<close>) as a record on top of the task
  heap, the creation of its queues (\<^verbatim>\<open>init_queues\<close> of \<^verbatim>\<open>runtime_dispatch.hpp\<close>) and executors (the loop of
  \<^verbatim>\<open>init\<close> in \<^verbatim>\<open>runtime_public_api.hpp\<close>).  \<open>lane_content\<close> maps the runtime to the content of its queues: one
  local queue per thread, one link per pair of threads, one external queue per thread;
  \<open>runtime_ok\<close> is the representation invariant that the queues of a started runtime satisfy.
\<close>

datatype RuntimeStatus = RtStopped | RtStarting | RtRunning | RtStopping

record runtime = task_heap +
  rt_status :: RuntimeStatus
  rt_generation :: u64
  rt_active_posts :: "u32 list"
  rt_executors :: "executor list"
  rt_spsc :: "taddr spsc list"
  rt_external :: "taddr cell_ring list"
  rt_ordered :: "u64 list"
  rt_current :: u16
  rt_current_task :: u64

definition thread_total_of :: "'tag runtime_config \<Rightarrow> nat" where
  "thread_total_of c = unat (thread_count (cf_threads c))"

definition executor_at :: "'z runtime_scheme \<Rightarrow> u16 \<Rightarrow> executor" where
  "executor_at r i = rt_executors r ! unat i"

definition set_executor :: "'z runtime_scheme \<Rightarrow> u16 \<Rightarrow> executor \<Rightarrow> 'z runtime_scheme" where
  "set_executor r i e = r\<lparr>rt_executors := (rt_executors r)[unat i := e]\<rparr>"

fun make_queues :: "nat \<Rightarrow> (u64 \<Rightarrow> af_error + 'q) \<Rightarrow> u64 \<Rightarrow> af_error + 'q list" where
  "make_queues 0 new capacity = Inr []"
| "make_queues (Suc n) new capacity =
     (case new capacity of
        Inl e \<Rightarrow> Inl e
      | Inr q \<Rightarrow> (case make_queues n new capacity of Inl e \<Rightarrow> Inl e | Inr qs \<Rightarrow> Inr (q # qs)))"

definition init_queues :: "'tag runtime_config \<Rightarrow> 'z runtime_scheme \<Rightarrow> af_error + 'z runtime_scheme" where
  "init_queues c r =
     (case make_queues (thread_total_of c * thread_total_of c) spsc_new (cf_spsc_queue_capacity c) of
        Inl e \<Rightarrow> Inl e
      | Inr links \<Rightarrow>
          (case make_queues (thread_total_of c) mpsc_new (cf_external_queue_capacity c) of
             Inl e \<Rightarrow> Inl e
           | Inr externals \<Rightarrow> Inr (r\<lparr>rt_spsc := links, rt_external := externals\<rparr>)))"

definition update_executor :: "u16 \<Rightarrow> (executor \<Rightarrow> executor) \<Rightarrow> 'z runtime_scheme \<Rightarrow> 'z runtime_scheme" where
  "update_executor index f r = set_executor r index (f (executor_at r index))"

subsection \<open>Lanes\<close>

datatype lane = LocalLane nat | LinkLane nat nat | ExternalLane nat

fun lane_valid :: "nat \<Rightarrow> lane \<Rightarrow> bool" where
  "lane_valid n (LocalLane i) \<longleftrightarrow> i < n"
| "lane_valid n (LinkLane s t) \<longleftrightarrow> s < n \<and> t < n"
| "lane_valid n (ExternalLane i) \<longleftrightarrow> i < n"

fun raw_lane :: "nat \<Rightarrow> 'z runtime_scheme \<Rightarrow> lane \<Rightarrow> taddr list" where
  "raw_lane n r (LocalLane i) = local_content (rt_executors r ! i)"
| "raw_lane n r (LinkLane s t) = spsc_content (rt_spsc r ! (s * n + t))"
| "raw_lane n r (ExternalLane i) = cell_content (rt_external r ! i)"

definition lane_content :: "nat \<Rightarrow> 'z runtime_scheme \<Rightarrow> lane \<Rightarrow> taddr list" where
  "lane_content n r l = (if lane_valid n l then raw_lane n r l else [])"

definition executor_ok :: "nat \<Rightarrow> nat \<Rightarrow> executor \<Rightarrow> bool" where
  "executor_ok n i e \<longleftrightarrow>
     local_ok e \<and> ex_index e = of_nat i \<and> length (ex_ready e) = word_count n \<and>
     unat (ex_next_ready_word e) < word_count n"

definition runtime_ok :: "nat \<Rightarrow> 'z runtime_scheme \<Rightarrow> bool" where
  "runtime_ok n r \<longleftrightarrow>
     0 < n \<and> n < 2 ^ 16 \<and>
     length (rt_executors r) = n \<and> (\<forall>i < n. executor_ok n i (rt_executors r ! i)) \<and>
     length (rt_spsc r) = n * n \<and> (\<forall>k < n * n. spsc_ok (rt_spsc r ! k)) \<and>
     length (rt_external r) = n \<and> (\<forall>i < n. cell_ok (rt_external r ! i))"

lemma link_index_bound: "s < n \<Longrightarrow> t < n \<Longrightarrow> s * n + t < n * n" for s t n :: nat
proof -
  assume "s < n" "t < n"
  then have "s * n + t < s * n + n" "Suc s * n \<le> n * n" using mult_le_mono1 [of "Suc s" n n] by simp_all
  then show ?thesis by simp
qed

lemma link_index_inj: "t < n \<Longrightarrow> t' < n \<Longrightarrow> s * n + t = s' * n + t' \<longleftrightarrow> s = s' \<and> t = t'" for s t s' t' n :: nat
proof -
  assume lt: "t < n" "t' < n"
  then have "(s * n + t) div n = s" "(s' * n + t') div n = s'" by simp_all
  then show ?thesis using lt by (metis add_left_cancel)
qed

lemma lanes_executor:
  assumes "i < n" "length (rt_executors r) = n"
  shows "lane_content n (r\<lparr>rt_executors := (rt_executors r)[i := e]\<rparr>) =
         (lane_content n r)(LocalLane i := local_content e)"
proof
  fix l show "lane_content n (r\<lparr>rt_executors := (rt_executors r)[i := e]\<rparr>) l =
      ((lane_content n r)(LocalLane i := local_content e)) l"
    using assms by (cases l) (auto simp: lane_content_def nth_list_update)
qed

lemma lanes_link:
  assumes "s < n" "t < n" "length (rt_spsc r) = n * n"
  shows "lane_content n (r\<lparr>rt_spsc := (rt_spsc r)[s * n + t := q]\<rparr>) =
         (lane_content n r)(LinkLane s t := spsc_content q)"
proof
  fix l show "lane_content n (r\<lparr>rt_spsc := (rt_spsc r)[s * n + t := q]\<rparr>) l =
      ((lane_content n r)(LinkLane s t := spsc_content q)) l"
  proof (cases l)
    case (LinkLane s' t')
    then show ?thesis
      using assms link_index_bound [of s n t] link_index_inj [of t n t' s s']
      by (cases "s' < n \<and> t' < n") (auto simp: lane_content_def nth_list_update)
  qed (simp_all add: lane_content_def)
qed

lemma lanes_external:
  assumes "i < n" "length (rt_external r) = n"
  shows "lane_content n (r\<lparr>rt_external := (rt_external r)[i := q]\<rparr>) =
         (lane_content n r)(ExternalLane i := cell_content q)"
proof
  fix l show "lane_content n (r\<lparr>rt_external := (rt_external r)[i := q]\<rparr>) l =
      ((lane_content n r)(ExternalLane i := cell_content q)) l"
    using assms by (cases l) (auto simp: lane_content_def nth_list_update)
qed

lemma runtime_ok_executor:
  "runtime_ok n r \<Longrightarrow> i < n \<Longrightarrow> executor_ok n i e \<Longrightarrow> runtime_ok n (r\<lparr>rt_executors := (rt_executors r)[i := e]\<rparr>)"
  by (auto simp: runtime_ok_def nth_list_update)

lemma runtime_ok_link:
  "runtime_ok n r \<Longrightarrow> k < n * n \<Longrightarrow> spsc_ok q \<Longrightarrow> runtime_ok n (r\<lparr>rt_spsc := (rt_spsc r)[k := q]\<rparr>)"
  by (auto simp: runtime_ok_def nth_list_update)

lemma runtime_ok_external:
  "runtime_ok n r \<Longrightarrow> i < n \<Longrightarrow> cell_ok q \<Longrightarrow> runtime_ok n (r\<lparr>rt_external := (rt_external r)[i := q]\<rparr>)"
  by (auto simp: runtime_ok_def nth_list_update)

text \<open>Changing what an executor keeps beside its local queue.\<close>

definition keeps_local :: "(executor \<Rightarrow> executor) \<Rightarrow> nat \<Rightarrow> bool" where
  "keeps_local f n \<longleftrightarrow>
     (\<forall>e i. executor_ok n i e \<longrightarrow> executor_ok n i (f e) \<and> local_content (f e) = local_content e)"

lemma update_executor_ok:
  assumes "runtime_ok n r" "unat i < n" "keeps_local f n"
  shows "runtime_ok n (update_executor i f r)" "lane_content n (update_executor i f r) = lane_content n r"
proof -
  let ?e = "rt_executors r ! unat i"
  have e: "executor_ok n (unat i) ?e"
    using assms(1,2) by (simp add: runtime_ok_def)
  then have f: "executor_ok n (unat i) (f ?e)" "local_content (f ?e) = local_content ?e"
    using assms(3) by (auto simp: keeps_local_def)
  show "runtime_ok n (update_executor i f r)"
    using runtime_ok_executor [OF assms(1,2) f(1)] by (simp add: update_executor_def set_executor_def executor_at_def)
  show "lane_content n (update_executor i f r) = lane_content n r"
    using lanes_executor [of "unat i" n r "f ?e"] assms(1,2) f(2)
    by (auto simp: update_executor_def set_executor_def executor_at_def runtime_ok_def lane_content_def fun_eq_iff)
qed

lemma update_executor_runtime:
  "rt_current (update_executor i f r) = rt_current r" "task_at (update_executor i f r) = task_at r"
  by (simp_all add: update_executor_def set_executor_def)

lemma keeps_localI:
  assumes "\<And>e. ex_local_queue (f e) = ex_local_queue e" "\<And>e. ex_local_capacity (f e) = ex_local_capacity e"
    "\<And>e. ex_local_mask (f e) = ex_local_mask e" "\<And>e. ex_local_head (f e) = ex_local_head e"
    "\<And>e. ex_local_tail (f e) = ex_local_tail e" "\<And>e. ex_local_size (f e) = ex_local_size e"
    "\<And>e. ex_index (f e) = ex_index e" "\<And>e. length (ex_ready (f e)) = length (ex_ready e)"
    "\<And>e. unat (ex_next_ready_word e) < word_count n \<Longrightarrow> unat (ex_next_ready_word (f e)) < word_count n"
  shows "keeps_local f n"
  unfolding keeps_local_def executor_ok_def local_ok_def local_content_def local_raw_def using assms by simp

subsection \<open>A started runtime\<close>

definition runtime_statics :: "'tag runtime_config \<Rightarrow> runtime" where
  "runtime_statics c =
     \<lparr>reg_head = None, reg_links = (\<lambda>_. links_default), task_at = (\<lambda>_. task_new 0), unfinished_tasks = 0,
      rt_status = RtStopped, rt_generation = 0, rt_active_posts = replicate (thread_total_of c) 0,
      rt_executors = [], rt_spsc = [], rt_external = [], rt_ordered = [],
      rt_current = invalid_thread_index (cf_threads c), rt_current_task = 0\<rparr>"

fun make_executors :: "'tag runtime_config \<Rightarrow> nat list \<Rightarrow> af_error + executor list" where
  "make_executors c [] = Inr []"
| "make_executors c (i # is) =
     (case executor_new c (of_nat i) of
        Inl e \<Rightarrow> Inl e
      | Inr x \<Rightarrow> (case make_executors c is of Inl e \<Rightarrow> Inl e | Inr xs \<Rightarrow> Inr (x # xs)))"

lemma make_queues_all:
  "make_queues n new capacity = Inr qs \<Longrightarrow> length qs = n \<and> (\<forall>q \<in> set qs. new capacity = Inr q)"
  by (induction n arbitrary: qs) (auto split: sum.splits)

lemma make_executors_all:
  "make_executors c is = Inr es \<Longrightarrow>
   length es = length is \<and> (\<forall>k < length is. executor_new c (of_nat (is ! k)) = Inr (es ! k))"
proof (induction "is" arbitrary: es)
  case (Cons i "is")
  then obtain x xs where "executor_new c (of_nat i) = Inr x" "make_executors c is = Inr xs" "es = x # xs"
    by (auto split: sum.splits)
  then show ?case using Cons.IH by (auto simp: nth_Cons split: nat.splits)
qed simp

lemma make_queues_total: "new capacity = Inr q \<Longrightarrow> make_queues n new capacity = Inr (replicate n q)"
  by (induction n) simp_all

lemma make_executors_total:
  "(\<And>i. \<exists>e. executor_new c i = Inr e) \<Longrightarrow> \<exists>es. make_executors c is = Inr es"
proof (induction "is")
  case (Cons i "is")
  then obtain es where "make_executors c is = Inr es" by blast
  moreover obtain e where "executor_new c (of_nat i) = Inr e" using Cons.prems by blast
  ultimately show ?case by simp
qed simp

lemma executor_new_executor_ok:
  assumes "executor_new c (of_nat i) = Inr e" "0 < thread_total_of c"
  shows "executor_ok (thread_total_of c) i e"
  using executor_new_ok [OF assms(1)] assms
  by (auto simp: executor_ok_def executor_new_def ready_new_def thread_total_of_def word_count_def split: sum.splits)

lemma started_lanes:
  assumes queues: "init_queues c r = Inr r1" and exs: "make_executors c [0..<thread_total_of c] = Inr es"
    and n: "0 < thread_total_of c"
  shows "runtime_ok (thread_total_of c) (r1\<lparr>rt_executors := es\<rparr>)"
    and "lane_content (thread_total_of c) (r1\<lparr>rt_executors := es\<rparr>) = (\<lambda>_. [])"
proof -
  let ?n = "thread_total_of c"
  obtain links externals where
    l: "make_queues (?n * ?n) spsc_new (cf_spsc_queue_capacity c) = Inr links" and
    x: "make_queues ?n mpsc_new (cf_external_queue_capacity c) = Inr externals" and
    r1: "r1 = r\<lparr>rt_spsc := links, rt_external := externals\<rparr>"
    using queues by (auto simp: init_queues_def split: sum.splits)
  have e: "length es = ?n" "\<And>i. i < ?n \<Longrightarrow> executor_new c (of_nat i) = Inr (es ! i)"
    using make_executors_all [OF exs] by simp_all
  have bound: "?n < 2 ^ 16"
    unfolding thread_total_of_def using unsigned_less [of "thread_count (cf_threads c)", where 'a = nat] by simp
  have lq: "spsc_ok (links ! k) \<and> spsc_content (links ! k) = []" if "k < ?n * ?n" for k
  proof -
    have "spsc_new (cf_spsc_queue_capacity c) = Inr (links ! k)" using that make_queues_all [OF l] by simp
    then show ?thesis using spsc_new_ok by metis
  qed
  have xq: "cell_ok (externals ! k) \<and> cell_content (externals ! k) = []" if "k < ?n" for k
  proof -
    have "mpsc_new (cf_external_queue_capacity c) = Inr (externals ! k)" using that make_queues_all [OF x] by simp
    then show ?thesis using mpsc_new_ok by metis
  qed
  show "runtime_ok ?n (r1\<lparr>rt_executors := es\<rparr>)"
    using n bound e executor_new_executor_ok [OF e(2) n] lq xq make_queues_all [OF l] make_queues_all [OF x]
    by (simp add: runtime_ok_def r1)
  have "local_content (es ! i) = []" if "i < ?n" for i
    using executor_new_ok(2) [OF e(2) [OF that]] .
  then show "lane_content ?n (r1\<lparr>rt_executors := es\<rparr>) = (\<lambda>_. [])"
    using lq xq link_index_bound by (auto simp: fun_eq_iff lane_content_def r1 elim!: lane_valid.elims)
qed

lemma raw_lane_statics [simp]:
  "raw_lane n (r\<lparr>rt_status := st\<rparr>) l = raw_lane n r l" "raw_lane n (r\<lparr>rt_generation := g\<rparr>) l = raw_lane n r l"
  "raw_lane n (r\<lparr>rt_ordered := os\<rparr>) l = raw_lane n r l" "raw_lane n (r\<lparr>rt_current := i\<rparr>) l = raw_lane n r l"
  "raw_lane n (r\<lparr>rt_current_task := t\<rparr>) l = raw_lane n r l"
  by (cases l; simp)+

lemma lane_content_statics [simp]:
  "lane_content n (r\<lparr>rt_status := st\<rparr>) = lane_content n r" "lane_content n (r\<lparr>rt_generation := g\<rparr>) = lane_content n r"
  "lane_content n (r\<lparr>rt_ordered := os\<rparr>) = lane_content n r" "lane_content n (r\<lparr>rt_current := i\<rparr>) = lane_content n r"
  "lane_content n (r\<lparr>rt_current_task := t\<rparr>) = lane_content n r"
  by (simp_all add: lane_content_def fun_eq_iff)

lemma runtime_ok_statics [simp]:
  "runtime_ok n (r\<lparr>rt_status := st\<rparr>) = runtime_ok n r" "runtime_ok n (r\<lparr>rt_generation := g\<rparr>) = runtime_ok n r"
  "runtime_ok n (r\<lparr>rt_ordered := os\<rparr>) = runtime_ok n r" "runtime_ok n (r\<lparr>rt_current := i\<rparr>) = runtime_ok n r"
  "runtime_ok n (r\<lparr>rt_current_task := t\<rparr>) = runtime_ok n r"
  by (simp_all add: runtime_ok_def)

text \<open>Three threads, queues of capacity two, for the closed examples.\<close>

definition sample_config :: "nat runtime_config" where
  "sample_config = runtime_config_of ((default_traits sample_layout)
     \<lparr>tr_spsc_queue_capacity := Some 2, tr_external_queue_capacity := Some 2\<rparr>)"

definition sample_runtime :: runtime where
  "sample_runtime =
     (projr (init_queues sample_config (runtime_statics sample_config)))
       \<lparr>rt_executors := projr (make_executors sample_config [0..<3]), rt_status := RtRunning\<rparr>"

lemma sample_config_simps [simp]:
  "cf_threads sample_config = sample_layout" "cf_spsc_queue_capacity sample_config = 2"
  "cf_external_queue_capacity sample_config = 2" "thread_total_of sample_config = 3"
  "cf_runtime_queue_full_policy sample_config = Reject" "cf_external_queue_full_policy sample_config = Reject"
  "cf_shutdown_policy sample_config = WaitForTasks" "\<not> cf_task_registry_enabled sample_config"
  by (simp_all add: sample_config_def runtime_config_of_def default_traits_def declared_or_def Let_def
      thread_total_of_def thread_count_def sample_layout_def total_thread_count_def runtime_shutdown_policy_def
      runtime_registry_enabled_def)

lemma sample_runtime_ok:
  "runtime_ok 3 sample_runtime" "lane_content 3 sample_runtime = (\<lambda>_. [])"
proof -
  obtain q :: "taddr spsc" where q: "spsc_new 2 = Inr q" by (simp add: spsc_new_def normalize_2)
  obtain x :: "taddr cell_ring" where x: "mpsc_new 2 = Inr x" by (simp add: mpsc_new_def normalize_2)
  obtain r1 where r1: "init_queues sample_config (runtime_statics sample_config) = Inr r1"
    using make_queues_total [of spsc_new, OF q] make_queues_total [of mpsc_new, OF x] by (simp add: init_queues_def)
  obtain es where es: "make_executors sample_config [0..<3] = Inr es"
    using make_executors_total [of sample_config] by (auto simp: executor_new_def normalize_2)
  have "runtime_ok 3 (r1\<lparr>rt_executors := es\<rparr>)" "lane_content 3 (r1\<lparr>rt_executors := es\<rparr>) = (\<lambda>_. [])"
    using started_lanes [OF r1] es by simp_all
  then show "runtime_ok 3 sample_runtime" "lane_content 3 sample_runtime = (\<lambda>_. [])"
    by (simp_all add: sample_runtime_def r1 es)
qed

lemma sample_runtime_fields:
  "rt_status sample_runtime = RtRunning" "rt_current sample_runtime = 3" "unfinished_tasks sample_runtime = 0"
  "task_at sample_runtime a = task_new 0" "ring_capacity_of (rt_external sample_runtime ! 0) = 2"
proof -
  obtain q :: "taddr spsc" where q: "spsc_new 2 = Inr q" by (simp add: spsc_new_def normalize_2)
  obtain x :: "taddr cell_ring" where x: "mpsc_new 2 = Inr x" "ring_capacity_of x = 2"
    by (simp add: mpsc_new_def normalize_2)
  have "init_queues sample_config (runtime_statics sample_config) =
      Inr ((runtime_statics sample_config)\<lparr>rt_spsc := replicate 9 q, rt_external := replicate 3 x\<rparr>)"
    using make_queues_total [of spsc_new, OF q] make_queues_total [of mpsc_new, OF x(1)] by (simp add: init_queues_def)
  then show "rt_status sample_runtime = RtRunning" "rt_current sample_runtime = 3" "unfinished_tasks sample_runtime = 0"
    "task_at sample_runtime a = task_new 0" "ring_capacity_of (rt_external sample_runtime ! 0) = 2"
    using x(2) by (simp_all add: sample_runtime_def) (simp_all add: runtime_statics_def invalid_thread_index_def thread_count_def
        sample_layout_def total_thread_count_def)
qed

lemma executor_new_capacity:
  "executor_new c i = Inr e \<Longrightarrow> normalize_bounded_queue_capacity (cf_spsc_queue_capacity c) = Inr cap \<Longrightarrow>
   ex_local_capacity e = cap"
  by (auto simp: executor_new_def)

lemma sample_local_capacity: "i < 3 \<Longrightarrow> ex_local_capacity (rt_executors sample_runtime ! i) = 2"
proof -
  assume i: "i < 3"
  obtain es where es: "make_executors sample_config [0..<3] = Inr es"
    using make_executors_total [of sample_config] by (auto simp: executor_new_def normalize_2)
  then have "executor_new sample_config (of_nat i) = Inr (es ! i)" using make_executors_all [OF es] i by simp
  then have "ex_local_capacity (es ! i) = 2" by (rule executor_new_capacity) (simp add: normalize_2)
  then show ?thesis by (simp add: sample_runtime_def es)
qed

end
