(* ===== verification/Dispatch.thy ===== *)
theory Dispatch
  imports Runtime_State
begin

unbundle bit_operations_syntax

section \<open>Routing ready tasks\<close>

text \<open>
  Models \<^verbatim>\<open>runtime_dispatch.hpp\<close> up to the non-blocking enqueues, \<^verbatim>\<open>Executor::notify\<close>,
  \<^verbatim>\<open>notify_force\<close>, \<^verbatim>\<open>notify_external_ready\<close> and \<^verbatim>\<open>pop_one\<close>.  A configuration \<open>c\<close> supplies the template
  constants; \<open>wr\<close> says whether the write to the wake-up event descriptor succeeds.
\<close>


definition spsc_index :: "'tag runtime_config \<Rightarrow> u16 \<Rightarrow> u16 \<Rightarrow> nat" where
  "spsc_index c source target = unat source * thread_total_of c + unat target"

datatype ReadyQueueRoute = RouteLocal | RouteSpsc

definition ready_route_from_runtime_thread :: "u16 \<Rightarrow> u16 \<Rightarrow> ReadyQueueRoute" where
  "ready_route_from_runtime_thread source target = (if source = target then RouteLocal else RouteSpsc)"

subsection \<open>Waking an executor\<close>

definition io_thread :: "executor \<Rightarrow> bool" where
  "io_thread e \<longleftrightarrow> ex_kind e = Io \<or> ex_kind e = Epoll"

definition io_backend_available :: "executor \<Rightarrow> bool" where
  "io_backend_available e \<longleftrightarrow> 0 \<le> ex_io_epoll_fd e"

definition notify_native_io_backend :: "bool \<Rightarrow> executor \<Rightarrow> bool \<times> executor" where
  "notify_native_io_backend wr e =
     (if ex_io_epoll_fd e < 0 then (False, e)
      else if \<not> ex_io_wake_pending e
      then (if wr then (True, e\<lparr>ex_io_wake_pending := True, ex_signals := ex_signals e @ [Native_Wake]\<rparr>)
            else (False, e\<lparr>ex_io_wake_pending := False\<rparr>))
      else (True, e))"

definition notify_one :: "executor \<Rightarrow> executor" where
  "notify_one e = e\<lparr>ex_signals := ex_signals e @ [Notify_One]\<rparr>"

definition notify_force :: "bool \<Rightarrow> executor \<Rightarrow> executor" where
  "notify_force wr e =
     (let e = e\<lparr>ex_wake_epoch := ex_wake_epoch e + 1\<rparr>
      in case notify_native_io_backend wr e of (ok, e) \<Rightarrow> if ok then e else notify_one e)"

definition notify :: "bool \<Rightarrow> executor \<Rightarrow> executor" where
  "notify wr e =
     (let e = e\<lparr>ex_wake_epoch := ex_wake_epoch e + 1\<rparr>
      in if \<not> io_thread e \<or> \<not> io_backend_available e then notify_one e
         else if \<not> ex_sleeping e then e
         else let e = e\<lparr>ex_sleeping := False\<rparr>
              in case notify_native_io_backend wr e of (ok, e) \<Rightarrow> if ok then e else notify_one e)"

definition notify_external_ready :: "bool \<Rightarrow> executor \<Rightarrow> executor" where
  "notify_external_ready wr e =
     (if \<not> ex_external_ready e then notify_force wr (e\<lparr>ex_external_ready := True\<rparr>) else notify wr e)"

definition request_stop :: "bool \<Rightarrow> executor \<Rightarrow> executor" where
  "request_stop wr e = notify_force wr (e\<lparr>ex_stop_requested := True\<rparr>)"

definition mark_source_ready :: "u16 \<Rightarrow> u16 \<Rightarrow> 'z runtime_scheme \<Rightarrow> 'z runtime_scheme" where
  "mark_source_ready source target r =
     (let e = executor_at r target in set_executor r target (e\<lparr>ex_ready := ready_mark (ex_ready e) source\<rparr>))"

subsection \<open>Non-blocking enqueues\<close>

definition try_enqueue_local_from_runtime_thread ::
    "u16 \<Rightarrow> taddr \<Rightarrow> 'z runtime_scheme \<Rightarrow> bool \<times> 'z runtime_scheme" where
  "try_enqueue_local_from_runtime_thread target task r =
     (case try_push_local (executor_at r target) task of (ok, e) \<Rightarrow> (ok, set_executor r target e))"

definition try_enqueue_cross_thread_spsc ::
    "'tag runtime_config \<Rightarrow> bool \<Rightarrow> u16 \<Rightarrow> u16 \<Rightarrow> taddr \<Rightarrow> 'z runtime_scheme \<Rightarrow> bool \<times> 'z runtime_scheme" where
  "try_enqueue_cross_thread_spsc c wr source target task r =
     (let k = spsc_index c source target
      in case spsc_try_push (rt_spsc r ! k) (Some task) of (ok, q) \<Rightarrow>
           let r = r\<lparr>rt_spsc := (rt_spsc r)[k := q]\<rparr>
           in if ok
              then let r = mark_source_ready source target r
                   in (True, set_executor r target (notify wr (executor_at r target)))
              else (False, r))"

definition try_enqueue_external_mpsc ::
    "bool \<Rightarrow> u16 \<Rightarrow> taddr \<Rightarrow> 'z runtime_scheme \<Rightarrow> (bool \<times> 'z runtime_scheme) option" where
  "try_enqueue_external_mpsc wr target task r =
     (case mpsc_try_push (rt_external r ! unat target) (Some task) of
        None \<Rightarrow> None
      | Some (ok, q) \<Rightarrow>
          let r = r\<lparr>rt_external := (rt_external r)[unat target := q]\<rparr>
          in Some (if ok then (True, set_executor r target (notify_external_ready wr (executor_at r target)))
                   else (False, r)))"

definition try_enqueue_ready_from_runtime_thread ::
    "'tag runtime_config \<Rightarrow> bool \<Rightarrow> u16 \<Rightarrow> u16 \<Rightarrow> taddr \<Rightarrow> ScheduleMode \<Rightarrow> 'z runtime_scheme \<Rightarrow>
     (bool \<times> 'z runtime_scheme) option" where
  "try_enqueue_ready_from_runtime_thread c wr source target task mode r =
     (if mode = Ordered then try_enqueue_external_mpsc wr target task r
      else if ready_route_from_runtime_thread source target = RouteLocal
      then Some (try_enqueue_local_from_runtime_thread target task r)
      else Some (try_enqueue_cross_thread_spsc c wr source target task r))"

definition try_enqueue_ready ::
    "'tag runtime_config \<Rightarrow> bool \<Rightarrow> u16 \<Rightarrow> taddr \<Rightarrow> ScheduleMode \<Rightarrow> 'z runtime_scheme \<Rightarrow>
     (bool \<times> 'z runtime_scheme) option" where
  "try_enqueue_ready c wr index task mode r =
     (if rt_current r < thread_count (cf_threads c)
      then try_enqueue_ready_from_runtime_thread c wr (rt_current r) index task mode r
      else if mode = Fast then Some (False, r)
      else try_enqueue_external_mpsc wr index task r)"

subsection \<open>Taking the next task\<close>

definition advance_ready_word_cursor_after ::
    "'tag runtime_config \<Rightarrow> nat \<Rightarrow> executor \<Rightarrow> executor" where
  "advance_ready_word_cursor_after c word e =
     (if word_count (thread_total_of c) > 1
      then let next = word + 1;
               next = (if next = word_count (thread_total_of c) then 0 else next)
           in e\<lparr>ex_next_ready_word := of_nat next\<rparr>
      else e)"

definition next_source_after :: "'tag runtime_config \<Rightarrow> u16 \<Rightarrow> u16" where
  "next_source_after c source = of_nat ((unat source + 1) mod thread_total_of c)"

definition pop_spsc ::
    "'tag runtime_config \<Rightarrow> u16 \<Rightarrow> u16 \<Rightarrow> 'z runtime_scheme \<Rightarrow> taddr ptr \<times> 'z runtime_scheme" where
  "pop_spsc c source target r =
     (let k = spsc_index c source target
      in case spsc_try_pop (rt_spsc r ! k) of (v, q) \<Rightarrow> (v, r\<lparr>rt_spsc := (rt_spsc r)[k := q]\<rparr>))"

definition pop_external :: "u16 \<Rightarrow> 'z runtime_scheme \<Rightarrow> taddr ptr \<times> 'z runtime_scheme" where
  "pop_external index r =
     (case mpsc_try_pop (rt_external r ! unat index) of (v, q) \<Rightarrow>
        (v, r\<lparr>rt_external := (rt_external r)[unat index := q]\<rparr>))"

lemma lowest_bit_index:
  "unat ((word_base word + of_nat i) AND 63) = i" if "i < 64"
proof -
  have "unat (word_base word + of_nat i) mod 64 = i"
  proof -
    have "unat (word_base word + of_nat i :: u16) = (word * 64 + i) mod 2 ^ 16"
      by (simp add: word_base_def unat_of_nat take_bit_eq_mod flip: of_nat_add of_nat_mult)
    also have "\<dots> mod 64 = (word * 64 + i) mod 64"
      by (rule mod_mod_cancel) simp
    finally show ?thesis using that by simp
  qed
  moreover have "(w :: u16) AND 63 = take_bit 6 w" for w
    by (simp add: take_bit_eq_mask mask_eq_exp_minus_1)
  ultimately show ?thesis
    by (simp only: unsigned_take_bit_eq) (simp add: take_bit_eq_mod)
qed

lemma clear_lowest_less: "bits \<noteq> 0 \<Longrightarrow> unat (bits AND NOT (push_bit (countr_zero bits) 1)) < unat bits"
  using clear_bit_less countr_zero_set by blast

function scan_mask ::
    "'tag runtime_config \<Rightarrow> u16 \<Rightarrow> nat \<Rightarrow> u64 \<Rightarrow> 'z runtime_scheme \<Rightarrow> taddr ptr \<times> 'z runtime_scheme" where
  "scan_mask c index word bits r =
     (if bits = 0 then (None, r)
      else let source = word_base word + of_nat (countr_zero bits);
               b = push_bit (unat (source AND 63)) 1;
               bits = bits AND NOT b
           in if source = index then scan_mask c index word bits r
              else case pop_spsc c source index r of
                (Some task, r) \<Rightarrow>
                  (Some task, update_executor index (\<lambda>e.
                     (advance_ready_word_cursor_after c word e)\<lparr>ex_next_source := next_source_after c source\<rparr>) r)
              | (None, r) \<Rightarrow>
                  (let r = update_executor index (\<lambda>e. e\<lparr>ex_ready := ready_clear (ex_ready e) source\<rparr>) r
                   in case pop_spsc c source index r of
                     (Some task, r) \<Rightarrow>
                       (Some task, update_executor index (\<lambda>e.
                          (let e = (advance_ready_word_cursor_after c word e)\<lparr>ex_next_source := next_source_after c source\<rparr>
                           in e\<lparr>ex_ready := ready_mark (ex_ready e) source\<rparr>)) r)
                   | (None, r) \<Rightarrow> scan_mask c index word bits r))"
  by pat_completeness auto
termination
  by (relation "measure (\<lambda>(c, index, word, bits, r). unat bits)")
     (use clear_lowest_less in \<open>auto simp: lowest_bit_index countr_zero_set\<close>)

declare scan_mask.simps [simp del]

fun scan_words ::
    "'tag runtime_config \<Rightarrow> u16 \<Rightarrow> nat list \<Rightarrow> 'z runtime_scheme \<Rightarrow> taddr ptr \<times> 'z runtime_scheme" where
  "scan_words c index [] r = (None, r)"
| "scan_words c index (checked_word # rest) r =
     (let n = word_count (thread_total_of c);
          e = executor_at r index;
          word = (if n > 1
                  then let word = checked_word + unat (ex_next_ready_word e) in if word \<ge> n then word - n else word
                  else checked_word)
      in case scan_mask c index word (load_word (thread_total_of c) (ex_ready e) word) r of
           (Some task, r) \<Rightarrow> (Some task, r)
         | (None, r) \<Rightarrow> scan_words c index rest r)"

fun scan_sources ::
    "'tag runtime_config \<Rightarrow> u16 \<Rightarrow> nat list \<Rightarrow> 'z runtime_scheme \<Rightarrow> taddr ptr \<times> 'z runtime_scheme" where
  "scan_sources c index [] r = (None, r)"
| "scan_sources c index (checked # rest) r =
     (let source = of_nat ((unat (ex_next_source (executor_at r index)) + checked) mod thread_total_of c)
      in if source = index then scan_sources c index rest r
         else case pop_spsc c source index r of
                (Some task, r) \<Rightarrow>
                  (Some task, update_executor index (\<lambda>e.
                     e\<lparr>ex_next_source := next_source_after c source, ex_ready := ready_mark (ex_ready e) source\<rparr>) r)
              | (None, r) \<Rightarrow> scan_sources c index rest r)"

definition pop_external_ready :: "u16 \<Rightarrow> 'z runtime_scheme \<Rightarrow> taddr ptr \<times> 'z runtime_scheme" where
  "pop_external_ready index r =
     (if ex_external_ready (executor_at r index)
      then (case pop_external index r of
              (Some task, r) \<Rightarrow> (Some task, r)
            | (None, r) \<Rightarrow>
                let r = update_executor index (\<lambda>e. e\<lparr>ex_external_ready := False\<rparr>) r
                in case pop_external index r of
                     (Some task, r) \<Rightarrow>
                       (Some task, update_executor index (\<lambda>e. e\<lparr>ex_external_ready := True\<rparr>) r)
                   | (None, r) \<Rightarrow> pop_external index r)
      else pop_external index r)"

definition pop_one ::
    "'tag runtime_config \<Rightarrow> u16 \<Rightarrow> 'z runtime_scheme \<Rightarrow> taddr ptr \<times> 'z runtime_scheme" where
  "pop_one c index r =
     (case try_pop_local (executor_at r index) of
        (Some task, e) \<Rightarrow> (Some task, set_executor r index e)
      | (None, e) \<Rightarrow>
          let r = set_executor r index e
          in case scan_words c index [0..<word_count (thread_total_of c)] r of
               (Some task, r) \<Rightarrow> (Some task, r)
             | (None, r) \<Rightarrow>
                 (case scan_sources c index [0..<thread_total_of c] r of
                    (Some task, r) \<Rightarrow> (Some task, r)
                  | (None, r) \<Rightarrow>
                      pop_external_ready index r))"


lemma advance_bound:
  assumes "n = thread_total_of c" "word < word_count n" "n < 2 ^ 16" "unat (ex_next_ready_word e) < word_count n"
  shows "unat (ex_next_ready_word (advance_ready_word_cursor_after c word e)) < word_count n"
proof -
  have "word_count n \<le> n + 63" by (simp add: word_count_def)
  then have "word_count n < 2 ^ 16 \<or> n + 63 \<ge> 2 ^ 16" by linarith
  moreover have "word_count n < 2 ^ 16"
    using assms(3) by (simp add: word_count_def)
  ultimately show ?thesis
    using assms by (auto simp: advance_ready_word_cursor_after_def Let_def unat_of_nat_u16)
qed

lemma advance_fields [simp]:
  "ex_local_queue (advance_ready_word_cursor_after c w e) = ex_local_queue e"
  "ex_local_capacity (advance_ready_word_cursor_after c w e) = ex_local_capacity e"
  "ex_local_mask (advance_ready_word_cursor_after c w e) = ex_local_mask e"
  "ex_local_head (advance_ready_word_cursor_after c w e) = ex_local_head e"
  "ex_local_tail (advance_ready_word_cursor_after c w e) = ex_local_tail e"
  "ex_local_size (advance_ready_word_cursor_after c w e) = ex_local_size e"
  "ex_index (advance_ready_word_cursor_after c w e) = ex_index e"
  "ex_ready (advance_ready_word_cursor_after c w e) = ex_ready e"
  by (simp_all add: advance_ready_word_cursor_after_def Let_def)

text \<open>A pop either took the oldest task of one lane into a thread or found the lanes as they are.\<close>

definition took :: "nat \<Rightarrow> 'z runtime_scheme \<Rightarrow> 'z runtime_scheme \<Rightarrow> lane set \<Rightarrow> taddr ptr \<Rightarrow> bool" where
  "took n r r' ls v \<longleftrightarrow> runtime_ok n r' \<and>
     (case v of
        None \<Rightarrow> lane_content n r' = lane_content n r
      | Some t \<Rightarrow> \<exists>l \<in> ls. \<exists>xs. lane_content n r l = t # xs \<and> lane_content n r' = (lane_content n r)(l := xs))"

lemma took_trans:
  "lane_content n r1 = lane_content n r \<Longrightarrow> took n r1 r2 ls v \<Longrightarrow> took n r r2 ls v"
  by (simp add: took_def split: option.splits)

lemma took_update:
  "took n r r1 ls v \<Longrightarrow> keeps_local f n \<Longrightarrow> unat i < n \<Longrightarrow> took n r (update_executor i f r1) ls v"
  using update_executor_ok [of n r1 i f] by (auto simp: took_def split: option.splits)

lemma took_mono: "took n r r1 ls v \<Longrightarrow> ls \<subseteq> ls' \<Longrightarrow> took n r r1 ls' v"
  by (auto simp: took_def split: option.splits)

lemma pop_spsc_took:
  assumes "runtime_ok n r" "n = thread_total_of c" "unat s < n" "unat t < n" "pop_spsc c s t r = (v, r')"
  shows "took n r r' {LinkLane (unat s) (unat t)} v"
    and "v = None \<Longrightarrow> lane_content n r (LinkLane (unat s) (unat t)) = []"
proof -
  let ?k = "unat s * n + unat t"
  have k: "?k < n * n" and len: "length (rt_spsc r) = n * n"
    using link_index_bound assms(1,3,4) by (auto simp: runtime_ok_def)
  have ok: "spsc_ok (rt_spsc r ! ?k)"
    using assms(1) k by (simp add: runtime_ok_def)
  have lane: "lane_content n r (LinkLane (unat s) (unat t)) = spsc_content (rt_spsc r ! ?k)"
    using assms(3,4) by (simp add: lane_content_def)
  obtain w q where q: "spsc_pop (rt_spsc r ! ?k) = Some (w, q)" "spsc_ok q"
    "w = (case spsc_content (rt_spsc r ! ?k) of [] \<Rightarrow> None | x # xs \<Rightarrow> Some x)"
    "spsc_content q = tl (spsc_content (rt_spsc r ! ?k))"
    using spsc.pop_total [OF ok] by metis
  have r': "r' = r\<lparr>rt_spsc := (rt_spsc r)[?k := q]\<rparr>" and v: "v = w"
    using assms(5) q(1) by (auto simp: pop_spsc_def spsc_index_def spsc_pop_def Let_def assms(2))
  have rt: "runtime_ok n r'"
    unfolding r' by (rule runtime_ok_link [OF assms(1) k q(2)])
  have lanes: "lane_content n r' = (lane_content n r)(LinkLane (unat s) (unat t) := tl (spsc_content (rt_spsc r ! ?k)))"
    unfolding r' using lanes_link [OF assms(3,4) len] q(4) by simp
  show "took n r r' {LinkLane (unat s) (unat t)} v"
    using rt lanes lane q(3) v by (cases "spsc_content (rt_spsc r ! ?k)") (auto simp: took_def fun_eq_iff)
  show "lane_content n r (LinkLane (unat s) (unat t)) = []" if "v = None"
    using that q(3) v lane by (cases "spsc_content (rt_spsc r ! ?k)") auto
qed

lemma pop_external_took:
  assumes "runtime_ok n r" "unat i < n" "pop_external i r = (v, r')"
  shows "took n r r' {ExternalLane (unat i)} v" and "v = None \<Longrightarrow> lane_content n r (ExternalLane (unat i)) = []"
proof -
  let ?x = "rt_external r ! unat i"
  have ok: "cell_ok ?x" and len: "length (rt_external r) = n"
    using assms(1,2) by (auto simp: runtime_ok_def)
  have lane: "lane_content n r (ExternalLane (unat i)) = cell_content ?x"
    using assms(2) by (simp add: lane_content_def)
  obtain w q where q: "mpsc_pop ?x = Some (w, q)" "cell_ok q"
    "w = (case cell_content ?x of [] \<Rightarrow> None | y # ys \<Rightarrow> Some y)" "cell_content q = tl (cell_content ?x)"
    using mpsc.pop_total [OF ok] by metis
  have r': "r' = r\<lparr>rt_external := (rt_external r)[unat i := q]\<rparr>" and v: "v = w"
    using assms(3) q(1) by (auto simp: pop_external_def mpsc_pop_def)
  have rt: "runtime_ok n r'"
    unfolding r' by (rule runtime_ok_external [OF assms(1,2) q(2)])
  have lanes: "lane_content n r' = (lane_content n r)(ExternalLane (unat i) := tl (cell_content ?x))"
    unfolding r' using lanes_external [OF assms(2) len] q(4) by simp
  show "took n r r' {ExternalLane (unat i)} v"
    using rt lanes lane q(3) v by (cases "cell_content ?x") (auto simp: took_def fun_eq_iff)
  show "lane_content n r (ExternalLane (unat i)) = []" if "v = None"
    using that q(3) v lane by (cases "cell_content ?x") auto
qed


definition links_to :: "nat \<Rightarrow> u16 \<Rightarrow> lane set" where
  "links_to n i = {LinkLane s (unat i) |s. s < n \<and> s \<noteq> unat i}"

lemma keeps_clear: "keeps_local (\<lambda>e. e\<lparr>ex_ready := ready_clear (ex_ready e) s\<rparr>) n"
  by (rule keeps_localI) simp_all

lemma keeps_found:
  assumes "n = thread_total_of c" "word < word_count n" "n < 2 ^ 16"
  shows "keeps_local (\<lambda>e. (advance_ready_word_cursor_after c word e)\<lparr>ex_next_source := x\<rparr>) n"
    "keeps_local (\<lambda>e. (let e = (advance_ready_word_cursor_after c word e)\<lparr>ex_next_source := x\<rparr>
                        in e\<lparr>ex_ready := ready_mark (ex_ready e) s\<rparr>)) n"
    "keeps_local (\<lambda>e. e\<lparr>ex_next_source := x, ex_ready := ready_mark (ex_ready e) s\<rparr>) n"
    "keeps_local (\<lambda>e. e\<lparr>ex_external_ready := b\<rparr>) n"
  by (rule keeps_localI; simp add: Let_def advance_bound [OF assms])+

lemma took_step:
  assumes first: "took n r r1 ls None" and second: "took n r1 r2 ls' v"
  shows "took n r r2 ls' v"
  using took_trans [OF _ second, of r] first by (simp add: took_def)

lemma took_refl: "runtime_ok n r \<Longrightarrow> took n r r ls None"
  by (simp add: took_def)

lemma scan_mask_found:
  fixes bits :: u64
  assumes "bits \<noteq> 0" and source: "source = word_base word + of_nat (countr_zero bits)"
    and rest: "rest = bits AND NOT (push_bit (countr_zero bits) 1)"
  shows "scan_mask c index word bits r =
    (if source = index then scan_mask c index word rest r
     else case pop_spsc c source index r of
       (Some task, r) \<Rightarrow>
         (Some task, update_executor index (\<lambda>e.
            (advance_ready_word_cursor_after c word e)\<lparr>ex_next_source := next_source_after c source\<rparr>) r)
     | (None, r) \<Rightarrow>
         (case pop_spsc c source index (update_executor index (\<lambda>e. e\<lparr>ex_ready := ready_clear (ex_ready e) source\<rparr>) r) of
            (Some task, r) \<Rightarrow>
              (Some task, update_executor index (\<lambda>e.
                 (let e = (advance_ready_word_cursor_after c word e)\<lparr>ex_next_source := next_source_after c source\<rparr>
                  in e\<lparr>ex_ready := ready_mark (ex_ready e) source\<rparr>)) r)
          | (None, r) \<Rightarrow> scan_mask c index word rest r))"
proof -
  have low: "unat (source AND 63) = countr_zero bits"
    using lowest_bit_index [of "countr_zero bits" word] countr_zero_set(1) [OF assms(1)] by (simp add: source)
  show ?thesis
    unfolding scan_mask.simps [of c index word bits r] if_not_P [OF assms(1)] Let_def source [symmetric] low rest [symmetric]
    by (rule refl)
qed

lemma scan_mask_empty: "scan_mask c index word 0 r = (None, r)"
  by (simp add: scan_mask.simps)

lemma scan_mask_took:
  assumes "runtime_ok n r" "n = thread_total_of c" "unat index < n" "word < word_count n"
    "\<And>i. bit bits i \<Longrightarrow> word * 64 + i < n" "scan_mask c index word bits r = (v, r')"
  shows "took n r r' (links_to n index) v"
  using assms
proof (induction bits arbitrary: r v r' rule: measure_induct_rule [where f = unat])
  case (less bits)
  show ?case
  proof (cases "bits = 0")
    case True
    then show ?thesis
      using less.prems(1,6) took_refl by (auto simp: scan_mask_empty)
  next
    case False
    define source where "source = word_base word + of_nat (countr_zero bits)"
    define rest where "rest = bits AND NOT (push_bit (countr_zero bits) 1)"
    note step = scan_mask_found [OF False source_def rest_def, of c index r]
    have n16: "n < 2 ^ 16" and lt: "unat rest < unat bits"
      using less.prems(1) clear_lowest_less [OF False] by (simp_all add: runtime_ok_def rest_def)
    have src: "unat source < n"
      using less.prems(5) [OF countr_zero_set(2) [OF False]] n16
      by (simp add: source_def word_base_def unat_of_nat_u16 flip: of_nat_add of_nat_mult)
    have bits': "word * 64 + i < n" if "bit rest i" for i
      using that less.prems(5) by (auto simp: rest_def bit_simps)
    note IH = less.IH [OF lt _ less.prems(2-4) bits']
    note pop = pop_spsc_took(1) [OF _ less.prems(2) src less.prems(3)]
    note keep = keeps_found [OF less.prems(2) less.prems(4) n16]
    show ?thesis
    proof (cases "source = index")
      case True
      then show ?thesis
        using IH less.prems(1,6) step by simp
    next
      case False
      have into: "{LinkLane (unat source) (unat index)} \<subseteq> links_to n index"
        using False src by (auto simp: links_to_def word_unat_eq_iff)
      obtain v1 r1 where p1: "pop_spsc c source index r = (v1, r1)" by fastforce
      note t1 = took_mono [OF pop [OF less.prems(1) p1] into]
      show ?thesis
      proof (cases v1)
        case (Some task)
        then show ?thesis
          using less.prems(6) step False p1 took_update [OF t1 keep(1) less.prems(3)] by auto
      next
        case None
        let ?r = "update_executor index (\<lambda>e. e\<lparr>ex_ready := ready_clear (ex_ready e) source\<rparr>) r1"
        have t2: "took n r ?r (links_to n index) None"
          using took_update [OF t1 keeps_clear less.prems(3)] None by simp
        then have ok2: "runtime_ok n ?r" by (simp add: took_def)
        obtain v3 r3 where p3: "pop_spsc c source index ?r = (v3, r3)" by fastforce
        note t3 = took_step [OF t2 took_mono [OF pop [OF ok2 p3] into]]
        show ?thesis
        proof (cases v3)
          case (Some task)
          then show ?thesis
            using less.prems(6) step False p1 p3 None took_update [OF t3 keep(2) less.prems(3)] by auto
        next
          case none: None
          then have "scan_mask c index word rest r3 = (v, r')"
            using less.prems(6) step False p1 p3 None by simp
          moreover have "runtime_ok n r3" using t3 by (simp add: took_def)
          ultimately show ?thesis
            using took_step [OF t3 [unfolded none] IH] by blast
        qed
      qed
    qed
  qed
qed


lemma scan_words_took:
  assumes "runtime_ok n r" "n = thread_total_of c" "unat index < n" "\<forall>w \<in> set ws. w < word_count n"
    "scan_words c index ws r = (v, r')"
  shows "took n r r' (links_to n index) v"
  using assms
proof (induction ws arbitrary: r)
  case Nil
  then show ?case by (auto simp: took_refl)
next
  case (Cons w ws)
  let ?e = "executor_at r index"
  define word where "word = (if word_count n > 1
    then let word = w + unat (ex_next_ready_word ?e) in if word \<ge> word_count n then word - word_count n else word
    else w)"
  have e: "executor_ok n (unat index) ?e"
    using Cons.prems(1,3) by (simp add: runtime_ok_def executor_at_def)
  have lt: "word < word_count n"
    using Cons.prems(4) e by (auto simp: word_def executor_ok_def Let_def)
  have bits: "word * 64 + i < n" if "bit (load_word n (ex_ready ?e) word) i" for i
  proof -
    have "i < 64" using bit_imp_le_length [OF that] by simp
    then show ?thesis
      using load_word_bit [OF lt _ \<open>i < 64\<close>, of "ex_ready ?e"] that e by (simp add: executor_ok_def)
  qed
  obtain v1 r1 where s1: "scan_mask c index word (load_word n (ex_ready ?e) word) r = (v1, r1)" by fastforce
  note t1 = scan_mask_took [OF Cons.prems(1-3) lt bits s1]
  have rec: "scan_words c index (w # ws) r =
      (case v1 of Some t \<Rightarrow> (Some t, r1) | None \<Rightarrow> scan_words c index ws r1)"
  proof -
    have "scan_words c index (w # ws) r =
        (case scan_mask c index word (load_word n (ex_ready ?e) word) r of
           (Some task, r) \<Rightarrow> (Some task, r) | (None, r) \<Rightarrow> scan_words c index ws r)"
      unfolding scan_words.simps word_def Let_def Cons.prems(2) by (rule refl)
    then show ?thesis
      by (simp add: s1 split: option.splits)
  qed
  show ?case
  proof (cases v1)
    case None
    have "runtime_ok n r1" using t1 by (simp add: took_def)
    then show ?thesis
      using Cons.IH [of r1] Cons.prems rec None took_step [OF t1 [unfolded None]] by simp
  next
    case (Some t)
    then show ?thesis using rec Cons.prems(5) t1 by auto
  qed
qed

text \<open>
  The second scan visits every other thread, wherever it starts, so that finding nothing means
  that every link into the thread was empty.
\<close>

lemma scan_sources_took:
  assumes "runtime_ok n r" "n = thread_total_of c" "unat index < n" "scan_sources c index ks r = (v, r')"
  shows "took n r r' (links_to n index) v"
    and "v = None \<Longrightarrow> k \<in> set ks \<Longrightarrow>
      s = (unat (ex_next_source (executor_at r index)) + k) mod n \<Longrightarrow> s \<noteq> unat index \<Longrightarrow>
      lane_content n r (LinkLane s (unat index)) = []"
proof -
  have "took n r r' (links_to n index) v \<and> (v = None \<longrightarrow>
      (\<forall>k \<in> set ks. (unat (ex_next_source (executor_at r index)) + k) mod n \<noteq> unat index \<longrightarrow>
         lane_content n r (LinkLane ((unat (ex_next_source (executor_at r index)) + k) mod n) (unat index)) = []))"
    using assms
  proof (induction ks arbitrary: r)
    case Nil
    then show ?case by (auto simp: took_refl)
  next
    case (Cons k ks)
    let ?s = "(unat (ex_next_source (executor_at r index)) + k) mod n"
    define source :: u16 where "source = of_nat ?s"
    have n: "0 < n" "n < 2 ^ 16" using Cons.prems(1) by (simp_all add: runtime_ok_def)
    then have lt: "?s < n" by simp
    have src: "unat source = ?s"
      unfolding source_def by (rule unat_of_nat_u16) (use lt n in linarith)
    note src = src lt [folded src]
    note keep = keeps_found(3) [OF Cons.prems(2) _ n(2), of 0]
    have w0: "0 < word_count n" using n by (simp add: word_count_def)
    show ?case
    proof (cases "source = index")
      case True
      then have "scan_sources c index ks r = (v, r')"
        using Cons.prems(2,4) by (simp add: source_def Let_def)
      then show ?thesis
        using Cons.IH [OF Cons.prems(1-3)] True src by auto
    next
      case False
      obtain v1 r1 where p1: "pop_spsc c source index r = (v1, r1)" by fastforce
      note p = pop_spsc_took [OF Cons.prems(1,2) src(2) Cons.prems(3) p1]
      have into: "{LinkLane (unat source) (unat index)} \<subseteq> links_to n index"
        using False src by (auto simp: links_to_def word_unat_eq_iff)
      note t1 = took_mono [OF p(1) into]
      have rec: "scan_sources c index (k # ks) r =
          (case v1 of
             Some t \<Rightarrow> (Some t, update_executor index (\<lambda>e. e\<lparr>ex_next_source := next_source_after c source,
                                ex_ready := ready_mark (ex_ready e) source\<rparr>) r1)
           | None \<Rightarrow> scan_sources c index ks r1)"
      proof -
        have "of_nat ((unat (ex_next_source (executor_at r index)) + k) mod thread_total_of c) = source"
          using Cons.prems(2) by (simp add: source_def)
        then show ?thesis
          using p1 False unfolding scan_sources.simps Let_def by (simp split: option.splits)
      qed
      show ?thesis
      proof (cases v1)
        case None
        have r1: "runtime_ok n r1" "lane_content n r1 = lane_content n r"
          using t1 None by (simp_all add: took_def)
        have same: "executor_at r1 index = executor_at r index"
          using p1 by (auto simp: pop_spsc_def Let_def executor_at_def split: prod.splits)
        have ih: "took n r1 r' (links_to n index) v \<and> (v = None \<longrightarrow>
           (\<forall>k \<in> set ks. (unat (ex_next_source (executor_at r1 index)) + k) mod n \<noteq> unat index \<longrightarrow>
              lane_content n r1 (LinkLane ((unat (ex_next_source (executor_at r1 index)) + k) mod n) (unat index)) = []))"
          using Cons.IH [OF r1(1) Cons.prems(2,3)] rec Cons.prems(4) None by simp
        have empty: "lane_content n r (LinkLane ?s (unat index)) = []"
          using p(2) None src(1) by simp
        have "took n r r' (links_to n index) v"
          using took_step [OF t1 [unfolded None] conjunct1 [OF ih]] .
        moreover have "v = None \<longrightarrow> (\<forall>k' \<in> set ks.
            (unat (ex_next_source (executor_at r index)) + k') mod n \<noteq> unat index \<longrightarrow>
            lane_content n r (LinkLane ((unat (ex_next_source (executor_at r index)) + k') mod n) (unat index)) = [])"
          using conjunct2 [OF ih] r1(2) same by simp
        ultimately show ?thesis using empty by simp
      next
        case (Some t)
        then show ?thesis
          using rec Cons.prems(4) took_update [OF t1 keep [OF w0] Cons.prems(3)] by auto
      qed
    qed
  qed
  then show "took n r r' (links_to n index) v"
    and "v = None \<Longrightarrow> k \<in> set ks \<Longrightarrow>
      s = (unat (ex_next_source (executor_at r index)) + k) mod n \<Longrightarrow> s \<noteq> unat index \<Longrightarrow>
      lane_content n r (LinkLane s (unat index)) = []"
    by blast+
qed

lemma residue_reached:
  fixes a s n :: nat
  assumes "s < n"
  obtains k where "k < n" "(a + k) mod n = s"
proof -
  let ?k = "(s + (n - a mod n)) mod n"
  have "(a + ?k) mod n = (a mod n + (s + (n - a mod n))) mod n"
    by (simp add: mod_simps)
  also have "a mod n + (s + (n - a mod n)) = s + n"
  proof -
    have "a mod n \<le> n" using assms mod_less_divisor [of n a] by linarith
    then show ?thesis by linarith
  qed
  finally show thesis
    using that [of ?k] assms by simp
qed


definition inbound :: "nat \<Rightarrow> u16 \<Rightarrow> lane set" where
  "inbound n i = insert (LocalLane (unat i)) (insert (ExternalLane (unat i)) (links_to n i))"

lemma pop_local_took:
  assumes "runtime_ok n r" "unat i < n" "try_pop_local (executor_at r i) = (v, e)"
  shows "took n r (set_executor r i e) {LocalLane (unat i)} v"
    and "v = None \<Longrightarrow> lane_content n r (LocalLane (unat i)) = [] \<and> set_executor r i e = r"
proof -
  let ?x = "rt_executors r ! unat i"
  have ok: "executor_ok n (unat i) ?x" and len: "length (rt_executors r) = n"
    using assms(1,2) by (simp_all add: runtime_ok_def)
  then have lok: "local_ok ?x" by (simp add: executor_ok_def)
  have lane: "lane_content n r (LocalLane (unat i)) = local_content ?x"
    using assms(2) by (simp add: lane_content_def)
  obtain w q where q: "local_pop ?x = Some (w, q)" "local_ok q"
    "w = (case local_content ?x of [] \<Rightarrow> None | y # ys \<Rightarrow> Some y)" "local_content q = tl (local_content ?x)"
    using local_queue.pop_total [OF lok] by metis
  have e: "e = q" and v: "v = w"
    using assms(3) q(1) by (auto simp: local_pop_def executor_at_def)
  have "ex_ready e = ex_ready ?x" "ex_next_ready_word e = ex_next_ready_word ?x" "ex_index e = ex_index ?x"
    using assms(3) by (auto simp: try_pop_local_def executor_at_def split: if_splits)
  then have "executor_ok n (unat i) e"
    using ok q(2) e by (simp add: executor_ok_def)
  then have rt: "runtime_ok n (set_executor r i e)"
    using runtime_ok_executor [OF assms(1,2)] by (simp add: set_executor_def)
  have lanes: "lane_content n (set_executor r i e) = (lane_content n r)(LocalLane (unat i) := tl (local_content ?x))"
    using lanes_executor [OF assms(2) len] q(4) e by (simp add: set_executor_def)
  show "took n r (set_executor r i e) {LocalLane (unat i)} v"
    using rt lanes lane q(3) v by (cases "local_content ?x") (auto simp: took_def fun_eq_iff)
  show "lane_content n r (LocalLane (unat i)) = [] \<and> set_executor r i e = r" if "v = None"
  proof
    show "lane_content n r (LocalLane (unat i)) = []"
      using that q(3) v lane by (cases "local_content ?x") auto
    then have "ex_local_size ?x = 0"
      using lane length_local_content [of ?x] by (simp add: unat_eq_zero)
    then have "e = rt_executors r ! unat i"
      using assms(3) by (simp add: try_pop_local_def executor_at_def)
    then show "set_executor r i e = r"
      by (simp add: set_executor_def)
  qed
qed

lemma external_phase_took:
  assumes "runtime_ok n r" "n = thread_total_of c" "unat i < n"
    and "pop_external_ready i r = (v, r')"
  shows "took n r r' {ExternalLane (unat i)} v" and "v = None \<Longrightarrow> lane_content n r (ExternalLane (unat i)) = []"
proof -
  have keep: "keeps_local (\<lambda>e. e\<lparr>ex_external_ready := b\<rparr>) n" for b
    by (rule keeps_localI) simp_all
  obtain v1 r1 where p1: "pop_external i r = (v1, r1)" by fastforce
  note t1 = pop_external_took [OF assms(1,3) p1]
  let ?r = "update_executor i (\<lambda>e. e\<lparr>ex_external_ready := False\<rparr>) r1"
  have both: "took n r r' {ExternalLane (unat i)} v \<and> (v = None \<longrightarrow> lane_content n r (ExternalLane (unat i)) = [])"
  proof (cases "ex_external_ready (executor_at r i) \<and> v1 = None")
    case False
    then have "(v, r') = (v1, r1)"
      using assms(4) p1 by (cases "ex_external_ready (executor_at r i)") (auto simp: pop_external_ready_def)
    then show ?thesis
      using t1 by simp
  next
    case True
    have t2: "took n r ?r {ExternalLane (unat i)} None"
      using took_update [OF t1(1) keep assms(3)] True by simp
    then have ok2: "runtime_ok n ?r" by (simp add: took_def)
    obtain v3 r3 where p3: "pop_external i ?r = (v3, r3)" by fastforce
    note t3 = took_step [OF t2 pop_external_took(1) [OF ok2 assms(3) p3]]
    show ?thesis
    proof (cases v3)
      case (Some t)
      then show ?thesis
        using assms(4) p1 p3 True took_update [OF t3 keep assms(3)] by (auto simp: pop_external_ready_def)
    next
      case None
      have ok3: "runtime_ok n r3" using t3 by (simp add: took_def)
      have last: "pop_external i r3 = (v, r')"
        using assms(4) p1 p3 True None by (simp add: pop_external_ready_def)
      show ?thesis
        using took_step [OF t3 [unfolded None] pop_external_took(1) [OF ok3 assms(3) last]] t1(2) True by simp
    qed
  qed
  then show "took n r r' {ExternalLane (unat i)} v" and "v = None \<Longrightarrow> lane_content n r (ExternalLane (unat i)) = []"
    by simp_all
qed

lemma pop_one_spec:
  assumes ok: "runtime_ok n r" and n: "n = thread_total_of c" and i: "unat index < n"
    and pop: "pop_one c index r = (v, r')"
  shows "runtime_ok n r' \<and>
    (v = None \<longrightarrow> lane_content n r' = lane_content n r \<and> (\<forall>l \<in> inbound n index. lane_content n r l = [])) \<and>
    (\<forall>t. v = Some t \<longrightarrow> (\<exists>l \<in> inbound n index. \<exists>xs.
       lane_content n r l = t # xs \<and> lane_content n r' = (lane_content n r)(l := xs) \<and>
       (l \<noteq> LocalLane (unat index) \<longrightarrow> lane_content n r (LocalLane (unat index)) = []) \<and>
       (l = ExternalLane (unat index) \<longrightarrow> (\<forall>k \<in> links_to n index. lane_content n r k = []))))"
proof -
  obtain v1 e where p1: "try_pop_local (executor_at r index) = (v1, e)" by fastforce
  note t1 = pop_local_took [OF ok i p1]
  obtain v2 r2 where p2: "scan_words c index [0..<word_count n] r = (v2, r2)" by fastforce
  have t2: "took n r r2 (links_to n index) v2"
    by (rule scan_words_took [OF ok n i _ p2]) simp
  then have ok2: "runtime_ok n r2" by (simp add: took_def)
  obtain v3 r3 where p3: "scan_sources c index [0..<n] r2 = (v3, r3)" by fastforce
  note t3 = scan_sources_took [OF ok2 n i p3]
  then have ok3: "runtime_ok n r3" by (simp add: took_def)
  show ?thesis
  proof (cases v1)
    case (Some t)
    then show ?thesis
      using pop p1 t1(1) by (auto simp: pop_one_def took_def inbound_def)
  next
    case none1: None
    note local = t1(2) [OF none1]
    show ?thesis
    proof (cases v2)
      case (Some t)
      have "(v, r') = (Some t, r2)"
        using pop p1 p2 none1 Some local n by (simp add: pop_one_def)
      then show ?thesis
        using t2 Some local by (auto simp: took_def inbound_def links_to_def)
    next
      case none2: None
      have same2: "lane_content n r2 = lane_content n r"
        using t2 none2 by (simp add: took_def)
      show ?thesis
      proof (cases v3)
        case (Some t)
        have "(v, r') = (Some t, r3)"
          using pop p1 p2 p3 none1 none2 Some local n by (simp add: pop_one_def)
        then show ?thesis
          using took_step [OF t2 [unfolded none2] t3(1)] Some local by (auto simp: took_def inbound_def links_to_def)
      next
        case none3: None
        have links: "lane_content n r l = []" if "l \<in> links_to n index" for l
        proof -
          obtain s where s: "s < n" "s \<noteq> unat index" "l = LinkLane s (unat index)"
            using \<open>l \<in> links_to n index\<close> by (auto simp: links_to_def)
          obtain k where "k < n" "(unat (ex_next_source (executor_at r2 index)) + k) mod n = s"
            using residue_reached [OF s(1)] by blast
          then show ?thesis
            using t3(2) [OF none3, of k s] s same2 by simp
        qed
        have "took n r r3 (links_to n index) None"
          using took_step [OF t2 [unfolded none2] t3(1)] none3 by simp
        moreover note ext = external_phase_took [OF ok3 n i, of v r']
        have "pop_external_ready index r3 = (v, r')"
          using pop p1 p2 p3 none1 none2 none3 local n by (simp add: pop_one_def)
        from ext [OF this] have "took n r3 r' {ExternalLane (unat index)} v"
          "v = None \<Longrightarrow> lane_content n r3 (ExternalLane (unat index)) = []" .
        ultimately show ?thesis
          using local links took_step [of n r r3 "links_to n index" r' "{ExternalLane (unat index)}" v]
          by (auto simp: took_def inbound_def split: option.splits)
      qed
    qed
  qed
qed

text \<open>
  C20: \<^verbatim>\<open>pop_one\<close> returns no task exactly when every queue that feeds the thread is empty: its local
  queue, the links from all other threads and its external queue.  Otherwise it removes the oldest
  task of one of them and leaves all other queues of the runtime as they are; it turns to the
  links only when the local queue is empty, and to the external queue only when the links are.
\<close>

theorem pop_one_takes_oldest:
  assumes ok: "runtime_ok n r" and n: "n = thread_total_of c" and i: "unat index < n"
    and pop: "pop_one c index r = (v, r')"
  shows "runtime_ok n r' \<and>
    (v = None \<longrightarrow> lane_content n r' = lane_content n r \<and> (\<forall>l \<in> inbound n index. lane_content n r l = [])) \<and>
    (\<forall>t. v = Some t \<longrightarrow> (\<exists>l \<in> inbound n index. \<exists>xs.
       lane_content n r l = t # xs \<and> lane_content n r' = (lane_content n r)(l := xs) \<and>
       (l \<noteq> LocalLane (unat index) \<longrightarrow> lane_content n r (LocalLane (unat index)) = []) \<and>
       (l = ExternalLane (unat index) \<longrightarrow> (\<forall>k \<in> links_to n index. lane_content n r k = []))))"
  by (rule pop_one_spec [OF assms])


subsection \<open>Enqueuing\<close>

fun lane_limit :: "nat \<Rightarrow> 'z runtime_scheme \<Rightarrow> lane \<Rightarrow> nat" where
  "lane_limit n r (LocalLane i) = unat (ex_local_capacity (rt_executors r ! i))"
| "lane_limit n r (LinkLane s t) = unat (spsc_capacity (rt_spsc r ! (s * n + t)))"
| "lane_limit n r (ExternalLane i) = unat (ring_capacity_of (rt_external r ! i))"

text \<open>A runtime with more fields has the same queues.\<close>

lemma extend_lanes:
  "runtime_ok n (runtime.extend r m) = runtime_ok n r" "lane_content n (runtime.extend r m) = lane_content n r"
  "lane_limit n (runtime.extend r m) l = lane_limit n r l"
proof -
  have "raw_lane n (runtime.extend r m) k = raw_lane n r k" for k by (cases k) (simp_all add: runtime.defs)
  then show "lane_content n (runtime.extend r m) = lane_content n r" by (simp add: lane_content_def fun_eq_iff)
  show "lane_limit n (runtime.extend r m) l = lane_limit n r l" by (cases l) (simp_all add: runtime.defs)
qed (simp add: runtime_ok_def runtime.defs)

text \<open>What an enqueue did: the task went to the end of its lane, or the lane was full.\<close>

definition pushed :: "nat \<Rightarrow> 'z runtime_scheme \<Rightarrow> 'z runtime_scheme \<Rightarrow> lane \<Rightarrow> taddr \<Rightarrow> bool \<Rightarrow> bool" where
  "pushed n r r' l t ok \<longleftrightarrow> runtime_ok n r' \<and> (ok \<longleftrightarrow> length (lane_content n r l) < lane_limit n r l) \<and>
     lane_content n r' = (if ok then (lane_content n r)(l := lane_content n r l @ [t]) else lane_content n r)"

lemma notify_keeps: "keeps_local (notify wr) n" "keeps_local (notify_external_ready wr) n"
  "keeps_local (\<lambda>e. e\<lparr>ex_ready := ready_mark (ex_ready e) s\<rparr>) n"
  by (rule keeps_localI; simp add: notify_def notify_external_ready_def notify_force_def notify_native_io_backend_def
      notify_one_def Let_def)+

lemma pushed_update:
  "pushed n r r1 l t ok \<Longrightarrow> keeps_local f n \<Longrightarrow> unat i < n \<Longrightarrow> pushed n r (update_executor i f r1) l t ok"
  using update_executor_ok [of n r1 i f] by (simp add: pushed_def)

lemma local_enqueue_pushed:
  assumes "runtime_ok n r" "unat i < n" "try_enqueue_local_from_runtime_thread i t r = (ok, r')"
  shows "pushed n r r' (LocalLane (unat i)) t ok"
proof -
  let ?x = "rt_executors r ! unat i"
  have x: "executor_ok n (unat i) ?x" and len: "length (rt_executors r) = n"
    using assms(1,2) by (simp_all add: runtime_ok_def)
  then have lok: "local_ok ?x" by (simp add: executor_ok_def)
  have lane: "lane_content n r (LocalLane (unat i)) = local_content ?x"
    using assms(2) by (simp add: lane_content_def)
  obtain b q where q: "local_push ?x t = Some (b, q)" "local_ok q"
    "b \<longleftrightarrow> length (local_content ?x) < unat (ex_local_capacity ?x)"
    "local_content q = (if b then local_content ?x @ [t] else local_content ?x)"
    using local_queue.push_total [OF lok, of t] by metis
  have push: "try_push_local ?x t = (b, q)"
    using q(1) by (simp add: local_push_def)
  have r': "r' = set_executor r i q" and b: "b = ok"
    using assms(3) push by (simp_all add: try_enqueue_local_from_runtime_thread_def executor_at_def)
  have "ex_ready q = ex_ready ?x" "ex_next_ready_word q = ex_next_ready_word ?x" "ex_index q = ex_index ?x"
    using push by (auto simp: try_push_local_def split: if_splits)
  then have "executor_ok n (unat i) q"
    using x q(2) by (simp add: executor_ok_def)
  then have "runtime_ok n r'"
    using runtime_ok_executor [OF assms(1,2)] by (simp add: r' set_executor_def)
  moreover have "lane_content n r' = (lane_content n r)(LocalLane (unat i) := local_content q)"
    using lanes_executor [OF assms(2) len] by (simp add: r' set_executor_def)
  ultimately show ?thesis
    using q(3,4) b lane by (simp add: pushed_def fun_eq_iff)
qed

lemma spsc_enqueue_pushed:
  assumes "runtime_ok n r" "n = thread_total_of c" "unat s < n" "unat i < n"
    "try_enqueue_cross_thread_spsc c wr s i t r = (ok, r')"
  shows "pushed n r r' (LinkLane (unat s) (unat i)) t ok"
    and "ok \<Longrightarrow> unat s \<in> ready_set (ex_ready (executor_at r' i)) \<and>
           ex_wake_epoch (executor_at r' i) = ex_wake_epoch (executor_at r i) + 1"
proof -
  let ?k = "unat s * n + unat i"
  let ?x = "rt_spsc r ! ?k"
  have k: "?k < n * n" and len: "length (rt_spsc r) = n * n"
    using link_index_bound assms(1,3,4) by (auto simp: runtime_ok_def)
  have xok: "spsc_ok ?x"
    using assms(1) k by (simp add: runtime_ok_def)
  have lane: "lane_content n r (LinkLane (unat s) (unat i)) = spsc_content ?x"
    using assms(3,4) by (simp add: lane_content_def)
  obtain b q where q: "spsc_push ?x t = Some (b, q)" "spsc_ok q"
    "b \<longleftrightarrow> length (spsc_content ?x) < unat (spsc_capacity ?x)"
    "spsc_content q = (if b then spsc_content ?x @ [t] else spsc_content ?x)"
    using spsc.push_total [OF xok, of t] by metis
  have push: "spsc_try_push ?x (Some t) = (b, q)"
    using q(1) by (simp add: spsc_push_def)
  let ?r1 = "r\<lparr>rt_spsc := (rt_spsc r)[?k := q]\<rparr>"
  let ?m = "\<lambda>e. e\<lparr>ex_ready := ready_mark (ex_ready e) s\<rparr>"
  have "runtime_ok n ?r1"
    by (rule runtime_ok_link [OF assms(1) k q(2)])
  moreover have "lane_content n ?r1 = (lane_content n r)(LinkLane (unat s) (unat i) := spsc_content q)"
    by (rule lanes_link [OF assms(3,4) len])
  ultimately have p1: "pushed n r ?r1 (LinkLane (unat s) (unat i)) t b"
    using q(3,4) lane by (simp add: pushed_def fun_eq_iff)
  have b: "b = ok" and r': "r' = (if b then update_executor i (notify wr) (update_executor i ?m ?r1) else ?r1)"
    using assms(2,5) push
    by (auto simp: try_enqueue_cross_thread_spsc_def spsc_index_def mark_source_ready_def update_executor_def Let_def
        split: if_splits)
  show "pushed n r r' (LinkLane (unat s) (unat i)) t ok"
    using p1 b r' pushed_update [OF pushed_update [OF p1 notify_keeps(3) assms(4)] notify_keeps(1) assms(4), of wr s]
    by (cases b) simp_all
  have wl: "word_index s < length (ex_ready (rt_executors r ! unat i))" and le: "unat i < length (rt_executors r)"
    using assms(1,3,4) word_index_bound [OF assms(3)] by (auto simp: runtime_ok_def executor_ok_def)
  show "unat s \<in> ready_set (ex_ready (executor_at r' i)) \<and>
      ex_wake_epoch (executor_at r' i) = ex_wake_epoch (executor_at r i) + 1" if ok
    using that b r' wl le ready_set_mark [OF wl]
    by (auto simp: update_executor_def set_executor_def executor_at_def notify_def notify_one_def
        notify_native_io_backend_def Let_def)
qed

lemma external_enqueue_pushed:
  assumes "runtime_ok n r" "unat i < n"
  obtains ok r' where "try_enqueue_external_mpsc wr i t r = Some (ok, r')" "pushed n r r' (ExternalLane (unat i)) t ok"
    "ok \<Longrightarrow> ex_external_ready (executor_at r' i) \<and>
            ex_wake_epoch (executor_at r' i) = ex_wake_epoch (executor_at r i) + 1"
proof -
  let ?x = "rt_external r ! unat i"
  have xok: "cell_ok ?x" and len: "length (rt_external r) = n" and le: "unat i < length (rt_executors r)"
    using assms by (auto simp: runtime_ok_def)
  have lane: "lane_content n r (ExternalLane (unat i)) = cell_content ?x"
    using assms(2) by (simp add: lane_content_def)
  obtain b q where q: "mpsc_push ?x t = Some (b, q)" "cell_ok q"
    "b \<longleftrightarrow> length (cell_content ?x) < unat (ring_capacity_of ?x)"
    "cell_content q = (if b then cell_content ?x @ [t] else cell_content ?x)"
    using mpsc.push_total [OF xok, of t] by metis
  have push: "mpsc_try_push ?x (Some t) = Some (b, q)"
    using q(1) by (simp add: mpsc_push_def)
  let ?r1 = "r\<lparr>rt_external := (rt_external r)[unat i := q]\<rparr>"
  have "runtime_ok n ?r1"
    by (rule runtime_ok_external [OF assms q(2)])
  moreover have "lane_content n ?r1 = (lane_content n r)(ExternalLane (unat i) := cell_content q)"
    by (rule lanes_external [OF assms(2) len])
  ultimately have p1: "pushed n r ?r1 (ExternalLane (unat i)) t b"
    using q(3,4) lane by (simp add: pushed_def fun_eq_iff)
  let ?r' = "if b then update_executor i (notify_external_ready wr) ?r1 else ?r1"
  show thesis
  proof (rule that [of b ?r'])
    show "try_enqueue_external_mpsc wr i t r = Some (b, ?r')"
      using push by (simp add: try_enqueue_external_mpsc_def update_executor_def Let_def)
    show "pushed n r ?r' (ExternalLane (unat i)) t b"
      using p1 pushed_update [OF p1 notify_keeps(2) assms(2), of wr] by (cases b) simp_all
    show "ex_external_ready (executor_at ?r' i) \<and>
        ex_wake_epoch (executor_at ?r' i) = ex_wake_epoch (executor_at r i) + 1" if b
      using that le
      by (simp add: update_executor_def set_executor_def executor_at_def notify_external_ready_def notify_def
          notify_force_def notify_one_def notify_native_io_backend_def Let_def)
  qed
qed

text \<open>The lane a task is routed to by the calling thread.\<close>

definition route_lane :: "'tag runtime_config \<Rightarrow> u16 \<Rightarrow> u16 \<Rightarrow> ScheduleMode \<Rightarrow> lane" where
  "route_lane c current target mode =
     (if mode = Ordered \<or> \<not> current < thread_count (cf_threads c) then ExternalLane (unat target)
      else if current = target then LocalLane (unat target)
      else LinkLane (unat current) (unat target))"

lemma enqueue_ready_spec:
  assumes ok: "runtime_ok n r" and n: "n = thread_total_of c" and i: "unat index < n"
  shows "\<exists>b r'. try_enqueue_ready c wr index t mode r = Some (b, r') \<and>
    (if mode = Fast \<and> \<not> rt_current r < thread_count (cf_threads c) then \<not> b \<and> r' = r
     else pushed n r r' (route_lane c (rt_current r) index mode) t b \<and>
       (b \<and> route_lane c (rt_current r) index mode \<noteq> LocalLane (unat index) \<longrightarrow>
          ex_wake_epoch (executor_at r' index) = ex_wake_epoch (executor_at r index) + 1))"
proof -
  obtain b1 r1 where ext: "try_enqueue_external_mpsc wr index t r = Some (b1, r1)"
    "pushed n r r1 (ExternalLane (unat index)) t b1"
    "b1 \<Longrightarrow> ex_external_ready (executor_at r1 index) \<and>
            ex_wake_epoch (executor_at r1 index) = ex_wake_epoch (executor_at r index) + 1"
    using external_enqueue_pushed [OF ok i] by metis
  obtain b2 r2 where loc: "try_enqueue_local_from_runtime_thread index t r = (b2, r2)" by fastforce
  obtain b3 r3 where lnk: "try_enqueue_cross_thread_spsc c wr (rt_current r) index t r = (b3, r3)" by fastforce
  show ?thesis
  proof (cases "rt_current r < thread_count (cf_threads c)")
    case True
    then have s: "unat (rt_current r) < n"
      by (simp add: n thread_total_of_def word_less_nat_alt)
    consider "mode = Ordered" | "mode \<noteq> Ordered" "rt_current r = index" | "mode \<noteq> Ordered" "rt_current r \<noteq> index"
      by blast
    then show ?thesis
    proof cases
      case 1
      then show ?thesis
        using True ext by (simp add: try_enqueue_ready_def try_enqueue_ready_from_runtime_thread_def route_lane_def)
    next
      case 2
      then show ?thesis
        using True local_enqueue_pushed [OF ok i loc] loc
        by (simp add: try_enqueue_ready_def try_enqueue_ready_from_runtime_thread_def
            ready_route_from_runtime_thread_def route_lane_def)
    next
      case 3
      then show ?thesis
        using True spsc_enqueue_pushed [OF ok n s i lnk] lnk
        by (simp add: try_enqueue_ready_def try_enqueue_ready_from_runtime_thread_def
            ready_route_from_runtime_thread_def route_lane_def)
    qed
  next
    case False
    then show ?thesis
      using ext by (auto simp: try_enqueue_ready_def route_lane_def)
  qed
qed

text \<open>
  C21: A non-blocking enqueue always returns, puts the task at the end of the one queue its mode and
  the calling thread select, and reports success exactly when that queue had room (a fast call
  from a thread outside the runtime is refused); every other queue is left alone, and a task sent
  to another thread's queue marks its source there and advances the thread's wake-up epoch.
\<close>

theorem enqueue_routes_by_mode:
  assumes ok: "runtime_ok n r" and n: "n = thread_total_of c" and i: "unat index < n"
  shows "\<exists>b r'. try_enqueue_ready c wr index t mode r = Some (b, r') \<and>
    (if mode = Fast \<and> \<not> rt_current r < thread_count (cf_threads c) then \<not> b \<and> r' = r
     else pushed n r r' (route_lane c (rt_current r) index mode) t b \<and>
       (b \<and> route_lane c (rt_current r) index mode \<noteq> LocalLane (unat index) \<longrightarrow>
          ex_wake_epoch (executor_at r' index) = ex_wake_epoch (executor_at r index) + 1))"
  by (rule enqueue_ready_spec [OF assms])

definition sample_posted :: runtime where
  "sample_posted = snd (the (try_enqueue_ready sample_config True 0 7 Auto sample_runtime))"

lemma sample_outside: "\<not> rt_current sample_runtime < thread_count sample_layout"
  by (simp add: sample_runtime_fields thread_count_def sample_layout_def total_thread_count_def)

theorem enqueue_routes_by_mode_witness:
  "lane_content 3 sample_posted (ExternalLane 0) = [7]"
  using enqueue_routes_by_mode [OF sample_runtime_ok(1), of sample_config 0 True 7 Auto]
    sample_outside sample_runtime_ok(2)
  by (auto simp: sample_posted_def route_lane_def pushed_def sample_runtime_fields split: if_splits)

lemma sample_posted_ok: "runtime_ok 3 sample_posted" "lane_content 3 sample_posted = (\<lambda>_. [])(ExternalLane 0 := [7])"
  using enqueue_ready_spec [OF sample_runtime_ok(1), of sample_config 0 True 7 Auto] sample_outside sample_runtime_ok(2)
  by (auto simp: sample_posted_def route_lane_def pushed_def sample_runtime_fields split: if_splits)

theorem pop_one_takes_oldest_witness:
  "fst (pop_one sample_config 0 sample_posted) = Some 7"
proof -
  obtain v r where pop: "pop_one sample_config 0 sample_posted = (v, r)" by fastforce
  have "v = None \<Longrightarrow> False" and "\<And>t. v = Some t \<Longrightarrow> t = 7"
    using pop_one_takes_oldest [OF sample_posted_ok(1) _ _ pop]
    by (auto simp: sample_posted_ok(2) inbound_def links_to_def split: if_splits)
  then show ?thesis using pop by (cases v) auto
qed

end
