(* ===== verification/Runtime_Api.thy ===== *)
theory Runtime_Api
  imports Dispatch
begin

section \<open>Posting and executing tasks\<close>

text \<open>
  Models \<^verbatim>\<open>queue_backoff.hpp\<close>, the blocking half of \<^verbatim>\<open>runtime_dispatch.hpp\<close>, \<^verbatim>\<open>Executor::execute\<close> and
  its \<^verbatim>\<open>finish_\<close> functions, \<^verbatim>\<open>runtime_task_handle.hpp\<close>, the task half of
  \<^verbatim>\<open>runtime_task_lifecycle.hpp\<close>, and \<^verbatim>\<open>post\<close>, \<^verbatim>\<open>make_task\<close>, \<^verbatim>\<open>start_task\<close>, \<^verbatim>\<open>start_ordered_task\<close> and \<^verbatim>\<open>init\<close> of
  \<^verbatim>\<open>runtime_public_api.hpp\<close>.  A blocking enqueue to a full local queue runs queued tasks in place,
  so that enqueuing and executing call each other: they are one partial function on \<open>rt_call\<close>.
  Parameters: \<open>run\<close> is the virtual \<^verbatim>\<open>run()\<close> of the task classes (it may not return, throw, or change
  the runtime through the operations here), \<open>env\<close> is what other threads do during a back-off wait.
\<close>

record backoff =
  spin_count :: u64
  spins :: u64

datatype backoff_wait = Cpu_Relax | Thread_Yield

definition backoff_new :: "u64 \<Rightarrow> backoff" where
  "backoff_new n = \<lparr>spin_count = n, spins = 0\<rparr>"

definition backoff_step :: "backoff \<Rightarrow> backoff_wait \<times> backoff" where
  "backoff_step b =
     (if spins b < spin_count b then (Cpu_Relax, b\<lparr>spins := spins b + 1\<rparr>) else (Thread_Yield, b))"

definition backoff_reset :: "backoff \<Rightarrow> backoff" where
  "backoff_reset b = b\<lparr>spins := 0\<rparr>"

subsection \<open>Executing a task\<close>

datatype rt_call =
    Execute u16 taddr
  | EnqueueLocal u16 taddr backoff
  | EnqueueLink u16 u16 taddr backoff
  | EnqueueExternal u16 taddr backoff

definition update_task :: "taddr \<Rightarrow> (task \<Rightarrow> task) \<Rightarrow> 'z task_heap_scheme \<Rightarrow> 'z task_heap_scheme" where
  "update_task a f r = set_task r a (f (task_at r a))"

definition finish_done :: "'tag runtime_config \<Rightarrow> taddr \<Rightarrow> 'z runtime_scheme \<Rightarrow> 'z runtime_scheme" where
  "finish_done c a r =
     (let r = update_task a (\<lambda>t. t\<lparr>task_state := Done\<rparr>) r;
          r = update_task a (\<lambda>t. snd (take_requested_thread (invalid_thread_index (cf_threads c)) t)) r;
          r = on_task_finished (cf_task_registry_enabled c) (cf_shutdown_policy c) a r
      in update_task a release_lifetime_ref r)"

definition blocking_call :: "'tag runtime_config \<Rightarrow> u16 \<Rightarrow> u16 \<Rightarrow> taddr \<Rightarrow> ScheduleMode \<Rightarrow> rt_call" where
  "blocking_call c source target a mode =
     (let b = backoff_new (cf_queue_full_spin_count c)
      in if mode = Ordered then EnqueueExternal target a b
         else if ready_route_from_runtime_thread source target = RouteLocal then EnqueueLocal target a b
         else EnqueueLink source target a b)"

definition enqueue_ready_call ::
    "'tag runtime_config \<Rightarrow> u16 \<Rightarrow> u16 \<Rightarrow> taddr \<Rightarrow> ScheduleMode \<Rightarrow> rt_call option" where
  "enqueue_ready_call c current index a mode =
     (if current < thread_count (cf_threads c) then Some (blocking_call c current index a mode)
      else if mode = Fast then None
      else Some (EnqueueExternal index a (backoff_new (cf_queue_full_spin_count c))))"

text \<open>\<^verbatim>\<open>enqueue_pending_blocking\<close> up to its enqueue: the call to make, when the task is still pending.\<close>

definition enqueue_pending_call ::
    "'tag runtime_config \<Rightarrow> u16 \<Rightarrow> taddr \<Rightarrow> ScheduleMode \<Rightarrow> 'z runtime_scheme \<Rightarrow> rt_call option \<times> 'z runtime_scheme" where
  "enqueue_pending_call c index a mode r =
     (if task_state (task_at r a) = Pending
      then (enqueue_ready_call c (rt_current r) index a mode, update_task a (\<lambda>t. t\<lparr>task_state := Queued\<rparr>) r)
      else (None, r))"

definition finish_pending ::
    "'tag runtime_config \<Rightarrow> taddr \<Rightarrow> 'z runtime_scheme \<Rightarrow> rt_call option \<times> 'z runtime_scheme" where
  "finish_pending c a r =
     (let invalid = invalid_thread_index (cf_threads c);
          r = update_task a (\<lambda>t. t\<lparr>task_state := Pending\<rparr>) r
      in case take_requested_schedule invalid (task_at r a) of
           (requested, t) \<Rightarrow>
             let r = set_task r a t
             in if schedule_thread requested \<noteq> invalid
                then enqueue_pending_call c (schedule_thread requested) a (schedule_mode requested) r
                else (None, r))"

definition finish_again ::
    "'tag runtime_config \<Rightarrow> u16 \<Rightarrow> taddr \<Rightarrow> 'z runtime_scheme \<Rightarrow> rt_call option \<times> 'z runtime_scheme" where
  "finish_again c index a r =
     (let r = update_task a (\<lambda>t. t\<lparr>task_state := Queued\<rparr>) r;
          r = update_task a (\<lambda>t. snd (take_requested_thread (invalid_thread_index (cf_threads c)) t)) r
      in (Some (blocking_call c index index a Auto), r))"

definition finish_task ::
    "'tag runtime_config \<Rightarrow> u16 \<Rightarrow> taddr \<Rightarrow> TaskResult \<Rightarrow> 'z runtime_scheme \<Rightarrow> rt_call option \<times> 'z runtime_scheme" where
  "finish_task c index a result r =
     (case result of
        RPending \<Rightarrow> finish_pending c a r
      | RAgain \<Rightarrow> finish_again c index a r
      | _ \<Rightarrow> (None, finish_done c a r))"

text \<open>The part of \<^verbatim>\<open>execute\<close> before \<^verbatim>\<open>run()\<close>, when the task was queued.\<close>

definition begin_execute :: "u16 \<Rightarrow> taddr \<Rightarrow> 'z runtime_scheme \<Rightarrow> 'z runtime_scheme" where
  "begin_execute index a r =
     (let r = update_task a (\<lambda>t. t\<lparr>task_state := Starting\<rparr>) r;
          r = update_task a prepare_running_epoch r;
          r = update_task a (\<lambda>t. t\<lparr>task_state := Running\<rparr>) r;
          r = update_executor index (\<lambda>e. e\<lparr>ex_running_task := Some a\<rparr>) r
      in r\<lparr>rt_current_task := task_id (task_at r a)\<rparr>)"

partial_function (option) run_call ::
    "'tag runtime_config \<Rightarrow> bool \<Rightarrow> ('z runtime_scheme \<Rightarrow> 'z runtime_scheme) \<Rightarrow>
     (taddr \<Rightarrow> 'z runtime_scheme \<Rightarrow> (TaskResult option \<times> 'z runtime_scheme) option) \<Rightarrow>
     rt_call \<Rightarrow> 'z runtime_scheme \<Rightarrow> 'z runtime_scheme option" where
  "run_call c wr env run call r =
     (case call of
        Execute index a \<Rightarrow>
          if task_state (task_at r a) \<noteq> Queued then Some r
          else let previous_running = ex_running_task (executor_at r index);
                   previous_task = rt_current_task r
               in case run a (begin_execute index a r) of
                    None \<Rightarrow> None
                  | Some (result, r) \<Rightarrow>
                      (let result = (case result of None \<Rightarrow> RDone | Some x \<Rightarrow> x);
                           r = update_executor index (\<lambda>e. e\<lparr>ex_running_task := previous_running\<rparr>) r
                       in case finish_task c index a result r of
                            (None, r) \<Rightarrow> Some (r\<lparr>rt_current_task := previous_task\<rparr>)
                          | (Some next, r) \<Rightarrow>
                              Option.bind (run_call c wr env run next r)
                                (\<lambda>r. Some (r\<lparr>rt_current_task := previous_task\<rparr>)))
      | EnqueueLocal target a b \<Rightarrow>
          (case try_enqueue_local_from_runtime_thread target a r of
             (ok, r) \<Rightarrow>
               if ok then Some r
               else (case try_pop_local (executor_at r target) of
                  (Some ready, e) \<Rightarrow>
                    Option.bind (run_call c wr env run (Execute target ready) (set_executor r target e))
                      (\<lambda>r. run_call c wr env run (EnqueueLocal target a (backoff_reset b)) r)
                | (None, e) \<Rightarrow>
                    run_call c wr env run (EnqueueLocal target a (snd (backoff_step b))) (env (set_executor r target e))))
      | EnqueueLink source target a b \<Rightarrow>
          (let k = spsc_index c source target
           in case spsc_try_push (rt_spsc r ! k) (Some a) of
                (ok, q) \<Rightarrow>
                  let r = r\<lparr>rt_spsc := (rt_spsc r)[k := q]\<rparr>
                  in if ok
                     then let r = mark_source_ready source target r
                          in Some (set_executor r target (notify wr (executor_at r target)))
                     else run_call c wr env run (EnqueueLink source target a (snd (backoff_step b))) (env r))
      | EnqueueExternal target a b \<Rightarrow>
          (case mpsc_try_push (rt_external r ! unat target) (Some a) of
             None \<Rightarrow> None
           | Some (ok, q) \<Rightarrow>
               let r = r\<lparr>rt_external := (rt_external r)[unat target := q]\<rparr>
               in if ok
                  then Some (set_executor r target (notify_external_ready wr (executor_at r target)))
                  else run_call c wr env run (EnqueueExternal target a (snd (backoff_step b))) (env r)))"

subsection \<open>Posting\<close>

definition leave_post :: "'tag runtime_config \<Rightarrow> u16 \<Rightarrow> 'z runtime_scheme \<Rightarrow> 'z runtime_scheme" where
  "leave_post c target r =
     (if rt_current r < thread_count (cf_threads c) then r
      else r\<lparr>rt_active_posts := (rt_active_posts r)[unat target := rt_active_posts r ! unat target - 1]\<rparr>)"

definition try_enter_post :: "'tag runtime_config \<Rightarrow> u16 \<Rightarrow> 'z runtime_scheme \<Rightarrow> bool \<times> 'z runtime_scheme" where
  "try_enter_post c target r =
     (if rt_current r < thread_count (cf_threads c)
      then (let status = rt_status r
            in if status = RtRunning then (True, r)
               else if cf_shutdown_policy c = WaitForTasks then (status = RtStopping, r)
               else (False, r))
      else
        let generation = rt_generation r; status = rt_status r
        in if status = RtRunning
           then let r = r\<lparr>rt_active_posts := (rt_active_posts r)[unat target := rt_active_posts r ! unat target + 1]\<rparr>
                in if rt_status r = RtRunning \<and> rt_generation r = generation then (True, r)
                   else (False, leave_post c target r)
           else (False, r))"

definition enqueue_ready_by_policy ::
    "'tag runtime_config \<Rightarrow> bool \<Rightarrow> ('z runtime_scheme \<Rightarrow> 'z runtime_scheme) \<Rightarrow>
     (taddr \<Rightarrow> 'z runtime_scheme \<Rightarrow> (TaskResult option \<times> 'z runtime_scheme) option) \<Rightarrow>
     u16 \<Rightarrow> taddr \<Rightarrow> ScheduleMode \<Rightarrow> 'z runtime_scheme \<Rightarrow> (bool \<times> 'z runtime_scheme) option" where
  "enqueue_ready_by_policy c wr env run index a mode r =
     (if rt_current r < thread_count (cf_threads c)
      then (if cf_runtime_queue_full_policy c = Yield
            then map_option (Pair True) (run_call c wr env run (blocking_call c (rt_current r) index a mode) r)
            else try_enqueue_ready_from_runtime_thread c wr (rt_current r) index a mode r)
      else if mode = Fast then Some (False, r)
      else if cf_external_queue_full_policy c = Yield
      then map_option (Pair True)
             (run_call c wr env run (EnqueueExternal index a (backoff_new (cf_queue_full_spin_count c))) r)
      else try_enqueue_external_mpsc wr index a r)"

definition post ::
    "'tag runtime_config \<Rightarrow> bool \<Rightarrow> ('z runtime_scheme \<Rightarrow> 'z runtime_scheme) \<Rightarrow>
     (taddr \<Rightarrow> 'z runtime_scheme \<Rightarrow> (TaskResult option \<times> 'z runtime_scheme) option) \<Rightarrow>
     u16 \<Rightarrow> taddr ptr \<Rightarrow> ScheduleMode \<Rightarrow> 'z runtime_scheme \<Rightarrow> (bool \<times> 'z runtime_scheme) option" where
  "post c wr env run index task mode r =
     (case task of
        None \<Rightarrow> Some (False, r)
      | Some a \<Rightarrow>
          if \<not> index < thread_count (cf_threads c) then Some (False, r)
          else if mode = Fast \<and> \<not> rt_current r < thread_count (cf_threads c) then Some (False, r)
          else case try_enter_post c index r of
            (False, r) \<Rightarrow> Some (False, r)
          | (True, r) \<Rightarrow>
              (case request_schedule (task_at r a) index mode of
                 None \<Rightarrow> None
               | Some (request, t) \<Rightarrow>
                   let r = set_task r a t
                   in if request_action request = Enqueue
                      then let first_schedule = (request_previous request = Created);
                               r = (if first_schedule
                                    then on_task_started (cf_task_registry_enabled c) (cf_shutdown_policy c) a r else r)
                           in case enqueue_ready_by_policy c wr env run index a mode r of
                                None \<Rightarrow> None
                              | Some (enqueued, r) \<Rightarrow>
                                  let r = (if \<not> enqueued
                                           then update_task a (\<lambda>t. cancel_schedule t (request_previous request))
                                                  (if first_schedule
                                                   then on_task_finished (cf_task_registry_enabled c) (cf_shutdown_policy c) a r
                                                   else r)
                                           else r)
                                  in Some (enqueued, leave_post c index r)
                      else Some (request_action request = Deferred, leave_post c index r)))"

definition post_blocking ::
    "'tag runtime_config \<Rightarrow> bool \<Rightarrow> ('z runtime_scheme \<Rightarrow> 'z runtime_scheme) \<Rightarrow>
     (taddr \<Rightarrow> 'z runtime_scheme \<Rightarrow> (TaskResult option \<times> 'z runtime_scheme) option) \<Rightarrow>
     u16 \<Rightarrow> taddr \<Rightarrow> ScheduleMode \<Rightarrow> 'z runtime_scheme \<Rightarrow> 'z runtime_scheme option" where
  "post_blocking c wr env run index a mode r =
     (case request_schedule (task_at r a) index mode of
        None \<Rightarrow> None
      | Some (request, t) \<Rightarrow>
          let r = set_task r a t
          in case request_action request of
               Enqueue \<Rightarrow>
                 (let r = (if request_previous request = Created
                           then on_task_started (cf_task_registry_enabled c) (cf_shutdown_policy c) a r else r)
                  in case enqueue_ready_call c (rt_current r) index a mode of
                       None \<Rightarrow> Some r
                     | Some call \<Rightarrow> run_call c wr env run call r)
             | Deferred \<Rightarrow> Some r
             | Rejected \<Rightarrow> Some r)"

subsection \<open>Task handles\<close>

text \<open>\<open>fresh\<close> is the address the task pool returns.\<close>

definition allocate_task :: "taddr \<Rightarrow> u64 \<Rightarrow> 'z task_heap_scheme \<Rightarrow> 'z task_heap_scheme" where
  "allocate_task fresh i r =
     (set_task r fresh (task_new i))\<lparr>reg_links := (reg_links r)(fresh := links_default)\<rparr>"

definition make_task :: "taddr \<Rightarrow> u64 \<Rightarrow> 'z task_heap_scheme \<Rightarrow> taddr ptr \<times> 'z task_heap_scheme" where
  "make_task fresh i r = (Some fresh, update_task fresh attach_start_handle (allocate_task fresh i r))"

definition is_task_created :: "'z task_heap_scheme \<Rightarrow> taddr ptr \<Rightarrow> bool" where
  "is_task_created r p = (case p of None \<Rightarrow> False | Some a \<Rightarrow> is_created (task_at r a))"

definition handle_scheduled :: "'z task_heap_scheme \<Rightarrow> taddr ptr \<Rightarrow> bool" where
  "handle_scheduled r h \<longleftrightarrow> h \<noteq> None \<and> \<not> is_task_created r h"

definition release_task_handle :: "taddr ptr \<Rightarrow> 'z task_heap_scheme \<Rightarrow> 'z task_heap_scheme" where
  "release_task_handle p r =
     (case p of
        None \<Rightarrow> r
      | Some a \<Rightarrow>
          let state = task_state (task_at r a);
              r = update_task a release_lifetime_ref r
          in if state = Created then update_task a release_lifetime_ref r else r)"

definition handle_reset :: "taddr ptr \<Rightarrow> 'z task_heap_scheme \<Rightarrow> taddr ptr \<times> 'z task_heap_scheme" where
  "handle_reset h r = (if h \<noteq> None then (None, release_task_handle h r) else (h, r))"

text \<open>Move assignment between two different handles: the target, the source, the heap.\<close>

definition handle_move_assign ::
    "taddr ptr \<Rightarrow> taddr ptr \<Rightarrow> 'z task_heap_scheme \<Rightarrow> taddr ptr \<times> taddr ptr \<times> 'z task_heap_scheme" where
  "handle_move_assign h other r = (case handle_reset h r of (_, r) \<Rightarrow> (other, None, r))"

text \<open>\<open>do_it\<close> is the task's start function; it returns what it returned, \<^term>\<open>True\<close> when it returns nothing.\<close>

definition start_task ::
    "(taddr \<Rightarrow> 'z task_heap_scheme \<Rightarrow> bool \<times> 'z task_heap_scheme) \<Rightarrow> taddr \<Rightarrow> u64 \<Rightarrow> 'z task_heap_scheme \<Rightarrow>
     bool \<times> 'z task_heap_scheme" where
  "start_task do_it fresh i r =
     (case make_task fresh i r of (h, r) \<Rightarrow>
        case do_it fresh r of (ok, r) \<Rightarrow>
          (ok \<and> handle_scheduled r h, snd (handle_reset h r)))"

definition start_ordered_task ::
    "(taddr \<Rightarrow> 'z task_heap_scheme \<Rightarrow> bool \<times> 'z task_heap_scheme) \<Rightarrow> taddr \<Rightarrow> u64 \<Rightarrow> 'z task_heap_scheme \<Rightarrow>
     bool \<times> 'z task_heap_scheme" where
  "start_ordered_task do_it fresh i r =
     (let r = allocate_task fresh i r
      in case do_it fresh r of (ok, r) \<Rightarrow>
           (ok, if \<not> ok \<and> is_created (task_at r fresh) then update_task fresh release_lifetime_ref r else r))"


subsection \<open>What posting leaves behind\<close>

definition heap_part :: "'z task_heap_scheme \<Rightarrow> taddr ptr \<times> (taddr \<Rightarrow> task_links) \<times> (taddr \<Rightarrow> task) \<times> u32" where
  "heap_part r = (reg_head r, reg_links r, task_at r, unfinished_tasks r)"

lemma heap_part_simps [simp]:
  "heap_part (r\<lparr>rt_spsc := x1\<rparr>) = heap_part r" "heap_part (r\<lparr>rt_external := x2\<rparr>) = heap_part r"
  "heap_part (r\<lparr>rt_active_posts := x3\<rparr>) = heap_part r" "heap_part (set_executor r i e) = heap_part r"
  "heap_part (mark_source_ready s t r) = heap_part r"
  by (simp_all add: heap_part_def set_executor_def mark_source_ready_def Let_def)

lemma posts_simps [simp]:
  "rt_active_posts (set_executor r i e) = rt_active_posts r" "rt_current (set_executor r i e) = rt_current r"
  "rt_active_posts (mark_source_ready s t r) = rt_active_posts r" "rt_current (mark_source_ready s t r) = rt_current r"
  by (simp_all add: set_executor_def mark_source_ready_def Let_def)

lemma enqueue_frame:
  assumes "try_enqueue_ready c wr i a m r = Some (b, r')"
  shows "heap_part r' = heap_part r" "rt_active_posts r' = rt_active_posts r" "rt_current r' = rt_current r"
  using assms
  by (auto simp: try_enqueue_ready_def try_enqueue_ready_from_runtime_thread_def try_enqueue_external_mpsc_def
      try_enqueue_local_from_runtime_thread_def try_enqueue_cross_thread_spsc_def Let_def
      split: if_splits option.splits prod.splits)

text \<open>The runtime's queues do not depend on the task heap.\<close>

lemma runtime_heap [simp]:
  "runtime_ok n (r\<lparr>reg_head := h\<rparr>) = runtime_ok n r" "runtime_ok n (r\<lparr>reg_links := l\<rparr>) = runtime_ok n r"
  "runtime_ok n (r\<lparr>task_at := t\<rparr>) = runtime_ok n r" "runtime_ok n (r\<lparr>unfinished_tasks := u\<rparr>) = runtime_ok n r"
  "runtime_ok n (r\<lparr>rt_active_posts := p\<rparr>) = runtime_ok n r"
  by (simp_all add: runtime_ok_def)

lemma raw_lane_heap [simp]:
  "raw_lane n (r\<lparr>reg_head := h\<rparr>) l = raw_lane n r l" "raw_lane n (r\<lparr>reg_links := k\<rparr>) l = raw_lane n r l"
  "raw_lane n (r\<lparr>task_at := t\<rparr>) l = raw_lane n r l" "raw_lane n (r\<lparr>unfinished_tasks := u\<rparr>) l = raw_lane n r l"
  "raw_lane n (r\<lparr>rt_active_posts := p\<rparr>) l = raw_lane n r l"
  by (cases l; simp)+

lemma lane_heap [simp]:
  "lane_content n (r\<lparr>reg_head := h\<rparr>) = lane_content n r" "lane_content n (r\<lparr>reg_links := k\<rparr>) = lane_content n r"
  "lane_content n (r\<lparr>task_at := t\<rparr>) = lane_content n r" "lane_content n (r\<lparr>unfinished_tasks := u\<rparr>) = lane_content n r"
  "lane_content n (r\<lparr>rt_active_posts := p\<rparr>) = lane_content n r"
  by (simp_all add: lane_content_def fun_eq_iff)

lemma lane_limit_heap [simp]:
  "lane_limit n (r\<lparr>reg_head := h\<rparr>) l = lane_limit n r l" "lane_limit n (r\<lparr>reg_links := k\<rparr>) l = lane_limit n r l"
  "lane_limit n (r\<lparr>task_at := t\<rparr>) l = lane_limit n r l" "lane_limit n (r\<lparr>unfinished_tasks := u\<rparr>) l = lane_limit n r l"
  "lane_limit n (r\<lparr>rt_active_posts := p\<rparr>) l = lane_limit n r l"
  by (cases l; simp)+

definition same_queues :: "nat \<Rightarrow> 'z runtime_scheme \<Rightarrow> 'z runtime_scheme \<Rightarrow> bool" where
  "same_queues n r r' \<longleftrightarrow> (runtime_ok n r \<longrightarrow> runtime_ok n r') \<and> lane_content n r' = lane_content n r \<and>
     lane_limit n r' = lane_limit n r \<and> rt_current r' = rt_current r \<and> rt_active_posts r' = rt_active_posts r"

lemma started_same_queues: "same_queues n r (on_task_started e p a r)"
  by (simp add: same_queues_def on_task_started_def register_task_def Let_def fun_eq_iff)

lemma finished_same_queues: "same_queues n r (on_task_finished e p a r)"
  by (simp add: same_queues_def on_task_finished_def unregister_task_def Let_def fun_eq_iff)

lemma set_task_same_queues: "same_queues n r (set_task r a t)"
  by (simp add: same_queues_def set_task_def fun_eq_iff)

lemma same_queues_refl: "same_queues n r r"
  by (simp add: same_queues_def)

lemma same_queues_trans: "same_queues n r r1 \<Longrightarrow> same_queues n r1 r2 \<Longrightarrow> same_queues n r r2"
  by (simp add: same_queues_def)

lemma registered_as_heap: "heap_part r' = heap_part r \<Longrightarrow> registered_as r' as = registered_as r as"
  by (simp add: heap_part_def registered_as_def)

lemma registered_as_task [simp]: "registered_as (set_task r a t) as = registered_as r as"
  by (simp add: registered_as_def set_task_def)

lemma tracked_task_at [simp]:
  "task_at (on_task_started e p a r) = task_at r" "task_at (on_task_finished e p a r) = task_at r"
  by (simp_all add: on_task_started_def on_task_finished_def register_task_def unregister_task_def Let_def)

text \<open>Registered under an enabled registry: what the registry and the counter of unfinished tasks track.\<close>

definition tracked :: "'tag runtime_config \<Rightarrow> 'z task_heap_scheme \<Rightarrow> taddr list \<Rightarrow> bool" where
  "tracked c r as \<longleftrightarrow>
     (cf_task_registry_enabled c \<longrightarrow> registered_as r as) \<and>
     (cf_shutdown_policy c = WaitForTasks \<longrightarrow> unfinished_tasks r = of_nat (length as))"

lemma tracked_started:
  "tracked c r as \<Longrightarrow> a \<notin> set as \<Longrightarrow>
   tracked c (on_task_started (cf_task_registry_enabled c) (cf_shutdown_policy c) a r) (a # as)"
  using register_registered [of r as a]
  by (auto simp: tracked_def on_task_started_def register_task_def Let_def)

lemma tracked_removed:
  assumes "tracked c r (as @ a # bs)"
  shows "tracked c (on_task_finished (cf_task_registry_enabled c) (cf_shutdown_policy c) a r) (as @ bs)"
  using assms unregister_registered [of r as a bs]
  by (auto simp: tracked_def on_task_finished_def unregister_task_def Let_def)

lemma tracked_finished:
  assumes "tracked c r (a # as)"
  shows "tracked c (on_task_finished (cf_task_registry_enabled c) (cf_shutdown_policy c) a r) as"
  using tracked_removed [of c r "[]" a as] assms by simp

lemma tracked_heap: "heap_part r' = heap_part r \<Longrightarrow> tracked c r' as = tracked c r as"
  using registered_as_heap [of r' r as] by (simp add: tracked_def) (simp add: heap_part_def)

lemma tracked_task [simp]: "tracked c (set_task r a t) as = tracked c r as"
  by (simp add: tracked_def set_task_def registered_as_def)


lemma enter_leave_posts [simp]:
  "xs[i := xs[i := xs ! i + 1] ! i - 1] = xs" for xs :: "u32 list"
  by (cases "i < length xs") (simp_all add: list_update_beyond not_less)

lemma policy_rejects:
  assumes "cf_runtime_queue_full_policy c = Reject" "cf_external_queue_full_policy c = Reject"
  shows "enqueue_ready_by_policy c wr env run index a mode r = try_enqueue_ready c wr index a mode r"
  using assms by (simp add: enqueue_ready_by_policy_def try_enqueue_ready_def)

text \<open>The state in which \<^verbatim>\<open>post\<close> calls the enqueue.\<close>

lemma post_unfold:
  assumes "index < thread_count (cf_threads c)" "mode = Fast \<longrightarrow> rt_current r < thread_count (cf_threads c)"
    "try_enter_post c index r = (True, r1)" "task_at r1 = task_at r"
    "task_state (task_at r a) = Created \<or> task_state (task_at r a) = Pending"
    "cf_runtime_queue_full_policy c = Reject" "cf_external_queue_full_policy c = Reject"
  defines "r2 \<equiv> set_task r1 a ((task_at r a)\<lparr>task_state := Queued\<rparr>)"
  defines "r3 \<equiv> if task_state (task_at r a) = Created
                then on_task_started (cf_task_registry_enabled c) (cf_shutdown_policy c) a r2 else r2"
  shows "post c wr env run index (Some a) mode r =
    (case try_enqueue_ready c wr index a mode r3 of
       None \<Rightarrow> None
     | Some (enqueued, r4) \<Rightarrow>
         Some (enqueued, leave_post c index
           (if \<not> enqueued
            then update_task a (\<lambda>t. cancel_schedule t (task_state (task_at r a)))
                   (if task_state (task_at r a) = Created
                    then on_task_finished (cf_task_registry_enabled c) (cf_shutdown_policy c) a r4 else r4)
            else r4)))"
proof -
  have req: "request_schedule (task_at r a) index mode =
      Some (\<lparr>request_action = Enqueue, request_previous = task_state (task_at r a)\<rparr>, (task_at r a)\<lparr>task_state := Queued\<rparr>)"
    using assms(5) by (subst request_schedule.simps) auto
  have cond: "(mode = Fast \<and> \<not> rt_current r < thread_count (cf_threads c)) = False"
    using assms(2) by blast
  show ?thesis
    unfolding post_def option.case cond
    by (simp add: assms(1,3,4) req policy_rejects [OF assms(6,7)] r2_def r3_def Let_def
        split del: if_split cong: option.case_cong if_cong)
qed

lemma post_waiting_spec:
  assumes ok: "runtime_ok n r" and n: "n = thread_total_of c" and i: "unat index < n"
    and policy: "cf_runtime_queue_full_policy c = Reject" "cf_external_queue_full_policy c = Reject"
    and waits: "task_state (task_at r a) = Created \<or> task_state (task_at r a) = Pending"
    and running: "rt_status r = RtRunning"
    and fast: "mode = Fast \<longrightarrow> rt_current r < thread_count (cf_threads c)"
    and tracked: "tracked c r as" "task_state (task_at r a) = Created \<longrightarrow> a \<notin> set as"
  shows "\<exists>b r'. post c wr env run index (Some a) mode r = Some (b, r') \<and>
    (b \<longleftrightarrow> length (lane_content n r (route_lane c (rt_current r) index mode)) <
           lane_limit n r (route_lane c (rt_current r) index mode)) \<and>
    rt_active_posts r' = rt_active_posts r \<and> runtime_ok n r' \<and>
    (b \<longrightarrow> task_at r' a = (task_at r a)\<lparr>task_state := Queued\<rparr> \<and>
       lane_content n r' = (lane_content n r)(route_lane c (rt_current r) index mode :=
         lane_content n r (route_lane c (rt_current r) index mode) @ [a]) \<and>
       tracked c r' (if task_state (task_at r a) = Created then a # as else as)) \<and>
    (\<not> b \<longrightarrow> task_at r' a = task_at r a \<and> lane_content n r' = lane_content n r \<and> tracked c r' as)"
proof -
  let ?t = "(task_at r a)\<lparr>task_state := Queued\<rparr>" and ?new = "task_state (task_at r a) = Created"
  let ?l = "route_lane c (rt_current r) index mode"
  have idx: "index < thread_count (cf_threads c)"
    using i by (simp add: n thread_total_of_def word_less_nat_alt)
  obtain r1 where r1: "try_enter_post c index r = (True, r1)" and heap1: "heap_part r1 = heap_part r"
    and posts1: "r1 = r \<and> rt_current r < thread_count (cf_threads c) \<or>
      r1 = r\<lparr>rt_active_posts := (rt_active_posts r)[unat index := rt_active_posts r ! unat index + 1]\<rparr> \<and>
      \<not> rt_current r < thread_count (cf_threads c)"
    using running that by (cases "rt_current r < thread_count (cf_threads c)") (simp_all add: try_enter_post_def heap_part_def)
  have q1: "runtime_ok n r1" "lane_content n r1 = lane_content n r" "lane_limit n r1 = lane_limit n r" "rt_current r1 = rt_current r"
    using posts1 ok by (auto simp: fun_eq_iff)
  define r2 where "r2 = set_task r1 a ?t"
  define r3 where "r3 = (if ?new then on_task_started (cf_task_registry_enabled c) (cf_shutdown_policy c) a r2 else r2)"
  have same3: "same_queues n r1 r3"
    using set_task_same_queues [of n r1 a ?t] started_same_queues [of n r2]
    by (auto simp: r3_def r2_def same_queues_def)
  have tracked3: "tracked c r3 (if ?new then a # as else as)" and task3: "task_at r3 a = ?t"
    using tracked tracked_started [of c r2 as a] tracked_heap [OF heap1, of c as]
    by (auto simp: r3_def r2_def) (simp_all add: set_task_def)
  note q3 = q1 same3 [unfolded same_queues_def]
  have ok3: "runtime_ok n r3" using q3 by simp
  obtain b r4 where b: "try_enqueue_ready c wr index a mode r3 = Some (b, r4)" "pushed n r3 r4 ?l a b"
    using enqueue_ready_spec [OF ok3 n i, of wr a mode] fast q3 by auto
  have frame: "heap_part r4 = heap_part r3" "rt_active_posts r4 = rt_active_posts r3" "rt_current r4 = rt_current r3"
    using enqueue_frame [OF b(1)] by simp_all
  define r5 where "r5 = (if \<not> b
      then update_task a (\<lambda>t. cancel_schedule t (task_state (task_at r a)))
             (if ?new then on_task_finished (cf_task_registry_enabled c) (cf_shutdown_policy c) a r4 else r4)
      else r4)"
  have task4: "task_at r4 a = ?t"
    using frame(1) task3 by (simp add: heap_part_def)
  have tracked4: "tracked c r4 (if ?new then a # as else as)"
    using tracked3 tracked_heap [OF frame(1), of c] by (cases ?new) simp_all
  have post: "post c wr env run index (Some a) mode r = Some (b, leave_post c index r5)"
  proof -
    have "task_at r1 = task_at r" using heap1 by (simp add: heap_part_def)
    from post_unfold [OF idx fast r1 this waits policy, of wr env run, folded r2_def, folded r3_def] show ?thesis
      unfolding b(1) option.case prod.case r5_def .
  qed
  have same5: "same_queues n r4 r5"
    by (simp add: r5_def update_task_def same_queues_refl set_task_same_queues
        same_queues_trans [OF finished_same_queues set_task_same_queues])
  have leave: "rt_active_posts (leave_post c index r5) = rt_active_posts r"
    "heap_part (leave_post c index r5) = heap_part r5"
    "runtime_ok n (leave_post c index r5) = runtime_ok n r5"
    "lane_content n (leave_post c index r5) = lane_content n r5"
    using posts1 q3 frame same5 by (auto simp: leave_post_def same_queues_def heap_part_def)
  have lanes: "lane_content n r5 = (if b then (lane_content n r)(?l := lane_content n r ?l @ [a]) else lane_content n r)"
    "b \<longleftrightarrow> length (lane_content n r ?l) < lane_limit n r ?l" "runtime_ok n r5"
    using b(2) same5 q3 by (auto simp: pushed_def same_queues_def)
  have kept: "tracked c r5 (if ?new \<and> b then a # as else as)"
    using tracked4 tracked_finished [of c r4 a as] by (cases b; cases ?new) (simp_all add: r5_def update_task_def)
  have task5: "task_at r5 a = (if b then ?t else task_at r a)"
    using task4 by (simp add: r5_def update_task_def cancel_schedule_def) (simp add: set_task_def)
  show ?thesis
  proof (intro exI conjI)
    show "post c wr env run index (Some a) mode r = Some (b, leave_post c index r5)"
      by (rule post)
    show "b \<longleftrightarrow> length (lane_content n r ?l) < lane_limit n r ?l"
      by (rule lanes(2))
    show "rt_active_posts (leave_post c index r5) = rt_active_posts r" "runtime_ok n (leave_post c index r5)"
      using leave lanes(3) by simp_all
    have task: "task_at (leave_post c index r5) a = task_at r5 a"
      using leave(2) by (simp add: heap_part_def)
    show "b \<longrightarrow> task_at (leave_post c index r5) a = ?t \<and>
        lane_content n (leave_post c index r5) = (lane_content n r)(?l := lane_content n r ?l @ [a]) \<and>
        tracked c (leave_post c index r5) (if ?new then a # as else as)"
      using task task5 leave(4) lanes(1) kept tracked_heap [OF leave(2), of c] by (cases ?new; cases b) simp_all
    show "\<not> b \<longrightarrow> task_at (leave_post c index r5) a = task_at r a \<and>
        lane_content n (leave_post c index r5) = lane_content n r \<and> tracked c (leave_post c index r5) as"
      using task task5 leave(4) lanes(1) kept tracked_heap [OF leave(2), of c] by (cases b) simp_all
  qed
qed

text \<open>
  C22: Posting a task that is new or waits to be woken, with rejecting queues: the call returns; it
  succeeds exactly when the queue its mode selects has room, and then the task is queued, stands
  at the end of that queue and is tracked from its first post on.  When the queue is full the call
  leaves no trace: the task, the queues, the registry and the counters are as before.
\<close>

theorem post_waiting_task:
  assumes ok: "runtime_ok n r" and n: "n = thread_total_of c" and i: "unat index < n"
    and policy: "cf_runtime_queue_full_policy c = Reject" "cf_external_queue_full_policy c = Reject"
    and waits: "task_state (task_at r a) = Created \<or> task_state (task_at r a) = Pending"
    and running: "rt_status r = RtRunning"
    and fast: "mode = Fast \<longrightarrow> rt_current r < thread_count (cf_threads c)"
    and tracked: "tracked c r as" "task_state (task_at r a) = Created \<longrightarrow> a \<notin> set as"
  shows "\<exists>b r'. post c wr env run index (Some a) mode r = Some (b, r') \<and>
    (b \<longleftrightarrow> length (lane_content n r (route_lane c (rt_current r) index mode)) <
           lane_limit n r (route_lane c (rt_current r) index mode)) \<and>
    rt_active_posts r' = rt_active_posts r \<and> runtime_ok n r' \<and>
    (b \<longrightarrow> task_at r' a = (task_at r a)\<lparr>task_state := Queued\<rparr> \<and>
       lane_content n r' = (lane_content n r)(route_lane c (rt_current r) index mode :=
         lane_content n r (route_lane c (rt_current r) index mode) @ [a]) \<and>
       tracked c r' (if task_state (task_at r a) = Created then a # as else as)) \<and>
    (\<not> b \<longrightarrow> task_at r' a = task_at r a \<and> lane_content n r' = lane_content n r \<and> tracked c r' as)"
  by (rule post_waiting_spec [OF assms])

theorem post_waiting_task_witness:
  "\<exists>r. post sample_config True id (\<lambda>_ _. None) 0 (Some 7) Auto sample_runtime = Some (True, r) \<and>
     task_state (task_at r 7) = Queued \<and> lane_content 3 r (ExternalLane 0) = [7]"
  using post_waiting_task [OF sample_runtime_ok(1), of sample_config 0 7 Auto "[]" True id "\<lambda>_ _. None"]
    sample_outside sample_runtime_ok(2)
  by (auto simp: sample_runtime_fields route_lane_def tracked_def task_new_def)

subsection \<open>What executing leaves behind\<close>

lemma tracked_executor [simp]: "tracked c (update_executor i f r) as = tracked c r as"
  "tracked c (r\<lparr>rt_current_task := x\<rparr>) as = tracked c r as"
  by (rule tracked_heap, simp add: update_executor_def heap_part_def set_executor_def)+

lemma tracked_update_task [simp]: "tracked c (update_task a f r) as = tracked c r as"
  by (simp add: update_task_def)

lemma update_task_at [simp]:
  "task_at (update_task a f r) = (task_at r)(a := f (task_at r a))"
  by (simp add: update_task_def set_task_def)

lemma take_requested_keeps [simp]:
  "task_state (snd (take_requested_thread i t)) = task_state t"
  "lifetime_refs (snd (take_requested_thread i t)) = lifetime_refs t"
  "task_destroyed (snd (take_requested_thread i t)) = task_destroyed t"
  by (simp_all add: take_requested_thread_def take_requested_schedule_def Let_def)

lemma executors_heap [simp]:
  "rt_executors (update_task a f r) = rt_executors r"
  "rt_executors (on_task_finished e p a r) = rt_executors r"
  by (simp_all add: update_task_def set_task_def on_task_finished_def unregister_task_def Let_def)

lemma finish_done_task:
  "task_at (finish_done c a r) a =
     release_lifetime_ref (snd (take_requested_thread (invalid_thread_index (cf_threads c)) ((task_at r a)\<lparr>task_state := Done\<rparr>)))"
  by (simp add: finish_done_def Let_def)

lemma finish_done_tracked:
  "tracked c r (as @ a # bs) \<Longrightarrow> tracked c (finish_done c a r) (as @ bs)"
  by (simp add: finish_done_def Let_def tracked_removed)

text \<open>
  C23: Executing a queued task whose \<^verbatim>\<open>run()\<close> ends the task (by result or by an exception) returns; the task is
  then done, has lost exactly the reference of the runtime and is destroyed exactly when that was
  the last one; it is no longer tracked, and the executor's running task and the thread's current
  task identifier are what they were before, so that executions nest.
\<close>

theorem execute_ends_task:
  assumes queued: "task_state (task_at r a) = Queued"
    and run: "run a (begin_execute i a r) = Some (result, r1)"
    and ends: "result \<notin> {Some RPending, Some RAgain}"
    and alive: "\<not> task_destroyed (task_at r1 a)"
    and tracked: "tracked c r1 (as @ a # bs)"
    and i: "unat i < length (rt_executors r1)"
  shows "\<exists>r'. run_call c wr env run (Execute i a) r = Some r' \<and>
    task_state (task_at r' a) = Done \<and> lifetime_refs (task_at r' a) = lifetime_refs (task_at r1 a) - 1 \<and>
    (task_destroyed (task_at r' a) \<longleftrightarrow> lifetime_refs (task_at r1 a) = 1) \<and> tracked c r' (as @ bs) \<and>
    ex_running_task (executor_at r' i) = ex_running_task (executor_at r i) \<and>
    rt_current_task r' = rt_current_task r"
proof -
  let ?r2 = "update_executor i (\<lambda>e. e\<lparr>ex_running_task := ex_running_task (executor_at r i)\<rparr>) r1"
  let ?r' = "(finish_done c a ?r2)\<lparr>rt_current_task := rt_current_task r\<rparr>"
  have "finish_task c i a (case result of None \<Rightarrow> RDone | Some x \<Rightarrow> x) ?r2 = (None, finish_done c a ?r2)"
    using ends by (auto simp: finish_task_def split: option.splits TaskResult.splits)
  then have call: "run_call c wr env run (Execute i a) r = Some ?r'"
    by (subst run_call.simps) (simp add: queued run)
  have at: "task_at ?r2 = task_at r1" by (simp add: update_executor_runtime)
  have "tracked c ?r' (as @ bs)"
    using finish_done_tracked [of c ?r2 as a bs] tracked by simp
  moreover have "ex_running_task (executor_at ?r' i) = ex_running_task (executor_at r i)"
    using i by (simp add: finish_done_def Let_def executor_at_def) (simp add: update_executor_def set_executor_def)
  ultimately show ?thesis
    using call alive finish_done_task [of c a ?r2] by (simp add: at release_lifetime_ref_def destroy_self_def Let_def)
qed

definition sample_run :: "taddr \<Rightarrow> runtime \<Rightarrow> (TaskResult option \<times> runtime) option" where
  "sample_run a r = Some (Some RFailed, r)"

definition sample_queued :: runtime where
  "sample_queued = (sample_runtime\<lparr>unfinished_tasks := 1\<rparr>)\<lparr>task_at := \<lambda>_. (task_new 0)\<lparr>task_state := Queued\<rparr>\<rparr>"

theorem execute_ends_task_witness:
  "\<exists>r'. run_call sample_config True id sample_run (Execute 0 7) sample_queued = Some r' \<and> task_destroyed (task_at r' 7)"
proof -
  have "length (rt_executors sample_runtime) = 3"
    using sample_runtime_ok(1) by (simp add: runtime_ok_def)
  then show ?thesis
    using execute_ends_task [of sample_queued 7 sample_run 0 "Some RFailed" "begin_execute 0 7 sample_queued"
        sample_config "[]" "[]" True id]
    by (auto simp: sample_run_def sample_queued_def begin_execute_def Let_def tracked_def task_new_def
        prepare_running_epoch_def update_executor_def set_executor_def update_task_def set_task_def)
qed

lemma allocate_same_queues: "same_queues n r (allocate_task fresh i r)"
  by (simp add: same_queues_def allocate_task_def set_task_def fun_eq_iff)

lemma update_task_same_queues: "same_queues n r (update_task a f r)"
  unfolding update_task_def by (rule set_task_same_queues)

lemma dll_upd_other: "a \<notin> set as \<Longrightarrow> dll (m(a := x)) p h as = dll m p h as"
  by (induction as arbitrary: p h) auto

lemma tracked_allocate:
  assumes "tracked c r as" "fresh \<notin> set as" shows "tracked c (allocate_task fresh i r) as"
proof -
  have "registered_as (allocate_task fresh i r) as" if "registered_as r as"
    using that assms(2)
    by (auto simp: registered_as_def allocate_task_def set_task_def links_default_def dll_upd_other)
  moreover have "unfinished_tasks (allocate_task fresh i r) = unfinished_tasks r" by (simp add: allocate_task_def set_task_def)
  ultimately show ?thesis using assms(1) by (simp add: tracked_def)
qed

text \<open>
  C26: Starting a task whose start function posts it, on a running runtime with rejecting queues: the
  call reports success exactly when the queue has room.  Then the task is alive and queued, at the
  end of that queue, tracked, and its only reference is its own: the handle's is gone.  Otherwise
  the task is destroyed, and the queues and what is tracked are as before.
\<close>

theorem start_task_lifetime:
  assumes ok: "runtime_ok n r" and n: "n = thread_total_of c" and i: "unat index < n"
    and policy: "cf_runtime_queue_full_policy c = Reject" "cf_external_queue_full_policy c = Reject"
    and running: "rt_status r = RtRunning" and fast: "mode = Fast \<longrightarrow> rt_current r < thread_count (cf_threads c)"
    and tracked: "tracked c r as" "fresh \<notin> set as" and l: "l = route_lane c (rt_current r) index mode"
    and start: "start_task (\<lambda>a r. the (post c wr env run index (Some a) mode r)) fresh new_id r = (b, r')"
  shows "(b \<longleftrightarrow> length (lane_content n r l) < lane_limit n r l) \<and> runtime_ok n r' \<and>
    (b \<longrightarrow> task_at r' fresh = (task_new new_id)\<lparr>task_state := Queued\<rparr> \<and>
       lane_content n r' = (lane_content n r)(l := lane_content n r l @ [fresh]) \<and> tracked c r' (fresh # as)) \<and>
    (\<not> b \<longrightarrow> task_destroyed (task_at r' fresh) \<and> lane_content n r' = lane_content n r \<and> tracked c r' as)"
proof -
  define r1 where "r1 = update_task fresh attach_start_handle (allocate_task fresh new_id r)"
  have same: "same_queues n r r1"
    unfolding r1_def by (rule same_queues_trans [OF allocate_same_queues update_task_same_queues])
  have t1: "task_at r1 fresh = (task_new new_id)\<lparr>lifetime_refs := 2\<rparr>"
    by (simp add: r1_def allocate_task_def attach_start_handle_def add_lifetime_ref_def set_task_def task_new_def)
  have q1: "runtime_ok n r1" "lane_content n r1 = lane_content n r" "lane_limit n r1 = lane_limit n r" "rt_current r1 = rt_current r"
    using same ok by (simp_all add: same_queues_def)
  have s1: "rt_status r1 = RtRunning" using running by (simp add: r1_def allocate_task_def update_task_def set_task_def)
  have tr1: "tracked c r1 as" using tracked_allocate [OF tracked] by (simp add: r1_def)
  have created: "task_state (task_at r1 fresh) = Created" by (simp add: t1 task_new_def)
  obtain b2 r2 where post: "post c wr env run index (Some fresh) mode r1 = Some (b2, r2)"
    and b2: "b2 \<longleftrightarrow> length (lane_content n r l) < lane_limit n r l" and ok2: "runtime_ok n r2"
    and yes: "b2 \<Longrightarrow> task_at r2 fresh = (task_at r1 fresh)\<lparr>task_state := Queued\<rparr> \<and>
      lane_content n r2 = (lane_content n r)(l := lane_content n r l @ [fresh]) \<and> tracked c r2 (fresh # as)"
    and no: "\<not> b2 \<Longrightarrow> task_at r2 fresh = task_at r1 fresh \<and> lane_content n r2 = lane_content n r \<and> tracked c r2 as"
    using post_waiting_spec [OF q1(1) n i policy _ s1 _ tr1, of fresh mode wr env run] created tracked(2) fast
    unfolding q1(2-4) l by auto
  have r': "r' = release_task_handle (Some fresh) r2" "b \<longleftrightarrow> b2 \<and> task_state (task_at r2 fresh) \<noteq> Created"
    using start post
    by (auto simp: start_task_def make_task_def r1_def [symmetric] handle_scheduled_def is_task_created_def is_created_def
        handle_reset_def)
  have same': "same_queues n r2 r'"
    unfolding r'(1) release_task_handle_def Let_def option.case
    by (auto intro: update_task_same_queues same_queues_trans [OF update_task_same_queues update_task_same_queues])
  have heap: "tracked c r' xs = tracked c r2 xs" for xs by (simp add: r'(1) release_task_handle_def Let_def)
  have lanes: "runtime_ok n r'" "lane_content n r' = lane_content n r2" using same' ok2 by (simp_all add: same_queues_def)
  show ?thesis
  proof (cases b2)
    case True
    then have "task_at r' fresh = (task_new new_id)\<lparr>task_state := Queued\<rparr>"
      using yes t1 by (simp add: r'(1) release_task_handle_def release_lifetime_ref_def task_new_def Let_def)
    then show ?thesis using True yes b2 r'(2) lanes heap by simp
  next
    case False
    then have "task_destroyed (task_at r' fresh)"
      using no t1 by (simp add: r'(1) release_task_handle_def release_lifetime_ref_def destroy_self_def task_new_def Let_def)
    then show ?thesis using False no b2 r'(2) lanes heap by simp
  qed
qed

theorem start_task_lifetime_witness:
  "\<exists>r'. start_task (\<lambda>a r. the (post sample_config True id (\<lambda>_ _. None) 0 (Some a) Auto r)) 7 1 sample_runtime = (True, r') \<and>
     lifetime_refs (task_at r' 7) = 1 \<and> \<not> task_destroyed (task_at r' 7) \<and> lane_content 3 r' (ExternalLane 0) = [7]"
proof -
  obtain b r' where start: "start_task (\<lambda>a r. the (post sample_config True id (\<lambda>_ _. None) 0 (Some a) Auto r)) 7 1 sample_runtime = (b, r')"
    by fastforce
  show ?thesis
    using start_task_lifetime [OF sample_runtime_ok(1) _ _ _ _ _ _ _ _ refl start, of "[]"] start sample_outside sample_runtime_ok(2)
    by (auto simp: sample_runtime_fields route_lane_def tracked_def task_new_def)
qed

end
