(* ===== verification/Io_Events.thy ===== *)
theory Io_Events
  imports Runtime_Api
begin

unbundle bit_operations_syntax

section \<open>Event masks and tokens\<close>

text \<open>
  The static functions of \<^verbatim>\<open>runtime_executor_epoll_backend.hpp\<close>: the 64-bit tokens that \<^verbatim>\<open>epoll\<close> hands back with
  an event, and the conversions between the runtime's and the platform's event masks; and the
  masks of \<^verbatim>\<open>net_io_channel.hpp\<close>.  The platform's constants (\<^verbatim>\<open>EPOLLIN\<close>, \<^verbatim>\<open>POLLIN\<close>, the error numbers) have
  their values on Linux.  Pointers to a \<^verbatim>\<open>NetIoChannel\<close> are 64-bit addresses, 0 is the null pointer.
\<close>

definition EPOLLIN :: u32 where "EPOLLIN = 0x001"
definition EPOLLOUT :: u32 where "EPOLLOUT = 0x004"
definition EPOLLERR :: u32 where "EPOLLERR = 0x008"
definition EPOLLHUP :: u32 where "EPOLLHUP = 0x010"
definition EPOLLRDHUP :: u32 where "EPOLLRDHUP = 0x2000"
definition EPOLLONESHOT :: u32 where "EPOLLONESHOT = 0x40000000"
definition POLLIN :: u32 where "POLLIN = 0x001"
definition POLLPRI :: u32 where "POLLPRI = 0x002"
definition POLLOUT :: u32 where "POLLOUT = 0x004"
definition POLLERR :: u32 where "POLLERR = 0x008"
definition POLLHUP :: u32 where "POLLHUP = 0x010"
definition POLLNVAL :: u32 where "POLLNVAL = 0x020"
definition POLLRDHUP :: u32 where "POLLRDHUP = 0x2000"

definition ENOENT :: int where "ENOENT = 2"
definition EINTR :: int where "EINTR = 4"
definition EBADF :: int where "EBADF = 9"
definition EAGAIN :: int where "EAGAIN = 11"
definition EWOULDBLOCK :: int where "EWOULDBLOCK = EAGAIN"
definition ENOMEM :: int where "ENOMEM = 12"
definition EEXIST :: int where "EEXIST = 17"
definition EINVAL :: int where "EINVAL = 22"
definition ENOSYS :: int where "ENOSYS = 38"
definition EALREADY :: int where "EALREADY = 114"
definition ECANCELED :: int where "ECANCELED = 125"

definition net_io_readable :: u32 where "net_io_readable = push_bit 0 1"
definition net_io_writable :: u32 where "net_io_writable = push_bit 1 1"
definition net_io_error :: u32 where "net_io_error = push_bit 2 1"
definition net_io_hangup :: u32 where "net_io_hangup = push_bit 3 1"

lemmas platform_events = EPOLLIN_def EPOLLOUT_def EPOLLERR_def EPOLLHUP_def EPOLLRDHUP_def EPOLLONESHOT_def
  POLLIN_def POLLPRI_def POLLOUT_def POLLERR_def POLLHUP_def POLLNVAL_def POLLRDHUP_def

lemmas errno_values = ENOENT_def EINTR_def EBADF_def EAGAIN_def EWOULDBLOCK_def ENOMEM_def EEXIST_def EINVAL_def
  ENOSYS_def EALREADY_def ECANCELED_def EIO_def

lemmas runtime_events = io_readable_def io_writable_def io_error_def io_hangup_def
  net_io_readable_def net_io_writable_def net_io_error_def net_io_hangup_def

subsection \<open>Tokens\<close>

definition epoll_wait_token :: "int \<Rightarrow> u64" where
  "epoll_wait_token fd = push_bit 2 (ucast (word_of_int fd :: u32))"

definition epoll_wake_token :: u64 where
  "epoll_wake_token = 1"

definition epoll_channel_token :: "u64 \<Rightarrow> u64" where
  "epoll_channel_token channel = (channel AND NOT 3) OR 2"

definition epoll_token_is_wake :: "u64 \<Rightarrow> bool" where
  "epoll_token_is_wake token \<longleftrightarrow> token = epoll_wake_token"

definition epoll_token_is_channel :: "u64 \<Rightarrow> bool" where
  "epoll_token_is_channel token \<longleftrightarrow> token AND 3 = 2"

definition epoll_token_fd :: "u64 \<Rightarrow> int" where
  "epoll_token_fd token = sint (ucast (drop_bit 2 token) :: u32)"

definition epoll_token_channel :: "u64 \<Rightarrow> u64" where
  "epoll_token_channel token = token AND NOT 3"

definition is_fd :: "int \<Rightarrow> bool" where
  "is_fd fd \<longleftrightarrow> - (2 ^ 31) \<le> fd \<and> fd < 2 ^ 31"

lemma and_3: "(x :: u64) AND 3 = take_bit 2 x"
  by (simp add: take_bit_eq_mask mask_eq_exp_minus_1)

lemma wait_token_low: "epoll_wait_token fd AND 3 = 0"
  by (simp add: epoll_wait_token_def and_3 take_bit_push_bit)

lemma wait_token_fd: "is_fd fd \<Longrightarrow> epoll_token_fd (epoll_wait_token fd) = fd"
proof -
  assume fd: "is_fd fd"
  have "ucast (drop_bit 2 (push_bit 2 (ucast w :: u64))) = w" for w :: u32
    by (rule bit_word_eqI) (auto simp: bit_simps)
  then show ?thesis
    using fd by (simp add: epoll_token_fd_def epoll_wait_token_def is_fd_def int_word_sint)
qed

lemma channel_token_low: "epoll_channel_token p AND 3 = 2"
  by (simp add: epoll_channel_token_def and_3 bit_eq_iff bit_simps)

text \<open>
  The three kinds of token are told apart and give back what they were made of: the token of a
  descriptor its descriptor, the token of a channel (whose address is a multiple of four) its
  address, and neither is taken for the wake-up token or for the other.
\<close>

theorem epoll_tokens_round_trip:
  "is_fd fd \<Longrightarrow> channel AND 3 = 0 \<Longrightarrow>
   epoll_token_fd (epoll_wait_token fd) = fd \<and>
   \<not> epoll_token_is_wake (epoll_wait_token fd) \<and> \<not> epoll_token_is_channel (epoll_wait_token fd) \<and>
   epoll_token_channel (epoll_channel_token channel) = channel \<and>
   epoll_token_is_channel (epoll_channel_token channel) \<and> \<not> epoll_token_is_wake (epoll_channel_token channel) \<and>
   \<not> epoll_token_is_channel epoll_wake_token"
proof (intro conjI)
  assume fd: "is_fd fd" and aligned: "channel AND 3 = 0"
  show "epoll_token_fd (epoll_wait_token fd) = fd" by (rule wait_token_fd [OF fd])
  show "\<not> epoll_token_is_wake (epoll_wait_token fd)" "\<not> epoll_token_is_channel (epoll_wait_token fd)"
    using wait_token_low [of fd] by (auto simp: epoll_token_is_wake_def epoll_wake_token_def epoll_token_is_channel_def)
  have "channel AND NOT 3 = channel"
    using aligned bit.conj_disj_distrib [of channel 3 "NOT 3"] by simp
  moreover have "((channel AND NOT 3) OR 2) AND NOT 3 = channel AND NOT 3"
    by (simp add: bit.conj_disj_distrib2 and.assoc)
  ultimately show "epoll_token_channel (epoll_channel_token channel) = channel"
    by (simp add: epoll_token_channel_def epoll_channel_token_def)
  show "epoll_token_is_channel (epoll_channel_token channel)" "\<not> epoll_token_is_wake (epoll_channel_token channel)"
    using channel_token_low [of channel]
    by (auto simp: epoll_token_is_wake_def epoll_wake_token_def epoll_token_is_channel_def)
  show "\<not> epoll_token_is_channel epoll_wake_token"
    by (simp add: epoll_token_is_channel_def epoll_wake_token_def)
qed

theorem epoll_tokens_round_trip_witness:
  "epoll_token_fd (epoll_wait_token 7) = 7 \<and> epoll_token_channel (epoll_channel_token 0x1000) = 0x1000"
  using epoll_tokens_round_trip [of 7 "0x1000"] by (simp add: is_fd_def)

subsection \<open>Masks\<close>

text \<open>One \<^verbatim>\<open>if\<close> of the conversions: the flag is set when one of the bits of the mask is.\<close>

definition flag_if :: "u32 \<Rightarrow> u32 \<Rightarrow> u32 \<Rightarrow> u32 \<Rightarrow> u32" where
  "flag_if events bits flag result = (if events AND bits \<noteq> 0 then result OR flag else result)"

definition native_poll_events :: "u32 \<Rightarrow> u32" where
  "native_poll_events events = flag_if events io_writable POLLOUT (flag_if events io_readable POLLIN 0)"

definition io_events_from_poll :: "u32 \<Rightarrow> u32" where
  "io_events_from_poll events =
     (let result = flag_if events (POLLIN OR POLLPRI) io_readable 0;
          result = flag_if events POLLOUT io_writable result;
          result = flag_if events (POLLERR OR POLLNVAL) io_error result;
          result = flag_if events POLLHUP io_hangup result
      in flag_if events POLLRDHUP io_hangup result)"

definition net_events_from_poll :: "u32 \<Rightarrow> u32" where
  "net_events_from_poll events =
     (let result = flag_if events (POLLIN OR POLLPRI) net_io_readable 0;
          result = flag_if events POLLOUT net_io_writable result;
          result = flag_if events (POLLERR OR POLLNVAL) net_io_error result;
          result = flag_if events POLLHUP net_io_hangup result
      in flag_if events POLLRDHUP net_io_hangup result)"

definition io_events_from_native :: "u32 \<Rightarrow> u32" where
  "io_events_from_native events =
     (let result = flag_if events EPOLLIN io_readable 0;
          result = flag_if events EPOLLOUT io_writable result;
          result = flag_if events EPOLLERR io_error result;
          result = flag_if events EPOLLHUP io_hangup result
      in flag_if events EPOLLRDHUP io_hangup result)"

lemma flag_if_and:
  "flag_if events bits flag result AND m =
     (if events AND bits \<noteq> 0 then (result AND m) OR (flag AND m) else result AND m)"
  by (simp add: flag_if_def bit.conj_disj_distrib2)

text \<open>What the converted mask says, bit by bit.\<close>

lemma io_events_from_native_bits:
  "io_events_from_native events AND io_readable \<noteq> 0 \<longleftrightarrow> events AND EPOLLIN \<noteq> 0"
  "io_events_from_native events AND io_writable \<noteq> 0 \<longleftrightarrow> events AND EPOLLOUT \<noteq> 0"
  "io_events_from_native events AND (io_error OR io_hangup) \<noteq> 0 \<longleftrightarrow>
     events AND EPOLLERR \<noteq> 0 \<or> events AND EPOLLHUP \<noteq> 0 \<or> events AND EPOLLRDHUP \<noteq> 0"
  by (simp_all add: io_events_from_native_def flag_if_and Let_def) (simp_all add: runtime_events)

lemma net_events_are_io_events: "net_events_from_poll events = io_events_from_poll events"
  by (simp add: net_events_from_poll_def io_events_from_poll_def runtime_events Let_def)

lemma native_poll_events_back:
  "io_events_from_poll (native_poll_events events) = events AND (io_readable OR io_writable)"
proof -
  have e: "events AND 3 = (events AND 1) OR (events AND 2)"
    using bit.conj_disj_distrib [of events 1 2] by simp
  have r: "events AND 1 = 0 \<or> events AND 1 = 1" by (simp add: and_one_eq mod_2_eq_odd)
  have "events AND push_bit 1 1 = (if bit events 1 then push_bit 1 1 else 0)"
    by (rule bit_word_eqI) (auto simp: bit_simps)
  then have w: "events AND 2 = 0 \<or> events AND 2 = 2" by simp
  show ?thesis
    using r w e
    by (elim disjE) (simp_all add: io_events_from_poll_def native_poll_events_def flag_if_def Let_def runtime_events
        platform_events)
qed

end
