(* ===== verification/Epoll_Backend.thy ===== *)
theory Epoll_Backend
  imports Io_Events Batch_Sequencer
begin

unbundle bit_operations_syntax

section \<open>The epoll back end of an executor\<close>

text \<open>
  Models \<^verbatim>\<open>runtime_executor_epoll_backend.hpp\<close>, \<^verbatim>\<open>runtime_executor_io_backend.hpp\<close>,
  \<^verbatim>\<open>runtime_executor_net_channel.hpp\<close> and \<^verbatim>\<open>runtime_public_io.hpp\<close> on Linux: the table of waits, the channels
  of the network layer, and the dispatch of events.  The I/O state of the executors, the
  \<^verbatim>\<open>IoOpState\<close> and \<^verbatim>\<open>NetIoChannel\<close> objects and the kernel extend the runtime's record.

  Parameters, bundled in \<open>io_params\<close>: the kernel's calls, the two \<^verbatim>\<open>absl::flat_hash_map\<close>s, the pool's
  allocation (\<^term>\<open>None\<close> is an exception, as is \<open>par_throws\<close> for an insertion), the task's \<^verbatim>\<open>run()\<close>, the
  channels' \<^verbatim>\<open>on_event\<close>.  A pointer to an \<^verbatim>\<open>IoResult\<close> is the address of the \<^verbatim>\<open>IoOpState\<close> whose \<^verbatim>\<open>wait\<close> it is.  An
  iterator is the key it stands at; reading it after the entry is gone is undefined: \<^term>\<open>None\<close>.
\<close>

subsection \<open>Waits for one descriptor\<close>

type_synonym raddr = nat
type_synonym oaddr = nat

record IoWaitRegistration =
  reg_fd :: int
  reg_events :: u32
  reg_task :: taddr
  reg_result :: oaddr

record IoWaitEntry =
  entry_read :: "raddr ptr"
  entry_write :: "raddr ptr"

definition entry_default :: IoWaitEntry where
  "entry_default = \<lparr>entry_read = None, entry_write = None\<rparr>"

definition io_wait_entry_empty :: "IoWaitEntry \<Rightarrow> bool" where
  "io_wait_entry_empty entry \<longleftrightarrow> entry_read entry = None \<and> entry_write entry = None"

definition io_wait_entry_contains :: "IoWaitEntry \<Rightarrow> raddr ptr \<Rightarrow> bool" where
  "io_wait_entry_contains entry registration \<longleftrightarrow> entry_read entry = registration \<or> entry_write entry = registration"

definition io_wait_events_conflict :: "IoWaitEntry \<Rightarrow> u32 \<Rightarrow> bool" where
  "io_wait_events_conflict entry events \<longleftrightarrow>
     events AND io_readable \<noteq> 0 \<and> entry_read entry \<noteq> None \<or>
     events AND io_writable \<noteq> 0 \<and> entry_write entry \<noteq> None"

definition add_io_wait_registration :: "IoWaitEntry \<Rightarrow> raddr \<Rightarrow> u32 \<Rightarrow> IoWaitEntry" where
  "add_io_wait_registration entry registration events =
     (let entry = (if events AND io_readable \<noteq> 0 then entry\<lparr>entry_read := Some registration\<rparr> else entry)
      in if events AND io_writable \<noteq> 0 then entry\<lparr>entry_write := Some registration\<rparr> else entry)"

definition remove_io_wait_registration :: "IoWaitEntry \<Rightarrow> raddr \<Rightarrow> IoWaitEntry" where
  "remove_io_wait_registration entry registration =
     (let entry = (if entry_read entry = Some registration then entry\<lparr>entry_read := None\<rparr> else entry)
      in if entry_write entry = Some registration then entry\<lparr>entry_write := None\<rparr> else entry)"

definition find_io_wait_registration ::
    "(raddr \<Rightarrow> IoWaitRegistration) \<Rightarrow> IoWaitEntry \<Rightarrow> oaddr \<Rightarrow> raddr ptr" where
  "find_io_wait_registration pool entry result =
     (if entry_read entry \<noteq> None \<and> reg_result (pool (the (entry_read entry))) = result then entry_read entry
      else if entry_write entry \<noteq> None \<and> entry_write entry \<noteq> entry_read entry \<and>
              reg_result (pool (the (entry_write entry))) = result
      then entry_write entry
      else None)"

definition io_wait_registration_ready :: "IoWaitRegistration \<Rightarrow> u32 \<Rightarrow> bool" where
  "io_wait_registration_ready registration ready_events \<longleftrightarrow>
     ready_events AND (io_error OR io_hangup) \<noteq> 0 \<or>
     reg_events registration AND ready_events AND (io_readable OR io_writable) \<noteq> 0"

definition io_wait_registration_uses_native_backend :: "raddr ptr \<Rightarrow> bool" where
  "io_wait_registration_uses_native_backend registration \<longleftrightarrow> registration \<noteq> None"

definition epoll_events_for_entry :: "IoWaitEntry \<Rightarrow> u32" where
  "epoll_events_for_entry entry =
     (let native_events = EPOLLERR OR EPOLLHUP OR EPOLLONESHOT; has_native_wait = False;
          (native_events, has_native_wait) =
            (if io_wait_registration_uses_native_backend (entry_read entry) then (native_events OR EPOLLIN, True)
             else (native_events, has_native_wait));
          (native_events, has_native_wait) =
            (if io_wait_registration_uses_native_backend (entry_write entry) then (native_events OR EPOLLOUT, True)
             else (native_events, has_native_wait))
      in if has_native_wait then native_events else 0)"

subsection \<open>Channels\<close>

record NetIoChannel =
  ch_fd :: int
  ch_interests :: u32
  ch_active :: bool
  ch_backend_token :: "nat ptr"
  ch_owner :: nat
  ch_on_event :: "nat ptr"

definition epoll_events_for_net_channel :: "u32 \<Rightarrow> u32" where
  "epoll_events_for_net_channel events =
     (let native_events = (EPOLLERR OR EPOLLHUP) OR EPOLLRDHUP;
          native_events = (if events AND net_io_readable \<noteq> 0 then native_events OR EPOLLIN else native_events)
      in if events AND net_io_writable \<noteq> 0 then native_events OR EPOLLOUT else native_events)"

subsection \<open>The kernel and the state\<close>

datatype epoll_op = EPOLL_CTL_ADD | EPOLL_CTL_DEL | EPOLL_CTL_MOD

record epoll_event =
  ev_events :: u32
  ev_data :: u64

record 'k kernel_ops =
  sys_epoll_create1 :: "'k \<Rightarrow> int \<times> 'k"
  sys_eventfd :: "'k \<Rightarrow> int \<times> 'k"
  sys_epoll_ctl :: "int \<Rightarrow> epoll_op \<Rightarrow> int \<Rightarrow> epoll_event ptr \<Rightarrow> 'k \<Rightarrow> int \<times> 'k"
  sys_epoll_wait :: "int \<Rightarrow> nat \<Rightarrow> int \<Rightarrow> 'k \<Rightarrow> int \<times> epoll_event list \<times> 'k"
  sys_close :: "int \<Rightarrow> 'k \<Rightarrow> 'k"
  sys_read_counter :: "int \<Rightarrow> 'k \<Rightarrow> int \<times> 'k"
  sys_write_counter :: "int \<Rightarrow> 'k \<Rightarrow> int \<times> 'k"
  sys_errno :: "'k \<Rightarrow> int"

record ('m, 'k, 'v) hash_map_iter_ops = "('m, 'k, 'v) hash_map_ops" +
  hm_items :: "'m \<Rightarrow> ('k \<times> 'v) list"

definition hm_is_empty :: "('m, 'k, 'v) hash_map_iter_ops \<Rightarrow> 'm \<Rightarrow> bool" where
  "hm_is_empty M m \<longleftrightarrow> hm_items M m = []"

definition hash_map_iter_laws :: "('m, 'k, 'v) hash_map_iter_ops \<Rightarrow> bool" where
  "hash_map_iter_laws M \<longleftrightarrow>
     hash_map_laws (hash_map_ops.truncate M) \<and>
     (\<forall>m. distinct (map fst (hm_items M m)) \<and> map_of (hm_items M m) = hm_find M m)"

record ('w, 'n) io_backend =
  io_waits :: 'w
  io_wait_pool :: "raddr \<rightharpoonup> IoWaitRegistration"
  net_channels :: 'n
  io_wake_fd :: int

record ('k, 'w, 'n) io_runtime = runtime +
  io_kernel :: 'k
  io_backends :: "('w, 'n) io_backend list"
  io_op_at :: "oaddr \<Rightarrow> IoOpState"
  net_channel_at :: "u64 \<Rightarrow> NetIoChannel"

record ('tag, 'k, 'w, 'n) io_params =
  par_config :: "'tag runtime_config"
  par_kernel :: "'k kernel_ops"
  par_waits :: "('w, int, IoWaitEntry) hash_map_iter_ops"
  par_channels :: "('n, int, u64) hash_map_iter_ops"
  par_alloc :: "(raddr \<rightharpoonup> IoWaitRegistration) \<Rightarrow> raddr option"
  par_throws :: "'w \<Rightarrow> int \<Rightarrow> bool"
  par_wake_written :: bool
  par_env :: "('k, 'w, 'n) io_runtime \<Rightarrow> ('k, 'w, 'n) io_runtime"
  par_run :: "taddr \<Rightarrow> ('k, 'w, 'n) io_runtime \<Rightarrow> (TaskResult option \<times> ('k, 'w, 'n) io_runtime) option"
  par_on_event :: "nat \<Rightarrow> nat \<Rightarrow> u32 \<Rightarrow> ('k, 'w, 'n) io_runtime \<Rightarrow> ('k, 'w, 'n) io_runtime option"

definition backend_at :: "('k, 'w, 'n) io_runtime \<Rightarrow> u16 \<Rightarrow> ('w, 'n) io_backend" where
  "backend_at r i = io_backends r ! unat i"

definition update_backend ::
    "u16 \<Rightarrow> (('w, 'n) io_backend \<Rightarrow> ('w, 'n) io_backend) \<Rightarrow> ('k, 'w, 'n) io_runtime \<Rightarrow> ('k, 'w, 'n) io_runtime" where
  "update_backend i f r = r\<lparr>io_backends := (io_backends r)[unat i := f (backend_at r i)]\<rparr>"

definition update_io_result ::
    "oaddr \<Rightarrow> (IoResult \<Rightarrow> IoResult) \<Rightarrow> ('k, 'w, 'n) io_runtime \<Rightarrow> ('k, 'w, 'n) io_runtime" where
  "update_io_result w f r =
     r\<lparr>io_op_at := (io_op_at r)(w := (io_op_at r w)\<lparr>op_wait := f (op_wait (io_op_at r w))\<rparr>)\<rparr>"

definition update_channel ::
    "u64 \<Rightarrow> (NetIoChannel \<Rightarrow> NetIoChannel) \<Rightarrow> ('k, 'w, 'n) io_runtime \<Rightarrow> ('k, 'w, 'n) io_runtime" where
  "update_channel p f r = r\<lparr>net_channel_at := (net_channel_at r)(p := f (net_channel_at r p))\<rparr>"

definition epoll_fd :: "('k, 'w, 'n) io_runtime \<Rightarrow> u16 \<Rightarrow> int" where
  "epoll_fd r i = ex_io_epoll_fd (executor_at r i)"

definition epoll_ctl ::
    "('tag, 'k, 'w, 'n) io_params \<Rightarrow> u16 \<Rightarrow> epoll_op \<Rightarrow> int \<Rightarrow> epoll_event ptr \<Rightarrow> ('k, 'w, 'n) io_runtime \<Rightarrow>
     int \<times> ('k, 'w, 'n) io_runtime" where
  "epoll_ctl P i op fd event r =
     (case sys_epoll_ctl (par_kernel P) (epoll_fd r i) op fd event (io_kernel r) of
        (result, k) \<Rightarrow> (result, r\<lparr>io_kernel := k\<rparr>))"

definition epoll_del ::
    "('tag, 'k, 'w, 'n) io_params \<Rightarrow> u16 \<Rightarrow> int \<Rightarrow> ('k, 'w, 'n) io_runtime \<Rightarrow> ('k, 'w, 'n) io_runtime" where
  "epoll_del P i fd r = snd (epoll_ctl P i EPOLL_CTL_DEL fd None r)"

definition errno_of :: "('tag, 'k, 'w, 'n) io_params \<Rightarrow> ('k, 'w, 'n) io_runtime \<Rightarrow> int" where
  "errno_of P r = sys_errno (par_kernel P) (io_kernel r)"

subsection \<open>The wake-up descriptor\<close>

partial_function (option) write_epoll_wake_eventfd :: "'k kernel_ops \<Rightarrow> int \<Rightarrow> 'k \<Rightarrow> (bool \<times> 'k) option" where
  "write_epoll_wake_eventfd K fd k =
     (case sys_write_counter K fd k of (written, k) \<Rightarrow>
        if written = 8 then Some (True, k)
        else if written < 0 \<and> sys_errno K k = EINTR then write_epoll_wake_eventfd K fd k
        else if written < 0 \<and> (sys_errno K k = EAGAIN \<or> sys_errno K k = EWOULDBLOCK) then Some (True, k)
        else Some (False, k))"

partial_function (option) drain_counter :: "'k kernel_ops \<Rightarrow> int \<Rightarrow> 'k \<Rightarrow> 'k option" where
  "drain_counter K fd k =
     (case sys_read_counter K fd k of (count, k) \<Rightarrow> if count = 8 then drain_counter K fd k else Some k)"

definition drain_io_wake ::
    "('tag, 'k, 'w, 'n) io_params \<Rightarrow> u16 \<Rightarrow> ('k, 'w, 'n) io_runtime \<Rightarrow> ('k, 'w, 'n) io_runtime option" where
  "drain_io_wake P i r =
     (case drain_counter (par_kernel P) (io_wake_fd (backend_at r i)) (io_kernel r) of
        None \<Rightarrow> None
      | Some k \<Rightarrow> Some (update_executor i (\<lambda>e. e\<lparr>ex_io_wake_pending := False\<rparr>) (r\<lparr>io_kernel := k\<rparr>)))"

definition fail_io_result ::
    "oaddr ptr \<Rightarrow> int \<Rightarrow> int \<Rightarrow> ('k, 'w, 'n) io_runtime \<Rightarrow> bool \<times> ('k, 'w, 'n) io_runtime" where
  "fail_io_result result fd error r =
     (False, case result of None \<Rightarrow> r | Some w \<Rightarrow> update_io_result w (\<lambda>x. set_io_result_error x fd error) r)"

definition fail_io_state ::
    "oaddr \<Rightarrow> int \<Rightarrow> int \<Rightarrow> ('k, 'w, 'n) io_runtime \<Rightarrow> bool \<times> ('k, 'w, 'n) io_runtime" where
  "fail_io_state w fd error r = (False, update_io_result w (\<lambda>x. set_io_result_error x fd error) r)"

definition enqueue_pending_blocking ::
    "('tag, 'k, 'w, 'n) io_params \<Rightarrow> u16 \<Rightarrow> taddr \<Rightarrow> ScheduleMode \<Rightarrow> ('k, 'w, 'n) io_runtime \<Rightarrow>
     ('k, 'w, 'n) io_runtime option" where
  "enqueue_pending_blocking P index a mode r =
     (case enqueue_pending_call (par_config P) index a mode r of
        (None, r) \<Rightarrow> Some r
      | (Some call, r) \<Rightarrow> run_call (par_config P) (par_wake_written P) (par_env P) (par_run P) call r)"

subsection \<open>Registering and cancelling a wait\<close>

definition update_epoll_interest ::
    "('tag, 'k, 'w, 'n) io_params \<Rightarrow> u16 \<Rightarrow> int \<Rightarrow> IoWaitEntry \<Rightarrow> ('k, 'w, 'n) io_runtime \<Rightarrow>
     bool \<times> ('k, 'w, 'n) io_runtime" where
  "update_epoll_interest P i fd entry r =
     (let native_events = epoll_events_for_entry entry
      in if native_events = 0 then (True, epoll_del P i fd r)
         else let event = \<lparr>ev_events = native_events, ev_data = epoll_wait_token fd\<rparr>
              in case epoll_ctl P i EPOLL_CTL_MOD fd (Some event) r of (result, r) \<Rightarrow>
                   if result = 0 then (True, r)
                   else if errno_of P r \<noteq> ENOENT then (False, r)
                   else case epoll_ctl P i EPOLL_CTL_ADD fd (Some event) r of (result, r) \<Rightarrow>
                     if result = 0 then (True, r)
                     else if errno_of P r = EEXIST
                     then (case epoll_ctl P i EPOLL_CTL_MOD fd (Some event) r of (result, r) \<Rightarrow> (result = 0, r))
                     else (False, r))"

text \<open>\<^verbatim>\<open>io_waits_.erase(it)\<close> with \<^verbatim>\<open>EPOLL_CTL_DEL\<close> for an empty entry, else the new interest.\<close>

definition settle_entry ::
    "('tag, 'k, 'w, 'n) io_params \<Rightarrow> u16 \<Rightarrow> int \<Rightarrow> IoWaitEntry \<Rightarrow> ('k, 'w, 'n) io_runtime \<Rightarrow> ('k, 'w, 'n) io_runtime" where
  "settle_entry P i fd entry r =
     (if io_wait_entry_empty entry
      then epoll_del P i fd (update_backend i (\<lambda>b. b\<lparr>io_waits := hm_erase (par_waits P) (io_waits b) fd\<rparr>) r)
      else snd (update_epoll_interest P i fd entry r))"

definition set_entry ::
    "('tag, 'k, 'w, 'n) io_params \<Rightarrow> u16 \<Rightarrow> int \<Rightarrow> IoWaitEntry \<Rightarrow> ('k, 'w, 'n) io_runtime \<Rightarrow> ('k, 'w, 'n) io_runtime" where
  "set_entry P i fd entry = update_backend i (\<lambda>b. b\<lparr>io_waits := hm_assign (par_waits P) (io_waits b) fd entry\<rparr>)"

definition pool_destroy :: "u16 \<Rightarrow> raddr \<Rightarrow> ('k, 'w, 'n) io_runtime \<Rightarrow> ('k, 'w, 'n) io_runtime" where
  "pool_destroy i a = update_backend i (\<lambda>b. b\<lparr>io_wait_pool := (io_wait_pool b)(a := None)\<rparr>)"

definition register_native_io_wait ::
    "('tag, 'k, 'w, 'n) io_params \<Rightarrow> u16 \<Rightarrow> int \<Rightarrow> u32 \<Rightarrow> taddr \<Rightarrow> oaddr \<Rightarrow> ('k, 'w, 'n) io_runtime \<Rightarrow>
     bool \<times> ('k, 'w, 'n) io_runtime" where
  "register_native_io_wait P i fd events task result r =
     (let b = backend_at r i;
          unsupported_events = (events AND (io_readable OR io_writable) = 0);
          existing = hm_find (par_waits P) (io_waits b) fd
      in if epoll_fd r i < 0 \<or> fd < 0 \<or> events = 0 \<or> unsupported_events \<or>
            (existing \<noteq> None \<and> io_wait_events_conflict (the existing) events) \<or>
            hm_find (par_channels P) (net_channels b) fd \<noteq> None
         then let error = (if fd < 0 then EBADF
                           else if events = 0 \<or> unsupported_events then EINVAL
                           else if epoll_fd r i < 0 then ENOSYS
                           else EALREADY)
              in fail_io_result (Some result) fd error r
         else case par_alloc P (io_wait_pool b) of
                None \<Rightarrow> fail_io_result (Some result) fd ENOMEM r
              | Some registration \<Rightarrow>
                  if existing = None \<and> par_throws P (io_waits b) fd then fail_io_result (Some result) fd ENOMEM r
                  else
                    let entry = add_io_wait_registration
                                  (case existing of None \<Rightarrow> entry_default | Some e \<Rightarrow> e) registration events;
                        r = update_backend i (\<lambda>b. b\<lparr>
                              io_wait_pool := (io_wait_pool b)(registration \<mapsto>
                                \<lparr>reg_fd = fd, reg_events = events, reg_task = task, reg_result = result\<rparr>),
                              io_waits := hm_assign (par_waits P)
                                (fst (hm_emplace (par_waits P) (io_waits b) fd entry_default)) fd entry\<rparr>) r
                    in case update_epoll_interest P i fd entry r of
                         (True, r) \<Rightarrow>
                           (True, update_io_result result
                             (\<lambda>_. \<lparr>io_fd = fd, io_events = 0, io_errno = 0, io_value = 0, io_wait_token = None\<rparr>) r)
                       | (False, r) \<Rightarrow>
                           let error = (if errno_of P r = 0 then EIO else errno_of P r);
                               entry = remove_io_wait_registration entry registration;
                               r = set_entry P i fd entry r;
                               r = settle_entry P i fd entry r
                           in fail_io_result (Some result) fd error (pool_destroy i registration r))"

definition cancel_native_io_wait ::
    "('tag, 'k, 'w, 'n) io_params \<Rightarrow> u16 \<Rightarrow> oaddr \<Rightarrow> ('k, 'w, 'n) io_runtime \<Rightarrow>
     (bool \<times> ('k, 'w, 'n) io_runtime) option" where
  "cancel_native_io_wait P i w r =
     (let fd = io_fd (op_wait (io_op_at r w))
      in if epoll_fd r i < 0 then Some (fail_io_state w fd ENOSYS r)
         else
           let b = backend_at r i;
               found = hm_find (par_waits P) (io_waits b) fd;
               registration = (case found of
                                 None \<Rightarrow> None
                               | Some entry \<Rightarrow> find_io_wait_registration (\<lambda>a. the (io_wait_pool b a)) entry w)
           in if fd < 0 \<or> found = None \<or> registration = None then Some (fail_io_state w fd ENOENT r)
              else
                let a = the registration;
                    task = reg_task (the (io_wait_pool b a));
                    entry = remove_io_wait_registration (the found) a;
                    r = set_entry P i fd entry r;
                    r = settle_entry P i fd entry r;
                    r = update_io_result w (\<lambda>x. set_io_result_error x fd ECANCELED) r
                in if Some task \<noteq> ex_running_task (executor_at r i)
                   then map_option (\<lambda>r. (True, pool_destroy i a r)) (enqueue_pending_blocking P i task Auto r)
                   else Some (True, pool_destroy i a r))"

subsection \<open>Channels of the network layer\<close>

definition update_epoll_net_channel_interest ::
    "('tag, 'k, 'w, 'n) io_params \<Rightarrow> u16 \<Rightarrow> u64 \<Rightarrow> u32 \<Rightarrow> ('k, 'w, 'n) io_runtime \<Rightarrow> bool \<times> ('k, 'w, 'n) io_runtime" where
  "update_epoll_net_channel_interest P i channel events r =
     (let ch = net_channel_at r channel
      in if epoll_fd r i < 0 \<or> channel = 0 \<or> ch_fd ch < 0 then (False, r)
         else if events AND (net_io_readable OR net_io_writable) = 0
         then let r = (if ch_active ch then epoll_del P i (ch_fd ch) r else r)
              in (True, update_channel channel
                   (\<lambda>ch. ch\<lparr>ch_active := False, ch_interests := 0, ch_backend_token := None\<rparr>) r)
         else
           let event = \<lparr>ev_events = epoll_events_for_net_channel events, ev_data = epoll_channel_token channel\<rparr>;
               accept = update_channel channel (\<lambda>ch. ch\<lparr>ch_active := True, ch_interests := events\<rparr>)
           in if ch_active ch
              then (case epoll_ctl P i EPOLL_CTL_MOD (ch_fd ch) (Some event) r of (result, r) \<Rightarrow>
                      if result \<noteq> 0 then (False, r) else (True, accept r))
              else (case epoll_ctl P i EPOLL_CTL_ADD (ch_fd ch) (Some event) r of (result, r) \<Rightarrow>
                      if result \<noteq> 0
                      then (if errno_of P r \<noteq> EEXIST then (False, r)
                            else case epoll_ctl P i EPOLL_CTL_MOD (ch_fd ch) (Some event) r of (result, r) \<Rightarrow>
                                   if result \<noteq> 0 then (False, r) else (True, accept r))
                      else (True, accept r)))"

definition update_net_channel_interest ::
    "('tag, 'k, 'w, 'n) io_params \<Rightarrow> u16 \<Rightarrow> u64 \<Rightarrow> u32 \<Rightarrow> ('k, 'w, 'n) io_runtime \<Rightarrow> bool \<times> ('k, 'w, 'n) io_runtime" where
  "update_net_channel_interest = update_epoll_net_channel_interest"

definition erase_channel ::
    "('tag, 'k, 'w, 'n) io_params \<Rightarrow> u16 \<Rightarrow> int \<Rightarrow> ('k, 'w, 'n) io_runtime \<Rightarrow> ('k, 'w, 'n) io_runtime" where
  "erase_channel P i fd =
     update_backend i (\<lambda>b. b\<lparr>net_channels := hm_erase (par_channels P) (net_channels b) fd\<rparr>)"

definition register_net_channel ::
    "('tag, 'k, 'w, 'n) io_params \<Rightarrow> u16 \<Rightarrow> u64 \<Rightarrow> u32 \<Rightarrow> ('k, 'w, 'n) io_runtime \<Rightarrow> bool \<times> ('k, 'w, 'n) io_runtime" where
  "register_net_channel P i channel events r =
     (let ch = net_channel_at r channel; b = backend_at r i
      in if rt_current r \<noteq> i \<or> channel = 0 \<or> ch_fd ch < 0 \<or> ch_on_event ch = None then (False, r)
         else if \<not> io_backend_available (executor_at r i) \<or>
                 hm_find (par_channels P) (net_channels b) (ch_fd ch) \<noteq> None \<or>
                 hm_find (par_waits P) (io_waits b) (ch_fd ch) \<noteq> None
         then (False, r)
         else
           let r = update_channel channel
                     (\<lambda>ch. ch\<lparr>ch_active := False, ch_interests := 0, ch_backend_token := None\<rparr>) r
           in case hm_emplace (par_channels P) (net_channels b) (ch_fd ch) channel of (m, inserted) \<Rightarrow>
                let r = update_backend i (\<lambda>b. b\<lparr>net_channels := m\<rparr>) r
                in if \<not> inserted then (False, r)
                   else case update_net_channel_interest P i channel events r of (ok, r) \<Rightarrow>
                     if \<not> ok
                     then (False, update_channel channel (\<lambda>ch. ch\<lparr>ch_active := False, ch_interests := 0\<rparr>)
                             (erase_channel P i (ch_fd ch) r))
                     else (True, r))"

definition update_net_channel ::
    "('tag, 'k, 'w, 'n) io_params \<Rightarrow> u16 \<Rightarrow> u64 \<Rightarrow> u32 \<Rightarrow> ('k, 'w, 'n) io_runtime \<Rightarrow> bool \<times> ('k, 'w, 'n) io_runtime" where
  "update_net_channel P i channel events r =
     (let ch = net_channel_at r channel
      in if rt_current r \<noteq> i \<or> channel = 0 \<or> ch_fd ch < 0 then (False, r)
         else case hm_find (par_channels P) (net_channels (backend_at r i)) (ch_fd ch) of
                None \<Rightarrow> (False, r)
              | Some p \<Rightarrow> if p \<noteq> channel then (False, r) else update_net_channel_interest P i channel events r)"

definition unregister_net_channel ::
    "('tag, 'k, 'w, 'n) io_params \<Rightarrow> u16 \<Rightarrow> u64 \<Rightarrow> ('k, 'w, 'n) io_runtime \<Rightarrow> bool \<times> ('k, 'w, 'n) io_runtime" where
  "unregister_net_channel P i channel r =
     (let ch = net_channel_at r channel
      in if rt_current r \<noteq> i \<or> channel = 0 \<or> ch_fd ch < 0 then (False, r)
         else case hm_find (par_channels P) (net_channels (backend_at r i)) (ch_fd ch) of
                None \<Rightarrow> (False, r)
              | Some p \<Rightarrow>
                  if p \<noteq> channel then (False, r)
                  else let r = snd (update_net_channel_interest P i channel 0 r);
                           r = erase_channel P i (ch_fd ch) r
                       in (True, update_channel channel (\<lambda>ch. ch\<lparr>ch_active := False, ch_interests := 0\<rparr>) r))"

subsection \<open>Starting and closing the back end\<close>

definition clear_entry :: "(raddr \<rightharpoonup> IoWaitRegistration) \<Rightarrow> IoWaitEntry \<Rightarrow> (raddr \<rightharpoonup> IoWaitRegistration)" where
  "clear_entry pool entry =
     (let pool = (case entry_read entry of None \<Rightarrow> pool | Some a \<Rightarrow> pool(a := None))
      in case entry_write entry of
           None \<Rightarrow> pool
         | Some a \<Rightarrow> if entry_write entry \<noteq> entry_read entry then pool(a := None) else pool)"

definition clear_io_waits ::
    "('tag, 'k, 'w, 'n) io_params \<Rightarrow> u16 \<Rightarrow> ('k, 'w, 'n) io_runtime \<Rightarrow> ('k, 'w, 'n) io_runtime" where
  "clear_io_waits P i =
     update_backend i (\<lambda>b. b\<lparr>io_wait_pool := foldl clear_entry (io_wait_pool b) (map snd (hm_items (par_waits P) (io_waits b))),
                              io_waits := hm_empty (par_waits P)\<rparr>)"

definition close_native_io_backend ::
    "('tag, 'k, 'w, 'n) io_params \<Rightarrow> u16 \<Rightarrow> ('k, 'w, 'n) io_runtime \<Rightarrow> ('k, 'w, 'n) io_runtime" where
  "close_native_io_backend P i r =
     (let r = clear_io_waits P i r;
          r = foldl (\<lambda>r (fd, p). if p \<noteq> 0
                then update_channel p (\<lambda>ch. ch\<lparr>ch_active := False, ch_interests := 0, ch_backend_token := None\<rparr>) r
                else r) r (hm_items (par_channels P) (net_channels (backend_at r i)));
          r = update_backend i (\<lambda>b. b\<lparr>net_channels := hm_empty (par_channels P)\<rparr>) r;
          wake = io_wake_fd (backend_at r i);
          r = (if 0 \<le> wake
               then update_backend i (\<lambda>b. b\<lparr>io_wake_fd := - 1\<rparr>)
                      (r\<lparr>io_kernel := sys_close (par_kernel P) wake (io_kernel r)\<rparr>)
               else r);
          epoll = epoll_fd r i;
          r = (if 0 \<le> epoll
               then update_executor i (\<lambda>e. e\<lparr>ex_io_epoll_fd := - 1\<rparr>)
                      (r\<lparr>io_kernel := sys_close (par_kernel P) epoll (io_kernel r)\<rparr>)
               else r)
      in update_executor i (\<lambda>e. e\<lparr>ex_io_wake_pending := False\<rparr>) r)"

definition init_native_io_backend ::
    "('tag, 'k, 'w, 'n) io_params \<Rightarrow> u16 \<Rightarrow> ('k, 'w, 'n) io_runtime \<Rightarrow> bool \<times> ('k, 'w, 'n) io_runtime" where
  "init_native_io_backend P i r =
     (if \<not> io_thread (executor_at r i) then (False, r)
      else if 0 \<le> epoll_fd r i then (True, r)
      else case sys_epoll_create1 (par_kernel P) (io_kernel r) of (fd, k) \<Rightarrow>
        let r = update_executor i (\<lambda>e. e\<lparr>ex_io_epoll_fd := fd\<rparr>) (r\<lparr>io_kernel := k\<rparr>)
        in if fd < 0 then (False, r)
           else case sys_eventfd (par_kernel P) (io_kernel r) of (wake, k) \<Rightarrow>
             let r = update_backend i (\<lambda>b. b\<lparr>io_wake_fd := wake\<rparr>) (r\<lparr>io_kernel := k\<rparr>)
             in if wake < 0 then (False, close_native_io_backend P i r)
                else case epoll_ctl P i EPOLL_CTL_ADD wake (Some \<lparr>ev_events = EPOLLIN, ev_data = epoll_wake_token\<rparr>) r of
                  (result, r) \<Rightarrow> if result \<noteq> 0 then (False, close_native_io_backend P i r) else (True, r))"

definition init_io_backend ::
    "('tag, 'k, 'w, 'n) io_params \<Rightarrow> u16 \<Rightarrow> ('k, 'w, 'n) io_runtime \<Rightarrow> ('k, 'w, 'n) io_runtime" where
  "init_io_backend P i r =
     (if \<not> io_thread (executor_at r i) \<or> io_backend_available (executor_at r i) then r
      else snd (init_native_io_backend P i r))"

definition close_io_backend ::
    "('tag, 'k, 'w, 'n) io_params \<Rightarrow> u16 \<Rightarrow> ('k, 'w, 'n) io_runtime \<Rightarrow> ('k, 'w, 'n) io_runtime" where
  "close_io_backend = close_native_io_backend"

subsection \<open>Dispatching events\<close>

definition collect_ready ::
    "(raddr \<Rightarrow> IoWaitRegistration) \<Rightarrow> u32 \<Rightarrow> raddr list \<Rightarrow> raddr ptr \<Rightarrow> raddr list" where
  "collect_ready pool ready_events completed registration =
     (case registration of
        None \<Rightarrow> completed
      | Some a \<Rightarrow>
          if \<not> io_wait_registration_ready (pool a) ready_events then completed
          else if completed = [] \<or> hd completed \<noteq> a then completed @ [a]
          else completed)"

definition complete_wait ::
    "('tag, 'k, 'w, 'n) io_params \<Rightarrow> u16 \<Rightarrow> int \<Rightarrow> u32 \<Rightarrow> raddr \<Rightarrow> ('k, 'w, 'n) io_runtime \<Rightarrow>
     ('k, 'w, 'n) io_runtime option" where
  "complete_wait P i fd ready_events a r =
     (let b = backend_at r i
      in case (hm_find (par_waits P) (io_waits b) fd, io_wait_pool b a) of
           (Some entry, Some registration) \<Rightarrow>
             let r = set_entry P i fd (remove_io_wait_registration entry a) r;
                 r = update_io_result (reg_result registration)
                       (\<lambda>x. x\<lparr>io_fd := fd, io_events := ready_events, io_errno := 0\<rparr>) r
             in map_option (pool_destroy i a) (enqueue_pending_blocking P i (reg_task registration) Auto r)
         | _ \<Rightarrow> None)"

fun complete_waits ::
    "('tag, 'k, 'w, 'n) io_params \<Rightarrow> u16 \<Rightarrow> int \<Rightarrow> u32 \<Rightarrow> raddr list \<Rightarrow> ('k, 'w, 'n) io_runtime \<Rightarrow>
     ('k, 'w, 'n) io_runtime option" where
  "complete_waits P i fd ready_events [] r = Some r"
| "complete_waits P i fd ready_events (a # as) r =
     (case complete_wait P i fd ready_events a r of
        None \<Rightarrow> None
      | Some r \<Rightarrow> complete_waits P i fd ready_events as r)"

definition poll_wait_event ::
    "('tag, 'k, 'w, 'n) io_params \<Rightarrow> u16 \<Rightarrow> int \<Rightarrow> u32 \<Rightarrow> ('k, 'w, 'n) io_runtime \<Rightarrow>
     (bool \<times> ('k, 'w, 'n) io_runtime) option" where
  "poll_wait_event P i fd events r =
     (let b = backend_at r i
      in case hm_find (par_waits P) (io_waits b) fd of
           None \<Rightarrow> Some (False, epoll_del P i fd r)
         | Some entry \<Rightarrow>
             let ready_events = io_events_from_native events;
                 pool = (\<lambda>a. the (io_wait_pool b a));
                 completed = collect_ready pool ready_events
                               (collect_ready pool ready_events [] (entry_read entry)) (entry_write entry)
             in if completed = [] then Some (False, snd (update_epoll_interest P i fd entry r))
                else case complete_waits P i fd ready_events completed r of
                       None \<Rightarrow> None
                     | Some r \<Rightarrow>
                         (case hm_find (par_waits P) (io_waits (backend_at r i)) fd of
                            None \<Rightarrow> None
                          | Some entry \<Rightarrow> Some (True, settle_entry P i fd entry r)))"

definition poll_event ::
    "('tag, 'k, 'w, 'n) io_params \<Rightarrow> u16 \<Rightarrow> epoll_event \<Rightarrow> ('k, 'w, 'n) io_runtime \<Rightarrow>
     (bool \<times> ('k, 'w, 'n) io_runtime) option" where
  "poll_event P i event r =
     (let token = ev_data event
      in if epoll_token_is_wake token then map_option (Pair True) (drain_io_wake P i r)
         else if epoll_token_is_channel token
         then (let channel = epoll_token_channel token; ch = net_channel_at r channel
               in if channel \<noteq> 0 \<and> ch_active ch \<and> ch_on_event ch \<noteq> None
                  then map_option (Pair True)
                         (par_on_event P (the (ch_on_event ch)) (ch_owner ch) (io_events_from_native (ev_events event)) r)
                  else Some (False, r))
         else poll_wait_event P i (epoll_token_fd token) (ev_events event) r)"

fun poll_events ::
    "('tag, 'k, 'w, 'n) io_params \<Rightarrow> u16 \<Rightarrow> epoll_event list \<Rightarrow> bool \<Rightarrow> ('k, 'w, 'n) io_runtime \<Rightarrow>
     (bool \<times> ('k, 'w, 'n) io_runtime) option" where
  "poll_events P i [] did_work r = Some (did_work, r)"
| "poll_events P i (event # events) did_work r =
     (case poll_event P i event r of
        None \<Rightarrow> None
      | Some (worked, r) \<Rightarrow> poll_events P i events (did_work \<or> worked) r)"

definition poll_native_io ::
    "('tag, 'k, 'w, 'n) io_params \<Rightarrow> u16 \<Rightarrow> int \<Rightarrow> bool \<Rightarrow> ('k, 'w, 'n) io_runtime \<Rightarrow>
     (bool \<times> ('k, 'w, 'n) io_runtime) option" where
  "poll_native_io P i timeout_ms did_work r =
     (let b = backend_at r i
      in if epoll_fd r i < 0 then Some (did_work, r)
         else if timeout_ms = 0 \<and> hm_is_empty (par_waits P) (io_waits b) \<and>
                 hm_is_empty (par_channels P) (net_channels b) \<and> \<not> ex_io_wake_pending (executor_at r i)
         then Some (did_work, r)
         else case sys_epoll_wait (par_kernel P) (epoll_fd r i) 64 timeout_ms (io_kernel r) of
                (count, events, k) \<Rightarrow>
                  let r = r\<lparr>io_kernel := k\<rparr>
                  in if count \<le> 0 then Some (did_work, r)
                     else poll_events P i (take (nat count) events) did_work r)"

definition poll_io ::
    "('tag, 'k, 'w, 'n) io_params \<Rightarrow> u16 \<Rightarrow> int \<Rightarrow> ('k, 'w, 'n) io_runtime \<Rightarrow> (bool \<times> ('k, 'w, 'n) io_runtime) option" where
  "poll_io P i timeout_ms r = poll_native_io P i timeout_ms False r"

subsection \<open>The runtime's I/O calls\<close>

definition register_io_wait ::
    "('tag, 'k, 'w, 'n) io_params \<Rightarrow> u16 \<Rightarrow> int \<Rightarrow> u32 \<Rightarrow> taddr ptr \<Rightarrow> oaddr ptr \<Rightarrow> ('k, 'w, 'n) io_runtime \<Rightarrow>
     bool \<times> ('k, 'w, 'n) io_runtime" where
  "register_io_wait P i fd events task result r =
     (if rt_current r \<noteq> i \<or> task = None \<or> result = None then fail_io_result result fd EINVAL r
      else register_native_io_wait P i fd events (the task) (the result) r)"

definition executor_cancel_io ::
    "('tag, 'k, 'w, 'n) io_params \<Rightarrow> u16 \<Rightarrow> oaddr \<Rightarrow> ('k, 'w, 'n) io_runtime \<Rightarrow> (bool \<times> ('k, 'w, 'n) io_runtime) option" where
  "executor_cancel_io P i w r =
     (let state = io_op_at r w
      in if op_waiting state \<and> io_errno (op_wait state) = ECANCELED then Some (True, r)
         else if rt_current r \<noteq> i
         then Some (False, update_io_result w (\<lambda>x. x\<lparr>io_events := io_error, io_errno := EINVAL, io_value := - EINVAL\<rparr>) r)
         else if \<not> op_waiting state then Some (fail_io_state w (io_fd (op_wait state)) ENOENT r)
         else if op_wait_kind state = Readiness then cancel_native_io_wait P i w r
         else Some (False, update_io_result w (\<lambda>x. x\<lparr>io_events := io_error, io_errno := ENOSYS, io_value := - ENOSYS\<rparr>) r))"

definition runtime_io_backend_available :: "u16 \<Rightarrow> ('k, 'w, 'n) io_runtime \<Rightarrow> bool" where
  "runtime_io_backend_available index r \<longleftrightarrow>
     unat index < length (rt_executors r) \<and> io_backend_available (executor_at r index)"

definition io_wait ::
    "('tag, 'k, 'w, 'n) io_params \<Rightarrow> u16 \<Rightarrow> int \<Rightarrow> u32 \<Rightarrow> taddr ptr \<Rightarrow> oaddr ptr \<Rightarrow> ('k, 'w, 'n) io_runtime \<Rightarrow>
     bool \<times> ('k, 'w, 'n) io_runtime" where
  "io_wait P index fd events task result r =
     (if task = None \<or> result = None \<or> fd < 0 \<or> events = 0
      then fail_io_result result fd (if fd < 0 then EBADF else EINVAL) r
      else if length (rt_executors r) \<le> unat index then fail_io_result result fd EINVAL r
      else register_io_wait P index fd events task result r)"

definition cancel_io ::
    "('tag, 'k, 'w, 'n) io_params \<Rightarrow> u16 \<Rightarrow> oaddr \<Rightarrow> ('k, 'w, 'n) io_runtime \<Rightarrow> (bool \<times> ('k, 'w, 'n) io_runtime) option" where
  "cancel_io P index w r =
     (if length (rt_executors r) \<le> unat index then Some (fail_io_state w (- 1) EINVAL r)
      else executor_cancel_io P index w r)"

definition register_timer_wait :: "int \<Rightarrow> taddr ptr \<Rightarrow> oaddr ptr \<Rightarrow> ('k, 'w, 'n) io_runtime \<Rightarrow> bool \<times> ('k, 'w, 'n) io_runtime" where
  "register_timer_wait timeout task result r = fail_io_result result (- 1) ENOSYS r"

definition io_timer_wait ::
    "u16 \<Rightarrow> int \<Rightarrow> taddr ptr \<Rightarrow> oaddr ptr \<Rightarrow> ('k, 'w, 'n) io_runtime \<Rightarrow> bool \<times> ('k, 'w, 'n) io_runtime" where
  "io_timer_wait index timeout task result r =
     (if task = None \<or> result = None \<or> timeout \<le> 0 then fail_io_result result (- 1) EINVAL r
      else if length (rt_executors r) \<le> unat index then fail_io_result result (- 1) EINVAL r
      else register_timer_wait timeout task result r)"

definition net_register_channel ::
    "('tag, 'k, 'w, 'n) io_params \<Rightarrow> u16 \<Rightarrow> u64 \<Rightarrow> u32 \<Rightarrow> ('k, 'w, 'n) io_runtime \<Rightarrow> bool \<times> ('k, 'w, 'n) io_runtime" where
  "net_register_channel P index channel events r =
     (if length (rt_executors r) \<le> unat index then (False, r) else register_net_channel P index channel events r)"

definition net_update_channel ::
    "('tag, 'k, 'w, 'n) io_params \<Rightarrow> u16 \<Rightarrow> u64 \<Rightarrow> u32 \<Rightarrow> ('k, 'w, 'n) io_runtime \<Rightarrow> bool \<times> ('k, 'w, 'n) io_runtime" where
  "net_update_channel P index channel events r =
     (if length (rt_executors r) \<le> unat index then (False, r) else update_net_channel P index channel events r)"

definition net_unregister_channel ::
    "('tag, 'k, 'w, 'n) io_params \<Rightarrow> u16 \<Rightarrow> u64 \<Rightarrow> ('k, 'w, 'n) io_runtime \<Rightarrow> bool \<times> ('k, 'w, 'n) io_runtime" where
  "net_unregister_channel P index channel r =
     (if length (rt_executors r) \<le> unat index then (False, r) else unregister_net_channel P index channel r)"

end
