(* ===== verification/Epoll_Waits.thy ===== *)
theory Epoll_Waits
  imports Epoll_Backend "HOL-Library.AList"
begin

unbundle bit_operations_syntax

section \<open>The table of waits and the kernel agree\<close>

text \<open>
  The invariant of the wait table (every registration stands in the entry of its descriptor, once
  per direction it waits for) and its agreement with the interest list of the kernel, with the
  operations that keep them.  \<open>kernel_laws\<close> states what the manual of \<^verbatim>\<open>epoll_ctl\<close> promises, in terms of a
  function \<open>interest\<close> that gives the kernel's interest list, for a kernel that does not run out of
  memory when it changes or removes an entry it has; adding one may fail.
\<close>

definition kernel_laws :: "'k kernel_ops \<Rightarrow> ('k \<Rightarrow> int \<Rightarrow> int \<rightharpoonup> epoll_event) \<Rightarrow> bool" where
  "kernel_laws K interest \<longleftrightarrow>
     (\<forall>k ep fd event result k'. sys_epoll_ctl K ep EPOLL_CTL_ADD fd (Some event) k = (result, k') \<longrightarrow>
        (if interest k ep fd = None
         then result = 0 \<and> interest k' = (interest k)(ep := (interest k ep)(fd \<mapsto> event)) \<or>
              result \<noteq> 0 \<and> sys_errno K k' \<noteq> EEXIST \<and> interest k' = interest k
         else result \<noteq> 0 \<and> sys_errno K k' = EEXIST \<and> interest k' = interest k)) \<and>
     (\<forall>k ep fd event result k'. sys_epoll_ctl K ep EPOLL_CTL_MOD fd (Some event) k = (result, k') \<longrightarrow>
        (if interest k ep fd = None then result \<noteq> 0 \<and> interest k' = interest k
         else result = 0 \<and> interest k' = (interest k)(ep := (interest k ep)(fd \<mapsto> event)))) \<and>
     (\<forall>k ep fd result k'. sys_epoll_ctl K ep EPOLL_CTL_DEL fd None k = (result, k') \<longrightarrow>
        interest k' = (interest k)(ep := (interest k ep)(fd := None)))"

lemma kernel_add:
  assumes "kernel_laws K interest" "sys_epoll_ctl K ep EPOLL_CTL_ADD fd (Some event) k = (result, k')"
  shows "if interest k ep fd = None
         then result = 0 \<and> interest k' = (interest k)(ep := (interest k ep)(fd \<mapsto> event)) \<or>
              result \<noteq> 0 \<and> sys_errno K k' \<noteq> EEXIST \<and> interest k' = interest k
         else result \<noteq> 0 \<and> sys_errno K k' = EEXIST \<and> interest k' = interest k"
  using assms unfolding kernel_laws_def by blast

lemma kernel_mod:
  assumes "kernel_laws K interest" "sys_epoll_ctl K ep EPOLL_CTL_MOD fd (Some event) k = (result, k')"
  shows "if interest k ep fd = None then result \<noteq> 0 \<and> interest k' = interest k
         else result = 0 \<and> interest k' = (interest k)(ep := (interest k ep)(fd \<mapsto> event))"
  using assms unfolding kernel_laws_def by blast

lemma kernel_del:
  assumes "kernel_laws K interest" "sys_epoll_ctl K ep EPOLL_CTL_DEL fd None k = (result, k')"
  shows "interest k' = (interest k)(ep := (interest k ep)(fd := None))"
  using assms unfolding kernel_laws_def by blast

subsection \<open>A kernel that satisfies the laws\<close>

text \<open>One interest list per epoll descriptor and the last error number; events are scripted.\<close>

record table_kernel =
  tk_interest :: "int \<Rightarrow> int \<rightharpoonup> epoll_event"
  tk_errno :: int
  tk_next_fd :: int

definition table_ctl ::
    "int \<Rightarrow> epoll_op \<Rightarrow> int \<Rightarrow> epoll_event ptr \<Rightarrow> table_kernel \<Rightarrow> int \<times> table_kernel" where
  "table_ctl ep op fd event k =
     (case op of
        EPOLL_CTL_ADD \<Rightarrow>
          if tk_interest k ep fd = None then (0, k\<lparr>tk_interest := (tk_interest k)(ep := (tk_interest k ep)(fd := event))\<rparr>)
          else (- 1, k\<lparr>tk_errno := EEXIST\<rparr>)
      | EPOLL_CTL_MOD \<Rightarrow>
          if tk_interest k ep fd = None then (- 1, k\<lparr>tk_errno := ENOENT\<rparr>)
          else (0, k\<lparr>tk_interest := (tk_interest k)(ep := (tk_interest k ep)(fd := event))\<rparr>)
      | EPOLL_CTL_DEL \<Rightarrow>
          if tk_interest k ep fd = None then (- 1, k\<lparr>tk_errno := ENOENT\<rparr>)
          else (0, k\<lparr>tk_interest := (tk_interest k)(ep := (tk_interest k ep)(fd := None))\<rparr>))"

definition table_ops :: "table_kernel kernel_ops" where
  "table_ops = \<lparr>sys_epoll_create1 = (\<lambda>k. (tk_next_fd k, k\<lparr>tk_next_fd := tk_next_fd k + 1\<rparr>)),
     sys_eventfd = (\<lambda>k. (tk_next_fd k, k\<lparr>tk_next_fd := tk_next_fd k + 1\<rparr>)),
     sys_epoll_ctl = table_ctl, sys_epoll_wait = (\<lambda>_ _ _ k. (0, [], k)), sys_close = (\<lambda>_ k. k),
     sys_read_counter = (\<lambda>_ k. (- 1, k)), sys_write_counter = (\<lambda>_ k. (8, k)), sys_errno = tk_errno\<rparr>"

lemma table_ops_laws: "kernel_laws table_ops tk_interest"
  by (auto simp: kernel_laws_def table_ops_def table_ctl_def fun_eq_iff split: if_splits)

definition alist_iter_ops :: "(('k \<times> 'v) list, 'k, 'v) hash_map_iter_ops" where
  "alist_iter_ops = hash_map_ops.extend alist_ops \<lparr>hm_items = AList.clearjunk\<rparr>"

lemma alist_iter_laws: "hash_map_iter_laws alist_iter_ops"
  using alist_ops_laws
  by (auto simp: hash_map_iter_laws_def alist_iter_ops_def hash_map_ops.defs distinct_clearjunk map_of_clearjunk alist_ops_def)

subsection \<open>Components of the state\<close>

lemma hash_map_iter_lawsD:
  assumes "hash_map_iter_laws M"
  shows "hm_find M (hm_empty M) k = None"
    and "hm_find M (hm_assign M m k v) = (hm_find M m)(k \<mapsto> v)"
    and "snd (hm_emplace M m k v) \<longleftrightarrow> hm_find M m k = None"
    and "hm_find M (fst (hm_emplace M m k v)) =
           (if hm_find M m k = None then (hm_find M m)(k \<mapsto> v) else hm_find M m)"
    and "hm_find M (hm_erase M m k) = (hm_find M m)(k := None)"
    and "map_of (hm_items M m) = hm_find M m" "distinct (map fst (hm_items M m))"
proof -
  have M: "hash_map_laws (hash_map_ops.truncate M)"
    and "\<forall>m. distinct (map fst (hm_items M m)) \<and> map_of (hm_items M m) = hm_find M m"
    using assms by (simp_all add: hash_map_iter_laws_def)
  then show "map_of (hm_items M m) = hm_find M m" "distinct (map fst (hm_items M m))" by simp_all
  show "hm_find M (hm_empty M) k = None"
    and "hm_find M (hm_assign M m k v) = (hm_find M m)(k \<mapsto> v)"
    and "snd (hm_emplace M m k v) \<longleftrightarrow> hm_find M m k = None"
    and "hm_find M (fst (hm_emplace M m k v)) =
           (if hm_find M m k = None then (hm_find M m)(k \<mapsto> v) else hm_find M m)"
    and "hm_find M (hm_erase M m k) = (hm_find M m)(k := None)"
    using hash_map_lawsD [OF M] by (simp_all add: hash_map_ops.defs)
qed

text \<open>The table, the channels and the registrations of executor \<open>i\<close>, as maps.\<close>

definition wait_table ::
    "('tag, 'k, 'w, 'n) io_params \<Rightarrow> u16 \<Rightarrow> ('k, 'w, 'n) io_runtime \<Rightarrow> int \<rightharpoonup> IoWaitEntry" where
  "wait_table P i r = hm_find (par_waits P) (io_waits (backend_at r i))"

definition channel_table ::
    "('tag, 'k, 'w, 'n) io_params \<Rightarrow> u16 \<Rightarrow> ('k, 'w, 'n) io_runtime \<Rightarrow> int \<rightharpoonup> u64" where
  "channel_table P i r = hm_find (par_channels P) (net_channels (backend_at r i))"

definition registrations :: "u16 \<Rightarrow> ('k, 'w, 'n) io_runtime \<Rightarrow> raddr \<rightharpoonup> IoWaitRegistration" where
  "registrations i r = io_wait_pool (backend_at r i)"

definition wait_event :: "int \<Rightarrow> IoWaitEntry \<Rightarrow> epoll_event" where
  "wait_event fd entry = \<lparr>ev_events = epoll_events_for_entry entry, ev_data = epoll_wait_token fd\<rparr>"

definition channel_event :: "u64 \<Rightarrow> NetIoChannel \<Rightarrow> epoll_event" where
  "channel_event p ch = \<lparr>ev_events = epoll_events_for_net_channel (ch_interests ch), ev_data = epoll_channel_token p\<rparr>"

definition wake_event :: epoll_event where
  "wake_event = \<lparr>ev_events = EPOLLIN, ev_data = epoll_wake_token\<rparr>"

text \<open>What the kernel should watch for executor \<open>i\<close>.\<close>

definition expected_interest ::
    "('tag, 'k, 'w, 'n) io_params \<Rightarrow> u16 \<Rightarrow> ('k, 'w, 'n) io_runtime \<Rightarrow> int \<rightharpoonup> epoll_event" where
  "expected_interest P i r fd =
     (if fd = io_wake_fd (backend_at r i) then Some wake_event
      else case wait_table P i r fd of
             Some entry \<Rightarrow> Some (wait_event fd entry)
           | None \<Rightarrow>
               (case channel_table P i r fd of
                  Some p \<Rightarrow> if ch_active (net_channel_at r p) then Some (channel_event p (net_channel_at r p)) else None
                | None \<Rightarrow> None))"

definition entry_ok :: "(raddr \<rightharpoonup> IoWaitRegistration) \<Rightarrow> int \<Rightarrow> IoWaitEntry \<Rightarrow> bool" where
  "entry_ok pool fd entry \<longleftrightarrow>
     (\<forall>a. entry_read entry = Some a \<longrightarrow>
        (\<exists>g. pool a = Some g \<and> reg_fd g = fd \<and> reg_events g AND io_readable \<noteq> 0)) \<and>
     (\<forall>a. entry_write entry = Some a \<longrightarrow>
        (\<exists>g. pool a = Some g \<and> reg_fd g = fd \<and> reg_events g AND io_writable \<noteq> 0))"

definition registered_in :: "(int \<rightharpoonup> IoWaitEntry) \<Rightarrow> raddr \<Rightarrow> IoWaitRegistration \<Rightarrow> bool" where
  "registered_in table a g \<longleftrightarrow>
     (\<exists>entry. table (reg_fd g) = Some entry \<and>
        (entry_read entry = Some a \<longleftrightarrow> reg_events g AND io_readable \<noteq> 0) \<and>
        (entry_write entry = Some a \<longleftrightarrow> reg_events g AND io_writable \<noteq> 0) \<and>
        (reg_events g AND io_readable \<noteq> 0 \<or> reg_events g AND io_writable \<noteq> 0))"

definition waits_inv ::
    "int \<Rightarrow> (int \<rightharpoonup> u64) \<Rightarrow> (int \<rightharpoonup> IoWaitEntry) \<Rightarrow> (raddr \<rightharpoonup> IoWaitRegistration) \<Rightarrow> bool" where
  "waits_inv wake channels table pool \<longleftrightarrow>
     (\<forall>fd entry. table fd = Some entry \<longrightarrow>
        0 \<le> fd \<and> fd \<noteq> wake \<and> \<not> io_wait_entry_empty entry \<and> entry_ok pool fd entry \<and> channels fd = None) \<and>
     (\<forall>a g. pool a = Some g \<longrightarrow> registered_in table a g)"

definition waits_ok :: "('tag, 'k, 'w, 'n) io_params \<Rightarrow> u16 \<Rightarrow> ('k, 'w, 'n) io_runtime \<Rightarrow> bool" where
  "waits_ok P i r \<longleftrightarrow>
     waits_inv (io_wake_fd (backend_at r i)) (channel_table P i r) (wait_table P i r) (registrations i r)"

definition kernel_agrees ::
    "('tag, 'k, 'w, 'n) io_params \<Rightarrow> ('k \<Rightarrow> int \<Rightarrow> int \<rightharpoonup> epoll_event) \<Rightarrow> u16 \<Rightarrow> ('k, 'w, 'n) io_runtime \<Rightarrow> bool" where
  "kernel_agrees P interest i r \<longleftrightarrow> interest (io_kernel r) (epoll_fd r i) = expected_interest P i r"

lemma backend_simps [simp]:
  "unat i < length (io_backends r) \<Longrightarrow> backend_at (update_backend i f r) i = f (backend_at r i)"
  "backend_at (r\<lparr>io_kernel := k\<rparr>) i = backend_at r i"
  "backend_at (update_io_result w g r) i = backend_at r i"
  "backend_at (update_channel p h r) i = backend_at r i"
  "length (io_backends (update_backend i f r)) = length (io_backends r)"
  "io_backends (update_io_result w g r) = io_backends r" "io_backends (update_channel p h r) = io_backends r"
  by (simp_all add: backend_at_def update_backend_def update_io_result_def update_channel_def)

lemma io_kernel_simps [simp]:
  "io_kernel (update_backend i f r) = io_kernel r" "io_kernel (update_io_result w g r) = io_kernel r"
  "io_kernel (update_channel p h r) = io_kernel r"
  by (simp_all add: update_backend_def update_io_result_def update_channel_def)

lemma epoll_fd_simps [simp]:
  "epoll_fd (update_backend i f r) j = epoll_fd r j" "epoll_fd (update_io_result w g r) j = epoll_fd r j"
  "epoll_fd (r\<lparr>io_kernel := k\<rparr>) j = epoll_fd r j" "epoll_fd (update_channel p h r) j = epoll_fd r j"
  by (simp_all add: epoll_fd_def executor_at_def update_backend_def update_io_result_def update_channel_def)

lemma channel_at_simps [simp]:
  "net_channel_at (update_backend i f r) = net_channel_at r" "net_channel_at (update_io_result w g r) = net_channel_at r"
  "net_channel_at (update_channel p h r) = (net_channel_at r)(p := h (net_channel_at r p))"
  by (simp_all add: update_backend_def update_io_result_def update_channel_def)

lemma io_op_simps [simp]:
  "io_op_at (update_backend i f r) = io_op_at r" "io_op_at (update_channel p h r) = io_op_at r"
  "io_op_at (update_io_result w g r) =
     (io_op_at r)(w := (io_op_at r w)\<lparr>op_wait := g (op_wait (io_op_at r w))\<rparr>)"
  by (simp_all add: update_backend_def update_io_result_def update_channel_def)

lemma table_simps [simp]:
  "wait_table P i (r\<lparr>io_kernel := k\<rparr>) = wait_table P i r" "wait_table P i (update_io_result w g r) = wait_table P i r"
  "wait_table P i (update_channel p h r) = wait_table P i r"
  "channel_table P i (r\<lparr>io_kernel := k\<rparr>) = channel_table P i r"
  "channel_table P i (update_io_result w g r) = channel_table P i r"
  "channel_table P i (update_channel p h r) = channel_table P i r"
  "registrations i (r\<lparr>io_kernel := k\<rparr>) = registrations i r"
  "registrations i (update_io_result w g r) = registrations i r"
  "registrations i (update_channel p h r) = registrations i r"
  by (simp_all add: wait_table_def channel_table_def registrations_def)

lemma epoll_ctl_kernel:
  "epoll_ctl P i op fd event r = (result, r') \<Longrightarrow>
   \<exists>k. sys_epoll_ctl (par_kernel P) (epoll_fd r i) op fd event (io_kernel r) = (result, k) \<and> r' = r\<lparr>io_kernel := k\<rparr>"
  by (auto simp: epoll_ctl_def split: prod.splits)

lemma entry_events_zero: "epoll_events_for_entry entry = 0 \<longleftrightarrow> io_wait_entry_empty entry"
  by (simp add: epoll_events_for_entry_def io_wait_entry_empty_def io_wait_registration_uses_native_backend_def
      platform_events)

subsection \<open>Changing one entry\<close>

lemma update_interest_spec:
  assumes laws: "kernel_laws (par_kernel P) interest" and entry: "\<not> io_wait_entry_empty entry"
    and update: "update_epoll_interest P i fd entry r = (ok, r')"
  obtains k where "r' = r\<lparr>io_kernel := k\<rparr>"
    and "ok \<Longrightarrow> interest k = (interest (io_kernel r))
           (epoll_fd r i := (interest (io_kernel r) (epoll_fd r i))(fd \<mapsto> wait_event fd entry))"
    and "\<not> ok \<Longrightarrow> interest k = interest (io_kernel r) \<and> interest (io_kernel r) (epoll_fd r i) fd = None"
proof -
  define upd where "upd k = r\<lparr>io_kernel := k\<rparr>" for k
  let ?K = "par_kernel P" and ?ep = "epoll_fd r i" and ?ev = "wait_event fd entry"
  have nz: "epoll_events_for_entry entry \<noteq> 0" using entry by (simp add: entry_events_zero)
  obtain x1 k1 where m1: "sys_epoll_ctl ?K ?ep EPOLL_CTL_MOD fd (Some ?ev) (io_kernel r) = (x1, k1)" by fastforce
  obtain x2 k2 where a2: "sys_epoll_ctl ?K ?ep EPOLL_CTL_ADD fd (Some ?ev) k1 = (x2, k2)" by fastforce
  obtain x3 k3 where m3: "sys_epoll_ctl ?K ?ep EPOLL_CTL_MOD fd (Some ?ev) k2 = (x3, k3)" by fastforce
  have ctl: "epoll_ctl P i EPOLL_CTL_MOD fd (Some ?ev) r = (x1, upd k1)"
    "epoll_ctl P i EPOLL_CTL_ADD fd (Some ?ev) (upd k1) = (x2, upd k2)"
    "epoll_ctl P i EPOLL_CTL_MOD fd (Some ?ev) (upd k2) = (x3, upd k3)"
    using m1 a2 m3 by (simp_all add: epoll_ctl_def upd_def)
  have errno: "errno_of P (upd k) = sys_errno ?K k" for k by (simp add: errno_of_def upd_def)
  have "update_epoll_interest P i fd entry r =
     (if x1 = 0 then (True, upd k1)
      else if sys_errno ?K k1 \<noteq> ENOENT then (False, upd k1)
      else if x2 = 0 then (True, upd k2)
      else if sys_errno ?K k2 = EEXIST then (x3 = 0, upd k3)
      else (False, upd k2))"
    by (simp only: update_epoll_interest_def Let_def nz if_False flip: wait_event_def)
       (simp only: ctl errno prod.case)
  note unfold = this [unfolded update]
  let ?I = "interest (io_kernel r)"
  show thesis
  proof (cases "?I ?ep fd = None")
    case False
    then have "x1 = 0" and k1: "interest k1 = ?I(?ep := (?I ?ep)(fd \<mapsto> ?ev))"
      using kernel_mod [OF laws m1] by simp_all
    then have "ok" "r' = upd k1" using unfold by simp_all
    then show thesis using k1 by (intro that [of k1]) (simp_all add: upd_def)
  next
    case True
    then have k1: "x1 \<noteq> 0" "interest k1 = ?I" using kernel_mod [OF laws m1] by simp_all
    have k2: "x2 = 0 \<and> interest k2 = ?I(?ep := (?I ?ep)(fd \<mapsto> ?ev)) \<or>
        x2 \<noteq> 0 \<and> sys_errno ?K k2 \<noteq> EEXIST \<and> interest k2 = ?I"
      using kernel_add [OF laws a2] True k1(2) by simp
    consider "sys_errno ?K k1 \<noteq> ENOENT" "\<not> ok" "r' = upd k1"
      | "x2 = 0" "ok" "r' = upd k2" | "x2 \<noteq> 0" "\<not> ok" "r' = upd k2"
      using unfold k1(1) k2 by (auto split: if_splits)
    then show thesis
    proof cases
      case 1
      then show thesis using k1(2) True by (intro that [of k1]) (simp_all add: upd_def)
    next
      case 2
      then show thesis using k2 by (intro that [of k2]) (simp_all add: upd_def)
    next
      case 3
      then show thesis using k2 True by (intro that [of k2]) (simp_all add: upd_def)
    qed
  qed
qed

lemma epoll_del_spec:
  assumes "kernel_laws (par_kernel P) interest"
  obtains k where "epoll_del P i fd r = r\<lparr>io_kernel := k\<rparr>"
    and "interest k = (interest (io_kernel r))(epoll_fd r i := (interest (io_kernel r) (epoll_fd r i))(fd := None))"
proof -
  obtain x k where "sys_epoll_ctl (par_kernel P) (epoll_fd r i) EPOLL_CTL_DEL fd None (io_kernel r) = (x, k)" by fastforce
  then show thesis
    using that kernel_del [OF assms] by (simp add: epoll_del_def epoll_ctl_def)
qed

definition kept_entry :: "IoWaitEntry \<Rightarrow> IoWaitEntry option" where
  "kept_entry entry = (if io_wait_entry_empty entry then None else Some entry)"

lemma settle_spec:
  fixes r :: "('k, 'w, 'n) io_runtime"
  assumes laws: "kernel_laws (par_kernel P) interest" "hash_map_iter_laws (par_waits P)"
    and i: "unat i < length (io_backends r)"
    and here: "wait_table P i r fd = Some entry"
    and watched: "io_wait_entry_empty entry \<or> interest (io_kernel r) (epoll_fd r i) fd \<noteq> None"
  obtains k and f :: "('w, 'n) io_backend \<Rightarrow> ('w, 'n) io_backend" where "settle_entry P i fd entry r = (update_backend i f r)\<lparr>io_kernel := k\<rparr>"
    and "\<And>b. io_wake_fd (f b) = io_wake_fd b" "\<And>b. net_channels (f b) = net_channels b"
    and "\<And>b. io_wait_pool (f b) = io_wait_pool b"
    and "wait_table P i (update_backend i f r) = (wait_table P i r)(fd := kept_entry entry)"
    and "interest k (epoll_fd r i) = (interest (io_kernel r) (epoll_fd r i))(fd := map_option (wait_event fd) (kept_entry entry))"
proof (cases "io_wait_entry_empty entry")
  case True
  let ?f = "\<lambda>b :: ('w, 'n) io_backend. b\<lparr>io_waits := hm_erase (par_waits P) (io_waits b) fd\<rparr>"
  obtain k where k: "epoll_del P i fd (update_backend i ?f r) = (update_backend i ?f r)\<lparr>io_kernel := k\<rparr>"
    "interest k = (interest (io_kernel r))(epoll_fd r i := (interest (io_kernel r) (epoll_fd r i))(fd := None))"
    using epoll_del_spec [OF laws(1), of i fd "update_backend i ?f r"] by auto
  then show thesis
    using that [of k ?f] True i hash_map_iter_lawsD(5) [OF laws(2)]
    by (simp add: settle_entry_def kept_entry_def wait_table_def)
next
  case False
  obtain ok r' where u: "update_epoll_interest P i fd entry r = (ok, r')" by fastforce
  then obtain k where k: "r' = r\<lparr>io_kernel := k\<rparr>"
    "interest k = (interest (io_kernel r))(epoll_fd r i := (interest (io_kernel r) (epoll_fd r i))(fd \<mapsto> wait_event fd entry))"
    using update_interest_spec [OF laws(1) False u] watched False by (cases ok) (metis, metis)
  have "update_backend i id r = r" by (simp add: update_backend_def backend_at_def)
  then show thesis
    using that [of k id] False u k here by (simp add: settle_entry_def kept_entry_def fun_upd_idem)
qed

lemma agrees_wait_change:
  assumes "kernel_agrees P interest i r"
    and "interest (io_kernel r') (epoll_fd r i) = (interest (io_kernel r) (epoll_fd r i))(fd := map_option (wait_event fd) e)"
    and "epoll_fd r' i = epoll_fd r i" "wait_table P i r' = (wait_table P i r)(fd := e)"
    and "channel_table P i r' = channel_table P i r" "io_wake_fd (backend_at r' i) = io_wake_fd (backend_at r i)"
    and "net_channel_at r' = net_channel_at r" "fd \<noteq> io_wake_fd (backend_at r i)" "channel_table P i r fd = None"
  shows "kernel_agrees P interest i r'"
  using assms unfolding kernel_agrees_def expected_interest_def by (auto simp: fun_eq_iff split: option.splits)

subsection \<open>Adding and removing a registration\<close>

lemma events_rw:
  "x AND (io_readable OR io_writable) = 0 \<longleftrightarrow> x AND io_readable = 0 \<and> x AND io_writable = 0"
  by (simp add: bit.conj_disj_distrib or_eq_0_iff)

lemma add_fields:
  "entry_read (add_io_wait_registration e a ev) = (if ev AND io_readable \<noteq> 0 then Some a else entry_read e)"
  "entry_write (add_io_wait_registration e a ev) = (if ev AND io_writable \<noteq> 0 then Some a else entry_write e)"
  by (simp_all add: add_io_wait_registration_def Let_def)

lemma remove_fields:
  "entry_read (remove_io_wait_registration e a) = (if entry_read e = Some a then None else entry_read e)"
  "entry_write (remove_io_wait_registration e a) = (if entry_write e = Some a then None else entry_write e)"
  by (simp_all add: remove_io_wait_registration_def Let_def)

lemma remove_add:
  assumes "\<not> io_wait_events_conflict e ev" "entry_read e \<noteq> Some a" "entry_write e \<noteq> Some a"
  shows "remove_io_wait_registration (add_io_wait_registration e a ev) a = e"
  using assms
  by (intro IoWaitEntry.equality) (auto simp: remove_fields add_fields io_wait_events_conflict_def)

lemma entry_default_fields [simp]: "entry_read entry_default = None" "entry_write entry_default = None"
  by (simp_all add: entry_default_def)

definition entry_or_default :: "IoWaitEntry option \<Rightarrow> IoWaitEntry" where
  "entry_or_default e = (case e of None \<Rightarrow> entry_default | Some e \<Rightarrow> e)"

lemma waits_invD:
  assumes "waits_inv wake ch T pool" "T fd = Some e"
  shows "0 \<le> fd" "fd \<noteq> wake" "\<not> io_wait_entry_empty e" "entry_ok pool fd e" "ch fd = None"
  using assms unfolding waits_inv_def by blast+

lemma waits_inv_reg:
  assumes "waits_inv wake ch T pool" "pool a = Some g"
  obtains entry where "T (reg_fd g) = Some entry" "entry_read entry = Some a \<or> entry_write entry = Some a"
proof -
  have "registered_in T a g" using assms unfolding waits_inv_def by blast
  then show thesis using that unfolding registered_in_def by blast
qed

lemma entry_okD:
  assumes "entry_ok pool fd e" "entry_read e = Some a \<or> entry_write e = Some a"
  obtains g where "pool a = Some g" "reg_fd g = fd"
  using assms unfolding entry_ok_def by blast

lemma entry_fresh:
  assumes "waits_inv wake ch T pool" "pool a = None"
  shows "entry_read (entry_or_default (T fd)) \<noteq> Some a" "entry_write (entry_or_default (T fd)) \<noteq> Some a"
proof -
  have "entry_read (entry_or_default (T fd)) = Some a \<or> entry_write (entry_or_default (T fd)) = Some a \<Longrightarrow> False"
  proof (cases "T fd")
    case (Some e)
    assume "entry_read (entry_or_default (T fd)) = Some a \<or> entry_write (entry_or_default (T fd)) = Some a"
    then show False
      using entry_okD [OF waits_invD(4) [OF assms(1) Some], of a] assms(2) Some by (auto simp: entry_or_default_def)
  qed (simp add: entry_or_default_def)
  then show "entry_read (entry_or_default (T fd)) \<noteq> Some a" "entry_write (entry_or_default (T fd)) \<noteq> Some a" by blast+
qed

lemma waits_inv_add:
  assumes inv: "waits_inv wake ch T pool" and fresh: "pool a = None"
    and fd: "0 \<le> fd" "fd \<noteq> wake" "ch fd = None" and ev: "ev AND (io_readable OR io_writable) \<noteq> 0"
    and conf: "\<not> io_wait_events_conflict (entry_or_default (T fd)) ev"
    and g: "reg_fd g = fd" "reg_events g = ev"
  shows "waits_inv wake ch (T(fd \<mapsto> add_io_wait_registration (entry_or_default (T fd)) a ev)) (pool(a \<mapsto> g))"
proof -
  let ?e = "entry_or_default (T fd)" and ?n = "add_io_wait_registration (entry_or_default (T fd)) a ev"
  have old: "entry_ok pool fd ?e"
    using inv by (auto simp: waits_inv_def entry_or_default_def entry_ok_def split: option.splits)
  have new: "entry_ok (pool(a \<mapsto> g)) fd ?n"
    using old g fresh by (auto simp: entry_ok_def add_fields)
  have nonempty: "\<not> io_wait_entry_empty ?n"
    using ev by (auto simp: io_wait_entry_empty_def add_fields events_rw)
  have others: "entry_ok (pool(a \<mapsto> g)) fd' e" if "entry_ok pool fd' e" for fd' e
    using that fresh by (auto simp: entry_ok_def)
  have mine: "registered_in (T(fd \<mapsto> ?n)) a g"
    using ev entry_fresh [OF inv fresh, of fd] by (auto simp: registered_in_def g add_fields events_rw)
  have rest: "registered_in (T(fd \<mapsto> ?n)) b h" if b: "pool b = Some h" for b h
  proof -
    have "b \<noteq> a" using b fresh by auto
    moreover have "registered_in T b h" using inv b by (simp add: waits_inv_def)
    ultimately show ?thesis
      using conf
      by (cases "reg_fd h = fd") (auto simp: registered_in_def add_fields io_wait_events_conflict_def entry_or_default_def)
  qed
  show ?thesis
    unfolding waits_inv_def
  proof (intro conjI allI impI)
    fix fd' e' assume "(T(fd \<mapsto> ?n)) fd' = Some e'"
    then show "0 \<le> fd'" "fd' \<noteq> wake" "\<not> io_wait_entry_empty e'" "entry_ok (pool(a \<mapsto> g)) fd' e'" "ch fd' = None"
      using fd new nonempty inv others by (auto simp: waits_inv_def split: if_splits)
  next
    fix b h assume "(pool(a \<mapsto> g)) b = Some h"
    then show "registered_in (T(fd \<mapsto> ?n)) b h" using mine rest by (auto split: if_splits)
  qed
qed

lemma waits_inv_remove:
  assumes inv: "waits_inv wake ch T pool" and a: "pool a = Some g" "reg_fd g = fd" and e: "T fd = Some e"
  shows "waits_inv wake ch (T(fd := kept_entry (remove_io_wait_registration e a))) (pool(a := None))"
proof -
  let ?n = "remove_io_wait_registration e a"
  have old: "0 \<le> fd" "fd \<noteq> wake" "entry_ok pool fd e" "ch fd = None"
    using inv e by (auto simp: waits_inv_def)
  have here: "fd' = fd" if "T fd' = Some e'" "entry_read e' = Some a \<or> entry_write e' = Some a" for fd' e'
    using entry_okD [OF waits_invD(4) [OF inv that(1)] that(2)] a by auto
  have new: "entry_ok (pool(a := None)) fd ?n"
    using old(3) by (auto simp: entry_ok_def remove_fields split: if_splits)
  have others: "entry_ok (pool(a := None)) fd' e'" if "T fd' = Some e'" "fd' \<noteq> fd" for fd' e'
  proof -
    have "entry_read e' \<noteq> Some a" "entry_write e' \<noteq> Some a" using here [OF that(1)] that(2) by blast+
    then show ?thesis using waits_invD(4) [OF inv that(1)] by (auto simp: entry_ok_def)
  qed
  have rest: "registered_in (T(fd := kept_entry ?n)) b h" if b: "pool b = Some h" "b \<noteq> a" for b h
  proof -
    have r: "registered_in T b h" using inv b by (simp add: waits_inv_def)
    show ?thesis
    proof (cases "reg_fd h = fd")
      case True
      then have "\<not> io_wait_entry_empty ?n" using r e b(2) by (auto simp: registered_in_def io_wait_entry_empty_def remove_fields)
      then show ?thesis using r True e b(2) by (auto simp: registered_in_def kept_entry_def remove_fields)
    qed (use r in \<open>simp add: registered_in_def\<close>)
  qed
  show ?thesis
    unfolding waits_inv_def
  proof (intro conjI allI impI)
    fix fd' e' assume "(T(fd := kept_entry ?n)) fd' = Some e'"
    then show "0 \<le> fd'" "fd' \<noteq> wake" "\<not> io_wait_entry_empty e'" "entry_ok (pool(a := None)) fd' e'" "ch fd' = None"
      using old new inv others by (auto simp: waits_inv_def kept_entry_def split: if_splits)
  next
    fix b h assume "(pool(a := None)) b = Some h"
    then show "registered_in (T(fd := kept_entry ?n)) b h" using rest by (auto split: if_splits)
  qed
qed

subsection \<open>Registering\<close>

definition pool_fresh :: "('tag, 'k, 'w, 'n) io_params \<Rightarrow> bool" where
  "pool_fresh P \<longleftrightarrow> (\<forall>pool a. par_alloc P pool = Some a \<longrightarrow> pool a = None)"

definition io_laws :: "('tag, 'k, 'w, 'n) io_params \<Rightarrow> ('k \<Rightarrow> int \<Rightarrow> int \<rightharpoonup> epoll_event) \<Rightarrow> bool" where
  "io_laws P interest \<longleftrightarrow> kernel_laws (par_kernel P) interest \<and> hash_map_iter_laws (par_waits P) \<and>
     hash_map_iter_laws (par_channels P) \<and> pool_fresh P"

lemma io_result_view [simp]:
  "waits_ok P i (update_io_result w g r) = waits_ok P i r"
  "kernel_agrees P interest i (update_io_result w g r) = kernel_agrees P interest i r"
  by (simp_all add: waits_ok_def kernel_agrees_def expected_interest_def fun_eq_iff cong: option.case_cong if_cong)

lemma kernel_view [simp]:
  "waits_ok P i (r\<lparr>io_kernel := k\<rparr>) = waits_ok P i r"
  "net_channel_at (r\<lparr>io_kernel := k\<rparr>) = net_channel_at r"
  by (simp_all add: waits_ok_def)

lemma backend_view:
  assumes "unat i < length (io_backends r)"
  shows "wait_table P i (update_backend i f r) = hm_find (par_waits P) (io_waits (f (backend_at r i)))"
    "registrations i (update_backend i f r) = io_wait_pool (f (backend_at r i))"
    "channel_table P i (update_backend i f r) = hm_find (par_channels P) (net_channels (f (backend_at r i)))"
  using assms by (simp_all add: wait_table_def registrations_def channel_table_def)

text \<open>What a successful and a failed registration leave.\<close>

definition wait_added ::
    "('tag, 'k, 'w, 'n) io_params \<Rightarrow> u16 \<Rightarrow> raddr \<Rightarrow> IoWaitRegistration \<Rightarrow> ('k, 'w, 'n) io_runtime \<Rightarrow>
     ('k, 'w, 'n) io_runtime \<Rightarrow> bool" where
  "wait_added P i a g r r' \<longleftrightarrow>
     registrations i r a = None \<and> registrations i r' = (registrations i r)(a \<mapsto> g) \<and>
     wait_table P i r' = (wait_table P i r)
       (reg_fd g \<mapsto> add_io_wait_registration (entry_or_default (wait_table P i r (reg_fd g))) a (reg_events g))"

lemma wait_inserted:
  assumes laws: "io_laws P interest" and i: "unat i < length (io_backends r)" and ok: "waits_ok P i r"
    and a: "par_alloc P (io_wait_pool (backend_at r i)) = Some a"
    and fd: "0 \<le> fd" "fd \<noteq> io_wake_fd (backend_at r i)" "channel_table P i r fd = None"
    and ev: "events AND (io_readable OR io_writable) \<noteq> 0"
    and conf: "\<not> io_wait_events_conflict (entry_or_default (wait_table P i r fd)) events"
    and g: "g = \<lparr>reg_fd = fd, reg_events = events, reg_task = task, reg_result = w\<rparr>"
    and r1: "r1 = update_backend i (\<lambda>b. b\<lparr>io_wait_pool := (io_wait_pool b)(a \<mapsto> g),
         io_waits := hm_assign (par_waits P) (fst (hm_emplace (par_waits P) (io_waits b) fd entry_default)) fd
           (add_io_wait_registration (entry_or_default (wait_table P i r fd)) a events)\<rparr>) r"
  shows "wait_added P i a g r r1" "waits_ok P i r1" "channel_table P i r1 = channel_table P i r"
    "io_wake_fd (backend_at r1 i) = io_wake_fd (backend_at r i)"
proof -
  have W: "hash_map_iter_laws (par_waits P)" and fresh: "registrations i r a = None"
    using laws a by (simp_all add: io_laws_def pool_fresh_def registrations_def)
  show added: "wait_added P i a g r r1"
    using fresh i
    by (simp add: wait_added_def r1 g backend_view hash_map_iter_lawsD(2,4) [OF W])
       (simp add: registrations_def wait_table_def fun_eq_iff)
  show ch: "channel_table P i r1 = channel_table P i r"
    "io_wake_fd (backend_at r1 i) = io_wake_fd (backend_at r i)"
    using i by (simp_all add: r1 backend_view) (simp add: channel_table_def)
  show "waits_ok P i r1"
    using waits_inv_add [OF ok [unfolded waits_ok_def] fresh fd ev conf, of g] added ch
    by (simp add: waits_ok_def wait_added_def g)
qed

lemma fail_io_result_simps [simp]:
  "fst (fail_io_result (Some w) fd e r) = False"
  "waits_ok P i (snd (fail_io_result (Some w) fd e r)) = waits_ok P i r"
  "kernel_agrees P interest i (snd (fail_io_result (Some w) fd e r)) = kernel_agrees P interest i r"
  "registrations i (snd (fail_io_result (Some w) fd e r)) = registrations i r"
  "wait_table P i (snd (fail_io_result (Some w) fd e r)) = wait_table P i r"
  by (simp_all add: fail_io_result_def)

lemma fail_io_result_error:
  "result_failed (op_wait (io_op_at (snd (fail_io_result (Some w) fd e r)) w))"
  by (simp add: fail_io_result_def set_io_result_error_def result_failed_def Let_def EIO_def)

definition wait_refused ::
    "('tag, 'k, 'w, 'n) io_params \<Rightarrow> ('k \<Rightarrow> int \<Rightarrow> int \<rightharpoonup> epoll_event) \<Rightarrow> u16 \<Rightarrow> oaddr \<Rightarrow> ('k, 'w, 'n) io_runtime \<Rightarrow>
     ('k, 'w, 'n) io_runtime \<Rightarrow> bool" where
  "wait_refused P interest i w r r' \<longleftrightarrow>
     waits_ok P i r' \<and> kernel_agrees P interest i r' \<and>
     registrations i r' = registrations i r \<and> wait_table P i r' = wait_table P i r \<and>
     result_failed (op_wait (io_op_at r' w))"

lemma refused_at_once:
  "waits_ok P i r \<Longrightarrow> kernel_agrees P interest i r \<Longrightarrow> wait_refused P interest i w r (snd (fail_io_result (Some w) fd e r))"
  by (simp add: wait_refused_def fail_io_result_error)

text \<open>Undoing a registration the kernel refused.\<close>

lemma refused_by_kernel:
  assumes laws: "io_laws P interest" and i: "unat i < length (io_backends r)"
    and ok: "waits_ok P i r" and agrees: "kernel_agrees P interest i r"
    and fd: "fd \<noteq> io_wake_fd (backend_at r i)" "channel_table P i r fd = None"
    and conf: "\<not> io_wait_events_conflict (entry_or_default (wait_table P i r fd)) events"
    and added: "wait_added P i a g r r1" and g: "reg_fd g = fd" "reg_events g = events"
    and ch: "channel_table P i r1 = channel_table P i r" "io_wake_fd (backend_at r1 i) = io_wake_fd (backend_at r i)"
      "net_channel_at r1 = net_channel_at r" "epoll_fd r1 i = epoll_fd r i" "io_kernel r1 = io_kernel r"
      "length (io_backends r1) = length (io_backends r)"
    and k: "r2 = r1\<lparr>io_kernel := k\<rparr>" "interest k = interest (io_kernel r)" "interest k (epoll_fd r i) fd = None"
    and entry: "entry = remove_io_wait_registration
        (add_io_wait_registration (entry_or_default (wait_table P i r fd)) a events) a"
  shows "wait_refused P interest i w r
    (snd (fail_io_result (Some w) fd e (pool_destroy i a (settle_entry P i fd entry (set_entry P i fd entry r2)))))"
proof -
  have W: "hash_map_iter_laws (par_waits P)" and K: "kernel_laws (par_kernel P) interest"
    using laws by (simp_all add: io_laws_def)
  have fresh: "registrations i r a = None" using added by (simp add: wait_added_def)
  have none: "wait_table P i r fd = None"
  proof (rule ccontr)
    assume "wait_table P i r fd \<noteq> None"
    then have "expected_interest P i r fd \<noteq> None" using fd by (auto simp: expected_interest_def)
    then show False using agrees k by (simp add: kernel_agrees_def)
  qed
  have e: "entry = entry_default" "io_wait_entry_empty entry"
    using remove_add [OF conf] entry_fresh [OF ok [unfolded waits_ok_def] fresh, of fd] none
    by (simp_all add: entry entry_or_default_def io_wait_entry_empty_def)
  let ?r3 = "set_entry P i fd entry r2"
  have i2: "unat i < length (io_backends r2)" using i ch k by simp
  have r3: "wait_table P i ?r3 = (wait_table P i r)(fd \<mapsto> entry)" "registrations i ?r3 = (registrations i r)(a \<mapsto> g)"
    "channel_table P i ?r3 = channel_table P i r" "io_wake_fd (backend_at ?r3 i) = io_wake_fd (backend_at r i)"
    "io_kernel ?r3 = k" "epoll_fd ?r3 i = epoll_fd r i" "net_channel_at ?r3 = net_channel_at r"
    "unat i < length (io_backends ?r3)"
    using added ch i2 g k
    by (simp_all add: set_entry_def backend_view hash_map_iter_lawsD(2) [OF W] wait_added_def)
       (simp_all add: wait_table_def registrations_def channel_table_def)
  obtain k4 f where s: "settle_entry P i fd entry ?r3 = (update_backend i f ?r3)\<lparr>io_kernel := k4\<rparr>"
    "\<And>b. io_wake_fd (f b) = io_wake_fd b" "\<And>b. net_channels (f b) = net_channels b"
    "\<And>b. io_wait_pool (f b) = io_wait_pool b"
    "wait_table P i (update_backend i f ?r3) = (wait_table P i ?r3)(fd := kept_entry entry)"
    "interest k4 (epoll_fd ?r3 i) = (interest (io_kernel ?r3) (epoll_fd ?r3 i))(fd := map_option (wait_event fd) (kept_entry entry))"
    using settle_spec [OF K W r3(8), of fd entry] r3(1) e(2) by auto
  let ?r4 = "(update_backend i f ?r3)\<lparr>io_kernel := k4\<rparr>"
  let ?r5 = "pool_destroy i a ?r4"
  have i4: "unat i < length (io_backends ?r4)" using r3(8) by simp
  have r5: "wait_table P i ?r5 = wait_table P i r" "registrations i ?r5 = registrations i r"
    "channel_table P i ?r5 = channel_table P i r" "io_wake_fd (backend_at ?r5 i) = io_wake_fd (backend_at r i)"
    "net_channel_at ?r5 = net_channel_at r" "epoll_fd ?r5 i = epoll_fd r i" "io_kernel ?r5 = k4"
    using s(2-5) r3 fresh none i4 e(2)
    by (simp_all add: pool_destroy_def backend_view kept_entry_def fun_upd_idem)
       (simp_all add: wait_table_def registrations_def channel_table_def backend_view fun_upd_idem)
  have "interest k4 (epoll_fd r i) = interest (io_kernel r) (epoll_fd r i)"
    using s(6) r3(5,6) k(2,3) e(2) by (simp add: kept_entry_def fun_upd_idem)
  then have "kernel_agrees P interest i ?r5"
    using agrees r5 by (simp add: kernel_agrees_def expected_interest_def fun_eq_iff cong: option.case_cong if_cong)
  moreover have "waits_ok P i ?r5" using ok r5 by (simp add: waits_ok_def)
  ultimately show ?thesis
    using refused_at_once [of P i ?r5 interest w fd e] r5 by (simp add: wait_refused_def s(1))
qed

text \<open>A registration is refused at once, or its entry is changed and the kernel asked.\<close>

definition wait_entered ::
    "('tag, 'k, 'w, 'n) io_params \<Rightarrow> u16 \<Rightarrow> raddr \<Rightarrow> IoWaitRegistration \<Rightarrow> IoWaitEntry \<Rightarrow> ('k, 'w, 'n) io_runtime \<Rightarrow>
     ('k, 'w, 'n) io_runtime" where
  "wait_entered P i a g entry =
     update_backend i (\<lambda>b. b\<lparr>io_wait_pool := (io_wait_pool b)(a \<mapsto> g),
       io_waits := hm_assign (par_waits P)
         (fst (hm_emplace (par_waits P) (io_waits b) (reg_fd g) entry_default)) (reg_fd g) entry\<rparr>)"

lemma register_cases:
  assumes reg: "register_native_io_wait P i fd events task w r = (acc, r')"
  obtains (refused) e where "fail_io_result (Some w) fd e r = (acc, r')"
  | (entered) a g entry accept r2 where "par_alloc P (io_wait_pool (backend_at r i)) = Some a"
    "g = \<lparr>reg_fd = fd, reg_events = events, reg_task = task, reg_result = w\<rparr>"
    "entry = add_io_wait_registration (entry_or_default (wait_table P i r fd)) a events"
    "0 \<le> fd" "channel_table P i r fd = None" "events AND (io_readable OR io_writable) \<noteq> 0"
    "\<not> io_wait_events_conflict (entry_or_default (wait_table P i r fd)) events"
    "update_epoll_interest P i fd entry (wait_entered P i a g entry r) = (accept, r2)"
    "(acc, r') =
      (if accept then (True, update_io_result w
          (\<lambda>_. \<lparr>io_fd = fd, io_events = 0, io_errno = 0, io_value = 0, io_wait_token = None\<rparr>) r2)
       else let error = (if errno_of P r2 = 0 then EIO else errno_of P r2);
                entry = remove_io_wait_registration entry a
            in fail_io_result (Some w) fd error
                 (pool_destroy i a (settle_entry P i fd entry (set_entry P i fd entry r2))))"
proof -
  let ?b = "backend_at r i" and ?T = "wait_table P i r"
  let ?bad = "epoll_fd r i < 0 \<or> fd < 0 \<or> events = 0 \<or> events AND (io_readable OR io_writable) = 0 \<or>
    (?T fd \<noteq> None \<and> io_wait_events_conflict (the (?T fd)) events) \<or> channel_table P i r fd \<noteq> None"
  note call = reg [unfolded register_native_io_wait_def Let_def, folded wait_table_def channel_table_def]
  show thesis
  proof (cases ?bad)
    case True
    show thesis by (rule refused) (rule call [unfolded if_P [OF True]])
  next
    case bad: False
    note call = call [unfolded if_not_P [OF bad]]
    show thesis
    proof (cases "par_alloc P (io_wait_pool ?b)")
      case None
      then show thesis using call refused by simp
    next
      case (Some a)
      note call = call [unfolded Some option.case]
      show thesis
      proof (cases "?T fd = None \<and> par_throws P (io_waits ?b) fd")
        case True
        show thesis by (rule refused) (rule call [unfolded if_P [OF True]])
      next
        case False
        note call = call [unfolded if_not_P [OF False], folded entry_or_default_def]
        define g where "g = \<lparr>reg_fd = fd, reg_events = events, reg_task = task, reg_result = w\<rparr>"
        define e1 where "e1 = add_io_wait_registration (entry_or_default (?T fd)) a events"
        have fd: "reg_fd g = fd" by (simp add: g_def)
        obtain accept r2 where u: "update_epoll_interest P i fd e1 (wait_entered P i a g e1 r) = (accept, r2)" by fastforce
        note call = call [folded g_def e1_def, folded fd, folded wait_entered_def, unfolded fd u prod.case]
        show thesis
        proof (rule entered [OF Some g_def e1_def _ _ _ _ u])
          show "0 \<le> fd" "channel_table P i r fd = None" "events AND (io_readable OR io_writable) \<noteq> 0"
            "\<not> io_wait_events_conflict (entry_or_default (?T fd)) events"
            using bad by (auto simp: entry_or_default_def io_wait_events_conflict_def split: option.splits)
          show "(acc, r') = (if accept
              then (True, update_io_result w
                (\<lambda>_. \<lparr>io_fd = fd, io_events = 0, io_errno = 0, io_value = 0, io_wait_token = None\<rparr>) r2)
              else let error = (if errno_of P r2 = 0 then EIO else errno_of P r2);
                       entry = remove_io_wait_registration e1 a
                   in fail_io_result (Some w) fd error
                     (pool_destroy i a (settle_entry P i fd entry (set_entry P i fd entry r2))))"
            using call by (cases accept) (simp_all add: Let_def)
        qed
      qed
    qed
  qed
qed

text \<open>
  C9: Registering a wait is all or nothing.  When it succeeds, exactly one new registration stands in
  the entry of its descriptor for each direction asked for and the kernel watches what the entry
  waits for; when it is refused (by the arguments, by a conflict, for lack of memory or by the
  kernel) no registration is left behind, the table is as before and the result holds an error.
  In both cases the table stays well formed and in agreement with the kernel.
\<close>

theorem register_wait_all_or_nothing:
  assumes laws: "io_laws P interest" and i: "unat i < length (io_backends r)"
    and ok: "waits_ok P i r" and agrees: "kernel_agrees P interest i r"
    and fd: "fd \<noteq> io_wake_fd (backend_at r i)"
    and reg: "register_native_io_wait P i fd events task w r = (acc, r')"
  shows "if acc
    then waits_ok P i r' \<and> kernel_agrees P interest i r' \<and>
      (\<exists>a. wait_added P i a \<lparr>reg_fd = fd, reg_events = events, reg_task = task, reg_result = w\<rparr> r r') \<and>
      \<not> result_failed (op_wait (io_op_at r' w)) \<and> io_fd (op_wait (io_op_at r' w)) = fd
    else wait_refused P interest i w r r'"
  using reg
proof (cases rule: register_cases)
  case (refused e)
  then show ?thesis using refused_at_once [OF ok agrees, of w fd e] by (auto simp: fail_io_result_def)
next
  case (entered a g entry accept r2)
  note good = entered(4-7)
  define r1 where "r1 = wait_entered P i a g entry r"
  have K: "kernel_laws (par_kernel P) interest" using laws by (simp add: io_laws_def)
  have r1: "r1 = update_backend i (\<lambda>b. b\<lparr>io_wait_pool := (io_wait_pool b)(a \<mapsto> g),
       io_waits := hm_assign (par_waits P) (fst (hm_emplace (par_waits P) (io_waits b) fd entry_default)) fd
         (add_io_wait_registration (entry_or_default (wait_table P i r fd)) a events)\<rparr>) r"
    by (simp add: r1_def wait_entered_def entered(2,3))
  note ins = wait_inserted [OF laws i ok entered(1) good(1) fd good(2-4) entered(2) r1]
  have frame: "net_channel_at r1 = net_channel_at r" "epoll_fd r1 i = epoll_fd r i" "io_kernel r1 = io_kernel r"
    "length (io_backends r1) = length (io_backends r)"
    by (simp_all add: r1)
  have e1: "wait_table P i r1 fd = Some entry" "wait_table P i r1 = (wait_table P i r)(fd \<mapsto> entry)"
    using ins(1) by (simp_all add: wait_added_def entered(2,3))
  have ne: "\<not> io_wait_entry_empty entry" using ins(2) e1(1) waits_invD(3) by (auto simp: waits_ok_def)
  obtain k where k: "r2 = r1\<lparr>io_kernel := k\<rparr>"
    "accept \<Longrightarrow> interest k = (interest (io_kernel r1))
       (epoll_fd r1 i := (interest (io_kernel r1) (epoll_fd r1 i))(fd \<mapsto> wait_event fd entry))"
    "\<not> accept \<Longrightarrow> interest k = interest (io_kernel r1) \<and> interest (io_kernel r1) (epoll_fd r1 i) fd = None"
    using update_interest_spec [OF K ne entered(8) [folded r1_def]] by blast
  show ?thesis
  proof (cases accept)
    case True
    have "kernel_agrees P interest i r2"
      using agrees_wait_change [OF agrees, of r2 fd "Some entry"] k(1) k(2) [OF True] frame ins(3,4) e1(2) fd good(2)
      by simp
    moreover have "wait_added P i a g r r2" using ins(1) by (simp add: wait_added_def k(1))
    ultimately show ?thesis
      using entered(2,9) True ins(2) by (auto simp: k(1) wait_added_def result_failed_def)
  next
    case False
    have g: "reg_fd g = fd" "reg_events g = events" by (simp_all add: entered(2))
    have "wait_refused P interest i w r r'"
      using entered(3,9) False k(3) [OF False] frame
        refused_by_kernel [OF laws i ok agrees fd good(2,4) ins(1) g ins(3,4) frame k(1) _ _ refl,
          of w "if errno_of P r2 = 0 then EIO else errno_of P r2"]
      by (simp add: Let_def fail_io_result_def)
    then show ?thesis using entered(9) False by (simp add: Let_def fail_io_result_def)
  qed
qed

text \<open>
  An executor with its descriptors open and nothing registered: thread 2 of the sample runtime, the
  epoll descriptor 3 and the wake-up descriptor 4.
\<close>

definition sample_io ::
    "(nat, table_kernel, (int \<times> IoWaitEntry) list, (int \<times> u64) list) io_params" where
  "sample_io = \<lparr>par_config = sample_config, par_kernel = table_ops, par_waits = alist_iter_ops,
     par_channels = alist_iter_ops, par_alloc = (\<lambda>pool. if pool 0 = None then Some 0 else None),
     par_throws = (\<lambda>_ _. False), par_wake_written = True, par_env = id, par_run = (\<lambda>_ _. None),
     par_on_event = (\<lambda>_ _ _ r. Some r)\<rparr>"

definition sample_io_runtime ::
    "(table_kernel, (int \<times> IoWaitEntry) list, (int \<times> u64) list) io_runtime" where
  "sample_io_runtime = runtime.extend
     (sample_runtime\<lparr>rt_current := 2,
        rt_executors := (rt_executors sample_runtime)[2 := (rt_executors sample_runtime ! 2)\<lparr>ex_io_epoll_fd := 3\<rparr>]\<rparr>)
     \<lparr>io_kernel = \<lparr>tk_interest = (\<lambda>_ _. None)(3 := [4 \<mapsto> wake_event]), tk_errno = 0, tk_next_fd = 5\<rparr>,
      io_backends = replicate 3 \<lparr>io_waits = [], io_wait_pool = Map.empty, net_channels = [], io_wake_fd = 4\<rparr>,
      io_op_at = (\<lambda>_. \<lparr>op_wait = io_result_default, op_wait_kind = Readiness, op_waiting = True\<rparr>),
      net_channel_at = (\<lambda>_. \<lparr>ch_fd = 9, ch_interests = 0, ch_active = False, ch_backend_token = None,
        ch_owner = 0, ch_on_event = Some 0\<rparr>)\<rparr>"

lemma sample_io_laws: "io_laws sample_io tk_interest"
  by (simp add: io_laws_def sample_io_def table_ops_laws alist_iter_laws pool_fresh_def)

lemma sample_io_fields:
  "length (io_backends sample_io_runtime) = 3" "backend_at sample_io_runtime 2 =
     \<lparr>io_waits = [], io_wait_pool = Map.empty, net_channels = [], io_wake_fd = 4\<rparr>"
  "epoll_fd sample_io_runtime 2 = 3" "length (rt_executors sample_io_runtime) = 3"
proof -
  have "length (rt_executors sample_runtime) = 3" using sample_runtime_ok(1) by (simp add: runtime_ok_def)
  then show "length (io_backends sample_io_runtime) = 3" "backend_at sample_io_runtime 2 =
      \<lparr>io_waits = [], io_wait_pool = Map.empty, net_channels = [], io_wake_fd = 4\<rparr>"
    "epoll_fd sample_io_runtime 2 = 3" "length (rt_executors sample_io_runtime) = 3"
    by (simp_all add: sample_io_runtime_def runtime.defs backend_at_def epoll_fd_def executor_at_def)
qed

lemma sample_io_ok: "waits_ok sample_io 2 sample_io_runtime" "kernel_agrees sample_io tk_interest 2 sample_io_runtime"
proof -
  have t: "wait_table sample_io 2 sample_io_runtime = Map.empty" "channel_table sample_io 2 sample_io_runtime = Map.empty"
    "registrations 2 sample_io_runtime = Map.empty"
    by (simp_all add: wait_table_def channel_table_def registrations_def sample_io_fields sample_io_def alist_iter_ops_def
        hash_map_ops.defs alist_ops_def fun_eq_iff)
  show "waits_ok sample_io 2 sample_io_runtime" by (simp add: waits_ok_def waits_inv_def t)
  have "tk_interest (io_kernel sample_io_runtime) 3 = [4 \<mapsto> wake_event]"
    by (simp add: sample_io_runtime_def runtime.defs)
  then show "kernel_agrees sample_io tk_interest 2 sample_io_runtime"
    by (simp add: kernel_agrees_def expected_interest_def sample_io_fields t fun_eq_iff)
qed

theorem register_wait_all_or_nothing_witness:
  "waits_ok sample_io 2 (snd (register_native_io_wait sample_io 2 10 io_readable 7 0 sample_io_runtime)) \<and>
   kernel_agrees sample_io tk_interest 2 (snd (register_native_io_wait sample_io 2 10 io_readable 7 0 sample_io_runtime))"
  using register_wait_all_or_nothing [OF sample_io_laws _ sample_io_ok, of 10 io_readable 7 0
      "fst (register_native_io_wait sample_io 2 10 io_readable 7 0 sample_io_runtime)"
      "snd (register_native_io_wait sample_io 2 10 io_readable 7 0 sample_io_runtime)"]
  by (simp add: sample_io_fields wait_refused_def split: if_splits)

end
