(* ===== verification/Epoll_Events.thy ===== *)
theory Epoll_Events
  imports Epoll_Waits
begin

unbundle bit_operations_syntax

section \<open>Events wake the tasks that wait for them\<close>

text \<open>
  What the dispatch of an event, the cancellation of a wait and the closing of the back end do to
  the wait table, the kernel's interest list and the tasks.  A completed wait puts its task at the
  end of the executor's own local queue; the statements assume that this queue has room (with a
  full queue the blocking enqueue runs tasks in place, and those may change the table).
\<close>

subsection \<open>Frames\<close>

definition same_rt :: "('k, 'w, 'n) io_runtime \<Rightarrow> ('k, 'w, 'n) io_runtime \<Rightarrow> bool" where
  "same_rt r r' \<longleftrightarrow> rt_executors r' = rt_executors r \<and> rt_spsc r' = rt_spsc r \<and> rt_external r' = rt_external r \<and>
     rt_current r' = rt_current r \<and> task_at r' = task_at r"

definition same_io :: "('k, 'w, 'n) io_runtime \<Rightarrow> ('k, 'w, 'n) io_runtime \<Rightarrow> bool" where
  "same_io r r' \<longleftrightarrow> io_kernel r' = io_kernel r \<and> io_backends r' = io_backends r \<and> io_op_at r' = io_op_at r \<and>
     net_channel_at r' = net_channel_at r \<and> (\<forall>i. epoll_fd r' i = epoll_fd r i)"

lemma same_rt_refl: "same_rt r r" by (simp add: same_rt_def)

lemma same_rt_trans: "same_rt r r1 \<Longrightarrow> same_rt r1 r2 \<Longrightarrow> same_rt r r2" by (simp add: same_rt_def)

lemma same_io_refl: "same_io r r" by (simp add: same_io_def)

lemma same_rt_ops:
  "same_rt r (update_backend i f r)" "same_rt r (update_io_result w g r)" "same_rt r (update_channel p h r)"
  "same_rt r (r\<lparr>io_kernel := k\<rparr>)" "same_rt r (set_entry P i fd entry r)" "same_rt r (pool_destroy i a r)"
  by (simp_all add: same_rt_def update_backend_def update_io_result_def update_channel_def set_entry_def pool_destroy_def)

lemma same_rt_lanes:
  assumes "same_rt r r'"
  shows "runtime_ok n r' = runtime_ok n r" "lane_content n r' = lane_content n r" "lane_limit n r' l = lane_limit n r l"
    "rt_current r' = rt_current r" "task_at r' = task_at r" "rt_executors r' = rt_executors r"
proof -
  have "raw_lane n r' m = raw_lane n r m" for m using assms by (cases m) (simp_all add: same_rt_def)
  then show "lane_content n r' = lane_content n r" by (simp add: lane_content_def fun_eq_iff)
  show "lane_limit n r' l = lane_limit n r l" using assms by (cases l) (simp_all add: same_rt_def)
qed (use assms in \<open>simp_all add: same_rt_def runtime_ok_def\<close>)

lemma same_io_tables:
  assumes "same_io r r'"
  shows "wait_table P i r' = wait_table P i r" "registrations i r' = registrations i r"
    "channel_table P i r' = channel_table P i r" "backend_at r' i = backend_at r i"
    "io_op_at r' = io_op_at r" "net_channel_at r' = net_channel_at r" "io_kernel r' = io_kernel r"
    "epoll_fd r' i = epoll_fd r i" "length (io_backends r') = length (io_backends r)"
  using assms by (simp_all add: same_io_def wait_table_def registrations_def channel_table_def backend_at_def)

subsection \<open>Waking a task\<close>

definition room :: "nat \<Rightarrow> u16 \<Rightarrow> ('k, 'w, 'n) io_runtime \<Rightarrow> nat \<Rightarrow> bool" where
  "room n i r k \<longleftrightarrow> length (lane_content n r (LocalLane (unat i))) + k \<le> lane_limit n r (LocalLane (unat i))"

text \<open>The thread \<open>i\<close> runs this code, and its runtime is well formed.\<close>

definition on_thread :: "('tag, 'k, 'w, 'n) io_params \<Rightarrow> nat \<Rightarrow> u16 \<Rightarrow> ('k, 'w, 'n) io_runtime \<Rightarrow> bool" where
  "on_thread P n i r \<longleftrightarrow>
     runtime_ok n r \<and> n = thread_total_of (par_config P) \<and> unat i < n \<and> rt_current r = i \<and>
     unat i < length (io_backends r)"

text \<open>The task is queued on the thread if it was pending; no other task changes.\<close>

definition woken :: "nat \<Rightarrow> u16 \<Rightarrow> taddr \<Rightarrow> ('k, 'w, 'n) io_runtime \<Rightarrow> ('k, 'w, 'n) io_runtime \<Rightarrow> bool" where
  "woken n i t r r' \<longleftrightarrow>
     (if task_state (task_at r t) = Pending
      then task_at r' = (task_at r)(t := (task_at r t)\<lparr>task_state := Queued\<rparr>) \<and>
           lane_content n r' = (lane_content n r)(LocalLane (unat i) := lane_content n r (LocalLane (unat i)) @ [t])
      else task_at r' = task_at r \<and> lane_content n r' = lane_content n r)"

lemma lane_limit_push:
  assumes "try_push_local e t = (b, e')" shows "ex_local_capacity e' = ex_local_capacity e"
  using assms by (auto simp: try_push_local_def split: if_splits)

lemma enqueue_wakes:
  assumes on: "on_thread P n i r" and room: "room n i r 1"
  obtains r' where "enqueue_pending_blocking P i t Auto r = Some r'" "woken n i t r r'" "same_io r r'"
    "on_thread P n i r'" "\<And>k. room n i r (Suc k) \<Longrightarrow> room n i r' k"
proof (cases "task_state (task_at r t) = Pending")
  case False
  then show thesis
    using that [of r] on
    by (simp add: enqueue_pending_blocking_def enqueue_pending_call_def woken_def same_io_refl room_def)
next
  case True
  let ?c = "par_config P" and ?l = "LocalLane (unat i)"
  define r1 where "r1 = update_task t (\<lambda>t. t\<lparr>task_state := Queued\<rparr>) r"
  have on': "runtime_ok n r" "n = thread_total_of ?c" "unat i < n" "rt_current r = i" "unat i < length (io_backends r)"
    using on unfolding on_thread_def by blast+
  have lt: "i < thread_count (cf_threads ?c)"
    using on'(2,3) by (simp add: thread_total_of_def word_less_nat_alt)
  have r1: "same_queues n r r1" by (simp add: r1_def update_task_def set_task_same_queues)
  then have q1: "runtime_ok n r1" "lane_content n r1 = lane_content n r" "lane_limit n r1 = lane_limit n r" "rt_current r1 = i"
    using on'(1,4) by (simp_all add: same_queues_def)
  obtain b e where push: "try_push_local (executor_at r1 i) t = (b, e)" by fastforce
  then have enq: "try_enqueue_local_from_runtime_thread i t r1 = (b, set_executor r1 i e)"
    by (simp add: try_enqueue_local_from_runtime_thread_def)
  have pushed: "pushed n r1 (set_executor r1 i e) ?l t b" by (rule local_enqueue_pushed [OF q1(1) on'(3) enq])
  then have b: b using room q1 by (simp add: pushed_def room_def)
  have call: "enqueue_pending_call ?c i t Auto r = (Some (EnqueueLocal i t (backoff_new (cf_queue_full_spin_count ?c))), r1)"
    using True lt on'(4)
    by (simp add: enqueue_pending_call_def enqueue_ready_call_def blocking_call_def ready_route_from_runtime_thread_def r1_def Let_def)
  have len: "unat i < length (rt_executors r1)" using q1(1) on'(3) by (simp add: runtime_ok_def)
  show thesis
  proof (rule that [of "set_executor r1 i e"])
    show "enqueue_pending_blocking P i t Auto r = Some (set_executor r1 i e)"
      unfolding enqueue_pending_blocking_def call prod.case option.case
      by (subst run_call.simps) (simp add: enq b)
    show "woken n i t r (set_executor r1 i e)"
      using True pushed b q1(2) by (simp add: woken_def pushed_def) (simp add: set_executor_def r1_def)
    show io: "same_io r (set_executor r1 i e)"
      using push len
      by (auto simp: same_io_def set_executor_def r1_def update_task_def set_task_def epoll_fd_def executor_at_def
          nth_list_update try_push_local_def split: if_splits)
    show "on_thread P n i (set_executor r1 i e)"
      using on' pushed q1(4) same_io_tables(9) [OF io] by (simp add: on_thread_def pushed_def)
    fix k assume "room n i r (Suc k)"
    moreover have "lane_limit n (set_executor r1 i e) ?l = lane_limit n r1 ?l"
      using lane_limit_push [OF push] len by (simp add: set_executor_def executor_at_def)
    ultimately show "room n i (set_executor r1 i e) k"
      using pushed b q1(2,3) by (simp add: room_def pushed_def)
  qed
qed

subsection \<open>Completing waits\<close>

text \<open>What the completion of waits leaves alone.\<close>

definition poll_frame :: "('tag, 'k, 'w, 'n) io_params \<Rightarrow> u16 \<Rightarrow> ('k, 'w, 'n) io_runtime \<Rightarrow> ('k, 'w, 'n) io_runtime \<Rightarrow> bool" where
  "poll_frame P i r r' \<longleftrightarrow> io_kernel r' = io_kernel r \<and> channel_table P i r' = channel_table P i r \<and>
     io_wake_fd (backend_at r' i) = io_wake_fd (backend_at r i) \<and> net_channel_at r' = net_channel_at r \<and>
     epoll_fd r' i = epoll_fd r i"

lemma poll_frame_refl: "poll_frame P i r r" by (simp add: poll_frame_def)

lemma poll_frame_trans: "poll_frame P i r r1 \<Longrightarrow> poll_frame P i r1 r2 \<Longrightarrow> poll_frame P i r r2" by (simp add: poll_frame_def)

lemma poll_frame_io: "same_io r r' \<Longrightarrow> poll_frame P i r r'" by (simp add: poll_frame_def same_io_tables)

definition wait_result :: "int \<Rightarrow> u32 \<Rightarrow> oaddr \<Rightarrow> ('k, 'w, 'n) io_runtime \<Rightarrow> bool" where
  "wait_result fd ready w r \<longleftrightarrow>
     (let x = op_wait (io_op_at r w) in io_fd x = fd \<and> io_events x = ready \<and> io_errno x = 0)"

lemma on_thread_same_rt:
  "same_rt r r' \<Longrightarrow> length (io_backends r') = length (io_backends r) \<Longrightarrow> on_thread P n i r' = on_thread P n i r"
  by (simp add: on_thread_def same_rt_lanes)

lemma room_same_rt: "same_rt r r' \<Longrightarrow> room n i r' k = room n i r k"
  by (simp add: room_def same_rt_lanes)

lemma woken_same_rt: "same_rt r r1 \<Longrightarrow> woken n i t r1 r2 \<Longrightarrow> same_rt r2 r3 \<Longrightarrow> woken n i t r r3"
  by (simp add: woken_def same_rt_lanes)

lemma complete_wait_spec:
  assumes W: "hash_map_iter_laws (par_waits P)" and on: "on_thread P n i r" and room: "room n i r 1"
    and entry: "wait_table P i r fd = Some entry" and a: "registrations i r a = Some g"
  obtains r' where "complete_wait P i fd ready a r = Some r'" "on_thread P n i r'" "poll_frame P i r r'"
    "wait_table P i r' = (wait_table P i r)(fd \<mapsto> remove_io_wait_registration entry a)"
    "registrations i r' = (registrations i r)(a := None)" "woken n i (reg_task g) r r'"
    "wait_result fd ready (reg_result g) r'" "\<And>w. w \<noteq> reg_result g \<Longrightarrow> io_op_at r' w = io_op_at r w"
    "\<And>k. room n i r (Suc k) \<Longrightarrow> room n i r' k"
proof -
  have i: "unat i < length (io_backends r)" using on by (simp add: on_thread_def)
  define r1 where "r1 = set_entry P i fd (remove_io_wait_registration entry a) r"
  define r2 where "r2 = update_io_result (reg_result g) (\<lambda>x. x\<lparr>io_fd := fd, io_events := ready, io_errno := 0\<rparr>) r1"
  have rt2: "same_rt r r2" unfolding r1_def r2_def by (intro same_rt_trans [OF same_rt_ops(5) same_rt_ops(2)])
  have len2: "length (io_backends r2) = length (io_backends r)" by (simp add: r1_def r2_def set_entry_def)
  obtain r3 where r3: "enqueue_pending_blocking P i (reg_task g) Auto r2 = Some r3" "woken n i (reg_task g) r2 r3"
    "same_io r2 r3" "on_thread P n i r3" "\<And>k. room n i r2 (Suc k) \<Longrightarrow> room n i r3 k"
    using enqueue_wakes [of P n i r2 "reg_task g"] on_thread_same_rt [OF rt2 len2] room_same_rt [OF rt2] on room by blast
  let ?r = "pool_destroy i a r3"
  have rt4: "same_rt r3 ?r" by (rule same_rt_ops)
  have len3: "length (io_backends r3) = length (io_backends r)" using same_io_tables(9) [OF r3(3)] len2 by simp
  have f1: "wait_table P i r1 = (wait_table P i r)(fd \<mapsto> remove_io_wait_registration entry a)"
    "registrations i r1 = registrations i r" "channel_table P i r1 = channel_table P i r"
    "io_wake_fd (backend_at r1 i) = io_wake_fd (backend_at r i)" "io_kernel r1 = io_kernel r"
    "net_channel_at r1 = net_channel_at r" "epoll_fd r1 i = epoll_fd r i" "io_op_at r1 = io_op_at r"
    using i
    by (simp_all add: r1_def set_entry_def backend_view hash_map_iter_lawsD(2) [OF W])
       (simp_all add: wait_table_def registrations_def channel_table_def)
  have f3: "wait_table P i r3 = wait_table P i r2" "registrations i r3 = registrations i r2"
    "channel_table P i r3 = channel_table P i r2" "backend_at r3 i = backend_at r2 i" "io_op_at r3 = io_op_at r2"
    "net_channel_at r3 = net_channel_at r2" "io_kernel r3 = io_kernel r2" "epoll_fd r3 i = epoll_fd r2 i"
    by (rule same_io_tables [OF r3(3)])+
  have i3: "unat i < length (io_backends r3)" using i len3 by simp
  have f4: "wait_table P i ?r = wait_table P i r3" "registrations i ?r = (registrations i r3)(a := None)"
    "channel_table P i ?r = channel_table P i r3" "io_wake_fd (backend_at ?r i) = io_wake_fd (backend_at r3 i)"
    "io_kernel ?r = io_kernel r3" "net_channel_at ?r = net_channel_at r3" "epoll_fd ?r i = epoll_fd r3 i"
    "io_op_at ?r = io_op_at r3" "length (io_backends ?r) = length (io_backends r3)"
    using i3 by (simp_all add: pool_destroy_def backend_view) (simp_all add: wait_table_def registrations_def channel_table_def)
  show thesis
  proof (rule that)
    show "complete_wait P i fd ready a r = Some ?r"
      using entry a r3(1)
      by (simp add: complete_wait_def wait_table_def registrations_def r1_def r2_def Let_def)
    show "on_thread P n i ?r" using on_thread_same_rt [OF rt4, of P n i] f4(9) r3(4) by simp
    show "poll_frame P i r ?r" using f1 f3 f4 by (simp add: poll_frame_def r2_def)
    show "wait_table P i ?r = (wait_table P i r)(fd \<mapsto> remove_io_wait_registration entry a)"
      "registrations i ?r = (registrations i r)(a := None)"
      using f1 f3 f4 by (simp_all add: r2_def)
    show "woken n i (reg_task g) r ?r" by (rule woken_same_rt [OF rt2 r3(2) rt4])
    show "wait_result fd ready (reg_result g) ?r" using f3 f4 by (simp add: wait_result_def r2_def Let_def)
    show "io_op_at ?r w = io_op_at r w" if "w \<noteq> reg_result g" for w using that f1 f3 f4 by (simp add: r2_def)
    show "room n i ?r k" if "room n i r (Suc k)" for k
      using that r3(5) room_same_rt [OF rt2] room_same_rt [OF rt4] by simp
  qed
qed

text \<open>A list of registrations of one entry, completed in order.\<close>

definition all_woken ::
    "nat \<Rightarrow> u16 \<Rightarrow> taddr set \<Rightarrow> ('k, 'w, 'n) io_runtime \<Rightarrow> ('k, 'w, 'n) io_runtime \<Rightarrow> bool" where
  "all_woken n i ts r r' \<longleftrightarrow>
     (\<forall>t. if t \<in> ts \<and> task_state (task_at r t) = Pending
          then task_state (task_at r' t) = Queued \<and> t \<in> set (lane_content n r' (LocalLane (unat i)))
          else task_at r' t = task_at r t) \<and>
     set (lane_content n r (LocalLane (unat i))) \<subseteq> set (lane_content n r' (LocalLane (unat i)))"

lemma all_woken_empty: "all_woken n i {} r r"
  by (simp add: all_woken_def)

lemma all_woken_insert:
  assumes "woken n i t r r1" "all_woken n i ts r1 r2" shows "all_woken n i (insert t ts) r r2"
  using assms by (auto simp: woken_def all_woken_def split: if_splits)

lemma complete_waits_spec:
  assumes W: "hash_map_iter_laws (par_waits P)"
  shows "on_thread P n i r \<Longrightarrow> room n i r (length as) \<Longrightarrow> wait_table P i r fd = Some entry \<Longrightarrow> distinct as \<Longrightarrow>
    (\<forall>a \<in> set as. registrations i r a \<noteq> None) \<Longrightarrow>
    \<exists>r'. complete_waits P i fd ready as r = Some r' \<and> on_thread P n i r' \<and> poll_frame P i r r' \<and>
      wait_table P i r' = (wait_table P i r)(fd \<mapsto> foldl remove_io_wait_registration entry as) \<and>
      registrations i r' = (\<lambda>a. if a \<in> set as then None else registrations i r a) \<and>
      all_woken n i (reg_task ` the ` registrations i r ` set as) r r' \<and>
      (\<forall>w. wait_result fd ready w r \<longrightarrow> wait_result fd ready w r') \<and>
      (\<forall>a \<in> set as. wait_result fd ready (reg_result (the (registrations i r a))) r')"
proof (induction as arbitrary: r entry)
  case Nil
  then show ?case by (auto simp: poll_frame_refl all_woken_empty)
next
  case (Cons a as)
  then obtain g where g: "registrations i r a = Some g" by auto
  have room: "room n i r 1" using Cons.prems(2) by (simp add: room_def)
  obtain r1 where r1: "complete_wait P i fd ready a r = Some r1" "on_thread P n i r1" "poll_frame P i r r1"
    "wait_table P i r1 = (wait_table P i r)(fd \<mapsto> remove_io_wait_registration entry a)"
    "registrations i r1 = (registrations i r)(a := None)" "woken n i (reg_task g) r r1"
    "wait_result fd ready (reg_result g) r1" "\<And>w. w \<noteq> reg_result g \<Longrightarrow> io_op_at r1 w = io_op_at r w"
    "\<And>k. room n i r (Suc k) \<Longrightarrow> room n i r1 k"
    using complete_wait_spec [OF W Cons.prems(1) room Cons.prems(3) g] by metis
  have prems: "room n i r1 (length as)" "wait_table P i r1 fd = Some (remove_io_wait_registration entry a)"
    "distinct as" "\<forall>b \<in> set as. registrations i r1 b \<noteq> None"
    using Cons.prems r1 by auto
  obtain r' where r': "complete_waits P i fd ready as r1 = Some r'" "on_thread P n i r'" "poll_frame P i r1 r'"
    "wait_table P i r' = (wait_table P i r1)(fd \<mapsto> foldl remove_io_wait_registration (remove_io_wait_registration entry a) as)"
    "registrations i r' = (\<lambda>b. if b \<in> set as then None else registrations i r1 b)"
    "all_woken n i (reg_task ` the ` registrations i r1 ` set as) r1 r'"
    "\<forall>w. wait_result fd ready w r1 \<longrightarrow> wait_result fd ready w r'"
    "\<forall>b \<in> set as. wait_result fd ready (reg_result (the (registrations i r1 b))) r'"
    using Cons.IH [OF r1(2) prems] by blast
  have same: "registrations i r1 b = registrations i r b" if "b \<in> set as" for b
    using that Cons.prems(4) r1(5) by auto
  have img: "the ` registrations i r1 ` set as = the ` registrations i r ` set as"
    using same by (auto simp: image_iff)
  have old: "wait_result fd ready w r'" if "wait_result fd ready w r" for w
    using that r1(7,8) r'(7) by (cases "w = reg_result g") (auto simp: wait_result_def)
  show ?case
  proof (intro exI [of _ r'] conjI)
    show "complete_waits P i fd ready (a # as) r = Some r'" using r1(1) r'(1) by simp
    show "poll_frame P i r r'" by (rule poll_frame_trans [OF r1(3) r'(3)])
    show "registrations i r' = (\<lambda>b. if b \<in> set (a # as) then None else registrations i r b)"
      using r'(5) r1(5) by (auto simp: fun_eq_iff)
    show "all_woken n i (reg_task ` the ` registrations i r ` set (a # as)) r r'"
      using all_woken_insert [OF r1(6) r'(6)] img g by simp
    show "\<forall>b \<in> set (a # as). wait_result fd ready (reg_result (the (registrations i r b))) r'"
      using r'(7,8) r1(7) g same by auto
  qed (use r'(2,4) r1(4) old in auto)
qed

subsection \<open>Dispatching an event to its waiters\<close>

definition completed_of :: "(raddr \<Rightarrow> IoWaitRegistration) \<Rightarrow> u32 \<Rightarrow> IoWaitEntry \<Rightarrow> raddr list" where
  "completed_of pool ready entry =
     collect_ready pool ready (collect_ready pool ready [] (entry_read entry)) (entry_write entry)"

lemma completed_of_spec:
  "distinct (completed_of pool ready entry) \<and> length (completed_of pool ready entry) \<le> 2 \<and>
   set (completed_of pool ready entry) =
     {a. (entry_read entry = Some a \<or> entry_write entry = Some a) \<and> io_wait_registration_ready (pool a) ready}"
  by (cases "entry_read entry"; cases "entry_write entry") (auto simp: completed_of_def collect_ready_def)

lemma completed_of_ready:
  assumes inv: "waits_inv wake ch T pool" and entry: "T fd = Some entry"
  shows "set (completed_of (\<lambda>a. the (pool a)) ready entry) =
    {a. \<exists>g. pool a = Some g \<and> reg_fd g = fd \<and> io_wait_registration_ready g ready}"
proof -
  have "(entry_read entry = Some a \<or> entry_write entry = Some a) \<longleftrightarrow> (\<exists>g. pool a = Some g \<and> reg_fd g = fd)" for a
  proof
    assume "entry_read entry = Some a \<or> entry_write entry = Some a"
    then show "\<exists>g. pool a = Some g \<and> reg_fd g = fd"
      using entry_okD [OF waits_invD(4) [OF inv entry]] by metis
  next
    assume "\<exists>g. pool a = Some g \<and> reg_fd g = fd"
    then show "entry_read entry = Some a \<or> entry_write entry = Some a"
      using waits_inv_reg [OF inv, of a] entry by fastforce
  qed
  then show ?thesis using completed_of_spec [of "\<lambda>a. the (pool a)" ready entry] by auto
qed

lemma waits_inv_removes:
  "waits_inv wake ch T pool \<Longrightarrow> T fd = Some e \<Longrightarrow> distinct as \<Longrightarrow>
   (\<forall>a \<in> set as. \<exists>g. pool a = Some g \<and> reg_fd g = fd) \<Longrightarrow>
   waits_inv wake ch (T(fd := kept_entry (foldl remove_io_wait_registration e as)))
     (\<lambda>a. if a \<in> set as then None else pool a)"
proof (induction as arbitrary: T pool e)
  case Nil
  then show ?case using waits_invD(3) [OF Nil.prems(1,2)] by (simp add: kept_entry_def fun_upd_idem)
next
  case (Cons a as)
  let ?e = "remove_io_wait_registration e a" and ?pool = "pool(a := None)"
  obtain g where g: "pool a = Some g" "reg_fd g = fd" using Cons.prems(4) by auto
  have inv: "waits_inv wake ch (T(fd := kept_entry ?e)) ?pool" by (rule waits_inv_remove [OF Cons.prems(1) g Cons.prems(2)])
  have rest: "\<forall>b \<in> set as. \<exists>g. ?pool b = Some g \<and> reg_fd g = fd" using Cons.prems(3,4) by auto
  have pool: "(\<lambda>b. if b \<in> set (a # as) then None else pool b) = (\<lambda>b. if b \<in> set as then None else ?pool b)"
    by (auto simp: fun_eq_iff)
  show ?case
  proof (cases "kept_entry ?e")
    case None
    have "as = []"
    proof (rule ccontr)
      assume "as \<noteq> []"
      then obtain b h where "b \<in> set as" "?pool b = Some h" "reg_fd h = fd" using rest by (cases as) auto
      then show False using waits_inv_reg [OF inv] None by force
    qed
    then show ?thesis using inv by (simp add: fun_upd_def)
  next
    case (Some e')
    then have "e' = ?e" by (simp add: kept_entry_def split: if_splits)
    then have "(T(fd := kept_entry ?e)) fd = Some ?e" using Some by simp
    moreover have "distinct as" using Cons.prems(3) by simp
    ultimately show ?thesis using Cons.IH [OF inv _ _ rest] unfolding pool by (simp only: foldl.simps fun_upd_upd)
  qed
qed

text \<open>The kernel agrees except for the descriptor whose one-shot event was just delivered.\<close>

definition agrees_but ::
    "('tag, 'k, 'w, 'n) io_params \<Rightarrow> ('k \<Rightarrow> int \<Rightarrow> int \<rightharpoonup> epoll_event) \<Rightarrow> u16 \<Rightarrow> int \<Rightarrow> ('k, 'w, 'n) io_runtime \<Rightarrow> bool" where
  "agrees_but P interest i fd r \<longleftrightarrow>
     (\<exists>event. interest (io_kernel r) (epoll_fd r i) = (expected_interest P i r)(fd \<mapsto> event))"

lemma expected_wait_change:
  assumes "poll_frame P i r r'" "wait_table P i r' = (wait_table P i r)(fd := e)"
    and "fd \<noteq> io_wake_fd (backend_at r i)" "channel_table P i r fd = None"
  shows "expected_interest P i r' = (expected_interest P i r)(fd := map_option (wait_event fd) e)"
proof
  fix x show "expected_interest P i r' x = ((expected_interest P i r)(fd := map_option (wait_event fd) e)) x"
    using assms
    by (cases "x = fd"; cases e)
       (auto simp: expected_interest_def poll_frame_def simp del: fun_upd_apply cong: option.case_cong if_cong
          simp: fun_upd_apply)
qed

text \<open>The last step of a dispatch: the entry that is left decides what the kernel watches.\<close>

lemma settle_completed:
  assumes laws: "io_laws P interest" and i1: "unat i < length (io_backends r1)"
    and agrees: "agrees_but P interest i fd r" and here: "fd \<noteq> io_wake_fd (backend_at r i)" "channel_table P i r fd = None"
    and frame: "poll_frame P i r r1" and table: "wait_table P i r1 = (wait_table P i r)(fd \<mapsto> e)"
  obtains r2 where "settle_entry P i fd e r1 = r2" "same_rt r1 r2" "kernel_agrees P interest i r2" "io_op_at r2 = io_op_at r1"
    "wait_table P i r2 = (wait_table P i r)(fd := kept_entry e)" "registrations i r2 = registrations i r1"
    "channel_table P i r2 = channel_table P i r" "io_wake_fd (backend_at r2 i) = io_wake_fd (backend_at r i)"
    "length (io_backends r2) = length (io_backends r1)"
proof -
  have W: "hash_map_iter_laws (par_waits P)" and K: "kernel_laws (par_kernel P) interest"
    using laws by (simp_all add: io_laws_def)
  have frame1: "io_kernel r1 = io_kernel r" "epoll_fd r1 i = epoll_fd r i" "channel_table P i r1 = channel_table P i r"
    "io_wake_fd (backend_at r1 i) = io_wake_fd (backend_at r i)" "net_channel_at r1 = net_channel_at r"
    using frame by (simp_all add: poll_frame_def)
  obtain event where event: "interest (io_kernel r) (epoll_fd r i) = (expected_interest P i r)(fd \<mapsto> event)"
    using agrees by (auto simp: agrees_but_def)
  obtain k f where s: "settle_entry P i fd e r1 = (update_backend i f r1)\<lparr>io_kernel := k\<rparr>"
    "\<And>b. io_wake_fd (f b) = io_wake_fd b" "\<And>b. net_channels (f b) = net_channels b"
    "\<And>b. io_wait_pool (f b) = io_wait_pool b"
    "wait_table P i (update_backend i f r1) = (wait_table P i r1)(fd := kept_entry e)"
    "interest k (epoll_fd r1 i) = (interest (io_kernel r1) (epoll_fd r1 i))(fd := map_option (wait_event fd) (kept_entry e))"
    using settle_spec [OF K W i1, of fd e] table event frame1 by auto
  let ?r2 = "(update_backend i f r1)\<lparr>io_kernel := k\<rparr>" and ?r = "r\<lparr>io_kernel := k\<rparr>"
  have r2: "wait_table P i ?r2 = (wait_table P i r)(fd := kept_entry e)" "registrations i ?r2 = registrations i r1"
    "channel_table P i ?r2 = channel_table P i r" "io_wake_fd (backend_at ?r2 i) = io_wake_fd (backend_at r i)"
    using s(2-5) table i1 frame1(3,4)
    by (simp_all add: backend_view) (simp_all add: registrations_def channel_table_def)
  have pf: "poll_frame P i ?r ?r2" using r2 frame1 by (simp add: poll_frame_def)
  have exp: "expected_interest P i ?r = expected_interest P i r"
    by (simp add: expected_interest_def fun_eq_iff cong: option.case_cong if_cong)
  have "expected_interest P i ?r2 = (expected_interest P i r)(fd := map_option (wait_event fd) (kept_entry e))"
    using expected_wait_change [OF pf, of fd "kept_entry e"] r2(1) here exp by simp
  then have "kernel_agrees P interest i ?r2"
    using s(6) event frame1 by (simp add: kernel_agrees_def)
  moreover have "same_rt r1 ?r2" by (intro same_rt_trans [OF same_rt_ops(1) same_rt_ops(4)])
  moreover have "io_op_at ?r2 = io_op_at r1" "length (io_backends ?r2) = length (io_backends r1)" by simp_all
  ultimately show thesis using that s(1) r2 by blast
qed

text \<open>
  C8: An event for a descriptor in the wait table completes exactly the waits it makes ready: their
  registrations are gone, their results hold the event, their tasks that were pending are queued on
  the thread, every other task is unchanged, and the waits that are not ready stay registered.
  Afterwards the table is well formed and the kernel watches what is left, as long as the kernel can
  change what it watches: the code ignores a failure of that call.
\<close>

theorem poll_event_completes_ready_waits:
  assumes laws: "io_laws P interest" and on: "on_thread P n i r" and room: "room n i r 2"
    and ok: "waits_ok P i r" and agrees: "agrees_but P interest i fd r" and entry: "wait_table P i r fd = Some entry"
    and ready: "ready = io_events_from_native events"
    and gone: "gone = {a. \<exists>g. registrations i r a = Some g \<and> reg_fd g = fd \<and> io_wait_registration_ready g ready}"
  shows "\<exists>r'. poll_wait_event P i fd events r = Some (gone \<noteq> {}, r') \<and> waits_ok P i r' \<and> kernel_agrees P interest i r' \<and>
    registrations i r' = (\<lambda>a. if a \<in> gone then None else registrations i r a) \<and>
    all_woken n i (reg_task ` the ` registrations i r ` gone) r r' \<and>
    (\<forall>a \<in> gone. wait_result fd ready (reg_result (the (registrations i r a))) r')"
proof -
  have W: "hash_map_iter_laws (par_waits P)" using laws by (simp add: io_laws_def)
  note inv = ok [unfolded waits_ok_def] and here = waits_invD [OF ok [unfolded waits_ok_def] entry]
  let ?done = "completed_of (\<lambda>a. the (registrations i r a)) ready entry"
  have set_done: "set ?done = gone" using completed_of_ready [OF inv entry] by (simp add: gone)
  have dist: "distinct ?done" and len: "length ?done \<le> 2"
    using completed_of_spec [of "\<lambda>a. the (registrations i r a)" ready entry] by blast+
  have regs: "\<forall>a \<in> set ?done. \<exists>g. registrations i r a = Some g \<and> reg_fd g = fd" by (auto simp: set_done gone)
  have room': "room n i r (length ?done)" using room len by (simp add: room_def)
  let ?e = "foldl remove_io_wait_registration entry ?done"
  obtain r1 where r1: "complete_waits P i fd ready ?done r = Some r1" "on_thread P n i r1" "poll_frame P i r r1"
    "wait_table P i r1 = (wait_table P i r)(fd \<mapsto> ?e)"
    "registrations i r1 = (\<lambda>a. if a \<in> gone then None else registrations i r a)"
    "all_woken n i (reg_task ` the ` registrations i r ` gone) r r1"
    "\<forall>a \<in> gone. wait_result fd ready (reg_result (the (registrations i r a))) r1"
    using complete_waits_spec [OF W on room' entry dist, of ready] regs unfolding set_done by blast
  have i1: "unat i < length (io_backends r1)" using r1(2) by (simp add: on_thread_def)
  obtain r2 where r2: "settle_entry P i fd ?e r1 = r2" "same_rt r1 r2" "kernel_agrees P interest i r2" "io_op_at r2 = io_op_at r1"
    "wait_table P i r2 = (wait_table P i r)(fd := kept_entry ?e)" "registrations i r2 = registrations i r1"
    "channel_table P i r2 = channel_table P i r" "io_wake_fd (backend_at r2 i) = io_wake_fd (backend_at r i)"
    using settle_completed [OF laws i1 agrees here(2,5) r1(3,4)] by blast
  have "waits_ok P i r2"
    using waits_inv_removes [OF inv entry dist regs] r1(5) r2 by (simp add: waits_ok_def set_done)
  moreover have "all_woken n i (reg_task ` the ` registrations i r ` gone) r r2"
    using r1(6) same_rt_lanes [OF r2(2)] by (simp add: all_woken_def)
  moreover have "poll_wait_event P i fd events r = Some (gone \<noteq> {}, r2)"
  proof (cases "?done = []")
    case True
    then have "gone = {}" "r1 = r" "settle_entry P i fd entry r = r2" using set_done r1(1) r2(1) by auto
    then show ?thesis
      using entry here(3) True ready
      by (simp add: poll_wait_event_def wait_table_def registrations_def completed_of_def settle_entry_def Let_def)
  next
    case False
    then have "gone \<noteq> {}" using set_done by auto
    then show ?thesis
      using False entry r1(1,4) r2(1) ready
      by (simp add: poll_wait_event_def wait_table_def registrations_def completed_of_def Let_def)
  qed
  moreover have "\<forall>a \<in> gone. wait_result fd ready (reg_result (the (registrations i r a))) r2"
    using r1(7) r2(4) by (simp add: wait_result_def)
  ultimately show ?thesis using r1(5) r2(3,6) by (intro exI [of _ r2]) simp
qed

subsection \<open>Cancelling a wait\<close>

lemma find_registration:
  assumes inv: "waits_inv wake ch T pool" and a: "pool a = Some g" "reg_result g = w" and entry: "T (reg_fd g) = Some entry"
    and uniq: "\<And>b h. pool b = Some h \<Longrightarrow> reg_result h = w \<Longrightarrow> b = a"
  shows "find_io_wait_registration (\<lambda>b. the (pool b)) entry w = Some a"
proof -
  have mem: "entry_read entry = Some a \<or> entry_write entry = Some a" using waits_inv_reg [OF inv a(1)] entry by auto
  have only: "b = a" if "entry_read entry = Some b \<or> entry_write entry = Some b" "reg_result (the (pool b)) = w" for b
  proof (rule entry_okD [OF waits_invD(4) [OF inv entry] that(1)])
    fix h assume "pool b = Some h"
    then show ?thesis using that(2) uniq [of b h] by simp
  qed
  have w: "reg_result (the (pool a)) = w" using a by simp
  show ?thesis
  proof (cases "entry_read entry = Some a")
    case True
    then show ?thesis using w by (simp add: find_io_wait_registration_def)
  next
    case False
    then have "entry_write entry = Some a" using mem by simp
    moreover have "\<not> (entry_read entry \<noteq> None \<and> reg_result (the (pool (the (entry_read entry)))) = w)"
      using only False by force
    ultimately show ?thesis using w False by (simp add: find_io_wait_registration_def)
  qed
qed

lemma agrees_imp_but:
  assumes "kernel_agrees P interest i r" "wait_table P i r fd = Some entry" "fd \<noteq> io_wake_fd (backend_at r i)"
  shows "agrees_but P interest i fd r"
proof -
  have "expected_interest P i r fd = Some (wait_event fd entry)" using assms(2,3) by (simp add: expected_interest_def)
  then have "(expected_interest P i r)(fd \<mapsto> wait_event fd entry) = expected_interest P i r" by (simp add: fun_upd_idem)
  then show ?thesis using assms(1) by (metis agrees_but_def kernel_agrees_def)
qed

lemma set_entry_frame:
  assumes "hash_map_iter_laws (par_waits P)" "unat i < length (io_backends r)"
  shows "poll_frame P i r (set_entry P i fd e r)" "wait_table P i (set_entry P i fd e r) = (wait_table P i r)(fd \<mapsto> e)"
    "registrations i (set_entry P i fd e r) = registrations i r" "io_op_at (set_entry P i fd e r) = io_op_at r"
    "length (io_backends (set_entry P i fd e r)) = length (io_backends r)"
  using assms(2)
  by (simp_all add: set_entry_def poll_frame_def backend_view hash_map_iter_lawsD(2) [OF assms(1)])
     (simp_all add: wait_table_def registrations_def channel_table_def)

lemma agrees_frame:
  assumes "poll_frame P i r r'" "wait_table P i r' = wait_table P i r"
  shows "kernel_agrees P interest i r' = kernel_agrees P interest i r"
  using assms
  by (simp add: kernel_agrees_def expected_interest_def poll_frame_def fun_eq_iff cong: option.case_cong if_cong)

lemma pool_destroy_frame:
  assumes "unat i < length (io_backends r)"
  shows "wait_table P i (pool_destroy i a r) = wait_table P i r"
    "registrations i (pool_destroy i a r) = (registrations i r)(a := None)"
    "channel_table P i (pool_destroy i a r) = channel_table P i r"
    "io_wake_fd (backend_at (pool_destroy i a r) i) = io_wake_fd (backend_at r i)"
    "kernel_agrees P interest i (pool_destroy i a r) = kernel_agrees P interest i r"
    "io_op_at (pool_destroy i a r) = io_op_at r"
proof -
  show t: "wait_table P i (pool_destroy i a r) = wait_table P i r"
    "registrations i (pool_destroy i a r) = (registrations i r)(a := None)"
    "channel_table P i (pool_destroy i a r) = channel_table P i r"
    "io_wake_fd (backend_at (pool_destroy i a r) i) = io_wake_fd (backend_at r i)" "io_op_at (pool_destroy i a r) = io_op_at r"
    using assms by (simp_all add: pool_destroy_def backend_view)
      (simp_all add: wait_table_def registrations_def channel_table_def)
  then have "poll_frame P i r (pool_destroy i a r)" by (simp add: poll_frame_def) (simp add: pool_destroy_def)
  then show "kernel_agrees P interest i (pool_destroy i a r) = kernel_agrees P interest i r"
    using t(1) by (rule agrees_frame)
qed

lemma same_io_agrees: "same_io r r' \<Longrightarrow> kernel_agrees P interest i r' = kernel_agrees P interest i r"
  by (intro agrees_frame poll_frame_io same_io_tables)

text \<open>
  C30: Cancelling a registered wait removes exactly its registration, leaves \<^verbatim>\<open>ECANCELED\<close> in its result, and
  wakes its task unless the task itself is the one that is running; the table stays well formed and
  in agreement with the kernel.
\<close>

theorem cancel_removes_wait:
  assumes laws: "io_laws P interest" and on: "on_thread P n i r" and room: "room n i r 1"
    and ok: "waits_ok P i r" and agrees: "kernel_agrees P interest i r" and epoll: "0 \<le> epoll_fd r i"
    and a: "registrations i r a = Some g" "reg_result g = w" and fd: "io_fd (op_wait (io_op_at r w)) = reg_fd g"
    and uniq: "\<And>b h. registrations i r b = Some h \<Longrightarrow> reg_result h = w \<Longrightarrow> b = a"
  shows "\<exists>r'. cancel_native_io_wait P i w r = Some (True, r') \<and> waits_ok P i r' \<and> kernel_agrees P interest i r' \<and>
    registrations i r' = (registrations i r)(a := None) \<and> io_errno (op_wait (io_op_at r' w)) = ECANCELED \<and>
    (if ex_running_task (executor_at r i) = Some (reg_task g) then task_at r' = task_at r \<and> lane_content n r' = lane_content n r
     else woken n i (reg_task g) r r')"
proof -
  have W: "hash_map_iter_laws (par_waits P)" using laws by (simp add: io_laws_def)
  have i: "unat i < length (io_backends r)" using on by (simp add: on_thread_def)
  note inv = ok [unfolded waits_ok_def]
  obtain entry where entry: "wait_table P i r (reg_fd g) = Some entry" using waits_inv_reg [OF inv a(1)] by blast
  note here = waits_invD [OF inv entry]
  let ?fd = "reg_fd g" and ?e = "remove_io_wait_registration entry a"
  let ?r1 = "set_entry P i ?fd ?e r"
  note f1 = set_entry_frame [OF W i, of ?fd ?e]
  have i1: "unat i < length (io_backends ?r1)" using f1(5) i by simp
  obtain r2 where r2: "settle_entry P i ?fd ?e ?r1 = r2" "same_rt ?r1 r2" "kernel_agrees P interest i r2" "io_op_at r2 = io_op_at ?r1"
    "wait_table P i r2 = (wait_table P i r)(?fd := kept_entry ?e)" "registrations i r2 = registrations i ?r1"
    "channel_table P i r2 = channel_table P i r" "io_wake_fd (backend_at r2 i) = io_wake_fd (backend_at r i)"
    "length (io_backends r2) = length (io_backends ?r1)"
    using settle_completed [OF laws i1 agrees_imp_but [OF agrees entry here(2)] here(2,5) f1(1,2)] by blast
  define r3 where "r3 = update_io_result w (\<lambda>x. set_io_result_error x ?fd ECANCELED) r2"
  have rt3: "same_rt r r3"
    unfolding r3_def by (intro same_rt_trans [OF same_rt_trans [OF same_rt_ops(5) r2(2)] same_rt_ops(2)])
  have len3: "length (io_backends r3) = length (io_backends r)" using r2(9) f1(5) by (simp add: r3_def)
  have found: "find_io_wait_registration (\<lambda>b. the (registrations i r b)) entry w = Some a"
    using find_registration [OF inv a entry uniq] .
  have ex: "executor_at r3 i = executor_at r i" using same_rt_lanes(6) [OF rt3] by (simp add: executor_at_def)
  note body = cancel_native_io_wait_def [of P i w r, unfolded Let_def, folded wait_table_def registrations_def, unfolded fd entry]
  have call: "cancel_native_io_wait P i w r =
    (if Some (reg_task g) \<noteq> ex_running_task (executor_at r i)
     then map_option (\<lambda>r. (True, pool_destroy i a r)) (enqueue_pending_blocking P i (reg_task g) Auto r3)
     else Some (True, pool_destroy i a r3))"
    unfolding body option.case found
    using epoll here(1) a(1) by (simp add: r2(1) ex flip: r3_def)
  have finish: "waits_ok P i (pool_destroy i a q)" "kernel_agrees P interest i (pool_destroy i a q)"
    "registrations i (pool_destroy i a q) = (registrations i r)(a := None)"
    "io_errno (op_wait (io_op_at (pool_destroy i a q) w)) = ECANCELED" if "same_io r3 q" for q
  proof -
    have q: "wait_table P i q = wait_table P i r3" "registrations i q = registrations i r3"
      "channel_table P i q = channel_table P i r3" "backend_at q i = backend_at r3 i" "io_op_at q = io_op_at r3"
      "length (io_backends q) = length (io_backends r3)"
      by (rule same_io_tables [OF that])+
    then have iq: "unat i < length (io_backends q)" using i len3 by simp
    note d = pool_destroy_frame [OF iq]
    show regs: "registrations i (pool_destroy i a q) = (registrations i r)(a := None)"
      using d(2) q(2) r2(6) f1(3) by (simp add: r3_def)
    show "waits_ok P i (pool_destroy i a q)"
      using waits_inv_remove [OF inv a(1) refl entry] regs q r2(5,7,8) by (simp add: waits_ok_def d(1,3,4) r3_def)
    show "kernel_agrees P interest i (pool_destroy i a q)"
      using r2(3) by (simp add: d(5) same_io_agrees [OF that] r3_def)
    show "io_errno (op_wait (io_op_at (pool_destroy i a q) w)) = ECANCELED"
      using d(6) q(5) by (simp add: r3_def set_io_result_error_def errno_values)
  qed
  have on3: "on_thread P n i r3" using on by (simp add: on_thread_same_rt [OF rt3 len3])
  have room3: "room n i r3 1" using room by (simp add: room_same_rt [OF rt3])
  show ?thesis
  proof (cases "ex_running_task (executor_at r i) = Some (reg_task g)")
    case True
    have "same_rt r (pool_destroy i a r3)" by (rule same_rt_trans [OF rt3 same_rt_ops(6)])
    then show ?thesis using call True finish [OF same_io_refl] by (simp add: same_rt_lanes)
  next
    case False
    obtain r4 where r4: "enqueue_pending_blocking P i (reg_task g) Auto r3 = Some r4" "woken n i (reg_task g) r3 r4" "same_io r3 r4"
      using enqueue_wakes [OF on3 room3, of "reg_task g"] by blast
    have "woken n i (reg_task g) r (pool_destroy i a r4)" by (rule woken_same_rt [OF rt3 r4(2) same_rt_ops(6)])
    then show ?thesis using call False r4(1) finish [OF r4(3)] by simp
  qed
qed

subsection \<open>Closing the back end\<close>

lemma clear_entries:
  "foldl clear_entry pool es a =
     (if \<exists>e \<in> set es. entry_read e = Some a \<or> entry_write e = Some a then None else pool a)"
  by (induction es arbitrary: pool) (auto simp: clear_entry_def Let_def split: option.splits)

definition close_channels :: "(int \<times> u64) list \<Rightarrow> ('k, 'w, 'n) io_runtime \<Rightarrow> ('k, 'w, 'n) io_runtime" where
  "close_channels items r = foldl (\<lambda>r (fd, p). if p \<noteq> 0
     then update_channel p (\<lambda>ch. ch\<lparr>ch_active := False, ch_interests := 0, ch_backend_token := None\<rparr>) r
     else r) r items"

lemma close_channels_frame:
  "backend_at (close_channels items r) j = backend_at r j" "io_backends (close_channels items r) = io_backends r"
  "epoll_fd (close_channels items r) j = epoll_fd r j" "rt_executors (close_channels items r) = rt_executors r"
  by (induction items arbitrary: r)
     (auto simp: close_channels_def epoll_fd_def executor_at_def update_channel_def backend_at_def)

lemma close_channels_inactive:
  "\<not> ch_active (net_channel_at r p) \<or> p \<noteq> 0 \<and> p \<in> snd ` set items \<Longrightarrow>
   \<not> ch_active (net_channel_at (close_channels items r) p)"
proof (induction items arbitrary: r)
  case (Cons x items)
  obtain fd q where x: "x = (fd, q)" by fastforce
  let ?r = "if q \<noteq> 0
     then update_channel q (\<lambda>ch. ch\<lparr>ch_active := False, ch_interests := 0, ch_backend_token := None\<rparr>) r else r"
  have "close_channels (x # items) r = close_channels items ?r" by (simp add: close_channels_def x)
  moreover have "\<not> ch_active (net_channel_at ?r p) \<or> p \<noteq> 0 \<and> p \<in> snd ` set items"
    using Cons.prems by (auto simp: x)
  ultimately show ?case using Cons.IH by metis
qed (simp add: close_channels_def)

lemma executor_simps:
  "unat i < length (rt_executors r) \<Longrightarrow> executor_at (update_executor i f r) i = f (executor_at r i)"
  "io_backends (update_executor i f r) = io_backends (r :: ('k, 'w, 'n) io_runtime)"
  "net_channel_at (update_executor i f r) = net_channel_at (r :: ('k, 'w, 'n) io_runtime)"
  "length (rt_executors (update_executor i f r)) = length (rt_executors r)"
  by (simp_all add: update_executor_def set_executor_def executor_at_def)

text \<open>
  C31: Closing the back end leaves nothing behind: the tables and the pool of registrations are empty
  (no registration leaks), both descriptors are forgotten, no wake-up is pending, and
  no channel that was registered is active.
\<close>

theorem close_releases_everything:
  assumes laws: "io_laws P interest" and i: "unat i < length (io_backends r)" "unat i < length (rt_executors r)"
    and ok: "waits_ok P i r" and r': "close_native_io_backend P i r = r'"
  shows "wait_table P i r' = Map.empty \<and> channel_table P i r' = Map.empty \<and> registrations i r' = Map.empty \<and>
    \<not> io_backend_available (executor_at r' i) \<and> io_wake_fd (backend_at r' i) < 0 \<and>
    \<not> ex_io_wake_pending (executor_at r' i) \<and>
    (\<forall>fd p. channel_table P i r fd = Some p \<and> p \<noteq> 0 \<longrightarrow> \<not> ch_active (net_channel_at r' p))"
proof -
  have W: "hash_map_iter_laws (par_waits P)" and N: "hash_map_iter_laws (par_channels P)"
    using laws by (simp_all add: io_laws_def)
  let ?items = "hm_items (par_waits P) (io_waits (backend_at r i))"
  have pool: "foldl clear_entry (registrations i r) (map snd ?items) a = None" for a
  proof (cases "registrations i r a")
    case (Some g)
    obtain entry where e: "wait_table P i r (reg_fd g) = Some entry" "entry_read entry = Some a \<or> entry_write entry = Some a"
      using waits_inv_reg [OF ok [unfolded waits_ok_def] Some] by blast
    then have "(reg_fd g, entry) \<in> set ?items"
      using hash_map_iter_lawsD(6) [OF W, of "io_waits (backend_at r i)"] map_of_SomeD
      by (metis wait_table_def)
    then show ?thesis using e(2) by (auto simp: clear_entries)
  qed (simp add: clear_entries)
  define r1 where "r1 = clear_io_waits P i r"
  define r2 where "r2 = close_channels (hm_items (par_channels P) (net_channels (backend_at r1 i))) r1"
  define r3 where "r3 = update_backend i (\<lambda>b. b\<lparr>net_channels := hm_empty (par_channels P)\<rparr>) r2"
  define r4 where "r4 = (if 0 \<le> io_wake_fd (backend_at r3 i)
    then update_backend i (\<lambda>b. b\<lparr>io_wake_fd := - 1\<rparr>)
           (r3\<lparr>io_kernel := sys_close (par_kernel P) (io_wake_fd (backend_at r3 i)) (io_kernel r3)\<rparr>) else r3)"
  define r5 where "r5 = (if 0 \<le> epoll_fd r4 i
    then update_executor i (\<lambda>e. e\<lparr>ex_io_epoll_fd := - 1\<rparr>)
           (r4\<lparr>io_kernel := sys_close (par_kernel P) (epoll_fd r4 i) (io_kernel r4)\<rparr>) else r4)"
  have r': "r' = update_executor i (\<lambda>e. e\<lparr>ex_io_wake_pending := False\<rparr>) r5"
    unfolding r' [symmetric] close_native_io_backend_def Let_def r1_def r2_def r3_def r4_def r5_def close_channels_def ..
  have b1: "io_waits (backend_at r1 i) = hm_empty (par_waits P)" "net_channels (backend_at r1 i) = net_channels (backend_at r i)"
    "registrations i r1 = Map.empty" "length (io_backends r1) = length (io_backends r)" "rt_executors r1 = rt_executors r"
    using i pool
    by (simp_all add: r1_def clear_io_waits_def registrations_def fun_eq_iff) (simp add: update_backend_def)
  have b3: "io_waits (backend_at r3 i) = hm_empty (par_waits P)" "net_channels (backend_at r3 i) = hm_empty (par_channels P)"
    "registrations i r3 = Map.empty" "length (io_backends r3) = length (io_backends r)" "rt_executors r3 = rt_executors r"
    using b1 i by (simp_all add: r3_def r2_def close_channels_frame registrations_def) (simp add: update_backend_def close_channels_frame)
  have b4: "io_waits (backend_at r4 i) = hm_empty (par_waits P)" "net_channels (backend_at r4 i) = hm_empty (par_channels P)"
    "registrations i r4 = Map.empty" "io_wake_fd (backend_at r4 i) < 0" "rt_executors r4 = rt_executors r"
    using b3 i by (auto simp: r4_def registrations_def update_backend_def backend_at_def)
  have b5: "backend_at r' i = backend_at r4 i" "net_channel_at r' = net_channel_at r2"
    by (simp_all add: r' r5_def r4_def r3_def executor_simps backend_at_def)
  have ex: "\<not> io_backend_available (executor_at r' i)" "\<not> ex_io_wake_pending (executor_at r' i)"
    using b4(5) i by (auto simp: r' r5_def executor_simps io_backend_available_def epoll_fd_def)
  have "\<not> ch_active (net_channel_at r' p)" if "channel_table P i r fd = Some p" "p \<noteq> 0" for fd p
  proof -
    have "(fd, p) \<in> set (hm_items (par_channels P) (net_channels (backend_at r i)))"
      using that(1) hash_map_iter_lawsD(6) [OF N, of "net_channels (backend_at r i)"] map_of_SomeD
      by (metis channel_table_def)
    then have "p \<in> snd ` set (hm_items (par_channels P) (net_channels (backend_at r i)))" by force
    then show ?thesis using that(2) by (simp add: b5(2) r2_def b1(2) close_channels_inactive)
  qed
  then show ?thesis
    using b4 b5(1) ex hash_map_iter_lawsD(1) [OF W] hash_map_iter_lawsD(1) [OF N]
    by (auto simp: wait_table_def channel_table_def registrations_def fun_eq_iff)
qed

theorem close_releases_everything_witness:
  "registrations 2 (close_native_io_backend sample_io 2 sample_io_runtime) = Map.empty"
  using close_releases_everything [OF sample_io_laws _ _ sample_io_ok(1) refl] by (simp add: sample_io_fields)

subsection \<open>One task waiting\<close>

text \<open>Task 7 is pending and waits for descriptor 10 to become readable.\<close>

definition sample_registration :: IoWaitRegistration where
  "sample_registration = \<lparr>reg_fd = 10, reg_events = io_readable, reg_task = 7, reg_result = 0\<rparr>"

definition sample_entry :: IoWaitEntry where
  "sample_entry = \<lparr>entry_read = Some 0, entry_write = None\<rparr>"

definition sample_waiting ::
    "(table_kernel, (int \<times> IoWaitEntry) list, (int \<times> u64) list) io_runtime" where
  "sample_waiting =
     update_io_result 0 (\<lambda>x. x\<lparr>io_fd := 10\<rparr>) (update_backend 2
       (\<lambda>b. b\<lparr>io_waits := [(10, sample_entry)], io_wait_pool := [0 \<mapsto> sample_registration]\<rparr>)
       (sample_io_runtime\<lparr>task_at := \<lambda>_. (task_new 7)\<lparr>task_state := Pending\<rparr>,
          io_kernel := \<lparr>tk_interest = (\<lambda>_ _. None)(3 := [4 \<mapsto> wake_event, 10 \<mapsto> wait_event 10 sample_entry]),
            tk_errno = 0, tk_next_fd = 5\<rparr>\<rparr>))"

lemma sample_waiting_fields:
  "wait_table sample_io 2 sample_waiting = [10 \<mapsto> sample_entry]" "channel_table sample_io 2 sample_waiting = Map.empty"
  "registrations 2 sample_waiting = [0 \<mapsto> sample_registration]" "io_wake_fd (backend_at sample_waiting 2) = 4"
  "tk_interest (io_kernel sample_waiting) 3 = [4 \<mapsto> wake_event, 10 \<mapsto> wait_event 10 sample_entry]"
  "epoll_fd sample_waiting 2 = 3" "io_fd (op_wait (io_op_at sample_waiting 0)) = 10" "length (io_backends sample_waiting) = 3"
  "rt_executors sample_waiting = rt_executors sample_io_runtime" "task_at sample_waiting 7 = (task_new 7)\<lparr>task_state := Pending\<rparr>"
proof -
  let ?r = "sample_io_runtime\<lparr>task_at := \<lambda>_. (task_new 7)\<lparr>task_state := Pending\<rparr>,
          io_kernel := \<lparr>tk_interest = (\<lambda>_ _. None)(3 := [4 \<mapsto> wake_event, 10 \<mapsto> wait_event 10 sample_entry]),
            tk_errno = 0, tk_next_fd = 5\<rparr>\<rparr>"
  have b: "backend_at ?r 2 = backend_at sample_io_runtime 2" "length (io_backends ?r) = 3" "epoll_fd ?r 2 = 3"
    using sample_io_fields by (simp_all add: backend_at_def epoll_fd_def executor_at_def)
  then have bw: "backend_at sample_waiting 2 =
      \<lparr>io_waits = [(10, sample_entry)], io_wait_pool = [0 \<mapsto> sample_registration], net_channels = [], io_wake_fd = 4\<rparr>"
    by (simp add: sample_waiting_def sample_io_fields)
  then show "wait_table sample_io 2 sample_waiting = [10 \<mapsto> sample_entry]" "channel_table sample_io 2 sample_waiting = Map.empty"
    "registrations 2 sample_waiting = [0 \<mapsto> sample_registration]" "io_wake_fd (backend_at sample_waiting 2) = 4"
    by (simp_all add: wait_table_def channel_table_def registrations_def sample_io_def alist_iter_ops_def
        hash_map_ops.defs alist_ops_def fun_eq_iff)
  show "tk_interest (io_kernel sample_waiting) 3 = [4 \<mapsto> wake_event, 10 \<mapsto> wait_event 10 sample_entry]"
    "epoll_fd sample_waiting 2 = 3" "io_fd (op_wait (io_op_at sample_waiting 0)) = 10" "length (io_backends sample_waiting) = 3"
    using b by (simp_all add: sample_waiting_def)
  show "rt_executors sample_waiting = rt_executors sample_io_runtime"
    "task_at sample_waiting 7 = (task_new 7)\<lparr>task_state := Pending\<rparr>"
    by (simp_all add: sample_waiting_def update_backend_def update_io_result_def)
qed

lemma sample_waiting_ok:
  "waits_ok sample_io 2 sample_waiting" "kernel_agrees sample_io tk_interest 2 sample_waiting"
  by (auto simp: waits_ok_def waits_inv_def sample_waiting_fields sample_entry_def sample_registration_def
      io_wait_entry_empty_def entry_ok_def registered_in_def runtime_events kernel_agrees_def expected_interest_def
      fun_eq_iff split: if_splits)

lemma sample_waiting_thread: "on_thread sample_io 3 2 sample_waiting" "room 3 2 sample_waiting 2"
proof -
  let ?e = "(rt_executors sample_runtime ! 2)\<lparr>ex_io_epoll_fd := 3\<rparr>"
  let ?s = "sample_runtime\<lparr>rt_executors := (rt_executors sample_runtime)[2 := ?e]\<rparr>"
  have len: "length (rt_executors sample_runtime) = 3" and e: "executor_ok 3 2 (rt_executors sample_runtime ! 2)"
    using sample_runtime_ok(1) by (simp_all add: runtime_ok_def)
  have local: "local_ok ?e" "local_content ?e = local_content (rt_executors sample_runtime ! 2)"
    using e by (simp_all add: executor_ok_def local_ok_def local_content_def local_raw_def)
  have ok: "runtime_ok 3 ?s"
    using runtime_ok_executor [OF sample_runtime_ok(1), of 2 ?e] e local(1) by (simp add: executor_ok_def)
  have "lane_content 3 sample_runtime (LocalLane 2) = []" by (simp add: sample_runtime_ok(2))
  then have "local_content ?e = []" using local(2) by (simp add: lane_content_def)
  then have lane: "lane_content 3 ?s (LocalLane 2) = []"
    using lanes_executor [of 2 3 sample_runtime ?e] len by simp
  have q: "rt_executors sample_waiting = rt_executors ?s" "rt_spsc sample_waiting = rt_spsc ?s"
    "rt_external sample_waiting = rt_external ?s" "rt_current sample_waiting = 2"
    by (simp_all add: sample_waiting_def update_backend_def update_io_result_def sample_io_runtime_def runtime.defs)
  show "on_thread sample_io 3 2 sample_waiting"
    using ok by (simp add: on_thread_def runtime_ok_def q sample_waiting_fields(8)) (simp add: sample_io_def)
  have "lane_content 3 sample_waiting (LocalLane 2) = []" using lane by (simp add: lane_content_def q(1))
  moreover have "lane_limit 3 sample_waiting (LocalLane 2) = 2"
    using sample_local_capacity [of 2] len by (simp add: q(1))
  ultimately show "room 3 2 sample_waiting 2" by (simp add: room_def)
qed

theorem poll_event_completes_ready_waits_witness:
  "\<exists>r. poll_wait_event sample_io 2 10 EPOLLIN sample_waiting = Some (True, r) \<and> registrations 2 r = Map.empty \<and>
     task_state (task_at r 7) = Queued \<and> kernel_agrees sample_io tk_interest 2 r"
proof -
  have but: "agrees_but sample_io tk_interest 2 10 sample_waiting"
    by (rule agrees_imp_but [OF sample_waiting_ok(2)]) (simp_all add: sample_waiting_fields)
  have ready: "io_wait_registration_ready sample_registration (io_events_from_native EPOLLIN)"
    by (simp add: io_wait_registration_ready_def sample_registration_def io_events_from_native_def flag_if_def
        platform_events runtime_events)
  have gone: "{a. \<exists>g. registrations 2 sample_waiting a = Some g \<and> reg_fd g = 10 \<and>
      io_wait_registration_ready g (io_events_from_native EPOLLIN)} = {0}"
    using ready by (auto simp: sample_waiting_fields) (simp add: sample_registration_def)
  have entry: "wait_table sample_io 2 sample_waiting 10 = Some sample_entry" by (simp add: sample_waiting_fields)
  obtain r where r: "poll_wait_event sample_io 2 10 EPOLLIN sample_waiting = Some ({0 :: raddr} \<noteq> {}, r)"
    "kernel_agrees sample_io tk_interest 2 r"
    "registrations 2 r = (\<lambda>a. if a \<in> {0} then None else registrations 2 sample_waiting a)"
    "all_woken 3 2 (reg_task ` the ` registrations 2 sample_waiting ` {0}) sample_waiting r"
    using poll_event_completes_ready_waits [OF sample_io_laws sample_waiting_thread sample_waiting_ok(1) but entry refl
        gone [symmetric]] by blast
  have "reg_task ` the ` registrations 2 sample_waiting ` {0} = {7}"
    by (simp add: sample_waiting_fields sample_registration_def)
  then have "all_woken 3 2 {7} sample_waiting r" using r(4) by simp
  then have "task_state (task_at r 7) = Queued" by (simp add: all_woken_def sample_waiting_fields(10))
  moreover have "registrations 2 r = Map.empty" using r(3) by (simp add: sample_waiting_fields fun_eq_iff)
  ultimately show ?thesis using r(1,2) by simp
qed

theorem cancel_removes_wait_witness:
  "\<exists>r. cancel_native_io_wait sample_io 2 0 sample_waiting = Some (True, r) \<and> registrations 2 r = Map.empty \<and>
     io_errno (op_wait (io_op_at r 0)) = ECANCELED"
proof -
  have room: "room 3 2 sample_waiting 1" using sample_waiting_thread(2) by (simp add: room_def)
  have regs: "0 \<le> epoll_fd sample_waiting 2" "registrations 2 sample_waiting 0 = Some sample_registration"
    "reg_result sample_registration = 0" "io_fd (op_wait (io_op_at sample_waiting 0)) = reg_fd sample_registration"
    by (simp_all add: sample_waiting_fields sample_registration_def)
  have "b = 0" if "registrations 2 sample_waiting b = Some h" "reg_result h = 0" for b h
    using that by (simp add: sample_waiting_fields split: if_splits)
  then obtain r where "cancel_native_io_wait sample_io 2 0 sample_waiting = Some (True, r)"
    "registrations 2 r = (registrations 2 sample_waiting)(0 := None)" "io_errno (op_wait (io_op_at r 0)) = ECANCELED"
    using cancel_removes_wait [OF sample_io_laws sample_waiting_thread(1) room sample_waiting_ok regs] by blast
  then show ?thesis by (simp add: sample_waiting_fields)
qed

end
