(* ===== verification/Sharding.thy ===== *)
theory Sharding
  imports Af_Prelude "HOL-Library.Multiset"
begin

section \<open>Splitting operations by shard\<close>

text \<open>
  Models \<^verbatim>\<open>ShardedOps\<close> (\<^verbatim>\<open>async_runtime.hpp\<close>), \<^verbatim>\<open>split_by_shard\<close> (\<^verbatim>\<open>runtime_public_api.hpp\<close>) and the
  change batches of \<^verbatim>\<open>crud_batch.hpp\<close>.  \<^verbatim>\<open>split_by_shard\<close> makes two passes, one that counts and one
  that places; \<^verbatim>\<open>split_crud_ops\<close> makes one.  Both are shown to be the same as filtering the
  operations once per shard.  The key functions are the caller's; the cast of their result to 64
  bits is part of them.
\<close>

record 'op ShardedOps =
  shards :: "'op list list"

definition sharded_new :: "u16 \<Rightarrow> 'op ShardedOps" where
  "sharded_new n = \<lparr>shards = replicate (unat n) []\<rparr>"

definition shard_count :: "'op ShardedOps \<Rightarrow> u16" where
  "shard_count s = of_nat (length (shards s))"

definition push_shard :: "'op list list \<Rightarrow> u16 \<Rightarrow> 'op \<Rightarrow> 'op list list" where
  "push_shard ss shard op = ss[unat shard := ss ! unat shard @ [op]]"

definition shard_of :: "u64 \<Rightarrow> u16 \<Rightarrow> u16" where
  "shard_of key n = ucast (key mod ucast n)"

definition count_step :: "('op \<Rightarrow> u64) \<Rightarrow> u16 \<Rightarrow> u64 list \<times> u16 list \<Rightarrow> 'op \<Rightarrow> u64 list \<times> u16 list" where
  "count_step key_fn n state op =
     (case state of (shard_sizes, shard_indexes) \<Rightarrow>
        let shard = shard_of (key_fn op) n
        in (shard_sizes[unat shard := shard_sizes ! unat shard + 1], shard_indexes @ [shard]))"

definition shard_sizes_and_indexes :: "('op \<Rightarrow> u64) \<Rightarrow> u16 \<Rightarrow> 'op list \<Rightarrow> u64 list \<times> u16 list" where
  "shard_sizes_and_indexes key_fn n ops = foldl (count_step key_fn n) (replicate (unat n) 0, []) ops"

definition place_step :: "u16 list \<Rightarrow> nat \<times> 'op list list \<Rightarrow> 'op \<Rightarrow> nat \<times> 'op list list" where
  "place_step shard_indexes state op =
     (case state of (index, ss) \<Rightarrow> (index + 1, push_shard ss (shard_indexes ! index) op))"

text \<open>
  The counts are what the vectors of the shards reserve between the passes; reserving does not
  change their content.
\<close>

definition split_by_shard :: "('op \<Rightarrow> u64) \<Rightarrow> u16 \<Rightarrow> 'op list \<Rightarrow> 'op ShardedOps" where
  "split_by_shard key_fn n ops =
     (let sharded = sharded_new n
      in if n = 0 then sharded
         else let indexes = snd (shard_sizes_and_indexes key_fn n ops)
              in sharded\<lparr>shards := snd (foldl (place_step indexes) (0, shards sharded) ops)\<rparr>)"

subsection \<open>Change batches\<close>

datatype OpType = OpAdd | OpUpdate | OpDelete

record ('key, 'value) CrudOp =
  op_type :: OpType
  op_key :: 'key
  op_value :: 'value

record ('key, 'value) ChangeBatch =
  change_batch_id :: u64
  change_ops :: "('key, 'value) CrudOp list"

definition split_crud_ops ::
    "('key \<Rightarrow> u64) \<Rightarrow> u16 \<Rightarrow> ('key, 'value) CrudOp list \<Rightarrow> ('key, 'value) CrudOp ShardedOps" where
  "split_crud_ops shard_fn n ops =
     (let sharded = sharded_new n
      in if n = 0 then sharded
         else sharded\<lparr>shards :=
           foldl (\<lambda>ss op. push_shard ss (shard_of (shard_fn (op_key op)) n) op) (shards sharded) ops\<rparr>)"

text \<open>The overload for integral keys, here already of 64 bits.\<close>

definition split_crud_ops_by_key :: "u16 \<Rightarrow> (u64, 'value) CrudOp list \<Rightarrow> (u64, 'value) CrudOp ShardedOps" where
  "split_crud_ops_by_key n ops = split_crud_ops (\<lambda>key. key) n ops"

text \<open>The operations are moved out of the batch.\<close>

definition split_change_batch ::
    "('key \<Rightarrow> u64) \<Rightarrow> u16 \<Rightarrow> ('key, 'value) ChangeBatch \<Rightarrow>
     ('key, 'value) CrudOp ShardedOps \<times> ('key, 'value) ChangeBatch" where
  "split_change_batch shard_fn n batch =
     (let ops = change_ops batch;
          batch = batch\<lparr>change_ops := []\<rparr>
      in (split_crud_ops shard_fn n ops, batch))"

definition split_change_batch_by_key ::
    "u16 \<Rightarrow> (u64, 'value) ChangeBatch \<Rightarrow> (u64, 'value) CrudOp ShardedOps \<times> (u64, 'value) ChangeBatch" where
  "split_change_batch_by_key n batch =
     (let ops = change_ops batch;
          batch = batch\<lparr>change_ops := []\<rparr>
      in (split_crud_ops_by_key n ops, batch))"

subsection \<open>Both are filters\<close>

text \<open>The reference: the operations of one shard, in their order.\<close>

definition shard_ops :: "('op \<Rightarrow> u64) \<Rightarrow> u16 \<Rightarrow> 'op list \<Rightarrow> nat \<Rightarrow> 'op list" where
  "shard_ops key_fn n ops s = filter (\<lambda>op. unat (key_fn op) mod unat n = s) ops"

lemma unat_shard_of: "n \<noteq> 0 \<Longrightarrow> unat (shard_of k n) = unat k mod unat n"
proof -
  assume "n \<noteq> 0"
  then have "0 < unat n" by (simp add: unat_gt_0)
  moreover have "unat n < 2 ^ 16" using unsigned_less [of n, where 'a = nat] by simp
  ultimately have "unat k mod unat n < 2 ^ 16" by (meson less_trans mod_less_divisor)
  then show ?thesis
    using \<open>unat n < 2 ^ 16\<close>
    by (simp add: shard_of_def unat_mod unsigned_ucast_eq take_bit_nat_eq_self)
qed

lemma shard_of_bound: "n \<noteq> 0 \<Longrightarrow> unat (shard_of k n) < unat n"
  by (simp add: unat_shard_of unat_gt_0)

definition filtered :: "('op \<Rightarrow> u64) \<Rightarrow> u16 \<Rightarrow> 'op list \<Rightarrow> 'op list list" where
  "filtered key_fn n ops = map (shard_ops key_fn n ops) [0..<unat n]"

lemma filtered_nil: "filtered key_fn n [] = replicate (unat n) []"
  by (rule nth_equalityI) (simp_all add: filtered_def shard_ops_def)

lemma filtered_snoc:
  assumes "n \<noteq> 0"
  shows "filtered key_fn n (ops @ [op]) = push_shard (filtered key_fn n ops) (shard_of (key_fn op) n) op"
  using shard_of_bound [OF assms, of "key_fn op"] unat_shard_of [OF assms, of "key_fn op"]
  by (intro nth_equalityI) (auto simp: filtered_def push_shard_def shard_ops_def nth_list_update)

lemma single_pass_filtered:
  assumes "n \<noteq> 0"
  shows "foldl (\<lambda>ss op. push_shard ss (shard_of (key_fn op) n) op) (replicate (unat n) []) ops = filtered key_fn n ops"
proof (induction ops rule: rev_induct)
  case (snoc op ops)
  show ?case by (simp add: snoc filtered_snoc [OF assms])
qed (simp add: filtered_nil)

lemma counting_pass:
  assumes "n \<noteq> 0"
  shows "shard_sizes_and_indexes key_fn n ops =
    (map (\<lambda>s. of_nat (length (shard_ops key_fn n ops s))) [0..<unat n], map (\<lambda>op. shard_of (key_fn op) n) ops)"
proof (induction ops rule: rev_induct)
  case Nil
  show ?case by (auto simp: shard_sizes_and_indexes_def shard_ops_def intro: nth_equalityI)
next
  case (snoc op ops)
  have "shard_sizes_and_indexes key_fn n (ops @ [op]) = count_step key_fn n (shard_sizes_and_indexes key_fn n ops) op"
    by (simp add: shard_sizes_and_indexes_def)
  then show ?case
    unfolding snoc
    using shard_of_bound [OF assms, of "key_fn op"] unat_shard_of [OF assms, of "key_fn op"]
    by (auto simp: count_step_def Let_def shard_ops_def nth_list_update intro!: nth_equalityI)
qed

lemma placing_pass:
  assumes "\<And>k. k < length ops \<Longrightarrow> indexes ! k = shard_of (key_fn (ops ! k)) n"
  shows "foldl (place_step indexes) (0, ss) ops =
    (length ops, foldl (\<lambda>ss op. push_shard ss (shard_of (key_fn op) n) op) ss ops)"
  using assms
proof (induction ops rule: rev_induct)
  case (snoc op ops)
  have "indexes ! k = shard_of (key_fn (ops ! k)) n" if "k < length ops" for k
    using snoc.prems [of k] that by (simp add: nth_append)
  then show ?case
    using snoc.IH snoc.prems [of "length ops"] by (simp add: place_step_def)
qed simp

lemma split_by_shard_filtered: "n \<noteq> 0 \<Longrightarrow> shards (split_by_shard key_fn n ops) = filtered key_fn n ops"
  using placing_pass [of ops "map (\<lambda>op. shard_of (key_fn op) n) ops" key_fn n "replicate (unat n) []"]
  by (simp add: split_by_shard_def sharded_new_def counting_pass single_pass_filtered Let_def)

lemma split_crud_filtered:
  "n \<noteq> 0 \<Longrightarrow> shards (split_crud_ops shard_fn n ops) = filtered (\<lambda>op. shard_fn (op_key op)) n ops"
  using single_pass_filtered [of n "\<lambda>op. shard_fn (op_key op)" ops]
  by (simp add: split_crud_ops_def sharded_new_def Let_def)

lemma filtered_partition: "n \<noteq> 0 \<Longrightarrow> mset (concat (filtered key_fn n ops)) = mset ops"
proof (induction ops rule: rev_induct)
  case Nil
  then show ?case by (simp add: filtered_nil concat_replicate_trivial)
next
  case (snoc op ops)
  have push: "mset (concat (push_shard ss s x)) = mset (concat ss) + {#x#}" if "unat s < length ss" for ss :: "'a list list" and s x
  proof -
    have "ss = take (unat s) ss @ ss ! unat s # drop (Suc (unat s)) ss" by (rule id_take_nth_drop [OF that])
    then have "mset (concat ss) = mset (concat (take (unat s) ss)) + mset (ss ! unat s) + mset (concat (drop (Suc (unat s)) ss))"
      by (metis concat_append concat.simps(2) mset_append add.assoc)
    then show ?thesis using that by (simp add: push_shard_def upd_conv_take_nth_drop)
  qed
  show ?case
    using push [of "shard_of (key_fn op) n" "filtered key_fn n ops" op] shard_of_bound [OF snoc.prems] snoc
    by (simp add: filtered_snoc) (simp add: filtered_def)
qed

text \<open>
  C36: The two-pass split puts into shard \<open>s\<close> exactly the operations whose key is \<open>s\<close> modulo the number
  of shards, in their order, for every key function: it loses and duplicates none, it is what the
  one-pass split of a change batch computes, and the space it reserves for a shard is the number
  of operations that go there.
\<close>

theorem split_by_shard_partitions:
  assumes "n \<noteq> 0" and "length ops < 2 ^ 64"
  shows "shards (split_by_shard key_fn n ops) = map (shard_ops key_fn n ops) [0..<unat n] \<and>
    mset (concat (shards (split_by_shard key_fn n ops))) = mset ops \<and>
    map unat (fst (shard_sizes_and_indexes key_fn n ops)) = map length (shards (split_by_shard key_fn n ops)) \<and>
    split_by_shard (\<lambda>op. shard_fn (op_key op)) n changes = split_crud_ops shard_fn n changes"
proof -
  have "length (shard_ops key_fn n ops s) < 2 ^ 64" for s
    using assms(2) by (auto simp: shard_ops_def intro: le_less_trans [OF length_filter_le])
  then have sizes: "map unat (fst (shard_sizes_and_indexes key_fn n ops)) = map length (shards (split_by_shard key_fn n ops))"
    unfolding split_by_shard_filtered [OF assms(1)]
    by (simp add: counting_pass [OF assms(1)] filtered_def unat_of_nat_u64)
  have "split_by_shard (\<lambda>op. shard_fn (op_key op)) n changes = split_crud_ops shard_fn n changes"
    using split_by_shard_filtered [OF assms(1), of "\<lambda>op. shard_fn (op_key op)" changes]
      split_crud_filtered [OF assms(1), of shard_fn changes] by simp
  then show ?thesis
    using split_by_shard_filtered [OF assms(1), of key_fn ops] filtered_partition [OF assms(1), of key_fn ops] sizes
    by (simp add: filtered_def)
qed

theorem split_by_shard_partitions_witness:
  "shards (split_by_shard (\<lambda>op. op) 3 [7, 3, 4, 6]) = [[3, 6], [7, 4], []]"
proof -
  have "shards (split_by_shard (\<lambda>op. op) 3 [7, 3, 4, 6]) = map (shard_ops (\<lambda>op. op) 3 [7, 3, 4, 6]) [0..<unat (3::u16)]"
    by (rule split_by_shard_partitions [THEN conjunct1]) simp_all
  also have "\<dots> = [[3, 6], [7, 4], []]" by (simp add: shard_ops_def upt_rec)
  finally show ?thesis .
qed

end
