(* ===== verification/Parallel_Group.thy ===== *)
theory Parallel_Group
  imports Task_Registry
begin

section \<open>Groups of parallel shards\<close>

text \<open>
  Models \<^verbatim>\<open>RuntimeParallelGroup\<close> (\<^verbatim>\<open>runtime_common_state.hpp\<close>): the counter that the shards of one
  parallel call share.  \<^verbatim>\<open>complete\<close> is three atomic steps (count a failure, decrement \<^verbatim>\<open>pending\<close>, and for
  the last shard resume the owner and free the group), which the shards take in any interleaving.
  The release sequence of the decrements makes every failure count visible to the last one, so
  that the steps can be taken as sequentially consistent.
\<close>

record par_group =
  pg_pending :: u32
  pg_owner :: "taddr ptr"
  pg_resume_thread :: u16
  pg_failed :: u32

definition group_init :: "u32 \<Rightarrow> taddr ptr \<Rightarrow> u16 \<Rightarrow> par_group" where
  "group_init target_count owner resume_thread =
     \<lparr>pg_pending = target_count, pg_owner = owner, pg_resume_thread = resume_thread, pg_failed = 0\<rparr>"

definition group_count_failure :: "bool \<Rightarrow> par_group \<Rightarrow> par_group" where
  "group_count_failure ok g = (if \<not> ok then g\<lparr>pg_failed := pg_failed g + 1\<rparr> else g)"

definition group_arrive :: "par_group \<Rightarrow> u32 \<times> par_group" where
  "group_arrive g = (pg_pending g, g\<lparr>pg_pending := pg_pending g - 1\<rparr>)"

definition group_resumes :: "u16 \<Rightarrow> bool \<Rightarrow> par_group \<Rightarrow> bool" where
  "group_resumes threads resume_owner g \<longleftrightarrow> resume_owner \<and> pg_owner g \<noteq> None \<and> pg_resume_thread g < threads"

subsection \<open>Concurrent completions\<close>

text \<open>Where a shard's call of \<^verbatim>\<open>complete\<close> is.\<close>

datatype completer = Arriving | Counted | Resuming | Completed

text \<open>The group (\<^term>\<open>None\<close> once it is freed), the shards, and the failure counts the owner was resumed with.\<close>

record group_sys =
  gs_group :: "par_group option"
  gs_at :: "nat \<Rightarrow> completer"
  gs_resumes :: "u32 list"

definition group_start :: "u32 \<Rightarrow> taddr ptr \<Rightarrow> u16 \<Rightarrow> group_sys" where
  "group_start n owner resume_thread =
     \<lparr>gs_group = Some (group_init n owner resume_thread), gs_at = (\<lambda>_. Arriving), gs_resumes = []\<rparr>"

text \<open>\<open>calls k\<close> are the arguments \<^verbatim>\<open>ok\<close> and \<^verbatim>\<open>resume_owner\<close> of the shard \<open>k\<close>.\<close>

inductive group_step :: "u16 \<Rightarrow> (nat \<Rightarrow> bool \<times> bool) \<Rightarrow> nat \<Rightarrow> group_sys \<Rightarrow> group_sys \<Rightarrow> bool"
  for threads calls k where
  count: "gs_at s k = Arriving \<Longrightarrow> gs_group s = Some g \<Longrightarrow>
    group_step threads calls k s
      (s\<lparr>gs_group := Some (group_count_failure (fst (calls k)) g), gs_at := (gs_at s)(k := Counted)\<rparr>)"
| arrive: "gs_at s k = Counted \<Longrightarrow> gs_group s = Some g \<Longrightarrow>
    group_step threads calls k s
      (s\<lparr>gs_group := Some (snd (group_arrive g)),
         gs_at := (gs_at s)(k := if fst (group_arrive g) = 1 then Resuming else Completed)\<rparr>)"
| finish: "gs_at s k = Resuming \<Longrightarrow> gs_group s = Some g \<Longrightarrow>
    group_step threads calls k s
      (s\<lparr>gs_group := None, gs_at := (gs_at s)(k := Completed),
         gs_resumes := gs_resumes s @ (if group_resumes threads (snd (calls k)) g then [pg_failed g] else [])\<rparr>)"

inductive group_reachable :: "u32 \<Rightarrow> taddr ptr \<Rightarrow> u16 \<Rightarrow> u16 \<Rightarrow> (nat \<Rightarrow> bool \<times> bool) \<Rightarrow> group_sys \<Rightarrow> bool"
  for n owner resume_thread threads calls where
  start: "group_reachable n owner resume_thread threads calls (group_start n owner resume_thread)"
| step: "group_reachable n owner resume_thread threads calls s \<Longrightarrow> k < unat n \<Longrightarrow> group_step threads calls k s s' \<Longrightarrow>
    group_reachable n owner resume_thread threads calls s'"

subsection \<open>Invariant\<close>

definition waiting_shards :: "nat \<Rightarrow> group_sys \<Rightarrow> nat set" where
  "waiting_shards n s = {k. k < n \<and> gs_at s k \<in> {Arriving, Counted}}"

definition failed_shards :: "nat \<Rightarrow> (nat \<Rightarrow> bool \<times> bool) \<Rightarrow> nat set" where
  "failed_shards n calls = {k. k < n \<and> \<not> fst (calls k)}"

definition counted_failures :: "nat \<Rightarrow> (nat \<Rightarrow> bool \<times> bool) \<Rightarrow> group_sys \<Rightarrow> nat set" where
  "counted_failures n calls s = {k \<in> failed_shards n calls. gs_at s k \<noteq> Arriving}"

definition resuming_shards :: "nat \<Rightarrow> group_sys \<Rightarrow> nat set" where
  "resuming_shards n s = {k. k < n \<and> gs_at s k = Resuming}"

definition group_inv :: "nat \<Rightarrow> taddr ptr \<Rightarrow> u16 \<Rightarrow> u16 \<Rightarrow> (nat \<Rightarrow> bool \<times> bool) \<Rightarrow> group_sys \<Rightarrow> bool" where
  "group_inv n owner resume_thread threads calls s \<longleftrightarrow>
     (case gs_group s of
        Some g \<Rightarrow>
          pg_pending g = of_nat (card (waiting_shards n s)) \<and>
          pg_failed g = of_nat (card (counted_failures n calls s)) \<and>
          pg_owner g = owner \<and> pg_resume_thread g = resume_thread \<and> gs_resumes s = [] \<and>
          (waiting_shards n s \<noteq> {} \<longrightarrow> resuming_shards n s = {}) \<and>
          (waiting_shards n s = {} \<longrightarrow> (\<exists>k < n. resuming_shards n s = {k}))
      | None \<Rightarrow>
          (\<forall>k < n. gs_at s k = Completed) \<and>
          (\<exists>k < n. gs_resumes s =
             (if snd (calls k) \<and> owner \<noteq> None \<and> resume_thread < threads
              then [of_nat (card (failed_shards n calls))] else [])))"

lemma finite_shards [simp]:
  "finite (waiting_shards n s)" "finite (failed_shards n calls)" "finite (counted_failures n calls s)"
  by (simp_all add: waiting_shards_def failed_shards_def counted_failures_def)

lemma card_waiting: "card (waiting_shards n s) \<le> n"
  using card_mono [of "{..<n}" "waiting_shards n s"] by (auto simp: waiting_shards_def)

text \<open>The sets after a shard has moved.\<close>

lemma waiting_move:
  assumes "k < n"
  shows "waiting_shards n (s\<lparr>gs_group := g, gs_at := (gs_at s)(k := c)\<rparr>) =
    (if c \<in> {Arriving, Counted} then insert k (waiting_shards n s) else waiting_shards n s - {k})"
  using assms by (auto simp: waiting_shards_def)

lemma resuming_move:
  assumes "k < n"
  shows "resuming_shards n (s\<lparr>gs_group := g, gs_at := (gs_at s)(k := c)\<rparr>) =
    (if c = Resuming then insert k (resuming_shards n s) else resuming_shards n s - {k})"
  using assms by (auto simp: resuming_shards_def)

lemma counted_move:
  assumes "k < n" "c \<noteq> Arriving"
  shows "counted_failures n calls (s\<lparr>gs_group := g, gs_at := (gs_at s)(k := c)\<rparr>) =
    (if fst (calls k) then counted_failures n calls s else insert k (counted_failures n calls s))"
  using assms by (auto simp: counted_failures_def failed_shards_def)

lemma group_inv_start: "0 < n \<Longrightarrow> group_inv (unat n) owner th threads calls (group_start n owner th)"
  by (auto simp: group_inv_def group_start_def group_init_def waiting_shards_def counted_failures_def
      resuming_shards_def unat_gt_0 word_gt_0 intro: exI [of _ 0])

lemma inv_count:
  assumes inv: "group_inv n owner th threads calls s" and k: "k < n"
    and at: "gs_at s k = Arriving" and g: "gs_group s = Some g"
  shows "group_inv n owner th threads calls
    (s\<lparr>gs_group := Some (group_count_failure (fst (calls k)) g), gs_at := (gs_at s)(k := Counted)\<rparr>)"
proof -
  have w: "k \<in> waiting_shards n s" using at k by (simp add: waiting_shards_def)
  have "k \<notin> counted_failures n calls s" using at by (simp add: counted_failures_def)
  then have card: "card (insert k (counted_failures n calls s)) = Suc (card (counted_failures n calls s))" by simp
  have r: "k \<notin> resuming_shards n s" using at by (simp add: resuming_shards_def)
  show ?thesis
    using inv g w card r
    by (auto simp: group_inv_def waiting_move [OF k] resuming_move [OF k] counted_move [OF k] group_count_failure_def
        insert_absorb)
qed

lemma inv_arrive:
  assumes inv: "group_inv n owner th threads calls s" and k: "k < n" and n: "n < 2 ^ 32"
    and at: "gs_at s k = Counted" and g: "gs_group s = Some g"
  shows "group_inv n owner th threads calls
    (s\<lparr>gs_group := Some (g\<lparr>pg_pending := pg_pending g - 1\<rparr>),
       gs_at := (gs_at s)(k := if pg_pending g = 1 then Resuming else Completed)\<rparr>)"
proof -
  let ?W = "waiting_shards n s" and ?c = "if pg_pending g = 1 then Resuming else Completed"
  have w: "k \<in> ?W" using at k by (simp add: waiting_shards_def)
  have pend: "unat (pg_pending g) = card ?W"
    using inv g card_waiting [of n s] n by (simp add: group_inv_def unat_of_nat_u32)
  have one: "pg_pending g = 1 \<longleftrightarrow> ?W - {k} = {}"
  proof -
    have "pg_pending g = 1 \<longleftrightarrow> card ?W = 1" unfolding pend [symmetric] by (simp add: word_unat_eq_iff)
    also have "\<dots> \<longleftrightarrow> card (?W - {k}) = 0" using w card_Diff_singleton [OF w] card_gt_0_iff [of ?W] by auto
    finally show ?thesis by simp
  qed
  have card: "card ?W = Suc (card (?W - {k}))" using w by (metis card_Suc_Diff1 finite_shards(1))
  have r: "resuming_shards n s = {}" using inv g w by (auto simp: group_inv_def)
  have c: "k \<in> counted_failures n calls s" if "\<not> fst (calls k)"
    using that k at by (simp add: counted_failures_def failed_shards_def)
  have failed: "counted_failures n calls (s\<lparr>gs_group := h, gs_at := (gs_at s)(k := ?c)\<rparr>) = counted_failures n calls s" for h
    using c by (cases "fst (calls k)") (simp_all add: counted_move [OF k] insert_absorb)
  have moved: "waiting_shards n (s\<lparr>gs_group := h, gs_at := (gs_at s)(k := ?c)\<rparr>) = ?W - {k}"
    "resuming_shards n (s\<lparr>gs_group := h, gs_at := (gs_at s)(k := ?c)\<rparr>) = (if ?W - {k} = {} then {k} else {})" for h
    using one r by (simp_all add: waiting_move [OF k] resuming_move [OF k])
  have counts: "pg_pending g - 1 = of_nat (card (?W - {k}))" "pg_failed g = of_nat (card (counted_failures n calls s))"
    "pg_owner g = owner" "pg_resume_thread g = th" "gs_resumes s = []"
    using inv g card by (simp_all add: group_inv_def)
  show ?thesis
    unfolding group_inv_def by (simp add: failed moved counts k del: Diff_eq_empty_iff)
qed

lemma inv_finish:
  assumes inv: "group_inv n owner th threads calls s" and k: "k < n"
    and at: "gs_at s k = Resuming" and g: "gs_group s = Some g"
  shows "group_inv n owner th threads calls
    (s\<lparr>gs_group := None, gs_at := (gs_at s)(k := Completed),
       gs_resumes := gs_resumes s @ (if group_resumes threads (snd (calls k)) g then [pg_failed g] else [])\<rparr>)"
proof -
  have kr: "k \<in> resuming_shards n s" using at k by (simp add: resuming_shards_def)
  then have w: "waiting_shards n s = {}" using inv g by (auto simp: group_inv_def)
  then obtain j where "resuming_shards n s = {j}" using inv g by (auto simp: group_inv_def)
  then have r: "resuming_shards n s = {k}" using kr by simp
  have other: "gs_at s j = Completed" if "j < n" "j \<noteq> k" for j
    using that w r by (cases "gs_at s j") (auto simp: waiting_shards_def resuming_shards_def)
  have "counted_failures n calls s = failed_shards n calls"
    using w by (auto simp: counted_failures_def failed_shards_def waiting_shards_def)
  then show ?thesis
    using inv g other k by (auto simp: group_inv_def group_resumes_def)
qed

lemma group_inv_reachable:
  assumes "group_reachable n owner th threads calls s" and "0 < n"
  shows "group_inv (unat n) owner th threads calls s"
  using assms
proof (induction rule: group_reachable.induct)
  case start
  then show ?case by (rule group_inv_start)
next
  case (step s k s')
  have n: "unat n < 2 ^ 32" using unsigned_less [of n, where 'a = nat] by simp
  from step.hyps(3) show ?case
  proof (cases rule: group_step.cases)
    case count
    then show ?thesis using inv_count [OF step.IH step.hyps(2)] step.prems by simp
  next
    case arrive
    then show ?thesis using inv_arrive [OF step.IH step.hyps(2) n] step.prems by (simp add: group_arrive_def)
  next
    case finish
    then show ?thesis using inv_finish [OF step.IH step.hyps(2)] step.prems by simp
  qed
qed

lemma group_step_enabled:
  assumes "gs_group s = Some g" "gs_at s k \<noteq> Completed"
  shows "\<exists>s'. group_step threads calls k s s'"
proof (cases "gs_at s k")
  case Arriving
  then show ?thesis by (intro exI) (rule group_step.count [OF _ assms(1)])
next
  case Counted
  then show ?thesis by (intro exI) (rule group_step.arrive [OF _ assms(1)])
next
  case Resuming
  then show ?thesis by (intro exI) (rule group_step.finish [OF _ assms(1)])
qed (use assms(2) in simp)

text \<open>
  C24: However the shards of a parallel call interleave their completions, no shard ever finds the
  group freed before its own completion is over; the group is freed exactly when all have
  completed; the owner is resumed at most once, only then, and always with the exact number of
  failed shards; and it is resumed if no shard was cancelled.
\<close>

theorem parallel_group_resumes_once:
  assumes "group_reachable n (Some owner) th threads calls s" and "0 < n" and "th < threads"
  shows "(\<forall>k < unat n. gs_at s k \<noteq> Completed \<longrightarrow> (\<exists>s'. group_step threads calls k s s')) \<and>
    (gs_group s = None \<longleftrightarrow> (\<forall>k < unat n. gs_at s k = Completed)) \<and>
    (gs_resumes s = [] \<or> gs_group s = None \<and> gs_resumes s = [of_nat (card {k. k < unat n \<and> \<not> fst (calls k)})]) \<and>
    (gs_group s = None \<and> (\<forall>k < unat n. snd (calls k)) \<longrightarrow> gs_resumes s \<noteq> [])"
proof -
  note inv = group_inv_reachable [OF assms(1,2)]
  show ?thesis
  proof (cases "gs_group s")
    case None
    then show ?thesis using inv assms(3) by (auto simp: group_inv_def failed_shards_def)
  next
    case (Some g)
    have "\<exists>k < unat n. gs_at s k \<noteq> Completed"
    proof (cases "waiting_shards (unat n) s = {}")
      case True
      then obtain k where "k \<in> resuming_shards (unat n) s" using inv Some by (auto simp: group_inv_def)
      then show ?thesis by (auto simp: resuming_shards_def)
    next
      case False
      then show ?thesis by (auto simp: waiting_shards_def)
    qed
    then show ?thesis
      using inv Some group_step_enabled [OF Some] by (auto simp: group_inv_def)
  qed
qed

text \<open>Two shards, the second of which fails; the first is the last to arrive.\<close>

definition sample_calls :: "nat \<Rightarrow> bool \<times> bool" where
  "sample_calls k = (k = 0, True)"

definition sample_group_end :: group_sys where
  "sample_group_end = \<lparr>gs_group = None, gs_at = (\<lambda>_. Arriving)(1 := Completed, 0 := Completed), gs_resumes = [1]\<rparr>"

text \<open>The states on the way there: the counters, and where the two shards are.\<close>

definition sample_group_state :: "u32 \<Rightarrow> u32 \<Rightarrow> completer \<Rightarrow> completer \<Rightarrow> group_sys" where
  "sample_group_state pending failures x y =
     \<lparr>gs_group = Some \<lparr>pg_pending = pending, pg_owner = Some 7, pg_resume_thread = 0, pg_failed = failures\<rparr>,
      gs_at = (\<lambda>_. Arriving)(1 := y, 0 := x), gs_resumes = []\<rparr>"

lemma group_stepI:
  "gs_at s k = Arriving \<Longrightarrow> gs_group s = Some g \<Longrightarrow>
   s' = s\<lparr>gs_group := Some (group_count_failure (fst (calls k)) g), gs_at := (gs_at s)(k := Counted)\<rparr> \<Longrightarrow>
   group_step threads calls k s s'"
  "gs_at s k = Counted \<Longrightarrow> gs_group s = Some g \<Longrightarrow>
   s' = s\<lparr>gs_group := Some (snd (group_arrive g)),
          gs_at := (gs_at s)(k := if fst (group_arrive g) = 1 then Resuming else Completed)\<rparr> \<Longrightarrow>
   group_step threads calls k s s'"
  "gs_at s k = Resuming \<Longrightarrow> gs_group s = Some g \<Longrightarrow>
   s' = s\<lparr>gs_group := None, gs_at := (gs_at s)(k := Completed),
          gs_resumes := gs_resumes s @ (if group_resumes threads (snd (calls k)) g then [pg_failed g] else [])\<rparr> \<Longrightarrow>
   group_step threads calls k s s'"
  by (simp_all only: group_step.count group_step.arrive group_step.finish)

lemma sample_group_steps:
  "group_step 3 sample_calls 1 (sample_group_state 2 0 Arriving Arriving) (sample_group_state 2 1 Arriving Counted)"
  "group_step 3 sample_calls 0 (sample_group_state 2 1 Arriving Counted) (sample_group_state 2 1 Counted Counted)"
  "group_step 3 sample_calls 1 (sample_group_state 2 1 Counted Counted) (sample_group_state 1 1 Counted Completed)"
  "group_step 3 sample_calls 0 (sample_group_state 1 1 Counted Completed) (sample_group_state 0 1 Resuming Completed)"
  "group_step 3 sample_calls 0 (sample_group_state 0 1 Resuming Completed) sample_group_end"
proof -
  note defs = sample_group_state_def sample_calls_def group_count_failure_def group_arrive_def
  show "group_step 3 sample_calls 1 (sample_group_state 2 0 Arriving Arriving) (sample_group_state 2 1 Arriving Counted)"
    by (rule group_stepI(1)) (auto simp: defs)
  show "group_step 3 sample_calls 0 (sample_group_state 2 1 Arriving Counted) (sample_group_state 2 1 Counted Counted)"
    by (rule group_stepI(1)) (auto simp: defs)
  show "group_step 3 sample_calls 1 (sample_group_state 2 1 Counted Counted) (sample_group_state 1 1 Counted Completed)"
    by (rule group_stepI(2)) (auto simp: defs)
  show "group_step 3 sample_calls 0 (sample_group_state 1 1 Counted Completed) (sample_group_state 0 1 Resuming Completed)"
    by (rule group_stepI(2)) (auto simp: defs)
  show "group_step 3 sample_calls 0 (sample_group_state 0 1 Resuming Completed) sample_group_end"
    by (rule group_stepI(3)) (auto simp: defs sample_group_end_def group_resumes_def)
qed

lemma sample_group_trace: "group_reachable 2 (Some 7) 0 3 sample_calls sample_group_end"
proof -
  have "group_start 2 (Some 7) 0 = sample_group_state 2 0 Arriving Arriving"
    by (auto simp: group_start_def group_init_def sample_group_state_def)
  then have "group_reachable 2 (Some 7) 0 3 sample_calls (sample_group_state 2 0 Arriving Arriving)"
    using group_reachable.start [of 2 "Some 7" 0 3 sample_calls] by simp
  then have "group_reachable 2 (Some 7) 0 3 sample_calls (sample_group_state 2 1 Arriving Counted)"
    by (rule group_reachable.step [OF _ _ sample_group_steps(1)]) simp
  then have "group_reachable 2 (Some 7) 0 3 sample_calls (sample_group_state 2 1 Counted Counted)"
    by (rule group_reachable.step [OF _ _ sample_group_steps(2)]) simp
  then have "group_reachable 2 (Some 7) 0 3 sample_calls (sample_group_state 1 1 Counted Completed)"
    by (rule group_reachable.step [OF _ _ sample_group_steps(3)]) simp
  then have "group_reachable 2 (Some 7) 0 3 sample_calls (sample_group_state 0 1 Resuming Completed)"
    by (rule group_reachable.step [OF _ _ sample_group_steps(4)]) simp
  then show ?thesis by (rule group_reachable.step [OF _ _ sample_group_steps(5)]) simp
qed

theorem parallel_group_resumes_once_witness:
  "gs_resumes sample_group_end = [of_nat (card {k. k < unat (2::u32) \<and> \<not> fst (sample_calls k)})]"
proof -
  have "gs_resumes sample_group_end \<noteq> []" by (simp add: sample_group_end_def)
  moreover have "0 < (2::u32)" "0 < (3::u16)" by simp_all
  ultimately show ?thesis using parallel_group_resumes_once [OF sample_group_trace] by blast
qed

end
