(* ===== verification/Parallel_Shards.thy ===== *)
theory Parallel_Shards
  imports Runtime_Api Sharding Parallel_Group
begin

section \<open>Parallel calls over shards\<close>

text \<open>
  Models \<^verbatim>\<open>runtime_parallel.hpp\<close> and the \<^verbatim>\<open>parallel_shards\<close> functions of \<^verbatim>\<open>runtime_public_api.hpp\<close>: a task
  hands one list of operations to each of a range of threads, each of which applies the handler
  once and reports to the group, and the last one resumes the task.  An ordered call goes through
  the guard of the thread, which admits the batch after the last one applied.  The code is the one
  of a build without assertions.

  The live groups and the members of the \<^verbatim>\<open>ShardTask\<close> objects extend the runtime's record; an access
  to one that is not alive is undefined: \<^term>\<open>None\<close>.  Parameters, bundled in \<open>shard_params\<close>: the caller's
  handler (its result \<^term>\<open>None\<close> is an exception; a handler without a result returns \<^term>\<open>True\<close>; the outer
  \<^term>\<open>None\<close> does not return), and what \<open>run_call\<close> takes; \<open>fresh i\<close> is the address and the id that the pool
  gives to the task of shard \<open>i\<close>, \<open>g\<close> the address of the group.
\<close>

datatype ParallelMode = NonEmptyOnly | AllShards
datatype OrderedBatchReplayPolicy = Strict | SkipAlreadyAppliedPolicy
datatype OrderedGuardDecision = GuardRun | GuardSkipAlreadyApplied | GuardFail

record OrderedBatchOptions =
  replay_policy :: OrderedBatchReplayPolicy

definition ordered_batch_options :: OrderedBatchOptions where
  "ordered_batch_options = \<lparr>replay_policy = Strict\<rparr>"


record 'op shard_task =
  st_group :: nat
  st_shard_index :: u16
  st_batch_id :: u64
  st_options :: OrderedBatchOptions
  st_ops :: "'op list"
  st_ordered :: bool

record 'op par_runtime = runtime +
  par_groups :: "nat \<Rightarrow> par_group option"
  par_shard_tasks :: "taddr \<Rightarrow> 'op shard_task option"

record ('tag, 'op, 's) shard_params =
  sp_config :: "'tag runtime_config"
  sp_wake_written :: bool
  sp_env :: "'s \<Rightarrow> 's"
  sp_run :: "taddr \<Rightarrow> 's \<Rightarrow> (TaskResult option \<times> 's) option"
  sp_handler :: "u16 \<Rightarrow> 'op list \<Rightarrow> u64 option \<Rightarrow> 's \<Rightarrow> (bool option \<times> 's) option"

definition post_to ::
    "('tag, 'op, ('op, 'z) par_runtime_scheme) shard_params \<Rightarrow> u16 \<Rightarrow> taddr \<Rightarrow> ('op, 'z) par_runtime_scheme \<Rightarrow>
     ('op, 'z) par_runtime_scheme option" where
  "post_to P thread a r = post_blocking (sp_config P) (sp_wake_written P) (sp_env P) (sp_run P) thread a Auto r"

subsection \<open>The order guard\<close>

definition last_applied :: "'z runtime_scheme \<Rightarrow> u64" where
  "last_applied r = rt_ordered r ! unat (rt_current r)"

definition check_order_guard :: "u64 \<Rightarrow> OrderedBatchOptions \<Rightarrow> 'z runtime_scheme \<Rightarrow> OrderedGuardDecision" where
  "check_order_guard batch_id options r =
     (if batch_id = last_applied r + 1 then GuardRun
      else if replay_policy options = SkipAlreadyAppliedPolicy \<and> batch_id = last_applied r
      then GuardSkipAlreadyApplied
      else GuardFail)"

definition commit_order_guard :: "u64 \<Rightarrow> 'z runtime_scheme \<Rightarrow> 'z runtime_scheme" where
  "commit_order_guard batch_id r = r\<lparr>rt_ordered := (rt_ordered r)[unat (rt_current r) := batch_id]\<rparr>"

definition ordered_last_applied_batch_id :: "'z runtime_scheme \<Rightarrow> u16 \<Rightarrow> u64" where
  "ordered_last_applied_batch_id r index =
     (if length (rt_ordered r) \<le> unat index then 0 else rt_ordered r ! unat index)"

definition run_parallel_shard ::
    "('tag, 'op, ('op, 'z) par_runtime_scheme) shard_params \<Rightarrow> bool \<Rightarrow> u16 \<Rightarrow> u64 \<Rightarrow> OrderedBatchOptions \<Rightarrow>
     'op list \<Rightarrow> ('op, 'z) par_runtime_scheme \<Rightarrow> (bool \<times> ('op, 'z) par_runtime_scheme) option" where
  "run_parallel_shard P ordered shard_index batch_id options ops r =
     (let decision = (if ordered then check_order_guard batch_id options r else GuardRun);
          ok = (decision \<noteq> GuardFail);
          skip_handler = (decision = GuardSkipAlreadyApplied)
      in if ok \<and> \<not> skip_handler
         then (case sp_handler P shard_index ops (if ordered then Some batch_id else None) r of
                 None \<Rightarrow> None
               | Some (result, r) \<Rightarrow>
                   let ok = (case result of None \<Rightarrow> False | Some b \<Rightarrow> b)
                   in Some (ok, if ordered \<and> ok then commit_order_guard batch_id r else r))
         else Some (ok, r))"

subsection \<open>Groups and shard tasks\<close>

definition create_parallel_group ::
    "nat \<Rightarrow> u32 \<Rightarrow> taddr ptr \<Rightarrow> u16 \<Rightarrow> ('op, 'z) par_runtime_scheme \<Rightarrow> ('op, 'z) par_runtime_scheme" where
  "create_parallel_group g target_count owner resume_thread r =
     r\<lparr>par_groups := (par_groups r)(g \<mapsto> group_init target_count owner resume_thread)\<rparr>"

definition destroy_parallel_group :: "nat \<Rightarrow> ('op, 'z) par_runtime_scheme \<Rightarrow> ('op, 'z) par_runtime_scheme" where
  "destroy_parallel_group g r = r\<lparr>par_groups := (par_groups r)(g := None)\<rparr>"

definition set_task_parallel_failures :: "taddr \<Rightarrow> u32 \<Rightarrow> 'z task_heap_scheme \<Rightarrow> 'z task_heap_scheme" where
  "set_task_parallel_failures a failures r = update_task a (\<lambda>t. set_last_parallel_failures t failures) r"

definition group_complete ::
    "('tag, 'op, ('op, 'z) par_runtime_scheme) shard_params \<Rightarrow> nat \<Rightarrow> bool \<Rightarrow> bool \<Rightarrow>
     ('op, 'z) par_runtime_scheme \<Rightarrow> ('op, 'z) par_runtime_scheme option" where
  "group_complete P g ok resume_owner r =
     (case par_groups r g of
        None \<Rightarrow> None
      | Some grp \<Rightarrow>
          (case group_arrive (group_count_failure ok grp) of
             (previous, grp) \<Rightarrow>
               let r = r\<lparr>par_groups := (par_groups r)(g \<mapsto> grp)\<rparr>
               in if previous = 1
                  then (case pg_owner grp of
                          Some owner \<Rightarrow>
                            if group_resumes (thread_count (cf_threads (sp_config P))) resume_owner grp
                            then map_option (destroy_parallel_group g)
                                   (post_to P (pg_resume_thread grp) owner
                                      (set_task_parallel_failures owner (pg_failed grp) r))
                            else Some (destroy_parallel_group g r)
                        | None \<Rightarrow> Some (destroy_parallel_group g r))
                  else Some r))"

definition shard_task_run ::
    "('tag, 'op, ('op, 'z) par_runtime_scheme) shard_params \<Rightarrow> taddr \<Rightarrow> ('op, 'z) par_runtime_scheme \<Rightarrow>
     (TaskResult option \<times> ('op, 'z) par_runtime_scheme) option" where
  "shard_task_run P a r =
     (case par_shard_tasks r a of
        None \<Rightarrow> None
      | Some t \<Rightarrow>
          (case run_parallel_shard P (st_ordered t) (st_shard_index t) (st_batch_id t) (st_options t) (st_ops t) r of
             None \<Rightarrow> None
           | Some (ok, r) \<Rightarrow> map_option (Pair (Some RDone)) (group_complete P (st_group t) ok True r)))"

definition shard_task_on_runtime_cancel ::
    "('tag, 'op, ('op, 'z) par_runtime_scheme) shard_params \<Rightarrow> taddr \<Rightarrow> ('op, 'z) par_runtime_scheme \<Rightarrow>
     ('op, 'z) par_runtime_scheme option" where
  "shard_task_on_runtime_cancel P a r =
     (case par_shard_tasks r a of None \<Rightarrow> None | Some t \<Rightarrow> group_complete P (st_group t) False False r)"

definition allocate_shard_task ::
    "taddr \<Rightarrow> u64 \<Rightarrow> 'op shard_task \<Rightarrow> ('op, 'z) par_runtime_scheme \<Rightarrow> ('op, 'z) par_runtime_scheme" where
  "allocate_shard_task a i t r =
     (allocate_task a i r)\<lparr>par_shard_tasks := (par_shard_tasks r)(a \<mapsto> t)\<rparr>"

subsection \<open>The fan-out\<close>

text \<open>One call: what does not change in the loop over the shards.\<close>

record shard_call =
  sc_ordered :: bool
  sc_begin :: u16
  sc_mode :: ParallelMode
  sc_batch_id :: u64
  sc_options :: OrderedBatchOptions
  sc_group :: nat

text \<open>The loop's body, for a shard that is not skipped.\<close>

definition start_shard ::
    "('tag, 'op, ('op, 'z) par_runtime_scheme) shard_params \<Rightarrow> shard_call \<Rightarrow> (nat \<Rightarrow> taddr \<times> u64) \<Rightarrow> nat \<Rightarrow> 'op list \<Rightarrow>
     ('op, 'z) par_runtime_scheme \<Rightarrow> ('op, 'z) par_runtime_scheme option" where
  "start_shard P call fresh i ops r =
     (let thread = sc_begin call + of_nat i
      in if thread = rt_current r
         then (case run_parallel_shard P (sc_ordered call) (of_nat i) (sc_batch_id call) (sc_options call) ops r of
                 None \<Rightarrow> None
               | Some (ok, r) \<Rightarrow> group_complete P (sc_group call) ok True r)
         else let task = \<lparr>st_group = sc_group call, st_shard_index = of_nat i,
                          st_batch_id = (if sc_ordered call then sc_batch_id call else 0),
                          st_options = (if sc_ordered call then sc_options call else ordered_batch_options),
                          st_ops = ops, st_ordered = sc_ordered call\<rparr>
              in post_to P thread (fst (fresh i))
                   (allocate_shard_task (fst (fresh i)) (snd (fresh i)) task r))"

definition shard_skipped :: "ParallelMode \<Rightarrow> 'op list \<Rightarrow> bool" where
  "shard_skipped mode ops \<longleftrightarrow> mode = NonEmptyOnly \<and> ops = []"

text \<open>The operations of a started shard are moved out of the argument.\<close>

fun fan_out ::
    "('tag, 'op, ('op, 'z) par_runtime_scheme) shard_params \<Rightarrow> shard_call \<Rightarrow> (nat \<Rightarrow> taddr \<times> u64) \<Rightarrow> nat list \<Rightarrow>
     'op ShardedOps \<Rightarrow> ('op, 'z) par_runtime_scheme \<Rightarrow> ('op ShardedOps \<times> ('op, 'z) par_runtime_scheme) option" where
  "fan_out P call fresh [] sharded r = Some (sharded, r)"
| "fan_out P call fresh (i # is) sharded r =
     (if shard_skipped (sc_mode call) (shards sharded ! i) then fan_out P call fresh is sharded r
      else case start_shard P call fresh i (shards sharded ! i) r of
             None \<Rightarrow> None
           | Some r \<Rightarrow> fan_out P call fresh is (sharded\<lparr>shards := (shards sharded)[i := []]\<rparr>) r)"

definition shard_targets :: "ParallelMode \<Rightarrow> 'op ShardedOps \<Rightarrow> nat list" where
  "shard_targets mode sharded =
     filter (\<lambda>i. \<not> shard_skipped mode (shards sharded ! i)) [0..<unat (shard_count sharded)]"

definition parallel_shards_impl ::
    "('tag, 'op, ('op, 'z) par_runtime_scheme) shard_params \<Rightarrow> shard_call \<Rightarrow> (nat \<Rightarrow> taddr \<times> u64) \<Rightarrow> 'op ShardedOps \<Rightarrow>
     taddr \<Rightarrow> ('op, 'z) par_runtime_scheme \<Rightarrow> ('op ShardedOps \<times> ('op, 'z) par_runtime_scheme) option" where
  "parallel_shards_impl P call fresh sharded owner r =
     (let target_count = (of_nat (length (shard_targets (sc_mode call) sharded)) :: u32)
      in if target_count = 0 then map_option (Pair sharded) (post_to P (rt_current r) owner r)
         else fan_out P call fresh [0..<unat (shard_count sharded)] sharded
                (create_parallel_group (sc_group call) target_count (Some owner) (rt_current r) r))"

definition parallel_shards ::
    "('tag, 'op, ('op, 'z) par_runtime_scheme) shard_params \<Rightarrow> u16 \<Rightarrow> nat \<Rightarrow> (nat \<Rightarrow> taddr \<times> u64) \<Rightarrow> 'op ShardedOps \<Rightarrow>
     ParallelMode \<Rightarrow> taddr \<Rightarrow> ('op, 'z) par_runtime_scheme \<Rightarrow> ('op ShardedOps \<times> ('op, 'z) par_runtime_scheme) option" where
  "parallel_shards P shard_begin g fresh sharded mode owner r =
     parallel_shards_impl P
       \<lparr>sc_ordered = False, sc_begin = shard_begin, sc_mode = mode, sc_batch_id = 0,
        sc_options = ordered_batch_options, sc_group = g\<rparr> fresh sharded owner r"

definition parallel_shards_first ::
    "('tag, 'op, ('op, 'z) par_runtime_scheme) shard_params \<Rightarrow> nat \<Rightarrow> (nat \<Rightarrow> taddr \<times> u64) \<Rightarrow> 'op ShardedOps \<Rightarrow>
     ParallelMode \<Rightarrow> taddr \<Rightarrow> ('op, 'z) par_runtime_scheme \<Rightarrow> ('op ShardedOps \<times> ('op, 'z) par_runtime_scheme) option" where
  "parallel_shards_first P g fresh sharded mode owner r = parallel_shards P 0 g fresh sharded mode owner r"

definition parallel_shards_ordered_with ::
    "('tag, 'op, ('op, 'z) par_runtime_scheme) shard_params \<Rightarrow> u16 \<Rightarrow> nat \<Rightarrow> (nat \<Rightarrow> taddr \<times> u64) \<Rightarrow> 'op ShardedOps \<Rightarrow>
     u64 \<Rightarrow> OrderedBatchOptions \<Rightarrow> taddr \<Rightarrow> ('op, 'z) par_runtime_scheme \<Rightarrow>
     ('op ShardedOps \<times> ('op, 'z) par_runtime_scheme) option" where
  "parallel_shards_ordered_with P shard_begin g fresh sharded batch_id options owner r =
     parallel_shards_impl P
       \<lparr>sc_ordered = True, sc_begin = shard_begin, sc_mode = AllShards, sc_batch_id = batch_id,
        sc_options = options, sc_group = g\<rparr> fresh sharded owner r"

definition parallel_shards_ordered ::
    "('tag, 'op, ('op, 'z) par_runtime_scheme) shard_params \<Rightarrow> u16 \<Rightarrow> nat \<Rightarrow> (nat \<Rightarrow> taddr \<times> u64) \<Rightarrow> 'op ShardedOps \<Rightarrow>
     u64 \<Rightarrow> taddr \<Rightarrow> ('op, 'z) par_runtime_scheme \<Rightarrow> ('op ShardedOps \<times> ('op, 'z) par_runtime_scheme) option" where
  "parallel_shards_ordered P shard_begin g fresh sharded batch_id owner r =
     parallel_shards_ordered_with P shard_begin g fresh sharded batch_id ordered_batch_options owner r"

definition parallel_shards_ordered_first_with ::
    "('tag, 'op, ('op, 'z) par_runtime_scheme) shard_params \<Rightarrow> nat \<Rightarrow> (nat \<Rightarrow> taddr \<times> u64) \<Rightarrow> 'op ShardedOps \<Rightarrow>
     u64 \<Rightarrow> OrderedBatchOptions \<Rightarrow> taddr \<Rightarrow> ('op, 'z) par_runtime_scheme \<Rightarrow>
     ('op ShardedOps \<times> ('op, 'z) par_runtime_scheme) option" where
  "parallel_shards_ordered_first_with P g fresh sharded batch_id options owner r =
     parallel_shards_ordered_with P 0 g fresh sharded batch_id options owner r"

definition parallel_shards_ordered_first ::
    "('tag, 'op, ('op, 'z) par_runtime_scheme) shard_params \<Rightarrow> nat \<Rightarrow> (nat \<Rightarrow> taddr \<times> u64) \<Rightarrow> 'op ShardedOps \<Rightarrow>
     u64 \<Rightarrow> taddr \<Rightarrow> ('op, 'z) par_runtime_scheme \<Rightarrow> ('op ShardedOps \<times> ('op, 'z) par_runtime_scheme) option" where
  "parallel_shards_ordered_first P g fresh sharded batch_id owner r =
     parallel_shards_ordered P 0 g fresh sharded batch_id owner r"

subsection \<open>Ordered batches are applied once and in order\<close>








subsection \<open>Posting into a queue with room\<close>

text \<open>What a post to a queue with room leaves alone, everything but the queue and the task.\<close>

definition post_frame :: "nat \<Rightarrow> 'z runtime_scheme \<Rightarrow> 'z runtime_scheme \<Rightarrow> bool" where
  "post_frame n r r' \<longleftrightarrow> lane_limit n r' = lane_limit n r \<and> rt_current r' = rt_current r \<and>
     rt_ordered r' = rt_ordered r \<and> runtime.more r' = runtime.more r"

lemma push_capacity: "spsc_try_push q v = (b, q') \<Longrightarrow> spsc_capacity q' = spsc_capacity q"
  by (auto simp: spsc_try_push_def Let_def split: if_splits)

lemma limit_link:
  "spsc_capacity q = spsc_capacity (rt_spsc r ! k) \<Longrightarrow>
   lane_limit n (r\<lparr>rt_spsc := (rt_spsc r)[k := q]\<rparr>) = lane_limit n r"
proof
  fix l assume "spsc_capacity q = spsc_capacity (rt_spsc r ! k)"
  then show "lane_limit n (r\<lparr>rt_spsc := (rt_spsc r)[k := q]\<rparr>) l = lane_limit n r l"
    by (cases l; cases "k < length (rt_spsc r)") (auto simp: nth_list_update list_update_beyond)
qed

lemma limit_executor:
  assumes "ex_local_capacity e = ex_local_capacity (executor_at r i)"
  shows "lane_limit n (set_executor r i e) = lane_limit n r"
proof
  fix l show "lane_limit n (set_executor r i e) l = lane_limit n r l"
    using assms
    by (cases l; cases "unat i < length (rt_executors r)")
       (auto simp: set_executor_def executor_at_def nth_list_update list_update_beyond)
qed

lemma notify_capacity: "ex_local_capacity (notify wr e) = ex_local_capacity e"
  by (simp add: notify_def notify_native_io_backend_def notify_one_def Let_def)

lemma link_post_frame:
  assumes "try_enqueue_cross_thread_spsc c wr s i a r = (True, r')"
  shows "post_frame n r r'" "heap_part r' = heap_part r"
proof -
  let ?k = "spsc_index c s i"
  obtain q where push: "spsc_try_push (rt_spsc r ! ?k) (Some a) = (True, q)"
    using assms by (auto simp: try_enqueue_cross_thread_spsc_def Let_def split: prod.splits if_splits)
  define r1 where "r1 = r\<lparr>rt_spsc := (rt_spsc r)[?k := q]\<rparr>"
  define r2 where "r2 = mark_source_ready s i r1"
  have r': "r' = set_executor r2 i (notify wr (executor_at r2 i))"
    using assms push by (simp add: try_enqueue_cross_thread_spsc_def r1_def r2_def Let_def)
  have "lane_limit n r1 = lane_limit n r" unfolding r1_def by (rule limit_link [OF push_capacity [OF push]])
  moreover have "lane_limit n r2 = lane_limit n r1"
    unfolding r2_def mark_source_ready_def Let_def by (rule limit_executor) simp
  moreover have "lane_limit n r' = lane_limit n r2" unfolding r' by (rule limit_executor) (rule notify_capacity)
  ultimately show "post_frame n r r'"
    by (simp add: post_frame_def r' r2_def r1_def mark_source_ready_def set_executor_def Let_def)
  show "heap_part r' = heap_part r" by (simp add: r' r2_def r1_def)
qed

lemma post_created_to_link:
  assumes ok: "runtime_ok n r" and n: "n = thread_total_of c" and i: "unat index < n"
    and cur: "rt_current r < thread_count (cf_threads c)" and other: "index \<noteq> rt_current r"
    and created: "task_state (task_at r a) = Created"
    and room: "length (lane_content n r (LinkLane (unat (rt_current r)) (unat index))) <
               lane_limit n r (LinkLane (unat (rt_current r)) (unat index))"
  obtains r' where "post_blocking c wr env run index a Auto r = Some r'" "runtime_ok n r'" "post_frame n r r'"
    "lane_content n r' = (lane_content n r)(LinkLane (unat (rt_current r)) (unat index) :=
       lane_content n r (LinkLane (unat (rt_current r)) (unat index)) @ [a])"
    "task_at r' = (task_at r)(a := (task_at r a)\<lparr>task_state := Queued\<rparr>)"
proof -
  let ?l = "LinkLane (unat (rt_current r)) (unat index)" and ?b = "backoff_new (cf_queue_full_spin_count c)"
  define r1 where "r1 = on_task_started (cf_task_registry_enabled c) (cf_shutdown_policy c) a
    (set_task r a ((task_at r a)\<lparr>task_state := Queued\<rparr>))"
  have same: "same_queues n r r1"
    unfolding r1_def by (rule same_queues_trans [OF set_task_same_queues started_same_queues])
  then have q1: "runtime_ok n r1" "lane_content n r1 = lane_content n r" "lane_limit n r1 = lane_limit n r"
    "rt_current r1 = rt_current r"
    using ok by (simp_all add: same_queues_def)
  have s: "unat (rt_current r1) < n" using cur q1(4) by (simp add: n thread_total_of_def word_less_nat_alt)
  have task1: "task_at r1 = (task_at r)(a := (task_at r a)\<lparr>task_state := Queued\<rparr>)"
    by (simp add: r1_def) (simp add: set_task_def)
  have frame1: "post_frame n r r1"
    using q1 by (simp add: post_frame_def) (simp add: r1_def on_task_started_def register_task_def set_task_def Let_def)
  obtain b r' where enq: "try_enqueue_cross_thread_spsc c wr (rt_current r1) index a r1 = (b, r')" by fastforce
  note pushed = spsc_enqueue_pushed(1) [OF q1(1) n s i enq]
  have b: b using pushed room q1 by (simp add: pushed_def)
  then have enq': "try_enqueue_cross_thread_spsc c wr (rt_current r1) index a r1 = (True, r')" using enq by simp
  have req: "request_schedule (task_at r a) index Auto =
      Some (\<lparr>request_action = Enqueue, request_previous = Created\<rparr>, (task_at r a)\<lparr>task_state := Queued\<rparr>)"
    using created by (subst request_schedule.simps) simp
  have call: "enqueue_ready_call c (rt_current r1) index a Auto = Some (EnqueueLink (rt_current r1) index a ?b)"
    using cur other q1(4) by (simp add: enqueue_ready_call_def blocking_call_def ready_route_from_runtime_thread_def Let_def)
  have "run_call c wr env run (EnqueueLink (rt_current r1) index a ?b) r1 = Some r'"
    using enq' by (subst run_call.simps)
      (auto simp: try_enqueue_cross_thread_spsc_def Let_def split: prod.splits if_splits)
  then have post: "post_blocking c wr env run index a Auto r = Some r'"
    using call by (simp add: post_blocking_def req r1_def [symmetric])
  have "heap_part r' = heap_part r1" by (rule link_post_frame(2) [OF enq'])
  then have task: "task_at r' = (task_at r)(a := (task_at r a)\<lparr>task_state := Queued\<rparr>)"
    using task1 by (simp add: heap_part_def)
  have "post_frame n r r'" using frame1 link_post_frame(1) [OF enq', of n] by (simp add: post_frame_def)
  then show thesis using that [OF post _ _ _ task] pushed b q1 by (simp add: pushed_def)
qed

subsection \<open>The fan-out reaches every shard\<close>

lemma raw_lane_par [simp]:
  "raw_lane n (r\<lparr>par_shard_tasks := x\<rparr>) l = raw_lane n r l" "raw_lane n (r\<lparr>par_groups := y\<rparr>) l = raw_lane n r l"
  by (cases l; simp)+

lemma lanes_par [simp]:
  "lane_content n (r\<lparr>par_shard_tasks := x\<rparr>) = lane_content n r" "lane_content n (r\<lparr>par_groups := y\<rparr>) = lane_content n r"
  "runtime_ok n (r\<lparr>par_shard_tasks := x\<rparr>) = runtime_ok n r" "runtime_ok n (r\<lparr>par_groups := y\<rparr>) = runtime_ok n r"
  by (simp_all add: lane_content_def fun_eq_iff runtime_ok_def)

lemma limit_par [simp]:
  "lane_limit n (r\<lparr>par_shard_tasks := x\<rparr>) = lane_limit n r" "lane_limit n (r\<lparr>par_groups := y\<rparr>) = lane_limit n r"
proof -
  have "lane_limit n (r\<lparr>par_shard_tasks := x\<rparr>) l = lane_limit n r l" "lane_limit n (r\<lparr>par_groups := y\<rparr>) l = lane_limit n r l" for l
    by (cases l; simp)+
  then show "lane_limit n (r\<lparr>par_shard_tasks := x\<rparr>) = lane_limit n r" "lane_limit n (r\<lparr>par_groups := y\<rparr>) = lane_limit n r"
    by (simp_all add: fun_eq_iff)
qed

lemma more_par:
  assumes "runtime.more r' = runtime.more r"
  shows "par_groups r' = par_groups r" "par_shard_tasks r' = par_shard_tasks r"
  using assms by (cases r; cases r'; simp)+

text \<open>The task of a shard of an unordered call.\<close>

definition unordered_shard_task :: "nat \<Rightarrow> nat \<Rightarrow> 'op list \<Rightarrow> 'op shard_task" where
  "unordered_shard_task g i ops =
     \<lparr>st_group = g, st_shard_index = of_nat i, st_batch_id = 0, st_options = ordered_batch_options,
      st_ops = ops, st_ordered = False\<rparr>"

text \<open>The caller is a thread of the runtime, and the shards are threads of it.\<close>

definition shard_site :: "('tag, 'op, ('op, 'z) par_runtime_scheme) shard_params \<Rightarrow> nat \<Rightarrow> ('op, 'z) par_runtime_scheme \<Rightarrow> bool" where
  "shard_site P n r \<longleftrightarrow> runtime_ok n r \<and> n = thread_total_of (sp_config P) \<and>
     rt_current r < thread_count (cf_threads (sp_config P))"

lemma shard_siteD:
  assumes "shard_site P n r"
  shows "runtime_ok n r" "n = thread_total_of (sp_config P)" "rt_current r < thread_count (cf_threads (sp_config P))"
  using assms unfolding shard_site_def by blast+

definition shard_thread :: "shard_call \<Rightarrow> nat \<Rightarrow> u16" where
  "shard_thread call i = sc_begin call + of_nat i"

definition shard_lane :: "('op, 'z) par_runtime_scheme \<Rightarrow> shard_call \<Rightarrow> nat \<Rightarrow> lane" where
  "shard_lane r call i = LinkLane (unat (rt_current r)) (unat (shard_thread call i))"

definition lane_room :: "nat \<Rightarrow> ('op, 'z) par_runtime_scheme \<Rightarrow> lane \<Rightarrow> bool" where
  "lane_room n r l \<longleftrightarrow> length (lane_content n r l) < lane_limit n r l"

lemma start_remote_shard:
  assumes site: "shard_site P n r" and i: "unat (shard_thread call i) < n" and unordered: "\<not> sc_ordered call"
    and remote: "shard_thread call i \<noteq> rt_current r" and room: "lane_room n r (shard_lane r call i)"
  obtains r' where "start_shard P call fresh i ops r = Some r'" "shard_site P n r'" "rt_current r' = rt_current r"
    "lane_limit n r' = lane_limit n r" "par_groups r' = par_groups r"
    "lane_content n r' = (lane_content n r)(shard_lane r call i := lane_content n r (shard_lane r call i) @ [fst (fresh i)])"
    "par_shard_tasks r' = (par_shard_tasks r)(fst (fresh i) \<mapsto> unordered_shard_task (sc_group call) i ops)"
    "task_at r' = (task_at r)(fst (fresh i) := (task_new (snd (fresh i)))\<lparr>task_state := Queued\<rparr>)"
proof -
  let ?a = "fst (fresh i)" and ?t = "unordered_shard_task (sc_group call) i ops"
  define r1 where "r1 = allocate_shard_task ?a (snd (fresh i)) ?t r"
  note q = shard_siteD [OF site]
  have r1: "runtime_ok n r1" "lane_content n r1 = lane_content n r" "lane_limit n r1 = lane_limit n r"
    "rt_current r1 = rt_current r" "task_at r1 = (task_at r)(?a := task_new (snd (fresh i)))" "par_groups r1 = par_groups r"
    "par_shard_tasks r1 = (par_shard_tasks r)(?a \<mapsto> ?t)"
    using q(1) by (simp_all add: r1_def allocate_shard_task_def allocate_task_def fun_eq_iff set_task_def)
  have created: "task_state (task_at r1 ?a) = Created" by (simp add: r1(5) task_new_def)
  have cur1: "rt_current r1 < thread_count (cf_threads (sp_config P))" "shard_thread call i \<noteq> rt_current r1"
    using q(3) remote r1(4) by simp_all
  have room1: "length (lane_content n r1 (LinkLane (unat (rt_current r1)) (unat (shard_thread call i)))) <
      lane_limit n r1 (LinkLane (unat (rt_current r1)) (unat (shard_thread call i)))"
    using room unfolding r1(2,3,4) by (simp add: lane_room_def shard_lane_def)
  obtain r' where r': "post_blocking (sp_config P) (sp_wake_written P) (sp_env P) (sp_run P) (shard_thread call i) ?a Auto r1 = Some r'"
    "runtime_ok n r'" "post_frame n r1 r'"
    "lane_content n r' = (lane_content n r1)(LinkLane (unat (rt_current r1)) (unat (shard_thread call i)) :=
       lane_content n r1 (LinkLane (unat (rt_current r1)) (unat (shard_thread call i))) @ [?a])"
    "task_at r' = (task_at r1)(?a := (task_at r1 ?a)\<lparr>task_state := Queued\<rparr>)"
    by (rule post_created_to_link [OF r1(1) q(2) i cur1 created room1])
  have more: "runtime.more r' = runtime.more r1" "rt_current r' = rt_current r" "lane_limit n r' = lane_limit n r"
    using r'(3) r1 by (simp_all add: post_frame_def)
  show thesis
  proof (rule that)
    show "start_shard P call fresh i ops r = Some r'"
      using remote unordered r'(1)
      by (simp add: start_shard_def post_to_def shard_thread_def r1_def unordered_shard_task_def Let_def)
    show "shard_site P n r'" using r'(2) q(2,3) more(2) by (simp add: shard_site_def)
    show "lane_content n r' = (lane_content n r)(shard_lane r call i := lane_content n r (shard_lane r call i) @ [?a])"
      using r'(4) unfolding r1(2,4) shard_lane_def .
    show "task_at r' = (task_at r)(?a := (task_new (snd (fresh i)))\<lparr>task_state := Queued\<rparr>)"
      using r'(5) unfolding r1(5) by simp
    show "par_groups r' = par_groups r" using more_par(1) [OF more(1)] r1(6) by simp
    show "par_shard_tasks r' = (par_shard_tasks r)(?a \<mapsto> ?t)" using more_par(2) [OF more(1)] r1(7) by simp
  qed (use more in simp_all)
qed

text \<open>
  What a handler may do besides its work: it may use the runtime, and it may fail by an exception,
  but it returns, and it leaves alone the call that runs it: the group \<open>g\<close>, the new tasks, and the
  caller's own queues to other threads.
\<close>

definition leaves_call ::
    "('tag, 'op, ('op, 'z) par_runtime_scheme) shard_params \<Rightarrow> nat \<Rightarrow> nat \<Rightarrow> taddr set \<Rightarrow>
     ('op, 'z) par_runtime_scheme \<Rightarrow> ('op, 'z) par_runtime_scheme \<Rightarrow> bool" where
  "leaves_call P n g new s s' \<longleftrightarrow>
     shard_site P n s' \<and> rt_current s' = rt_current s \<and> lane_limit n s' = lane_limit n s \<and> par_groups s' g = par_groups s g \<and>
     (\<forall>t. lane_content n s' (LinkLane (unat (rt_current s)) t) = lane_content n s (LinkLane (unat (rt_current s)) t)) \<and>
     (\<forall>a \<in> new. task_at s' a = task_at s a \<and> par_shard_tasks s' a = par_shard_tasks s a)"

definition handler_leaves_call ::
    "('tag, 'op, ('op, 'z) par_runtime_scheme) shard_params \<Rightarrow> nat \<Rightarrow> nat \<Rightarrow> taddr set \<Rightarrow> (u16 \<Rightarrow> 'op list \<Rightarrow> bool option) \<Rightarrow> bool" where
  "handler_leaves_call P n g new h \<longleftrightarrow>
     (\<forall>j xs s. shard_site P n s \<longrightarrow> (\<exists>s'. sp_handler P j xs None s = Some (h j xs, s') \<and> leaves_call P n g new s s'))"

lemma start_local_shard:
  assumes unordered: "\<not> sc_ordered call" and thread: "shard_thread call i = rt_current r" and site: "shard_site P n r"
    and handler: "handler_leaves_call P n (sc_group call) new h"
    and grp: "par_groups r (sc_group call) = Some grp" "pg_pending grp \<noteq> 1"
  obtains s where "leaves_call P n (sc_group call) new r s"
    "start_shard P call fresh i ops r =
      Some (s\<lparr>par_groups := (par_groups s)(sc_group call \<mapsto> snd (group_arrive (group_count_failure (h (of_nat i) ops = Some True) grp)))\<rparr>)"
proof -
  obtain s where s: "sp_handler P (of_nat i) ops None r = Some (h (of_nat i) ops, s)" "leaves_call P n (sc_group call) new r s"
    using handler site unfolding handler_leaves_call_def by blast
  have ok: "(case h (of_nat i) ops of None \<Rightarrow> False | Some b \<Rightarrow> b) = (h (of_nat i) ops = Some True)"
    by (simp split: option.split)
  have "par_groups s (sc_group call) = Some grp" using s(2) grp by (simp add: leaves_call_def)
  then have "start_shard P call fresh i ops r =
      Some (s\<lparr>par_groups := (par_groups s)(sc_group call \<mapsto> snd (group_arrive (group_count_failure (h (of_nat i) ops = Some True) grp)))\<rparr>)"
    using unordered thread s(1) grp(2)
    by (simp add: start_shard_def shard_thread_def run_parallel_shard_def group_complete_def group_arrive_def
        group_count_failure_def ok Let_def)
  then show thesis using that s(2) by blast
qed

text \<open>The shards that are started, on other threads and on the caller's own.\<close>

definition remote_shards :: "shard_call \<Rightarrow> u16 \<Rightarrow> 'op ShardedOps \<Rightarrow> nat list \<Rightarrow> nat list" where
  "remote_shards call current sharded is =
     filter (\<lambda>i. \<not> shard_skipped (sc_mode call) (shards sharded ! i) \<and> shard_thread call i \<noteq> current) is"

definition local_shards :: "shard_call \<Rightarrow> u16 \<Rightarrow> 'op ShardedOps \<Rightarrow> nat list \<Rightarrow> nat list" where
  "local_shards call current sharded is =
     filter (\<lambda>i. \<not> shard_skipped (sc_mode call) (shards sharded ! i) \<and> shard_thread call i = current) is"

text \<open>
  What the loop did: the tasks sent, by lane, and the group.  A lane that does not start at the
  caller, or another task, is as it was, unless the handler ran on the caller's thread.
\<close>

definition fanned_out ::
    "nat \<Rightarrow> shard_call \<Rightarrow> (nat \<Rightarrow> taddr \<times> u64) \<Rightarrow> (u16 \<Rightarrow> 'op list \<Rightarrow> bool option) \<Rightarrow> 'op ShardedOps \<Rightarrow> nat list \<Rightarrow>
     ('op, 'z) par_runtime_scheme \<Rightarrow> ('op, 'z) par_runtime_scheme \<Rightarrow> bool" where
  "fanned_out n call fresh h sharded is r r' \<longleftrightarrow>
     (let sent = remote_shards call (rt_current r) sharded is;
          own = local_shards call (rt_current r) sharded is
      in (\<forall>l. own = [] \<or> (\<exists>t. l = LinkLane (unat (rt_current r)) t) \<longrightarrow> lane_content n r' l =
            lane_content n r l @ map (\<lambda>i. fst (fresh i)) (filter (\<lambda>i. shard_lane r call i = l) sent)) \<and>
         (\<forall>i \<in> set sent. task_state (task_at r' (fst (fresh i))) = Queued \<and>
            par_shard_tasks r' (fst (fresh i)) = Some (unordered_shard_task (sc_group call) i (shards sharded ! i))) \<and>
         (\<forall>b. b \<notin> (\<lambda>i. fst (fresh i)) ` set sent \<longrightarrow> own = [] \<or> b \<in> range (\<lambda>i. fst (fresh i)) \<longrightarrow>
            task_at r' b = task_at r b \<and> par_shard_tasks r' b = par_shard_tasks r b) \<and>
         (\<forall>grp. par_groups r (sc_group call) = Some grp \<longrightarrow>
            par_groups r' (sc_group call) = Some (grp\<lparr>pg_pending := pg_pending grp - of_nat (length own),
              pg_failed := pg_failed grp + of_nat (length (filter (\<lambda>i. h (of_nat i) (shards sharded ! i) \<noteq> Some True) own))\<rparr>)))"

lemma nth_moved: "i \<notin> set is \<Longrightarrow> j \<in> set is \<Longrightarrow> xs[i := v] ! j = xs ! j"
  by (metis nth_list_update_neq)

lemma shards_of_update:
  assumes "i \<notin> set is"
  shows "remote_shards call c (sharded\<lparr>shards := (shards sharded)[i := []]\<rparr>) is = remote_shards call c sharded is"
    "local_shards call c (sharded\<lparr>shards := (shards sharded)[i := []]\<rparr>) is = local_shards call c sharded is"
  by (simp_all add: remote_shards_def local_shards_def nth_moved [OF assms] cong: filter_cong)

lemma sent_subset: "set (remote_shards call c sharded is) \<subseteq> set is" "set (local_shards call c sharded is) \<subseteq> set is"
  by (auto simp: remote_shards_def local_shards_def)

lemma fanned_out_update:
  assumes i: "i \<notin> set is"
  shows "fanned_out n call fresh h (sharded\<lparr>shards := (shards sharded)[i := []]\<rparr>) is r r' \<longleftrightarrow>
         fanned_out n call fresh h sharded is r r'"
proof -
  let ?own = "local_shards call (rt_current r) sharded is" and ?s = "(shards sharded)[i := []]"
  have own: "filter (\<lambda>j. h (of_nat j) (?s ! j) \<noteq> Some True) ?own = filter (\<lambda>j. h (of_nat j) (shards sharded ! j) \<noteq> Some True) ?own"
    by (intro filter_cong refl) (simp add: nth_moved [OF i subsetD [OF sent_subset(2)]])
  have sent: "?s ! j = shards sharded ! j" if "j \<in> set (remote_shards call (rt_current r) sharded is)" for j
    by (rule nth_moved [OF i subsetD [OF sent_subset(1) that]])
  show ?thesis
    unfolding fanned_out_def shards_of_update [OF i] Let_def
    using own sent by simp
qed

lemma fanned_out_skip:
  assumes "shard_skipped (sc_mode call) (shards sharded ! i)"
  shows "fanned_out n call fresh h sharded (i # is) r r' = fanned_out n call fresh h sharded is r r'"
  using assms by (simp add: fanned_out_def remote_shards_def local_shards_def)

lemma fanned_out_remote:
  assumes start: "\<not> shard_skipped (sc_mode call) (shards sharded ! i)" "shard_thread call i \<noteq> rt_current r"
    and step: "rt_current r1 = rt_current r" "par_groups r1 = par_groups r"
      "lane_content n r1 = (lane_content n r)(shard_lane r call i := lane_content n r (shard_lane r call i) @ [fst (fresh i)])"
      "par_shard_tasks r1 = (par_shard_tasks r)(fst (fresh i) \<mapsto> unordered_shard_task (sc_group call) i (shards sharded ! i))"
      "task_at r1 = (task_at r)(fst (fresh i) := (task_new (snd (fresh i)))\<lparr>task_state := Queued\<rparr>)"
    and fresh: "fst (fresh i) \<notin> (\<lambda>j. fst (fresh j)) ` set is"
    and rest: "fanned_out n call fresh h sharded is r1 r'"
  shows "fanned_out n call fresh h sharded (i # is) r r'"
proof -
  let ?sent = "remote_shards call (rt_current r) sharded is" and ?own = "local_shards call (rt_current r) sharded is"
  have cons: "remote_shards call (rt_current r) sharded (i # is) = i # ?sent" "local_shards call (rt_current r) sharded (i # is) = ?own"
    using start by (simp_all add: remote_shards_def local_shards_def)
  have lane: "shard_lane r1 call = shard_lane r call" using step(1) by (simp add: shard_lane_def fun_eq_iff)
  have new: "fst (fresh i) \<notin> (\<lambda>j. fst (fresh j)) ` set ?sent" using fresh sent_subset(1) by blast
  have rest': "?own = [] \<or> (\<exists>t. l = LinkLane (unat (rt_current r)) t) \<Longrightarrow> lane_content n r' l = lane_content n r1 l @ map (\<lambda>i. fst (fresh i)) (filter (\<lambda>i. shard_lane r call i = l) ?sent)"
    "j \<in> set ?sent \<Longrightarrow> task_state (task_at r' (fst (fresh j))) = Queued \<and>
       par_shard_tasks r' (fst (fresh j)) = Some (unordered_shard_task (sc_group call) j (shards sharded ! j))"
    "b \<notin> (\<lambda>i. fst (fresh i)) ` set ?sent \<Longrightarrow> ?own = [] \<or> b \<in> range (\<lambda>i. fst (fresh i)) \<Longrightarrow> task_at r' b = task_at r1 b \<and> par_shard_tasks r' b = par_shard_tasks r1 b"
    "par_groups r (sc_group call) = Some grp \<Longrightarrow>
       par_groups r' (sc_group call) = Some (grp\<lparr>pg_pending := pg_pending grp - of_nat (length ?own),
         pg_failed := pg_failed grp + of_nat (length (filter (\<lambda>i. h (of_nat i) (shards sharded ! i) \<noteq> Some True) ?own))\<rparr>)" for l j b grp
    using rest unfolding fanned_out_def Let_def step(1,2) lane by blast+
  show ?thesis
    unfolding fanned_out_def Let_def cons
  proof (intro conjI allI ballI impI)
    fix l assume "?own = [] \<or> (\<exists>t. l = LinkLane (unat (rt_current r)) t)"
    then show "lane_content n r' l = lane_content n r l @ map (\<lambda>i. fst (fresh i)) (filter (\<lambda>i. shard_lane r call i = l) (i # ?sent))"
      using rest'(1) [of l] by (auto simp: step(3))
  next
    fix j assume "j \<in> set (i # ?sent)"
    then show "task_state (task_at r' (fst (fresh j))) = Queued"
      "par_shard_tasks r' (fst (fresh j)) = Some (unordered_shard_task (sc_group call) j (shards sharded ! j))"
      using rest'(2) rest'(3) [OF new] step(4,5) by auto
  next
    fix b assume "b \<notin> (\<lambda>i. fst (fresh i)) ` set (i # ?sent)" "?own = [] \<or> b \<in> range (\<lambda>i. fst (fresh i))"
    then show "task_at r' b = task_at r b" "par_shard_tasks r' b = par_shard_tasks r b"
      using rest'(3) [of b] step(4,5) by auto
  qed (use rest'(4) in simp)
qed

lemma fanned_out_local:
  assumes start: "\<not> shard_skipped (sc_mode call) (shards sharded ! i)" "shard_thread call i = rt_current r"
    and grp: "par_groups r (sc_group call) = Some grp"
    and left: "leaves_call P n (sc_group call) (range (\<lambda>i. fst (fresh i))) r s"
    and r1: "r1 = s\<lparr>par_groups := (par_groups s)(sc_group call \<mapsto>
           snd (group_arrive (group_count_failure (h (of_nat i) (shards sharded ! i) = Some True) grp)))\<rparr>"
    and rest: "fanned_out n call fresh h sharded is r1 r'"
  shows "fanned_out n call fresh h sharded (i # is) r r'"
proof -
  let ?sent = "remote_shards call (rt_current r) sharded is" and ?own = "local_shards call (rt_current r) sharded is"
  have cons: "remote_shards call (rt_current r) sharded (i # is) = ?sent" "local_shards call (rt_current r) sharded (i # is) = i # ?own"
    using start by (simp_all add: remote_shards_def local_shards_def)
  have cur: "rt_current r1 = rt_current r" and lane: "shard_lane r1 call = shard_lane r call"
    using left by (simp_all add: r1 leaves_call_def shard_lane_def fun_eq_iff)
  have grp1: "par_groups r1 (sc_group call) =
      Some (snd (group_arrive (group_count_failure (h (of_nat i) (shards sharded ! i) = Some True) grp)))" by (simp add: r1)
  have same: "lane_content n r1 (LinkLane (unat (rt_current r)) t) = lane_content n r (LinkLane (unat (rt_current r)) t)"
    "a \<in> range (\<lambda>i. fst (fresh i)) \<Longrightarrow> task_at r1 a = task_at r a \<and> par_shard_tasks r1 a = par_shard_tasks r a" for t a
    using left by (auto simp: r1 leaves_call_def)
  note rest' = rest [unfolded fanned_out_def Let_def cur lane]
  have "par_groups r' (sc_group call) = Some (grp\<lparr>pg_pending := pg_pending grp - of_nat (length (i # ?own)),
      pg_failed := pg_failed grp + of_nat (length (filter (\<lambda>i. h (of_nat i) (shards sharded ! i) \<noteq> Some True) (i # ?own)))\<rparr>)"
    using rest' grp1 by (simp add: group_arrive_def group_count_failure_def algebra_simps split: if_splits)
  then show ?thesis
    unfolding fanned_out_def Let_def cons using rest' grp same by auto
qed

lemma shard_threads_distinct:
  assumes "unat (sc_begin call) + i < 2 ^ 16" "unat (sc_begin call) + j < 2 ^ 16"
  shows "shard_thread call i = shard_thread call j \<longleftrightarrow> i = j" "unat (shard_thread call i) = unat (sc_begin call) + i"
proof -
  have u: "unat (shard_thread call k) = unat (sc_begin call) + k" if "unat (sc_begin call) + k < 2 ^ 16" for k
    using that by (simp add: shard_thread_def unat_add_lem [THEN iffD1] unat_of_nat_u16)
  then show "shard_thread call i = shard_thread call j \<longleftrightarrow> i = j" using assms by (auto dest: arg_cong [of _ _ unat])
  show "unat (shard_thread call i) = unat (sc_begin call) + i" by (rule u [OF assms(1)])
qed

lemma fan_out_spec:
  assumes unordered: "\<not> sc_ordered call"
    and handler: "handler_leaves_call P n (sc_group call) (range (\<lambda>i. fst (fresh i))) h"
  shows "shard_site P n r \<Longrightarrow> distinct is \<Longrightarrow> inj_on (\<lambda>i. fst (fresh i)) (set is) \<Longrightarrow>
    (\<forall>i \<in> set is. unat (sc_begin call) + i < n) \<Longrightarrow>
    (\<forall>i \<in> set (remote_shards call (rt_current r) sharded is). lane_room n r (shard_lane r call i)) \<Longrightarrow>
    par_groups r (sc_group call) = Some grp \<Longrightarrow> length (local_shards call (rt_current r) sharded is) < unat (pg_pending grp) \<Longrightarrow>
    \<exists>sharded' r'. fan_out P call fresh is sharded r = Some (sharded', r') \<and> shard_site P n r' \<and>
      fanned_out n call fresh h sharded is r r'"
proof (induction "is" arbitrary: r sharded grp)
  case Nil
  then show ?case by (auto simp: fanned_out_def remote_shards_def local_shards_def Let_def)
next
  case (Cons i "is")
  let ?upd = "sharded\<lparr>shards := (shards sharded)[i := []]\<rparr>" and ?c = "rt_current r"
  have n: "n < 2 ^ 16" using Cons.prems(1) by (simp add: shard_site_def runtime_ok_def)
  have tail: "distinct is" "inj_on (\<lambda>i. fst (fresh i)) (set is)" "\<forall>i \<in> set is. unat (sc_begin call) + i < n" "i \<notin> set is"
    using Cons.prems(2-4) by auto
  have fresh: "fst (fresh i) \<notin> (\<lambda>j. fst (fresh j)) ` set is" using Cons.prems(2,3) by auto
  have small: "unat (sc_begin call) + j < 2 ^ 16" if "j \<in> set (i # is)" for j using Cons.prems(4) that n by auto
  have thread: "unat (shard_thread call i) < n"
    using shard_threads_distinct(2) [OF small small, of i i] Cons.prems(4) by simp
  consider "shard_skipped (sc_mode call) (shards sharded ! i)"
    | "\<not> shard_skipped (sc_mode call) (shards sharded ! i)" "shard_thread call i \<noteq> ?c"
    | "\<not> shard_skipped (sc_mode call) (shards sharded ! i)" "shard_thread call i = ?c" by blast
  then show ?case
  proof cases
    case 1
    have "remote_shards call ?c sharded (i # is) = remote_shards call ?c sharded is"
      "local_shards call ?c sharded (i # is) = local_shards call ?c sharded is"
      using 1 by (simp_all add: remote_shards_def local_shards_def)
    then show ?thesis
      using Cons.IH [OF Cons.prems(1) tail(1-3) _ Cons.prems(6), of sharded] Cons.prems(5,7) 1
      by (simp add: fanned_out_skip [OF 1])
  next
    case 2
    have cons: "remote_shards call ?c sharded (i # is) = i # remote_shards call ?c sharded is"
      "local_shards call ?c sharded (i # is) = local_shards call ?c sharded is"
      using 2 by (simp_all add: remote_shards_def local_shards_def)
    have room: "lane_room n r (shard_lane r call i)" using Cons.prems(5) by (simp add: cons)
    obtain r1 where r1: "start_shard P call fresh i (shards sharded ! i) r = Some r1" "shard_site P n r1" "rt_current r1 = ?c"
      "lane_limit n r1 = lane_limit n r" "par_groups r1 = par_groups r"
      "lane_content n r1 = (lane_content n r)(shard_lane r call i := lane_content n r (shard_lane r call i) @ [fst (fresh i)])"
      "par_shard_tasks r1 = (par_shard_tasks r)(fst (fresh i) \<mapsto> unordered_shard_task (sc_group call) i (shards sharded ! i))"
      "task_at r1 = (task_at r)(fst (fresh i) := (task_new (snd (fresh i)))\<lparr>task_state := Queued\<rparr>)"
      by (rule start_remote_shard [OF Cons.prems(1) thread unordered 2(2) room])
    have lanes: "lane_room n r1 (shard_lane r1 call j)" if j: "j \<in> set (remote_shards call ?c sharded is)" for j
    proof -
      have "j \<in> set is" "j \<noteq> i" using sent_subset(1) j tail(4) by blast+
      then have "shard_lane r call j \<noteq> shard_lane r call i"
        using shard_threads_distinct(2) [OF small small, of j i] shard_threads_distinct(2) [OF small small, of i i]
        by (simp add: shard_lane_def)
      moreover have "shard_lane r1 call j = shard_lane r call j" by (simp add: shard_lane_def r1(3))
      moreover have "lane_room n r (shard_lane r call j)" using Cons.prems(5) j by (simp add: cons)
      ultimately show ?thesis by (simp add: lane_room_def r1(4,6))
    qed
    have "\<exists>sharded' r'. fan_out P call fresh is ?upd r1 = Some (sharded', r') \<and> shard_site P n r' \<and>
        fanned_out n call fresh h ?upd is r1 r'"
      using Cons.IH [OF r1(2) tail(1-3), of ?upd grp] lanes Cons.prems(6,7) r1(3,5)
      by (simp add: shards_of_update [OF tail(4)] cons)
    then obtain sharded' r' where r': "fan_out P call fresh is ?upd r1 = Some (sharded', r')" "shard_site P n r'"
      "fanned_out n call fresh h sharded is r1 r'"
      using fanned_out_update [OF tail(4)] by blast
    show ?thesis
      using 2(1) r1(1) r'(1,2) fanned_out_remote [OF 2 r1(3,5,6,7,8) fresh r'(3)] by simp
  next
    case 3
    have cons: "remote_shards call ?c sharded (i # is) = remote_shards call ?c sharded is"
      "local_shards call ?c sharded (i # is) = i # local_shards call ?c sharded is"
      using 3 by (simp_all add: remote_shards_def local_shards_def)
    let ?ok = "h (of_nat i) (shards sharded ! i) = Some True"
    define grp1 where "grp1 = snd (group_arrive (group_count_failure ?ok grp))"
    have len: "Suc (length (local_shards call ?c sharded is)) < unat (pg_pending grp)" using Cons.prems(7) by (simp add: cons)
    then have "pg_pending grp \<noteq> 0" by auto
    then have pend: "pg_pending grp \<noteq> 1" "unat (pg_pending grp1) = unat (pg_pending grp) - 1"
      using len by (auto simp: grp1_def group_arrive_def group_count_failure_def unat_minus_one)
    obtain s where left: "leaves_call P n (sc_group call) (range (\<lambda>i. fst (fresh i))) r s"
      and start: "start_shard P call fresh i (shards sharded ! i) r = Some (s\<lparr>par_groups := (par_groups s)(sc_group call \<mapsto> grp1)\<rparr>)"
      unfolding grp1_def by (rule start_local_shard [OF unordered 3(2) Cons.prems(1) handler Cons.prems(6) pend(1)])
    define r1 where "r1 = s\<lparr>par_groups := (par_groups s)(sc_group call \<mapsto> grp1)\<rparr>"
    have r1: "shard_site P n r1" "rt_current r1 = ?c" "shard_lane r1 = shard_lane r" "par_groups r1 (sc_group call) = Some grp1"
      using left by (auto simp: r1_def leaves_call_def shard_site_def shard_lane_def fun_eq_iff)
    have room: "lane_room n r1 (shard_lane r call j) = lane_room n r (shard_lane r call j)" for j
      using left by (simp add: r1_def leaves_call_def lane_room_def shard_lane_def)
    have "\<exists>sharded' r'. fan_out P call fresh is ?upd r1 = Some (sharded', r') \<and> shard_site P n r' \<and>
        fanned_out n call fresh h ?upd is r1 r'"
      using Cons.IH [OF r1(1) tail(1-3), of ?upd grp1] Cons.prems(5) r1(2-4) room len pend(2)
      by (simp add: shards_of_update [OF tail(4)] cons)
    then obtain sharded' r' where r': "fan_out P call fresh is ?upd r1 = Some (sharded', r')" "shard_site P n r'"
      "fanned_out n call fresh h sharded is r1 r'"
      using fanned_out_update [OF tail(4)] by blast
    show ?thesis
      using 3(1) start r'(1,2) fanned_out_local [OF 3 Cons.prems(6) left r1_def [unfolded grp1_def] r'(3)] by (simp add: r1_def)
  qed
qed

definition unordered_call :: "u16 \<Rightarrow> nat \<Rightarrow> ParallelMode \<Rightarrow> shard_call" where
  "unordered_call shard_begin g mode =
     \<lparr>sc_ordered = False, sc_begin = shard_begin, sc_mode = mode, sc_batch_id = 0,
      sc_options = ordered_batch_options, sc_group = g\<rparr>"

lemma targets_split:
  "length (shard_targets (sc_mode call) sharded) =
   length (remote_shards call c sharded [0..<unat (shard_count sharded)]) +
   length (local_shards call c sharded [0..<unat (shard_count sharded)])"
proof -
  have "length (filter (\<lambda>i. A i \<and> B i) xs) + length (filter (\<lambda>i. A i \<and> \<not> B i) xs) = length (filter A xs)"
    for A B :: "nat \<Rightarrow> bool" and xs by (induction xs) auto
  from this [of "\<lambda>i. \<not> shard_skipped (sc_mode call) (shards sharded ! i)" "\<lambda>i. shard_thread call i = c"] show ?thesis
    by (simp add: shard_targets_def remote_shards_def local_shards_def add.commute)
qed

text \<open>
  C19: An unordered parallel call from a thread of the runtime that starts at least one shard on another
  thread, with room in the queues to these threads, returns, provided the handler returns or throws
  and leaves the call itself alone; each shard that is not skipped has been started exactly once: on
  another thread its task, with the operations of that shard, stands at the end of the queue from
  the caller to the thread of the shard, and on the caller's own thread the handler has run.  The
  group waits for exactly the shards that were sent, knows the owner and the caller's thread, and
  has counted the failure of the own shard, an exception included.  Without an own shard no other
  queue or task changes; with one, no other queue of the caller does.
\<close>

theorem parallel_shards_starts_each_shard:
  assumes site: "shard_site P n r"
    and handler: "handler_leaves_call P n g (range (\<lambda>i. fst (fresh i))) h"
    and threads: "unat shard_begin + unat (shard_count sharded) \<le> n"
    and fresh: "inj (\<lambda>i. fst (fresh i))"
    and sent: "sent = remote_shards (unordered_call shard_begin g mode) (rt_current r) sharded [0..<unat (shard_count sharded)]"
      "sent \<noteq> []"
    and own: "own = local_shards (unordered_call shard_begin g mode) (rt_current r) sharded [0..<unat (shard_count sharded)]"
    and lane: "lane = (\<lambda>i. LinkLane (unat (rt_current r)) (unat (shard_begin + of_nat i)))"
    and room: "\<forall>i \<in> set sent. length (lane_content n r (lane i)) < lane_limit n r (lane i)"
  shows "\<exists>sharded' r'. parallel_shards P shard_begin g fresh sharded mode owner r = Some (sharded', r') \<and> runtime_ok n r' \<and>
    (\<forall>l. own = [] \<or> (\<exists>t. l = LinkLane (unat (rt_current r)) t) \<longrightarrow>
       lane_content n r' l = lane_content n r l @ map (\<lambda>i. fst (fresh i)) (filter (\<lambda>i. lane i = l) sent)) \<and>
    (\<forall>i \<in> set sent. task_state (task_at r' (fst (fresh i))) = Queued \<and>
       par_shard_tasks r' (fst (fresh i)) = Some (unordered_shard_task g i (shards sharded ! i))) \<and>
    (\<forall>b. b \<notin> (\<lambda>i. fst (fresh i)) ` set sent \<longrightarrow> own = [] \<longrightarrow> task_at r' b = task_at r b) \<and>
    par_groups r' g = Some \<lparr>pg_pending = of_nat (length sent), pg_owner = Some owner, pg_resume_thread = rt_current r,
      pg_failed = of_nat (length (filter (\<lambda>i. h (of_nat i) (shards sharded ! i) \<noteq> Some True) own))\<rparr>"
proof -
  let ?call = "unordered_call shard_begin g mode" and ?is = "[0..<unat (shard_count sharded)]"
  let ?count = "of_nat (length (shard_targets mode sharded)) :: u32"
  define r1 where "r1 = create_parallel_group g ?count (Some owner) (rt_current r) r"
  have call: "sc_begin ?call = shard_begin" "sc_group ?call = g" "sc_mode ?call = mode" "\<not> sc_ordered ?call"
    by (simp_all add: unordered_call_def)
  note q = shard_siteD [OF site]
  have n: "n < 2 ^ 16" using q(1) by (simp add: runtime_ok_def)
  have count: "length (shard_targets mode sharded) = length sent + length own"
    using targets_split [of ?call sharded "rt_current r"] by (simp add: sent(1) own call)
  have "length (shard_targets mode sharded) \<le> unat (shard_count sharded)"
    unfolding shard_targets_def using length_filter_le [of _ ?is] by simp
  then have "length (shard_targets mode sharded) < 2 ^ 32" using threads n by simp
  then have ucount: "unat ?count = length sent + length own" unfolding count [symmetric] by (rule unat_of_nat_u32)
  have r1: "shard_site P n r1" "rt_current r1 = rt_current r" "shard_lane r1 = shard_lane r" "lane_room n r1 = lane_room n r"
    "lane_content n r1 = lane_content n r" "task_at r1 = task_at r" "par_shard_tasks r1 = par_shard_tasks r"
    "par_groups r1 g = Some (group_init ?count (Some owner) (rt_current r))"
    using q by (simp_all add: r1_def create_parallel_group_def shard_site_def shard_lane_def lane_room_def fun_eq_iff)
  have lanes: "shard_lane r ?call i = lane i" for i by (simp add: lane shard_lane_def shard_thread_def call)
  have handler': "handler_leaves_call P n (sc_group ?call) (range (\<lambda>i. fst (fresh i))) h" using handler by (simp only: call)
  obtain sharded' r' where r': "fan_out P ?call fresh ?is sharded r1 = Some (sharded', r')" "shard_site P n r'"
    "fanned_out n ?call fresh h sharded ?is r1 r'"
  proof -
    have "length (local_shards ?call (rt_current r1) sharded ?is) < unat (pg_pending (group_init ?count (Some owner) (rt_current r)))"
      using sent(2) by (simp add: group_init_def ucount r1(2) own)
    moreover have "\<forall>i \<in> set (remote_shards ?call (rt_current r1) sharded ?is). lane_room n r1 (shard_lane r1 ?call i)"
      using room unfolding r1(2-4) sent(1) [symmetric] by (simp add: lanes lane_room_def)
    moreover have "inj_on (\<lambda>i. fst (fresh i)) (set ?is)" using fresh by (rule inj_on_subset) simp
    moreover have "\<forall>i \<in> set ?is. unat (sc_begin ?call) + i < n" using threads by (auto simp: call)
    ultimately show thesis
      using that fan_out_spec [OF call(4) handler' r1(1), of ?is sharded "group_init ?count (Some owner) (rt_current r)"]
        r1(8) by (auto simp: call)
  qed
  have "?count \<noteq> 0" using ucount sent(2) by (metis add_eq_0_iff_both_eq_0 length_0_conv unat_0)
  then have impl: "parallel_shards P shard_begin g fresh sharded mode owner r = Some (sharded', r')"
    using r'(1) unfolding parallel_shards_def unordered_call_def [symmetric] parallel_shards_impl_def
    by (simp add: call r1_def Let_def)
  have grp: "par_groups r' g = Some \<lparr>pg_pending = of_nat (length sent), pg_owner = Some owner, pg_resume_thread = rt_current r,
      pg_failed = of_nat (length (filter (\<lambda>i. h (of_nat i) (shards sharded ! i) \<noteq> Some True) own))\<rparr>"
    using r'(3) r1(8) unfolding fanned_out_def Let_def r1(2) sent(1) [symmetric] own [symmetric] call
    by (simp add: group_init_def count)
  have ok: "runtime_ok n r'" by (rule shard_siteD(1) [OF r'(2)])
  show ?thesis
    using impl grp ok r'(3)
    unfolding fanned_out_def Let_def r1(2,3,5-7) sent(1) [symmetric] own [symmetric] call lanes by blast
qed

text \<open>Two operations for the shards of the threads 0 and 1, from thread 0; a handler that refuses an empty list.\<close>

definition sample_shards :: "(nat, nat, nat par_runtime) shard_params" where
  "sample_shards =
     \<lparr>sp_config = sample_config, sp_wake_written = True, sp_env = id, sp_run = (\<lambda>_ _. None),
      sp_handler = (\<lambda>_ ops _ r. Some (Some (ops \<noteq> []), r))\<rparr>"

definition sample_par_runtime :: "nat par_runtime" where
  "sample_par_runtime = runtime.extend (sample_runtime\<lparr>rt_current := 0, rt_ordered := [0, 0, 0]\<rparr>)
     \<lparr>par_groups = Map.empty, par_shard_tasks = Map.empty\<rparr>"

lemma sample_link_capacity: "spsc_capacity (rt_spsc sample_runtime ! 1) = 2"
proof -
  obtain q :: "taddr spsc" where q: "spsc_new 2 = Inr q" "spsc_capacity q = 2" by (simp add: spsc_new_def normalize_2)
  obtain x :: "taddr cell_ring" where x: "mpsc_new 2 = Inr x" by (simp add: mpsc_new_def normalize_2)
  have "init_queues sample_config (runtime_statics sample_config) =
      Inr ((runtime_statics sample_config)\<lparr>rt_spsc := replicate 9 q, rt_external := replicate 3 x\<rparr>)"
    using make_queues_total [of spsc_new, OF q(1)] make_queues_total [of mpsc_new, OF x] by (simp add: init_queues_def)
  then show ?thesis using q(2) by (simp add: sample_runtime_def)
qed

lemma sample_par_site:
  "shard_site sample_shards 3 sample_par_runtime" "lane_content 3 sample_par_runtime = (\<lambda>_. [])"
  "lane_limit 3 sample_par_runtime (LinkLane 0 1) = 2" "rt_current sample_par_runtime = 0"
  "rt_ordered sample_par_runtime = [0, 0, 0]"
proof -
  have cur: "rt_current sample_par_runtime = 0" by (simp add: sample_par_runtime_def runtime.defs)
  have "0 < thread_count sample_layout" by (simp add: thread_count_def sample_layout_def total_thread_count_def)
  then show "shard_site sample_shards 3 sample_par_runtime"
    using sample_runtime_ok(1) cur
    by (simp add: shard_site_def sample_shards_def) (simp add: sample_par_runtime_def extend_lanes)
  show "lane_content 3 sample_par_runtime = (\<lambda>_. [])"
    using sample_runtime_ok(2) by (simp add: sample_par_runtime_def extend_lanes)
  show "lane_limit 3 sample_par_runtime (LinkLane 0 1) = 2"
    using sample_link_capacity by (simp add: sample_par_runtime_def runtime.defs)
qed (simp_all add: sample_par_runtime_def runtime.defs)

theorem parallel_shards_starts_each_shard_witness:
  "\<exists>sharded r. parallel_shards sample_shards 0 5 (\<lambda>i. (20 + i, 7)) \<lparr>shards = [[], [4, 6]]\<rparr> AllShards 9 sample_par_runtime =
     Some (sharded, r) \<and> lane_content 3 r (LinkLane 0 1) = [21] \<and>
     par_groups r 5 = Some \<lparr>pg_pending = 1, pg_owner = Some 9, pg_resume_thread = 0, pg_failed = 1\<rparr>"
proof -
  let ?s = "\<lparr>shards = [[], [4, 6]]\<rparr> :: nat ShardedOps" and ?call = "unordered_call 0 5 AllShards"
  have count: "[0..<unat (shard_count ?s)] = [0, 1]" by (simp add: shard_count_def upt_rec)
  have th: "shard_thread ?call 0 = 0" "shard_thread ?call (Suc 0) = 1" by (simp_all add: shard_thread_def unordered_call_def)
  have mode: "sc_mode ?call = AllShards" by (simp add: unordered_call_def)
  have sent: "[1] = remote_shards ?call (rt_current sample_par_runtime) ?s [0..<unat (shard_count ?s)]"
    "[0] = local_shards ?call (rt_current sample_par_runtime) ?s [0..<unat (shard_count ?s)]"
    unfolding count sample_par_site(4) by (simp_all add: remote_shards_def local_shards_def th mode shard_skipped_def)
  have handler: "handler_leaves_call sample_shards 3 5 (range (\<lambda>i. fst (20 + i, 7::u64))) (\<lambda>_ xs. Some (xs \<noteq> []))"
    by (simp add: handler_leaves_call_def leaves_call_def sample_shards_def)
  have le: "unat (0::u16) + unat (shard_count ?s) \<le> 3" by (simp add: shard_count_def)
  have inj: "inj (\<lambda>i::nat. fst (20 + i, 7::u64))" by (simp add: inj_def)
  have room: "\<forall>i \<in> set [1]. length (lane_content 3 sample_par_runtime (LinkLane (unat (rt_current sample_par_runtime)) (unat ((0::u16) + of_nat i)))) <
      lane_limit 3 sample_par_runtime (LinkLane (unat (rt_current sample_par_runtime)) (unat ((0::u16) + of_nat i)))"
    using sample_par_site(2-4) by simp
  show ?thesis
    using parallel_shards_starts_each_shard [OF sample_par_site(1) handler le inj sent(1) _ sent(2) refl room, of 9]
    by (auto simp: sample_par_site)
qed


text \<open>
  A call with nothing to do resumes the owner at once, but leaves the failure count of the owner's
  previous parallel call in place.
\<close>

lemma empty_call_keeps_failures:
  assumes none: "shard_targets mode sharded = []" and running: "task_state (task_at r owner) = Running"
  obtains r' where "parallel_shards P shard_begin g fresh sharded mode owner r = Some (sharded, r')"
    "last_parallel_failures (task_at r' owner) = last_parallel_failures (task_at r owner)"
proof -
  obtain request t where req: "request_schedule (task_at r owner) (rt_current r) Auto = Some (request, t)"
    and action: "request_action request \<noteq> Enqueue" and same: "last_parallel_failures t = last_parallel_failures (task_at r owner)"
  proof -
    have "request_schedule (task_at r owner) (rt_current r) Auto = request_wake_while_running (task_at r owner) (rt_current r) Auto"
      by (subst request_schedule.simps) (simp add: running)
    then show thesis
      using that wake_running_cases [OF running, of "rt_current r" Auto] by (auto simp: Let_def split: if_splits)
  qed
  have "post_blocking c wr env run (rt_current r) owner Auto r = Some (set_task r owner t)" for c wr env run
    using req action by (cases "request_action request") (simp_all add: post_blocking_def)
  then have "parallel_shards P shard_begin g fresh sharded mode owner r = Some (sharded, set_task r owner t)"
    by (simp add: parallel_shards_def parallel_shards_impl_def none post_to_def)
  then show thesis using that same by (simp add: set_task_def)
qed

end
