(* ===== verification/Executor_Loop.thy ===== *)
theory Executor_Loop
  imports Epoll_Waits
begin

section \<open>The executor's loop\<close>

text \<open>
  Models \<^verbatim>\<open>Executor::run_loop\<close> (\<^verbatim>\<open>runtime_executor_scheduler.hpp\<close>): drain the queues, look at the
  descriptors, announce the sleep, look again, block.  The other threads act whenever the loop is
  between two of its accesses to shared state: the \<open>k\<close>-th time by \<open>others k\<close>, any function of the
  runtime; each call of \<^verbatim>\<open>pop_one\<close> runs alone.  \<open>sleep i observed\<close> is \<^verbatim>\<open>wake_epoch_.wait(observed)\<close> of thread \<open>i\<close>:
  the runtime as the other threads leave it when the wait returns (\<^term>\<open>None\<close> if it never does).  The
  order of the single accesses of the announcement and of \<^verbatim>\<open>notify\<close> is in \<open>Executor_Sleep\<close>.  Shown here: every
  step of the loop keeps the queues well formed, whatever the tasks do through the runtime's
  interface, and the loop ends only in a round without work that finds the request to stop.
\<close>

definition execute_task ::
    "('tag, 'k, 'w, 'n) io_params \<Rightarrow> u16 \<Rightarrow> taddr \<Rightarrow> ('k, 'w, 'n) io_runtime \<Rightarrow> ('k, 'w, 'n) io_runtime option" where
  "execute_task P i t r = run_call (par_config P) (par_wake_written P) (par_env P) (par_run P) (Execute i t) r"

type_synonym ('k, 'w, 'n) interference = "nat \<Rightarrow> ('k, 'w, 'n) io_runtime \<Rightarrow> ('k, 'w, 'n) io_runtime"

type_synonym ('k, 'w, 'n) epoch_wait = "u16 \<Rightarrow> u32 \<Rightarrow> ('k, 'w, 'n) io_runtime \<Rightarrow> ('k, 'w, 'n) io_runtime option"

text \<open>The inner loop; \<open>k\<close> numbers the moments in which other threads act.\<close>

partial_function (option) drain_tasks ::
    "('tag, 'k, 'w, 'n) io_params \<Rightarrow> ('k, 'w, 'n) interference \<Rightarrow> u16 \<Rightarrow> bool \<Rightarrow> nat \<Rightarrow> ('k, 'w, 'n) io_runtime \<Rightarrow>
     (bool \<times> nat \<times> ('k, 'w, 'n) io_runtime) option" where
  "drain_tasks params others i did_work k r =
     (case pop_one (par_config params) i (others k r) of
        (None, r) \<Rightarrow> Some (did_work, k + 1, r)
      | (Some t, r) \<Rightarrow> Option.bind (execute_task params i t r) (\<lambda>r. drain_tasks params others i True (k + 1) r))"

definition set_sleeping :: "u16 \<Rightarrow> bool \<Rightarrow> 'z runtime_scheme \<Rightarrow> 'z runtime_scheme" where
  "set_sleeping i b r = update_executor i (\<lambda>e. e\<lparr>ex_sleeping := b\<rparr>) r"

text \<open>The loop's way to sleep, after \<^verbatim>\<open>poll_io(0)\<close> found nothing.\<close>

definition try_sleep ::
    "('tag, 'k, 'w, 'n) io_params \<Rightarrow> ('k, 'w, 'n) interference \<Rightarrow> ('k, 'w, 'n) epoch_wait \<Rightarrow> u16 \<Rightarrow> nat \<Rightarrow>
     ('k, 'w, 'n) io_runtime \<Rightarrow> (nat \<times> ('k, 'w, 'n) io_runtime) option" where
  "try_sleep P others sleep i k r =
     (let r = others k r;
          observed = ex_wake_epoch (executor_at r i);
          r = others (k + 1) (set_sleeping i True r)
      in if ex_stop_requested (executor_at r i) then Some (k + 2, set_sleeping i False r)
         else case pop_one (par_config P) i (others (k + 2) r) of
                (Some t, r) \<Rightarrow> map_option (Pair (k + 3)) (execute_task P i t (set_sleeping i False r))
              | (None, r) \<Rightarrow>
                  let r = others (k + 3) r
                  in if ex_wake_epoch (executor_at r i) \<noteq> observed then Some (k + 4, set_sleeping i False r)
                     else if io_thread (executor_at r i) \<and> io_backend_available (executor_at r i)
                     then map_option (\<lambda>(_, r). (k + 4, set_sleeping i False r)) (poll_io P i (- 1) r)
                     else map_option (\<lambda>r. (k + 4, set_sleeping i False r)) (sleep i observed r))"

text \<open>One round of the loop: whether it leaves the loop, and the runtime after it.\<close>

definition loop_round ::
    "('tag, 'k, 'w, 'n) io_params \<Rightarrow> ('k, 'w, 'n) interference \<Rightarrow> ('k, 'w, 'n) epoch_wait \<Rightarrow> u16 \<Rightarrow> nat \<Rightarrow>
     ('k, 'w, 'n) io_runtime \<Rightarrow> (bool \<times> nat \<times> ('k, 'w, 'n) io_runtime) option" where
  "loop_round P others sleep i k r =
     Option.bind (drain_tasks P others i False k r) (\<lambda>(did_work, k, r).
       let r = others k r
       in if ex_stop_requested (executor_at r i)
          then (if \<not> did_work then Some (True, k + 1, r) else Some (False, k + 1, r))
          else Option.bind (poll_io P i 0 r) (\<lambda>(worked, r).
                 if worked then Some (False, k + 1, r) else map_option (Pair False) (try_sleep P others sleep i (k + 1) r)))"

partial_function (option) loop_body ::
    "('tag, 'k, 'w, 'n) io_params \<Rightarrow> ('k, 'w, 'n) interference \<Rightarrow> ('k, 'w, 'n) epoch_wait \<Rightarrow> u16 \<Rightarrow> nat \<Rightarrow>
     ('k, 'w, 'n) io_runtime \<Rightarrow> ('k, 'w, 'n) io_runtime option" where
  "loop_body params others sleep i k r =
     Option.bind (loop_round params others sleep i k r) (\<lambda>(leave, k, r).
       if leave then Some r else loop_body params others sleep i k r)"

definition run_loop ::
    "('tag, 'k, 'w, 'n) io_params \<Rightarrow> ('k, 'w, 'n) interference \<Rightarrow> ('k, 'w, 'n) epoch_wait \<Rightarrow> u16 \<Rightarrow>
     ('k, 'w, 'n) io_runtime \<Rightarrow> ('k, 'w, 'n) io_runtime option" where
  "run_loop P others sleep i r =
     map_option (\<lambda>r. r\<lparr>rt_current := invalid_thread_index (cf_threads (par_config P)), rt_current_task := 0\<rparr>)
       (loop_body P others sleep i 0 (r\<lparr>rt_current := i, rt_current_task := 0\<rparr>))"

text \<open>The beginnings of rounds, from the runtime with which the loop starts.\<close>

inductive loop_head ::
    "('tag, 'k, 'w, 'n) io_params \<Rightarrow> ('k, 'w, 'n) interference \<Rightarrow> ('k, 'w, 'n) epoch_wait \<Rightarrow> u16 \<Rightarrow> nat \<Rightarrow>
     ('k, 'w, 'n) io_runtime \<Rightarrow> nat \<Rightarrow> ('k, 'w, 'n) io_runtime \<Rightarrow> bool" for P others sleep i where
  head_first: "loop_head P others sleep i k r k r"
| head_next: "loop_round P others sleep i k r = Some (False, k1, r1) \<Longrightarrow> loop_head P others sleep i k1 r1 k2 r2 \<Longrightarrow>
    loop_head P others sleep i k r k2 r2"

subsection \<open>Queues stay well formed\<close>

lemma ok_set_executor:
  assumes "runtime_ok n r" "unat i < n \<Longrightarrow> executor_ok n (unat i) e"
  shows "runtime_ok n (set_executor r i e)"
proof (cases "unat i < n")
  case True
  then show ?thesis using assms runtime_ok_executor by (simp add: set_executor_def)
next
  case False
  then show ?thesis using assms(1) by (simp add: set_executor_def runtime_ok_def list_update_beyond)
qed

lemma ok_update_executor:
  assumes "runtime_ok n r" "keeps_local f n" shows "runtime_ok n (update_executor i f r)"
  unfolding update_executor_def
proof (rule ok_set_executor [OF assms(1)])
  assume "unat i < n"
  then have "executor_ok n (unat i) (executor_at r i)" using assms(1) by (simp add: runtime_ok_def executor_at_def)
  then show "executor_ok n (unat i) (f (executor_at r i))" using assms(2) by (simp add: keeps_local_def)
qed

lemma ok_push_local:
  assumes "runtime_ok n r" "try_enqueue_local_from_runtime_thread i t r = (b, r')" shows "runtime_ok n r'"
proof (cases "unat i < n")
  case True
  then show ?thesis using local_enqueue_pushed [OF assms(1) _ assms(2)] by (simp add: pushed_def)
next
  case False
  then have "r' = r" using assms
    by (auto simp: try_enqueue_local_from_runtime_thread_def set_executor_def runtime_ok_def list_update_beyond split: prod.splits)
  then show ?thesis using assms(1) by simp
qed

lemma ok_pop_local:
  assumes ok: "runtime_ok n r" and pop: "try_pop_local (executor_at r i) = (v, e)"
  shows "runtime_ok n (set_executor r i e)"
proof (rule ok_set_executor [OF ok])
  assume "unat i < n"
  then have x: "executor_ok n (unat i) (executor_at r i)" using ok by (simp add: runtime_ok_def executor_at_def)
  then have lok: "local_ok (executor_at r i)" by (simp add: executor_ok_def)
  have "local_pop (executor_at r i) = Some (v, e)" by (simp add: local_pop_def pop)
  then have "local_ok e" using local_queue.pop_total [OF lok] by auto
  then show "executor_ok n (unat i) e"
    using x pop by (auto simp: executor_ok_def try_pop_local_def split: if_splits)
qed

lemma ok_push_link:
  assumes "runtime_ok n r" "spsc_try_push (rt_spsc r ! k) (Some t) = (b, q)"
  shows "runtime_ok n (r\<lparr>rt_spsc := (rt_spsc r)[k := q]\<rparr>)"
proof (cases "k < n * n")
  case True
  then have xok: "spsc_ok (rt_spsc r ! k)" using assms(1) by (simp add: runtime_ok_def)
  have "spsc_push (rt_spsc r ! k) t = Some (b, q)" by (simp add: spsc_push_def assms(2))
  then have "spsc_ok q" using spsc.push_total [OF xok, of t] by auto
  then show ?thesis using runtime_ok_link [OF assms(1) True] by simp
next
  case False
  then show ?thesis using assms(1) by (simp add: runtime_ok_def list_update_beyond)
qed

lemma ok_push_external:
  assumes "runtime_ok n r" "mpsc_try_push (rt_external r ! k) (Some t) = Some (b, q)"
  shows "runtime_ok n (r\<lparr>rt_external := (rt_external r)[k := q]\<rparr>)"
proof (cases "k < n")
  case True
  then have xok: "cell_ok (rt_external r ! k)" using assms(1) by (simp add: runtime_ok_def)
  have "mpsc_push (rt_external r ! k) t = Some (b, q)" by (simp add: mpsc_push_def assms(2))
  then have "cell_ok q" using mpsc.push_total [OF xok, of t] by auto
  then show ?thesis using runtime_ok_external [OF assms(1) True] by simp
next
  case False
  then show ?thesis using assms(1) by (simp add: runtime_ok_def list_update_beyond)
qed

lemma ok_same_queues: "same_queues n r r' \<Longrightarrow> runtime_ok n r \<Longrightarrow> runtime_ok n r'"
  by (simp add: same_queues_def)

lemma ok_update_task [simp]: "runtime_ok n (update_task a f r) = runtime_ok n r"
  by (simp add: update_task_def set_task_def)

lemma ok_set_task [simp]: "runtime_ok n (set_task r a t) = runtime_ok n r"
  by (simp add: set_task_def)

lemma ok_on_task_finished [simp]: "runtime_ok n (on_task_finished e p a r) = runtime_ok n r"
  by (simp add: on_task_finished_def unregister_task_def Let_def)

lemma keeps_running: "keeps_local (\<lambda>e. e\<lparr>ex_running_task := x\<rparr>) n" "keeps_local (\<lambda>e. e\<lparr>ex_sleeping := b\<rparr>) n"
  "keeps_local (\<lambda>e. e\<lparr>ex_io_wake_pending := b\<rparr>) n"
  by (rule keeps_localI; simp)+

lemma ok_begin_execute: "runtime_ok n r \<Longrightarrow> runtime_ok n (begin_execute i a r)"
  by (simp add: begin_execute_def Let_def ok_update_executor keeps_running)

lemma ok_finish_task: "finish_task c i a result r = (next, r') \<Longrightarrow> runtime_ok n r \<Longrightarrow> runtime_ok n r'"
  by (auto simp: finish_task_def finish_done_def finish_pending_def finish_again_def enqueue_pending_call_def Let_def
      split: TaskResult.splits prod.splits if_splits)

lemma ok_notify: "runtime_ok n r \<Longrightarrow> runtime_ok n (set_executor r i (notify wr (executor_at r i)))"
  "runtime_ok n r \<Longrightarrow> runtime_ok n (set_executor r i (notify_external_ready wr (executor_at r i)))"
  "runtime_ok n r \<Longrightarrow> runtime_ok n (mark_source_ready s i r)"
  using ok_update_executor [OF _ notify_keeps(1), of n r i wr] ok_update_executor [OF _ notify_keeps(2), of n r i wr]
    ok_update_executor [OF _ notify_keeps(3), of n r i s]
  by (simp_all add: update_executor_def mark_source_ready_def Let_def)

text \<open>What the tasks and the other threads may do: anything that keeps the queues well formed.\<close>

definition keeps_queues ::
    "nat \<Rightarrow> ('z runtime_scheme \<Rightarrow> 'z runtime_scheme) \<Rightarrow>
     (taddr \<Rightarrow> 'z runtime_scheme \<Rightarrow> (TaskResult option \<times> 'z runtime_scheme) option) \<Rightarrow> bool" where
  "keeps_queues n env run \<longleftrightarrow>
     (\<forall>r. runtime_ok n r \<longrightarrow> runtime_ok n (env r)) \<and>
     (\<forall>a r x r'. runtime_ok n r \<longrightarrow> run a r = Some (x, r') \<longrightarrow> runtime_ok n r')"

lemma run_call_step_keeps_queues:
  assumes IH: "\<And>c wr env run call r r'. rc c wr env run call r = Some r' \<Longrightarrow> keeps_queues n env run \<Longrightarrow> runtime_ok n r \<Longrightarrow> runtime_ok n r'"
    and hyp: "(case call of
        Execute index a \<Rightarrow>
          if task_state (task_at r a) \<noteq> Queued then Some r
          else let previous_running = ex_running_task (executor_at r index);
                   previous_task = rt_current_task r
               in case run a (begin_execute index a r) of
                    None \<Rightarrow> None
                  | Some (result, r) \<Rightarrow>
                      (let result = (case result of None \<Rightarrow> RDone | Some x \<Rightarrow> x);
                           r = update_executor index (\<lambda>e. e\<lparr>ex_running_task := previous_running\<rparr>) r
                       in case finish_task c index a result r of
                            (None, r) \<Rightarrow> Some (r\<lparr>rt_current_task := previous_task\<rparr>)
                          | (Some next, r) \<Rightarrow>
                              Option.bind (rc c wr env run next r)
                                (\<lambda>r. Some (r\<lparr>rt_current_task := previous_task\<rparr>)))
      | EnqueueLocal target a b \<Rightarrow>
          (case try_enqueue_local_from_runtime_thread target a r of
             (ok, r) \<Rightarrow>
               if ok then Some r
               else (case try_pop_local (executor_at r target) of
                  (Some ready, e) \<Rightarrow>
                    Option.bind (rc c wr env run (Execute target ready) (set_executor r target e))
                      (\<lambda>r. rc c wr env run (EnqueueLocal target a (backoff_reset b)) r)
                | (None, e) \<Rightarrow>
                    rc c wr env run (EnqueueLocal target a (snd (backoff_step b))) (env (set_executor r target e))))
      | EnqueueLink source target a b \<Rightarrow>
          (let k = spsc_index c source target
           in case spsc_try_push (rt_spsc r ! k) (Some a) of
                (ok, q) \<Rightarrow>
                  let r = r\<lparr>rt_spsc := (rt_spsc r)[k := q]\<rparr>
                  in if ok
                     then let r = mark_source_ready source target r
                          in Some (set_executor r target (notify wr (executor_at r target)))
                     else rc c wr env run (EnqueueLink source target a (snd (backoff_step b))) (env r))
      | EnqueueExternal target a b \<Rightarrow>
          (case mpsc_try_push (rt_external r ! unat target) (Some a) of
             None \<Rightarrow> None
           | Some (ok, q) \<Rightarrow>
               let r = r\<lparr>rt_external := (rt_external r)[unat target := q]\<rparr>
               in if ok
                  then Some (set_executor r target (notify_external_ready wr (executor_at r target)))
                  else rc c wr env run (EnqueueExternal target a (snd (backoff_step b))) (env r))) = Some r'"
    and keep: "keeps_queues n env run" and ok: "runtime_ok n r"
  shows "runtime_ok n r'"
proof (cases call)
  case (Execute i a)
  note body = hyp [unfolded Execute rt_call.case]
  show ?thesis
  proof (cases "task_state (task_at r a) = Queued")
    case False
    then show ?thesis using body ok by simp
  next
    case True
    then obtain x r1 where run: "run a (begin_execute i a r) = Some (x, r1)"
      using body by (auto simp: Let_def split: option.splits)
    have ok1: "runtime_ok n r1" using keep run ok_begin_execute [OF ok] unfolding keeps_queues_def by blast
    define r2 where "r2 = update_executor i (\<lambda>e. e\<lparr>ex_running_task := ex_running_task (executor_at r i)\<rparr>) r1"
    have ok2: "runtime_ok n r2" unfolding r2_def by (rule ok_update_executor [OF ok1 keeps_running(1)])
    obtain next_call r3 where fin: "finish_task c i a (case x of None \<Rightarrow> RDone | Some y \<Rightarrow> y) r2 = (next_call, r3)" by fastforce
    have ok3: "runtime_ok n r3" by (rule ok_finish_task [OF fin ok2])
    show ?thesis
    proof (cases next_call)
      case None
      then show ?thesis using body True run fin ok3 by (auto simp: r2_def [symmetric] Let_def)
    next
      case (Some call')
      then obtain r4 where r4: "rc c wr env run call' r3 = Some r4" "r' = r4\<lparr>rt_current_task := rt_current_task r\<rparr>"
        using body True run fin by (auto simp: r2_def [symmetric] Let_def bind_eq_Some_conv)
      then show ?thesis using IH [OF r4(1) keep ok3] by simp
    qed
  qed
next
  case (EnqueueLocal i a b)
  note body = hyp [unfolded EnqueueLocal rt_call.case]
  obtain ok1 r1 where enq: "try_enqueue_local_from_runtime_thread i a r = (ok1, r1)" by fastforce
  have r1: "runtime_ok n r1" by (rule ok_push_local [OF ok enq])
  obtain v e where pop: "try_pop_local (executor_at r1 i) = (v, e)" by fastforce
  have r2: "runtime_ok n (set_executor r1 i e)" by (rule ok_pop_local [OF r1 pop])
  consider "ok1" | "\<not> ok1" "v = None" | t where "\<not> ok1" "v = Some t" by (cases v) auto
  then show ?thesis
  proof cases
    case 1
    then show ?thesis using body enq r1 by simp
  next
    case 2
    have "runtime_ok n (env (set_executor r1 i e))" using keep r2 unfolding keeps_queues_def by blast
    then show ?thesis using body enq pop 2 IH [OF _ keep] by auto
  next
    case 3
    then obtain r3 where "rc c wr env run (Execute i t) (set_executor r1 i e) = Some r3"
      "rc c wr env run (EnqueueLocal i a (backoff_reset b)) r3 = Some r'"
      using body enq pop by (auto simp: bind_eq_Some_conv)
    then show ?thesis using IH [OF _ keep] r2 by blast
  qed
next
  case (EnqueueLink s i a b)
  note body = hyp [unfolded EnqueueLink rt_call.case]
  let ?k = "spsc_index c s i"
  obtain ok1 q where push: "spsc_try_push (rt_spsc r ! ?k) (Some a) = (ok1, q)" by fastforce
  have r1: "runtime_ok n (r\<lparr>rt_spsc := (rt_spsc r)[?k := q]\<rparr>)" by (rule ok_push_link [OF ok push])
  then have "runtime_ok n (env (r\<lparr>rt_spsc := (rt_spsc r)[?k := q]\<rparr>))" using keep unfolding keeps_queues_def by blast
  then show ?thesis
    using body push r1 IH [OF _ keep] ok_notify(1) [OF ok_notify(3) [OF r1]]
    by (cases ok1) (auto simp: Let_def)
next
  case (EnqueueExternal i a b)
  note body = hyp [unfolded EnqueueExternal rt_call.case]
  obtain ok1 q where push: "mpsc_try_push (rt_external r ! unat i) (Some a) = Some (ok1, q)"
    using body by (auto split: option.splits)
  have r1: "runtime_ok n (r\<lparr>rt_external := (rt_external r)[unat i := q]\<rparr>)" by (rule ok_push_external [OF ok push])
  then have "runtime_ok n (env (r\<lparr>rt_external := (rt_external r)[unat i := q]\<rparr>))" using keep unfolding keeps_queues_def by blast
  then show ?thesis
    using body push r1 IH [OF _ keep] ok_notify(2) [OF r1] by (cases ok1) (auto simp: Let_def)
qed

lemma run_call_keeps_queues:
  assumes "run_call c wr env run call r = Some r'" "keeps_queues n env run" "runtime_ok n r"
  shows "runtime_ok n r'"
proof -
  have "keeps_queues n env run \<longrightarrow> runtime_ok n r \<longrightarrow> runtime_ok n r'"
    by (rule run_call.raw_induct [where P = "\<lambda>_ _ env run _ r r'. keeps_queues n env run \<longrightarrow> runtime_ok n r \<longrightarrow> runtime_ok n r'",
          OF _ assms(1)]) (blast intro: run_call_step_keeps_queues)
  then show ?thesis using assms by blast
qed

text \<open>
  C15: Every call of the scheduler keeps the runtime's queues well formed: the blocking enqueues of tasks
  and of waiting tasks, posts that wait for room, and the execution of a task with everything its
  result makes the executor do, nested as the code nests them.  The tasks themselves and the other
  threads may do anything that keeps them well formed.
\<close>

theorem scheduler_calls_keep_queues:
  assumes "keeps_queues n env run" and "runtime_ok n r" and "run_call c wr env run call r = Some r'"
  shows "runtime_ok n r'"
  by (rule run_call_keeps_queues [OF assms(3,1,2)])

theorem scheduler_calls_keep_queues_witness:
  "\<exists>r'. run_call sample_config True id sample_run (Execute 0 7) sample_queued = Some r' \<and> runtime_ok 3 r'"
proof -
  have keep: "keeps_queues 3 id sample_run" by (simp add: keeps_queues_def sample_run_def)
  have ok: "runtime_ok 3 sample_queued" using sample_runtime_ok(1) by (simp add: sample_queued_def)
  have "\<exists>r'. run_call sample_config True id sample_run (Execute 0 7) sample_queued = Some r'"
    by (subst run_call.simps) (simp add: sample_queued_def sample_run_def finish_task_def)
  then show ?thesis using scheduler_calls_keep_queues [OF keep ok] by blast
qed

subsection \<open>Polling keeps the queues\<close>

definition io_keeps_queues :: "nat \<Rightarrow> ('tag, 'k, 'w, 'n) io_params \<Rightarrow> bool" where
  "io_keeps_queues n P \<longleftrightarrow>
     keeps_queues n (par_env P) (par_run P) \<and>
     (\<forall>f owner events r r'. runtime_ok n r \<longrightarrow> par_on_event P f owner events r = Some r' \<longrightarrow> runtime_ok n r')"

lemma ok_io [simp]:
  "runtime_ok n (r\<lparr>io_kernel := k\<rparr>) = runtime_ok n r" "runtime_ok n (r\<lparr>io_backends := b\<rparr>) = runtime_ok n r"
  "runtime_ok n (r\<lparr>io_op_at := w\<rparr>) = runtime_ok n r" "runtime_ok n (r\<lparr>net_channel_at := c\<rparr>) = runtime_ok n r"
  by (simp_all add: runtime_ok_def)

lemma ok_io_ops [simp]:
  "runtime_ok n (update_backend i f r) = runtime_ok n r" "runtime_ok n (update_io_result w g r) = runtime_ok n r"
  "runtime_ok n (set_entry P i fd entry r) = runtime_ok n r" "runtime_ok n (pool_destroy i a r) = runtime_ok n r"
  "runtime_ok n (epoll_del P i fd r) = runtime_ok n r" "runtime_ok n (snd (epoll_ctl P i op fd ev r)) = runtime_ok n r"
  by (simp_all add: update_backend_def update_io_result_def set_entry_def pool_destroy_def epoll_del_def epoll_ctl_def
      split: prod.split)

lemma ok_update_epoll_interest [simp]: "runtime_ok n (snd (update_epoll_interest P i fd entry r)) = runtime_ok n r"
proof -
  have ctl: "epoll_ctl P i op fd ev r = (x, r') \<Longrightarrow> runtime_ok n r' = runtime_ok n r" for op ev x r r'
    using ok_io_ops(6) [of n P i op fd ev r] by simp
  show ?thesis
    by (auto simp: update_epoll_interest_def Let_def ctl split: prod.split)
qed

lemma ok_settle_entry [simp]: "runtime_ok n (settle_entry P i fd entry r) = runtime_ok n r"
  by (simp add: settle_entry_def)

lemma ok_enqueue_pending:
  assumes "io_keeps_queues n P" "runtime_ok n r" "enqueue_pending_blocking P i t m r = Some r'"
  shows "runtime_ok n r'"
  using assms run_call_keeps_queues [of "par_config P" "par_wake_written P" "par_env P" "par_run P" _ _ r' n]
  by (auto simp: enqueue_pending_blocking_def enqueue_pending_call_def io_keeps_queues_def split: prod.splits option.splits if_splits)

lemma ok_complete_wait:
  assumes keep: "io_keeps_queues n P" and ok: "runtime_ok n r" and wait: "complete_wait P i fd ready a r = Some r'"
  shows "runtime_ok n r'"
proof -
  obtain entry g where find: "hm_find (par_waits P) (io_waits (backend_at r i)) fd = Some entry"
    "io_wait_pool (backend_at r i) a = Some g"
    using wait by (auto simp: complete_wait_def Let_def split: option.splits)
  define r1 where "r1 = update_io_result (reg_result g) (\<lambda>x. x\<lparr>io_fd := fd, io_events := ready, io_errno := 0\<rparr>)
    (set_entry P i fd (remove_io_wait_registration entry a) r)"
  have ok1: "runtime_ok n r1" using ok by (simp add: r1_def)
  obtain r2 where "enqueue_pending_blocking P i (reg_task g) Auto r1 = Some r2" "r' = pool_destroy i a r2"
    using wait by (auto simp: complete_wait_def find r1_def Let_def)
  then show ?thesis using ok_enqueue_pending [OF keep ok1] by simp
qed

lemma ok_complete_waits:
  "io_keeps_queues n P \<Longrightarrow> runtime_ok n r \<Longrightarrow> complete_waits P i fd ready as r = Some r' \<Longrightarrow> runtime_ok n r'"
  by (induction "as" arbitrary: r) (auto split: option.splits intro: ok_complete_wait)

lemma ok_drain_io_wake: "runtime_ok n r \<Longrightarrow> drain_io_wake P i r = Some r' \<Longrightarrow> runtime_ok n r'"
  by (auto simp: drain_io_wake_def Let_def split: option.splits intro!: ok_update_executor keeps_running)

lemma ok_poll_event:
  assumes keep: "io_keeps_queues n P" and ok: "runtime_ok n r" and poll: "poll_event P i event r = Some (b, r')"
  shows "runtime_ok n r'"
proof -
  have on_event: "par_on_event P f owner events r = Some r' \<Longrightarrow> runtime_ok n r'" for f owner events
    using keep ok unfolding io_keeps_queues_def by blast
  have wait: "poll_wait_event P i fd events r = Some (b, r') \<Longrightarrow> runtime_ok n r'" for fd events
    using ok ok_complete_waits [OF keep ok]
    by (auto simp: poll_wait_event_def Let_def split: option.splits if_splits)
  show ?thesis
    using poll on_event wait ok_drain_io_wake [OF ok] ok
    by (auto simp: poll_event_def Let_def split: if_splits)
qed

lemma ok_poll_events:
  "io_keeps_queues n P \<Longrightarrow> runtime_ok n r \<Longrightarrow> poll_events P i events b r = Some (b', r') \<Longrightarrow> runtime_ok n r'"
  by (induction events arbitrary: b r) (auto split: option.splits prod.splits intro: ok_poll_event)

lemma ok_poll_io:
  assumes keep: "io_keeps_queues n P" and ok: "runtime_ok n r" and poll: "poll_io P i timeout r = Some (b, r')"
  shows "runtime_ok n r'"
proof -
  obtain count events k where wait: "sys_epoll_wait (par_kernel P) (epoll_fd r i) 64 timeout (io_kernel r) = (count, events, k)"
    by (metis prod.exhaust)
  have "runtime_ok n (r\<lparr>io_kernel := k\<rparr>)" using ok by simp
  then show ?thesis
    using poll ok ok_poll_events [OF keep, of "r\<lparr>io_kernel := k\<rparr>"]
    by (auto simp: poll_io_def poll_native_io_def wait Let_def split: if_splits)
qed

subsection \<open>The loop\<close>

definition site_ok :: "('tag, 'k, 'w, 'n) io_params \<Rightarrow> nat \<Rightarrow> u16 \<Rightarrow> ('k, 'w, 'n) io_runtime \<Rightarrow> bool" where
  "site_ok P n i r \<longleftrightarrow> thread_total_of (par_config P) = n \<and> unat i < n \<and> runtime_ok n r"

definition inbound_empty :: "nat \<Rightarrow> u16 \<Rightarrow> 'z runtime_scheme \<Rightarrow> bool" where
  "inbound_empty n i r \<longleftrightarrow> (\<forall>l \<in> inbound n i. lane_content n r l = [])"

lemma site_okI: "site_ok P n i r \<Longrightarrow> runtime_ok n r' \<Longrightarrow> site_ok P n i r'"
  by (simp add: site_ok_def)

lemma pop_one_site:
  assumes "site_ok P n i r" "pop_one (par_config P) i r = (v, r')"
  shows "site_ok P n i r'" "v = None \<Longrightarrow> inbound_empty n i r'"
proof -
  have q: "thread_total_of (par_config P) = n" "unat i < n" "runtime_ok n r" using assms(1) by (simp_all add: site_ok_def)
  note spec = pop_one_spec [OF q(3) q(1) [symmetric] q(2) assms(2)]
  show "site_ok P n i r'" using q spec by (simp add: site_ok_def)
  show "inbound_empty n i r'" if "v = None" using spec that by (simp add: inbound_empty_def)
qed

lemma execute_site:
  "io_keeps_queues n P \<Longrightarrow> site_ok P n i r \<Longrightarrow> execute_task P i t r = Some r' \<Longrightarrow> site_ok P n i r'"
  unfolding site_ok_def execute_task_def io_keeps_queues_def by (blast intro: run_call_keeps_queues)

text \<open>What the other threads may do: anything that keeps the queues well formed.\<close>

definition others_keep_queues :: "nat \<Rightarrow> ('k, 'w, 'n) interference \<Rightarrow> ('k, 'w, 'n) epoch_wait \<Rightarrow> bool" where
  "others_keep_queues n others sleep \<longleftrightarrow>
     (\<forall>k r. runtime_ok n r \<longrightarrow> runtime_ok n (others k r)) \<and>
     (\<forall>i observed r r'. runtime_ok n r \<longrightarrow> sleep i observed r = Some r' \<longrightarrow> runtime_ok n r')"

lemma others_site: "others_keep_queues n others sleep \<Longrightarrow> site_ok P n i r \<Longrightarrow> site_ok P n i (others k r)"
  by (simp add: others_keep_queues_def site_ok_def)

lemma sleep_site: "others_keep_queues n others sleep \<Longrightarrow> site_ok P n i r \<Longrightarrow> sleep j observed r = Some r' \<Longrightarrow> site_ok P n i r'"
  unfolding others_keep_queues_def site_ok_def by blast

text \<open>A drain ends when \<^verbatim>\<open>pop_one\<close> finds nothing; a drain without work is a single such call.\<close>

definition drained :: "('tag, 'k, 'w, 'n) io_params \<Rightarrow> nat \<Rightarrow> ('k, 'w, 'n) interference \<Rightarrow> u16 \<Rightarrow> bool \<Rightarrow> nat \<Rightarrow>
    ('k, 'w, 'n) io_runtime \<Rightarrow> bool \<times> nat \<times> ('k, 'w, 'n) io_runtime \<Rightarrow> bool" where
  "drained P n others i did_work k r result \<longleftrightarrow>
     (case result of (did_work', k', r') \<Rightarrow>
        site_ok P n i r' \<and> inbound_empty n i r' \<and> (did_work \<longrightarrow> did_work') \<and>
        (\<not> did_work' \<longrightarrow> k' = k + 1 \<and> pop_one (par_config P) i (others k r) = (None, r')))"

lemma drain_step_site:
  assumes IH: "\<And>r x. dr r = Some x \<Longrightarrow> site_ok P n i r \<Longrightarrow> drained P n others i True (k + 1) r x"
    and body: "(case pop_one (par_config P) i (others k r) of (None, r) \<Rightarrow> Some (b, k + 1, r)
      | (Some t, r) \<Rightarrow> Option.bind (execute_task P i t r) dr) = Some x"
    and keep: "io_keeps_queues n P" and others: "others_keep_queues n others sleep" and ok: "site_ok P n i r"
  shows "drained P n others i b k r x"
proof -
  obtain v r1 where pop: "pop_one (par_config P) i (others k r) = (v, r1)" by fastforce
  note r1 = pop_one_site [OF others_site [OF others ok] pop]
  show ?thesis
  proof (cases v)
    case None
    then show ?thesis using body pop r1 by (auto simp: drained_def)
  next
    case (Some t)
    then obtain r2 where r2: "execute_task P i t r1 = Some r2" "dr r2 = Some x"
      using body pop by (auto simp: bind_eq_Some_conv)
    then have "drained P n others i True (k + 1) r2 x" using IH execute_site [OF keep r1(1)] by blast
    then show ?thesis by (auto simp: drained_def)
  qed
qed

lemma drain_site:
  assumes drain: "drain_tasks P others i b k r = Some x" and keep: "io_keeps_queues n P"
    and others: "others_keep_queues n others sleep" and ok: "site_ok P n i r"
  shows "drained P n others i b k r x"
proof -
  let ?Q = "\<lambda>P others i b k r x. io_keeps_queues n P \<longrightarrow> others_keep_queues n others sleep \<longrightarrow> site_ok P n i r \<longrightarrow>
    drained P n others i b k r x"
  have "?Q P others i b k r x"
  proof (rule drain_tasks.raw_induct [where P = ?Q, OF _ drain], goal_cases)
    case (1 dr P others i b k r x)
    show ?case
    proof (intro impI)
      assume keep: "io_keeps_queues n P" and others: "others_keep_queues n others sleep" and ok: "site_ok P n i r"
      show "drained P n others i b k r x"
        by (rule drain_step_site [OF _ 1(2) keep others ok]) (use 1(1) keep others in blast)
    qed
  qed
  then show ?thesis using keep others ok by simp
qed

lemma sleeping_site [simp]: "site_ok P n i r \<Longrightarrow> site_ok P n i (set_sleeping j b r)"
  by (simp add: site_ok_def set_sleeping_def ok_update_executor keeps_running)

lemma poll_site: "io_keeps_queues n P \<Longrightarrow> site_ok P n i r \<Longrightarrow> poll_io P i timeout r = Some (b, r') \<Longrightarrow> site_ok P n i r'"
  using ok_poll_io [of n P r i timeout b r'] by (simp add: site_ok_def)

lemma try_sleep_site:
  assumes keep: "io_keeps_queues n P" and others: "others_keep_queues n others sleep" and ok: "site_ok P n i r"
    and slept: "try_sleep P others sleep i k r = Some (k', r')"
  shows "site_ok P n i r'"
proof -
  define r1 where "r1 = others (k + 1) (set_sleeping i True (others k r))"
  have ok1: "site_ok P n i r1" unfolding r1_def by (intro others_site [OF others] sleeping_site ok)
  obtain v r2 where pop: "pop_one (par_config P) i (others (k + 2) r1) = (v, r2)" by fastforce
  note ok2 = pop_one_site(1) [OF others_site [OF others ok1] pop]
  define r3 where "r3 = others (k + 3) r2"
  have ok3: "site_ok P n i r3" unfolding r3_def by (rule others_site [OF others ok2])
  note body = slept [unfolded try_sleep_def Let_def, folded r1_def]
  show ?thesis
  proof (cases "ex_stop_requested (executor_at r1 i)")
    case True
    then have "r' = set_sleeping i False r1" using body by simp
    then show ?thesis using ok1 by simp
  next
    case False
    note body1 = body [unfolded if_not_P [OF False] pop]
    show ?thesis
    proof (cases v)
      case (Some t)
      then have "execute_task P i t (set_sleeping i False r2) = Some r'" using body1 by auto
      then show ?thesis by (rule execute_site [OF keep sleeping_site [OF ok2]])
    next
      case None
      note body2 = body1 [unfolded None prod.case option.case, folded r3_def]
      consider "r' = set_sleeping i False r3"
        | b r4 where "poll_io P i (- 1) r3 = Some (b, r4)" "r' = set_sleeping i False r4"
        | observed r4 where "sleep i observed r3 = Some r4" "r' = set_sleeping i False r4"
        using body2 by (simp split: if_splits) auto
      then show ?thesis using ok3 sleep_site [OF others ok3] poll_site [OF keep ok3] by cases auto
    qed
  qed
qed

text \<open>The last round: no work, all queues empty, then the request to stop.\<close>

definition last_round :: "('tag, 'k, 'w, 'n) io_params \<Rightarrow> nat \<Rightarrow> ('k, 'w, 'n) interference \<Rightarrow> u16 \<Rightarrow> nat \<Rightarrow>
    ('k, 'w, 'n) io_runtime \<Rightarrow> ('k, 'w, 'n) io_runtime \<Rightarrow> bool" where
  "last_round P n others i k r r' \<longleftrightarrow>
     (\<exists>r1. pop_one (par_config P) i (others k r) = (None, r1) \<and> inbound_empty n i r1 \<and> r' = others (k + 1) r1 \<and>
        ex_stop_requested (executor_at r' i))"

lemma loop_round_site:
  assumes round: "loop_round P others sleep i k r = Some (leave, k', r')"
    and keep: "io_keeps_queues n P" and others: "others_keep_queues n others sleep" and ok: "site_ok P n i r"
  shows "site_ok P n i r'" "leave \<Longrightarrow> last_round P n others i k r r'"
proof -
  obtain did_work k1 r1 where drain: "drain_tasks P others i False k r = Some (did_work, k1, r1)"
    using round by (auto simp: loop_round_def bind_eq_Some_conv)
  note r1 = drain_site [OF drain keep others ok, unfolded drained_def prod.case]
  define r2 where "r2 = others k1 r1"
  have r2: "site_ok P n i r2" unfolding r2_def using r1 by (intro others_site [OF others]) simp
  note body = round [unfolded loop_round_def drain Option.bind.simps prod.case Let_def, folded r2_def]
  have "site_ok P n i r' \<and> (leave \<longrightarrow> last_round P n others i k r r')"
  proof (cases "ex_stop_requested (executor_at r2 i)")
    case stop: True
    note body2 = body [unfolded if_P [OF stop]]
    have "r' = r2" "leave \<longleftrightarrow> \<not> did_work" using body2 by (auto split: if_splits)
    then show ?thesis using r1 r2 stop by (auto simp: last_round_def r2_def)
  next
    case go: False
    note body2 = body [unfolded if_not_P [OF go]]
    obtain worked r3 where poll: "poll_io P i 0 r2 = Some (worked, r3)"
      using body2 by (cases "poll_io P i 0 r2") auto
    note r3 = poll_site [OF keep r2 poll]
    note body3 = body2 [unfolded poll Option.bind.simps prod.case]
    show ?thesis
    proof (cases worked)
      case True
      then show ?thesis using body3 r3 by simp
    next
      case False
      then have "try_sleep P others sleep i (k1 + 1) r3 = Some (k', r')" "\<not> leave" using body3 by auto
      then show ?thesis using try_sleep_site [OF keep others r3] by blast
    qed
  qed
  then show "site_ok P n i r'" "leave \<Longrightarrow> last_round P n others i k r r'" by simp_all
qed

definition loop_ends :: "('tag, 'k, 'w, 'n) io_params \<Rightarrow> nat \<Rightarrow> ('k, 'w, 'n) interference \<Rightarrow> ('k, 'w, 'n) epoch_wait \<Rightarrow> u16 \<Rightarrow> nat \<Rightarrow>
    ('k, 'w, 'n) io_runtime \<Rightarrow> ('k, 'w, 'n) io_runtime \<Rightarrow> bool" where
  "loop_ends P n others sleep i k r r' \<longleftrightarrow>
     site_ok P n i r' \<and> (\<exists>k0 r0. loop_head P others sleep i k r k0 r0 \<and> last_round P n others i k0 r0 r')"

lemma loop_step_site:
  assumes IH: "\<And>k r r'. lp k r = Some r' \<Longrightarrow> site_ok P n i r \<Longrightarrow> loop_ends P n others sleep i k r r'"
    and body: "Option.bind (loop_round P others sleep i k r) (\<lambda>(leave, k, r). if leave then Some r else lp k r) = Some r'"
    and keep: "io_keeps_queues n P" and others: "others_keep_queues n others sleep" and ok: "site_ok P n i r"
  shows "loop_ends P n others sleep i k r r'"
proof -
  obtain leave k1 r1 where round: "loop_round P others sleep i k r = Some (leave, k1, r1)"
    using body by (auto simp: bind_eq_Some_conv)
  note r1 = loop_round_site [OF round keep others ok]
  show ?thesis
  proof (cases leave)
    case True
    then show ?thesis using body round r1 head_first [of P others sleep i k r] by (auto simp: loop_ends_def)
  next
    case False
    then have "loop_ends P n others sleep i k1 r1 r'" using body round IH [OF _ r1(1)] by simp
    moreover have "loop_round P others sleep i k r = Some (False, k1, r1)" using round False by simp
    ultimately show ?thesis unfolding loop_ends_def using head_next [of P others sleep i k r k1 r1] by blast
  qed
qed

lemma loop_body_site:
  assumes loop: "loop_body P others sleep i k r = Some r'"
    and keep: "io_keeps_queues n P" and others: "others_keep_queues n others sleep" and ok: "site_ok P n i r"
  shows "loop_ends P n others sleep i k r r'"
proof -
  let ?Q = "\<lambda>P others sleep i k r r'. io_keeps_queues n P \<longrightarrow> others_keep_queues n others sleep \<longrightarrow> site_ok P n i r \<longrightarrow>
    loop_ends P n others sleep i k r r'"
  have "?Q P others sleep i k r r'"
  proof (rule loop_body.raw_induct [where P = ?Q, OF _ loop], goal_cases)
    case (1 lp P others sleep i k r r')
    show ?case
    proof (intro impI)
      assume keep: "io_keeps_queues n P" and others: "others_keep_queues n others sleep" and ok: "site_ok P n i r"
      show "loop_ends P n others sleep i k r r'"
        by (rule loop_step_site [OF _ 1(2) keep others ok]) (use 1(1) keep others in blast)
    qed
  qed
  then show ?thesis using keep others ok by blast
qed

text \<open>
  C13: An executor leaves its loop only in a round in which it runs no task: at the beginning of the
  round it finds every queue that feeds its thread empty, and then it reads the request to stop.
  What its queues hold at the end was put there by other threads between these two accesses.  All
  queues of the runtime are well formed, whatever the tasks, the handlers of events and the other
  threads did through operations that keep them so, and the thread no longer counts as one of the
  runtime.
\<close>

theorem run_loop_ends_without_work:
  assumes keep: "io_keeps_queues n P" and others: "others_keep_queues n others sleep"
    and n: "n = thread_total_of (par_config P)" and i: "unat i < n" and ok: "runtime_ok n r"
    and run: "run_loop P others sleep i r = Some r'"
  shows "\<exists>k r0 r1. loop_head P others sleep i 0 (r\<lparr>rt_current := i, rt_current_task := 0\<rparr>) k r0 \<and>
    pop_one (par_config P) i (others k r0) = (None, r1) \<and> (\<forall>l \<in> inbound n i. lane_content n r1 l = []) \<and>
    ex_stop_requested (executor_at (others (k + 1) r1) i) \<and>
    r' = (others (k + 1) r1)\<lparr>rt_current := invalid_thread_index (cf_threads (par_config P)), rt_current_task := 0\<rparr> \<and>
    runtime_ok n r'"
proof -
  obtain r1 where loop: "loop_body P others sleep i 0 (r\<lparr>rt_current := i, rt_current_task := 0\<rparr>) = Some r1"
    and r': "r' = r1\<lparr>rt_current := invalid_thread_index (cf_threads (par_config P)), rt_current_task := 0\<rparr>"
    using run by (auto simp: run_loop_def)
  have "site_ok P n i (r\<lparr>rt_current := i, rt_current_task := 0\<rparr>)"
    using ok i n by (simp add: site_ok_def)
  from loop_body_site [OF loop keep others this] show ?thesis
    unfolding loop_ends_def last_round_def inbound_empty_def r' by (auto simp: site_ok_def)
qed

subsection \<open>A task that comes too late\<close>

lemma request_stop_keeps: "keeps_local (request_stop wr) n"
  by (rule keeps_localI; simp add: request_stop_def notify_force_def notify_native_io_backend_def notify_one_def Let_def)

lemma sample_io_runtime_ok: "runtime_ok 3 sample_io_runtime" "lane_content 3 sample_io_runtime = (\<lambda>_. [])"
proof -
  let ?r = "sample_runtime\<lparr>rt_current := 2\<rparr>" and ?f = "\<lambda>e. e\<lparr>ex_io_epoll_fd := 3\<rparr>"
  have keeps: "keeps_local ?f 3" by (rule keeps_localI) simp_all
  have ok: "runtime_ok 3 ?r" "lane_content 3 ?r = (\<lambda>_. [])" using sample_runtime_ok by simp_all
  have "sample_runtime\<lparr>rt_current := 2, rt_executors := (rt_executors sample_runtime)[2 := ?f (rt_executors sample_runtime ! 2)]\<rparr> =
      update_executor 2 ?f ?r"
    by (simp add: update_executor_def set_executor_def executor_at_def)
  then show "runtime_ok 3 sample_io_runtime" "lane_content 3 sample_io_runtime = (\<lambda>_. [])"
    using update_executor_ok [OF ok(1) _ keeps, of 2] ok(2) by (simp_all add: sample_io_runtime_def extend_lanes)
qed

text \<open>
  After the executor's last look at its queues another thread enqueues task 7 from outside and the
  runtime is stopped; the executor leaves with the task in its queue.
\<close>

definition late_task ::
    "(table_kernel, (int \<times> IoWaitEntry) list, (int \<times> u64) list) interference" where
  "late_task k r =
     (if k = 1 then update_executor 2 (request_stop True) (snd (the (try_enqueue_external_mpsc True 2 7 r))) else r)"

lemma late_task_pushed:
  assumes "runtime_ok 3 r"
  obtains ok where "pushed 3 r (late_task 1 r) (ExternalLane 2) 7 ok"
proof -
  obtain b r' where "try_enqueue_external_mpsc True 2 7 r = Some (b, r')" "pushed 3 r r' (ExternalLane (unat (2 :: u16))) 7 b"
    by (rule external_enqueue_pushed [OF assms, of 2 True 7]) simp_all
  then show ?thesis using that pushed_update [OF _ request_stop_keeps, of 3 r r' "ExternalLane 2" 7 b 2 True] by (simp add: late_task_def)
qed

lemma late_task_keeps: "others_keep_queues 3 late_task (\<lambda>_ _ _. None)"
proof -
  have "runtime_ok 3 (late_task k r)" if ok: "runtime_ok 3 r" for k r
  proof (cases "k = 1")
    case True
    then show ?thesis using late_task_pushed [OF ok] by (auto simp: pushed_def)
  qed (simp add: late_task_def ok)
  then show ?thesis by (simp add: others_keep_queues_def)
qed

lemma late_task_stops:
  assumes "runtime_ok 3 r" shows "ex_stop_requested (executor_at (late_task 1 r) 2)"
proof -
  obtain ok where "pushed 3 r (late_task 1 r) (ExternalLane 2) 7 ok" by (rule late_task_pushed [OF assms])
  then have "length (rt_executors (late_task 1 r)) = 3" by (simp add: pushed_def runtime_ok_def)
  then show ?thesis
    by (simp add: late_task_def update_executor_def set_executor_def executor_at_def request_stop_def notify_force_def
        notify_native_io_backend_def notify_one_def Let_def)
qed

lemma sample_io_keeps: "io_keeps_queues n sample_io"
  by (simp add: io_keeps_queues_def keeps_queues_def sample_io_def)

lemma late_task_run:
  "\<exists>r'. run_loop sample_io late_task (\<lambda>_ _ _. None) 2 sample_io_runtime = Some r' \<and> lane_content 3 r' (ExternalLane 2) = [7]"
proof -
  let ?r = "sample_io_runtime\<lparr>rt_current := 2, rt_current_task := 0\<rparr>"
  have n: "3 = thread_total_of (par_config sample_io)" by (simp add: sample_io_def)
  obtain v r1 where pop: "pop_one (par_config sample_io) 2 ?r = (v, r1)" by fastforce
  have ok: "runtime_ok 3 ?r" using sample_io_runtime_ok by simp
  note spec = pop_one_spec [OF ok n _ pop]
  have v: "v = None" and r1: "runtime_ok 3 r1" "lane_content 3 r1 = (\<lambda>_. [])"
    using spec sample_io_runtime_ok(2) by (cases v; auto)+
  obtain b where b: "pushed 3 r1 (late_task 1 r1) (ExternalLane 2) 7 b" by (rule late_task_pushed [OF r1(1)])
  have "drain_tasks sample_io late_task 2 False 0 ?r = Some (False, 1, r1)"
    by (subst drain_tasks.simps) (simp add: late_task_def pop v)
  then have "loop_round sample_io late_task (\<lambda>_ _ _. None) 2 0 ?r = Some (True, 2, late_task 1 r1)"
    using late_task_stops [OF r1(1)] by (simp add: loop_round_def Let_def)
  then have "loop_body sample_io late_task (\<lambda>_ _ _. None) 2 0 ?r = Some (late_task 1 r1)"
    by (subst loop_body.simps) simp
  moreover have "cell_inv (rt_external r1 ! 2)" using r1(1) by (simp add: runtime_ok_def cell_ok_def)
  then have "0 < unat (ring_capacity_of (rt_external r1 ! 2))" by (auto simp: cell_inv_def ring_capacity_def unat_gt_0 pow2_neq_0)
  ultimately show ?thesis using b r1 by (simp add: run_loop_def pushed_def)
qed

theorem run_loop_ends_without_work_witness:
  "\<exists>r'. run_loop sample_io late_task (\<lambda>_ _ _. None) 2 sample_io_runtime = Some r' \<and> lane_content 3 r' (ExternalLane 2) = [7] \<and>
     runtime_ok 3 r'"
proof -
  obtain r' where r': "run_loop sample_io late_task (\<lambda>_ _ _. None) 2 sample_io_runtime = Some r'" "lane_content 3 r' (ExternalLane 2) = [7]"
    using late_task_run by blast
  have n: "3 = thread_total_of (par_config sample_io)" by (simp add: sample_io_def)
  show ?thesis
    using run_loop_ends_without_work [OF sample_io_keeps late_task_keeps n _ sample_io_runtime_ok(1) r'(1)] r' by auto
qed

end
