(* ===== verification/Runtime_Lifecycle.thy ===== *)
theory Runtime_Lifecycle
  imports Executor_Loop
begin

section \<open>Starting and stopping the runtime\<close>

text \<open>
  Models \<^verbatim>\<open>init\<close>, \<^verbatim>\<open>shutdown\<close>, \<^verbatim>\<open>wait_for_idle\<close> (\<^verbatim>\<open>runtime_public_api.hpp\<close>), \<^verbatim>\<open>wait_for_external_posts\<close>
  (\<^verbatim>\<open>runtime_dispatch.hpp\<close>), and the start, stop and destruction of the executors
  (\<^verbatim>\<open>runtime_executor_lifecycle.hpp\<close>), as one thread runs them.  An exception of \<^verbatim>\<open>init\<close> is returned with the
  state it leaves.  What the other threads do while \<^verbatim>\<open>shutdown\<close> waits is a parameter, \<open>lifecycle_waits\<close>: the
  runtime when a wait for a counter or a join returns (\<^term>\<open>None\<close> if it never does).  How the waits
  meet concurrent posts is in \<open>Shutdown_Gate\<close>.
\<close>

record ('k, 'w, 'n) lifecycle_waits =
  lw_posts :: "nat \<Rightarrow> u32 \<Rightarrow> ('k, 'w, 'n) io_runtime \<Rightarrow> ('k, 'w, 'n) io_runtime option"
  lw_idle :: "u32 \<Rightarrow> ('k, 'w, 'n) io_runtime \<Rightarrow> ('k, 'w, 'n) io_runtime option"
  lw_join :: "u16 \<Rightarrow> ('k, 'w, 'n) io_runtime \<Rightarrow> ('k, 'w, 'n) io_runtime option"

subsection \<open>Starting\<close>

definition backend_new :: "('tag, 'k, 'w, 'n) io_params \<Rightarrow> ('w, 'n) io_backend" where
  "backend_new P =
     \<lparr>io_waits = hm_empty (par_waits P), io_wait_pool = Map.empty, net_channels = hm_empty (par_channels P),
      io_wake_fd = - 1\<rparr>"

definition executor_indices :: "('tag, 'k, 'w, 'n) io_params \<Rightarrow> u16 list" where
  "executor_indices P = map of_nat [0..<thread_total_of (par_config P)]"

definition executor_start ::
    "('tag, 'k, 'w, 'n) io_params \<Rightarrow> ('k, 'w, 'n) io_runtime \<Rightarrow> u16 \<Rightarrow> ('k, 'w, 'n) io_runtime" where
  "executor_start P r i = init_io_backend P i r"

text \<open>The queues that stand when a constructor throws: all links, or none.\<close>

definition queues_built :: "af_error + 'q list \<Rightarrow> 'q list" where
  "queues_built qs = (case qs of Inl _ \<Rightarrow> [] | Inr qs \<Rightarrow> qs)"

definition init ::
    "('tag, 'k, 'w, 'n) io_params \<Rightarrow> ('k, 'w, 'n) io_runtime \<Rightarrow> af_error option \<times> ('k, 'w, 'n) io_runtime" where
  "init P r =
     (let c = par_config P; n = thread_total_of c
      in if rt_status r \<noteq> RtStopped then (None, r)
         else let r = r\<lparr>rt_status := RtStarting\<rparr>;
                  r = r\<lparr>rt_ordered := replicate n 0\<rparr>;
                  r = r\<lparr>rt_generation := rt_generation r + 1\<rparr>;
                  r = reset_task_registry (cf_task_registry_enabled c) r
              in case init_queues c r of
                   Inl e \<Rightarrow> (Some e, r\<lparr>rt_spsc := queues_built (make_queues (n * n) spsc_new (cf_spsc_queue_capacity c)), rt_external := []\<rparr>)
                 | Inr r \<Rightarrow>
                     (case make_executors c [0..<n] of
                        Inl e \<Rightarrow> (Some e, r\<lparr>rt_executors := []\<rparr>)
                      | Inr es \<Rightarrow>
                          let r = r\<lparr>rt_executors := es, io_backends := replicate n (backend_new P)\<rparr>;
                              r = foldl (executor_start P) r (executor_indices P)
                          in (None, r\<lparr>rt_status := RtRunning\<rparr>)))"

subsection \<open>Stopping\<close>

partial_function (option) wait_for_post_counter ::
    "('k, 'w, 'n) lifecycle_waits \<Rightarrow> nat \<Rightarrow> ('k, 'w, 'n) io_runtime \<Rightarrow> ('k, 'w, 'n) io_runtime option" where
  "wait_for_post_counter W k r =
     (let count = rt_active_posts r ! k
      in if count = 0 then Some r
         else Option.bind (lw_posts W k count r) (\<lambda>r. wait_for_post_counter W k r))"

fun wait_for_external_posts ::
    "('k, 'w, 'n) lifecycle_waits \<Rightarrow> nat list \<Rightarrow> ('k, 'w, 'n) io_runtime \<Rightarrow> ('k, 'w, 'n) io_runtime option" where
  "wait_for_external_posts W [] r = Some r"
| "wait_for_external_posts W (k # ks) r =
     Option.bind (wait_for_post_counter W k r) (\<lambda>r. wait_for_external_posts W ks r)"

partial_function (option) wait_for_idle ::
    "('k, 'w, 'n) lifecycle_waits \<Rightarrow> ('k, 'w, 'n) io_runtime \<Rightarrow> ('k, 'w, 'n) io_runtime option" where
  "wait_for_idle W r =
     (let count = unfinished_tasks r
      in if count = 0 then Some r else Option.bind (lw_idle W count r) (\<lambda>r. wait_for_idle W r))"

definition unfinished_task_count :: "'z task_heap_scheme \<Rightarrow> u32" where
  "unfinished_task_count r = unfinished_tasks r"

fun join_all ::
    "('k, 'w, 'n) lifecycle_waits \<Rightarrow> u16 list \<Rightarrow> ('k, 'w, 'n) io_runtime \<Rightarrow> ('k, 'w, 'n) io_runtime option" where
  "join_all W [] r = Some r"
| "join_all W (i # is) r = Option.bind (lw_join W i r) (\<lambda>r. join_all W is r)"

definition is_runtime_thread :: "'tag runtime_config \<Rightarrow> 'z runtime_scheme \<Rightarrow> bool" where
  "is_runtime_thread c r \<longleftrightarrow> rt_current r < thread_count (cf_threads c)"

definition is_stopping :: "'z runtime_scheme \<Rightarrow> bool" where
  "is_stopping r \<longleftrightarrow> rt_status r = RtStopping"

text \<open>The destruction of the executors closes their back ends.\<close>

definition clear_runtime ::
    "('tag, 'k, 'w, 'n) io_params \<Rightarrow> ('k, 'w, 'n) io_runtime \<Rightarrow> ('k, 'w, 'n) io_runtime" where
  "clear_runtime P r =
     (let r = foldl (\<lambda>r i. close_io_backend P i r) r (executor_indices P);
          r = r\<lparr>rt_executors := [], io_backends := []\<rparr>;
          r = r\<lparr>rt_spsc := []\<rparr>;
          r = r\<lparr>rt_external := []\<rparr>;
          r = r\<lparr>rt_ordered := []\<rparr>;
          r = r\<lparr>unfinished_tasks := 0\<rparr>
      in r\<lparr>rt_status := RtStopped\<rparr>)"

definition end_tasks ::
    "'tag runtime_config \<Rightarrow> (taddr \<Rightarrow> 'z \<Rightarrow> 'z) \<Rightarrow> 'z task_heap_scheme \<Rightarrow> 'z task_heap_scheme option" where
  "end_tasks c on_cancel r =
     (if cf_shutdown_policy c = StopImmediately
      then cancel_registered_tasks (cf_task_registry_enabled c) (invalid_thread_index (cf_threads c)) on_cancel r
      else Some (reset_task_registry (cf_task_registry_enabled c) r))"

definition shutdown ::
    "('tag, 'k, 'w, 'n) io_params \<Rightarrow> ('k, 'w, 'n) lifecycle_waits \<Rightarrow>
     (taddr \<Rightarrow> ('k, 'w, 'n, unit) io_runtime_ext runtime_ext \<Rightarrow> ('k, 'w, 'n, unit) io_runtime_ext runtime_ext) \<Rightarrow>
     ('k, 'w, 'n) io_runtime \<Rightarrow> ('k, 'w, 'n) io_runtime option" where
  "shutdown P W on_cancel r =
     (let c = par_config P
      in if is_runtime_thread c r then Some r
         else if rt_status r \<noteq> RtRunning then Some r
         else let r = r\<lparr>rt_status := RtStopping\<rparr>
              in Option.bind (wait_for_external_posts W [0..<thread_total_of c] r) (\<lambda>r.
                 Option.bind (if cf_shutdown_policy c = WaitForTasks then wait_for_idle W r else Some r) (\<lambda>r.
                 let r = foldl (\<lambda>r i. update_executor i (request_stop (par_wake_written P)) r) r (executor_indices P)
                 in Option.bind (join_all W (executor_indices P) r) (\<lambda>r.
                    map_option (clear_runtime P) (end_tasks c on_cancel r)))))"

subsection \<open>A started runtime\<close>

text \<open>What starting the back ends leaves alone.\<close>

definition start_frame :: "nat \<Rightarrow> ('k, 'w, 'n) io_runtime \<Rightarrow> ('k, 'w, 'n) io_runtime \<Rightarrow> bool" where
  "start_frame n r r' \<longleftrightarrow>
     (runtime_ok n r \<longrightarrow> runtime_ok n r' \<and> lane_content n r' = lane_content n r) \<and>
     rt_ordered r' = rt_ordered r \<and> rt_generation r' = rt_generation r \<and> reg_head r' = reg_head r \<and>
     rt_status r' = rt_status r \<and> rt_current r' = rt_current r"

lemma start_frame_refl: "start_frame n r r"
  by (simp add: start_frame_def)

lemma start_frame_trans: "start_frame n r r1 \<Longrightarrow> start_frame n r1 r2 \<Longrightarrow> start_frame n r r2"
  unfolding start_frame_def by auto

lemma raw_lane_io [simp]:
  "raw_lane n (r\<lparr>io_kernel := k\<rparr>) l = raw_lane n r l" "raw_lane n (r\<lparr>io_backends := b\<rparr>) l = raw_lane n r l"
  "raw_lane n (r\<lparr>net_channel_at := c\<rparr>) l = raw_lane n r l"
  by (cases l; simp)+

lemma lane_content_io [simp]:
  "lane_content n (r\<lparr>io_kernel := k\<rparr>) = lane_content n r" "lane_content n (r\<lparr>io_backends := b\<rparr>) = lane_content n r"
  "lane_content n (r\<lparr>net_channel_at := c\<rparr>) = lane_content n r"
  by (simp_all add: lane_content_def fun_eq_iff)

lemma start_frame_io:
  "start_frame n r (r\<lparr>io_kernel := k\<rparr>)" "start_frame n r (update_backend i f r)" "start_frame n r (update_channel p g r)"
  by (simp_all add: start_frame_def update_backend_def update_channel_def)

lemma start_frame_executor:
  assumes "keeps_local f n" shows "start_frame n r (update_executor i f r)"
proof (cases "unat i < n")
  case True
  then show ?thesis
    using update_executor_ok [OF _ True assms, of r]
    by (simp add: start_frame_def) (simp add: update_executor_def set_executor_def)
next
  case False
  then have "runtime_ok n r \<Longrightarrow> update_executor i f r = r"
    by (simp add: update_executor_def set_executor_def runtime_ok_def list_update_beyond)
  then show ?thesis
    by (auto simp: start_frame_def) (simp_all add: update_executor_def set_executor_def)
qed

lemma keeps_fd: "keeps_local (\<lambda>e. e\<lparr>ex_io_epoll_fd := fd\<rparr>) n" "keeps_local (\<lambda>e. e\<lparr>ex_io_wake_pending := b\<rparr>) n"
  by (rule keeps_localI; simp)+

lemma start_frame_foldl:
  "(\<And>r x. start_frame n r (f r x)) \<Longrightarrow> start_frame n r (foldl f r xs)"
proof (induction xs arbitrary: r)
  case (Cons x xs)
  then show ?case using start_frame_trans by (metis foldl_Cons)
qed (simp add: start_frame_refl)

lemma close_start_frame: "start_frame n r (close_native_io_backend P i r)"
proof -
  note step = start_frame_trans
  define r1 where "r1 = clear_io_waits P i r"
  define r2 where "r2 = foldl (\<lambda>r (fd :: int, p). if p \<noteq> 0
      then update_channel p (\<lambda>ch. ch\<lparr>ch_active := False, ch_interests := 0, ch_backend_token := None\<rparr>) r
      else r) r1 (hm_items (par_channels P) (net_channels (backend_at r1 i)))"
  define r3 where "r3 = update_backend i (\<lambda>b. b\<lparr>net_channels := hm_empty (par_channels P)\<rparr>) r2"
  define r4 where "r4 = (if 0 \<le> io_wake_fd (backend_at r3 i)
      then update_backend i (\<lambda>b. b\<lparr>io_wake_fd := - 1\<rparr>)
             (r3\<lparr>io_kernel := sys_close (par_kernel P) (io_wake_fd (backend_at r3 i)) (io_kernel r3)\<rparr>)
      else r3)"
  define r5 where "r5 = (if 0 \<le> epoll_fd r4 i
      then update_executor i (\<lambda>e. e\<lparr>ex_io_epoll_fd := - 1\<rparr>)
             (r4\<lparr>io_kernel := sys_close (par_kernel P) (epoll_fd r4 i) (io_kernel r4)\<rparr>)
      else r4)"
  have f1: "start_frame n r r1" by (simp add: r1_def clear_io_waits_def start_frame_io)
  have f2: "start_frame n r1 r2"
    unfolding r2_def by (rule start_frame_foldl) (auto simp: start_frame_io start_frame_refl split: prod.split)
  have f3: "start_frame n r2 r3" by (simp add: r3_def start_frame_io)
  have f4: "start_frame n r3 r4"
    unfolding r4_def by (auto intro: step [OF start_frame_io(1) start_frame_io(2)] start_frame_refl)
  have f5: "start_frame n r4 r5"
    unfolding r5_def by (auto intro: step [OF start_frame_io(1) start_frame_executor [OF keeps_fd(1)]] start_frame_refl)
  have "close_native_io_backend P i r = update_executor i (\<lambda>e. e\<lparr>ex_io_wake_pending := False\<rparr>) r5"
    by (simp only: close_native_io_backend_def r1_def r2_def r3_def r4_def r5_def Let_def)
  then show ?thesis
    using step [OF f1 step [OF f2 step [OF f3 step [OF f4 step [OF f5 start_frame_executor [OF keeps_fd(2)]]]]]] by simp
qed

lemma init_native_frame: "start_frame n r (snd (init_native_io_backend P i r))"
proof -
  note step = start_frame_trans
  obtain fd k where create: "sys_epoll_create1 (par_kernel P) (io_kernel r) = (fd, k)" by fastforce
  define r1 where "r1 = update_executor i (\<lambda>e. e\<lparr>ex_io_epoll_fd := fd\<rparr>) (r\<lparr>io_kernel := k\<rparr>)"
  have f1: "start_frame n r r1"
    unfolding r1_def by (rule step [OF start_frame_io(1) start_frame_executor [OF keeps_fd(1)]])
  obtain wake k1 where event: "sys_eventfd (par_kernel P) (io_kernel r1) = (wake, k1)" by fastforce
  define r2 where "r2 = update_backend i (\<lambda>b. b\<lparr>io_wake_fd := wake\<rparr>) (r1\<lparr>io_kernel := k1\<rparr>)"
  have f2: "start_frame n r r2" unfolding r2_def by (rule step [OF f1 step [OF start_frame_io(1) start_frame_io(2)]])
  obtain result r3 where ctl: "epoll_ctl P i EPOLL_CTL_ADD wake (Some \<lparr>ev_events = EPOLLIN, ev_data = epoll_wake_token\<rparr>) r2 = (result, r3)"
    by fastforce
  then have "start_frame n r2 r3" by (auto simp: epoll_ctl_def start_frame_io split: prod.splits)
  then have f3: "start_frame n r r3" by (rule step [OF f2])
  note unfold = init_native_io_backend_def [of P i r, unfolded create prod.case Let_def, folded r1_def, unfolded event prod.case,
      folded r2_def, unfolded ctl prod.case]
  have c2: "start_frame n r (close_native_io_backend P i r2)" by (rule step [OF f2 close_start_frame])
  have c3: "start_frame n r (close_native_io_backend P i r3)" by (rule step [OF f3 close_start_frame])
  show ?thesis unfolding unfold using f1 c2 f3 c3 by (simp add: start_frame_refl)
qed

lemma init_backend_frame: "start_frame n r (init_io_backend P i r)"
  by (simp add: init_io_backend_def start_frame_refl init_native_frame)

text \<open>
  A runtime that was stopped and whose \<^verbatim>\<open>init\<close> does not throw is running, in a new generation, with
  well-formed empty queues for all its threads and every order guard at zero.
\<close>

lemma init_spec:
  assumes n: "0 < thread_total_of (par_config P)" and init: "init P r = (None, r')"
  shows "if rt_status r = RtStopped
    then rt_status r' = RtRunning \<and> rt_generation r' = rt_generation r + 1 \<and>
         runtime_ok (thread_total_of (par_config P)) r' \<and> lane_content (thread_total_of (par_config P)) r' = (\<lambda>_. []) \<and>
         rt_ordered r' = replicate (thread_total_of (par_config P)) 0 \<and>
         (cf_task_registry_enabled (par_config P) \<longrightarrow> reg_head r' = None)
    else r' = r"
proof (cases "rt_status r = RtStopped")
  case False
  then show ?thesis using init by (simp add: init_def Let_def)
next
  case True
  let ?c = "par_config P" and ?n = "thread_total_of (par_config P)"
  define r1 where "r1 = reset_task_registry (cf_task_registry_enabled ?c)
    (r\<lparr>rt_status := RtStarting, rt_ordered := replicate ?n 0, rt_generation := rt_generation r + 1\<rparr>)"
  obtain r2 es where r2: "init_queues ?c r1 = Inr r2" and es: "make_executors ?c [0..<?n] = Inr es"
    and r': "r' = (foldl (executor_start P) (r2\<lparr>rt_executors := es, io_backends := replicate ?n (backend_new P)\<rparr>) (executor_indices P))
                    \<lparr>rt_status := RtRunning\<rparr>"
    using init True by (auto simp: init_def r1_def Let_def split: sum.splits)
  define r3 where "r3 = r2\<lparr>rt_executors := es, io_backends := replicate ?n (backend_new P)\<rparr>"
  define r4 where "r4 = foldl (executor_start P) r3 (executor_indices P)"
  have ok3: "runtime_ok ?n r3" "lane_content ?n r3 = (\<lambda>_. [])"
    using started_lanes [OF r2 es n] by (simp_all add: r3_def)
  have frame: "start_frame ?n r3 r4"
    unfolding r4_def by (rule start_frame_foldl) (simp add: executor_start_def init_backend_frame)
  have f3: "rt_ordered r3 = replicate ?n 0" "rt_generation r3 = rt_generation r + 1"
    "cf_task_registry_enabled ?c \<longrightarrow> reg_head r3 = None"
    using r2 by (auto simp: r3_def r1_def init_queues_def reset_task_registry_def split: sum.splits)
  show ?thesis
    using True frame ok3 f3 by (simp add: r' r3_def [symmetric] r4_def [symmetric] start_frame_def)
qed

text \<open>
  C16: When \<^verbatim>\<open>init\<close> throws (a queue capacity that no ring can have), the status stays at starting: no later
  \<^verbatim>\<open>init\<close> starts the runtime and no \<^verbatim>\<open>shutdown\<close> ends it, both return without doing anything.
\<close>

theorem failed_init_is_final:
  assumes "init P r = (Some e, r1)"
  shows "rt_status r1 = RtStarting \<and> init P r1 = (None, r1) \<and> shutdown P W on_cancel r1 = Some r1"
proof -
  have "rt_status r1 = RtStarting"
    using assms
    by (auto simp: init_def reset_task_registry_def init_queues_def Let_def split: if_splits sum.splits)
  then show ?thesis by (simp add: init_def shutdown_def Let_def)
qed

text \<open>What a shutdown that returns leaves.\<close>

lemma clear_runtime_fields:
  "rt_status (clear_runtime P r) = RtStopped" "rt_executors (clear_runtime P r) = []" "rt_spsc (clear_runtime P r) = []"
  "rt_external (clear_runtime P r) = []" "rt_ordered (clear_runtime P r) = []" "unfinished_tasks (clear_runtime P r) = 0"
  by (simp_all add: clear_runtime_def Let_def)

lemma shutdown_stops:
  assumes "shutdown P W on_cancel r = Some r'" "rt_status r = RtRunning" "\<not> is_runtime_thread (par_config P) r"
  shows "rt_status r' = RtStopped" "rt_executors r' = []" "rt_spsc r' = []" "rt_external r' = []" "unfinished_tasks r' = 0"
  using assms by (auto simp: shutdown_def Let_def bind_eq_Some_conv clear_runtime_fields)

text \<open>
  C14: A shutdown from outside that returns leaves a stopped runtime with no executor, no queue and no
  unfinished task, whatever the other threads did meanwhile; an \<^verbatim>\<open>init\<close> after it that does not throw runs the
  runtime in the next generation, with well-formed empty queues for every thread, no registered task
  and every order guard at zero.
\<close>

theorem restart_starts_clean:
  assumes n: "0 < thread_total_of (par_config P)"
    and running: "rt_status r = RtRunning" "\<not> is_runtime_thread (par_config P) r"
    and shutdown: "shutdown P W on_cancel r = Some r1" and init: "init P r1 = (None, r2)"
  shows "rt_status r1 = RtStopped \<and> rt_executors r1 = [] \<and> rt_spsc r1 = [] \<and> rt_external r1 = [] \<and> unfinished_tasks r1 = 0 \<and>
    rt_status r2 = RtRunning \<and> rt_generation r2 = rt_generation r1 + 1 \<and>
    runtime_ok (thread_total_of (par_config P)) r2 \<and> lane_content (thread_total_of (par_config P)) r2 = (\<lambda>_. []) \<and>
    rt_ordered r2 = replicate (thread_total_of (par_config P)) 0 \<and>
    (cf_task_registry_enabled (par_config P) \<longrightarrow> reg_head r2 = None)"
  using shutdown_stops [OF shutdown running] init_spec [OF n init] by simp

subsection \<open>A sample\<close>

definition sample_waits :: "('k, 'w, 'n) lifecycle_waits" where
  "sample_waits = \<lparr>lw_posts = (\<lambda>_ _ _. None), lw_idle = (\<lambda>_ _. None), lw_join = (\<lambda>_ r. Some r)\<rparr>"

definition sample_outside_runtime :: "(table_kernel, (int \<times> IoWaitEntry) list, (int \<times> u64) list) io_runtime" where
  "sample_outside_runtime = sample_io_runtime\<lparr>rt_status := RtRunning, rt_current := 3, unfinished_tasks := 0, rt_active_posts := [0, 0, 0]\<rparr>"

lemma sample_queues: "\<exists>r'. init_queues sample_config r = Inr r'" "\<exists>es. make_executors sample_config [0..<3] = Inr es"
proof -
  obtain q :: "taddr spsc" where q: "spsc_new 2 = Inr q" by (simp add: spsc_new_def normalize_2)
  obtain x :: "taddr cell_ring" where x: "mpsc_new 2 = Inr x" by (simp add: mpsc_new_def normalize_2)
  show "\<exists>r'. init_queues sample_config r = Inr r'"
    using make_queues_total [of spsc_new, OF q] make_queues_total [of mpsc_new, OF x] by (simp add: init_queues_def)
  show "\<exists>es. make_executors sample_config [0..<3] = Inr es"
    using make_executors_total [of sample_config] by (auto simp: executor_new_def normalize_2)
qed

lemma sample_init: "rt_status r = RtStopped \<Longrightarrow> \<exists>r'. init sample_io r = (None, r')"
proof -
  assume stopped: "rt_status r = RtStopped"
  let ?r = "reset_task_registry False (r\<lparr>rt_status := RtStarting, rt_ordered := replicate 3 0, rt_generation := rt_generation r + 1\<rparr>)"
  obtain r1 where "init_queues sample_config ?r = Inr r1" using sample_queues(1) [of ?r] by (rule exE)
  moreover obtain es where "make_executors sample_config [0..<3] = Inr es" using sample_queues(2) by (rule exE)
  ultimately show ?thesis using stopped by (simp add: init_def sample_io_def Let_def)
qed

lemma sample_shutdown: "\<exists>r'. shutdown sample_io sample_waits (\<lambda>_. id) sample_outside_runtime = Some r'"
proof -
  have join: "join_all sample_waits is r = Some r" for "is" and r :: "('k, 'w, 'n) io_runtime"
    by (induction "is") (simp_all add: sample_waits_def)
  have posts: "k < 3 \<Longrightarrow> rt_active_posts r = [0, 0, 0] \<Longrightarrow> wait_for_post_counter sample_waits k r = Some r"
    for k and r :: "('k, 'w, 'n) io_runtime"
    by (subst wait_for_post_counter.simps) (auto simp: nth_Cons numeral_3_eq_3 less_Suc_eq split: nat.splits)
  have idle: "unfinished_tasks r = 0 \<Longrightarrow> wait_for_idle sample_waits r = Some r" for r :: "('k, 'w, 'n) io_runtime"
    by (subst wait_for_idle.simps) simp
  show ?thesis
    by (simp add: shutdown_def sample_io_def sample_outside_runtime_def is_runtime_thread_def sample_layout_def thread_count_def
        total_thread_count_def upt_rec posts idle join end_tasks_def Let_def)
qed

theorem restart_starts_clean_witness:
  "\<exists>r1 r2. shutdown sample_io sample_waits (\<lambda>_. id) sample_outside_runtime = Some r1 \<and> init sample_io r1 = (None, r2) \<and>
     rt_status r2 = RtRunning \<and> runtime_ok 3 r2"
proof -
  obtain r1 where r1: "shutdown sample_io sample_waits (\<lambda>_. id) sample_outside_runtime = Some r1"
    using sample_shutdown by blast
  have running: "rt_status sample_outside_runtime = RtRunning" "\<not> is_runtime_thread (par_config sample_io) sample_outside_runtime"
    by (simp_all add: sample_outside_runtime_def sample_io_def is_runtime_thread_def sample_layout_def thread_count_def
        total_thread_count_def)
  obtain r2 where r2: "init sample_io r1 = (None, r2)"
    using sample_init shutdown_stops(1) [OF r1 running] by blast
  have n: "thread_total_of (par_config sample_io) = 3" by (simp add: sample_io_def)
  show ?thesis using restart_starts_clean [OF _ running r1 r2] r1 r2 n by auto
qed

theorem failed_init_is_final_witness:
  "let P = sample_io\<lparr>par_config := sample_config\<lparr>cf_spsc_queue_capacity := 2 ^ 63 + 1\<rparr>\<rparr>;
       r = sample_io_runtime\<lparr>rt_status := RtStopped\<rparr>
   in \<exists>e r1. init P r = (Some e, r1) \<and> rt_status r1 = RtStarting \<and> shutdown P sample_waits (\<lambda>_. id) r1 = Some r1"
proof -
  let ?P = "sample_io\<lparr>par_config := sample_config\<lparr>cf_spsc_queue_capacity := 2 ^ 63 + 1\<rparr>\<rparr>"
  let ?r = "sample_io_runtime\<lparr>rt_status := RtStopped\<rparr>"
  have "\<exists>e. (spsc_new (2 ^ 63 + 1) :: af_error + taddr spsc) = Inl e"
    by (simp add: spsc_new_def next_power_of_two_overflow normalize_bounded_queue_capacity_def
        checked_next_power_of_two_def)
  then obtain e where e: "(spsc_new (2 ^ 63 + 1) :: af_error + taddr spsc) = Inl e" by blast
  have "thread_total_of (par_config ?P) = 3"
    by (simp add: sample_config_def runtime_config_of_def default_traits_def Let_def thread_total_of_def thread_count_def
        sample_layout_def total_thread_count_def)
  then have "make_queues (thread_total_of (par_config ?P) * thread_total_of (par_config ?P)) spsc_new
      (cf_spsc_queue_capacity (par_config ?P)) = (Inl e :: af_error + taddr spsc list)"
    by (simp add: numeral_eq_Suc e [simplified])
  then have "\<exists>e r1. init ?P ?r = (Some e, r1)"
    by (simp add: init_def Let_def init_queues_def)
  then show ?thesis using failed_init_is_final [of ?P ?r _ _ sample_waits "\<lambda>_. id"] unfolding Let_def by blast
qed

end
