(* ===== verification/Executor_Sleep.thy ===== *)
theory Executor_Sleep
  imports Af_Prelude
begin

section \<open>Going to sleep while others notify\<close>

text \<open>
  The protocol between \<^verbatim>\<open>Executor::run_loop\<close> and the threads that enqueue to it or ask it to stop
  (\<^verbatim>\<open>notify\<close>, \<^verbatim>\<open>notify_external_ready\<close>, \<^verbatim>\<open>notify_force\<close>, \<^verbatim>\<open>notify_native_io_backend\<close>, \<^verbatim>\<open>drain_io_wake\<close>), one atomic access
  per step, any number of notifying threads.  \<open>sl_tasks\<close> counts the tasks in the inbound queues.  A \<^verbatim>\<open>pop_one\<close> that
  starts when a task is queued finds one (\<open>Dispatch.pop_one_spec\<close>); one that starts on empty queues may
  miss what arrives while it scans.  The executor's stores to \<^verbatim>\<open>sleeping_\<close>, which are not sequentially
  consistent, pass through a store buffer; \<open>fenced\<close> says whether the buffer is drained between the
  announcement and the accesses that follow it (the source has no such fence).  \<open>io\<close> says whether the
  executor sleeps in \<^verbatim>\<open>epoll_wait\<close> or on its epoch.  \<open>sl_since\<close> is a ghost: the increments of the 32-bit
  epoch since it was observed.  Enqueuing is one step, and writing the wake descriptor succeeds.
\<close>

datatype loop_pc =
    L_Pop bool | L_Scan bool | L_Stop bool | L_Poll | L_Drained bool | L_Observe | L_Announce | L_Stop2
  | L_Repop | L_Rescan | L_Check | L_Block | L_Asleep | L_Unsleep bool | L_Exit

datatype notifier_pc = N_Idle | N_External | N_Notify | N_Force | N_Load | N_Cas | N_Pending | N_Write | N_Wake

datatype notifier_op = PushLink | PushExternal | RequestStop

record sleep_state =
  sl_tasks :: nat
  sl_stop :: bool
  sl_epoch :: u32
  sl_sleeping :: bool
  sl_buffer :: "bool list"
  sl_pending :: bool
  sl_eventfd :: bool
  sl_woken :: bool
  sl_pc :: loop_pc
  sl_observed :: u32
  sl_since :: nat
  sl_notifier :: "nat \<Rightarrow> notifier_pc"

definition sleep_init :: sleep_state where
  "sleep_init = \<lparr>sl_tasks = 0, sl_stop = False, sl_epoch = 0, sl_sleeping = False, sl_buffer = [], sl_pending = False,
     sl_eventfd = False, sl_woken = False, sl_pc = L_Pop False, sl_observed = 0, sl_since = 0, sl_notifier = (\<lambda>_. N_Idle)\<rparr>"

text \<open>
  One step of the loop.  \<open>k\<close> is the number of tasks that the task or the handlers run in the step put
  into the executor's own queue, \<open>wake\<close> and \<open>others\<close> say whether \<^verbatim>\<open>epoll_wait\<close> reports the wake descriptor
  and anything else (an interrupted wait included); a step that is not enabled is \<^term>\<open>None\<close>.
\<close>

definition loop_step :: "bool \<Rightarrow> bool \<Rightarrow> nat \<Rightarrow> bool \<Rightarrow> bool \<Rightarrow> sleep_state \<Rightarrow> sleep_state option" where
  "loop_step io fenced k wake others s =
     (case sl_pc s of
        L_Pop did_work \<Rightarrow>
          if 0 < sl_tasks s then Some (s\<lparr>sl_tasks := sl_tasks s - 1 + k, sl_pc := L_Pop True\<rparr>)
          else Some (s\<lparr>sl_pc := L_Scan did_work\<rparr>)
      | L_Scan did_work \<Rightarrow>
          if others \<and> 0 < sl_tasks s then Some (s\<lparr>sl_tasks := sl_tasks s - 1 + k, sl_pc := L_Pop True\<rparr>)
          else Some (s\<lparr>sl_pc := L_Stop did_work\<rparr>)
      | L_Stop did_work \<Rightarrow>
          Some (s\<lparr>sl_pc := if sl_stop s then (if did_work then L_Pop False else L_Exit) else L_Poll\<rparr>)
      | L_Poll \<Rightarrow>
          if io \<and> wake \<and> sl_eventfd s
          then Some (s\<lparr>sl_eventfd := False, sl_tasks := sl_tasks s + k, sl_pc := L_Drained False\<rparr>)
          else if io \<and> others then Some (s\<lparr>sl_tasks := sl_tasks s + k, sl_pc := L_Pop False\<rparr>)
          else Some (s\<lparr>sl_pc := L_Observe\<rparr>)
      | L_Drained blocking \<Rightarrow>
          Some (s\<lparr>sl_pending := False, sl_pc := if blocking then L_Unsleep False else L_Pop False\<rparr>)
      | L_Observe \<Rightarrow> Some (s\<lparr>sl_observed := sl_epoch s, sl_since := 0, sl_pc := L_Announce\<rparr>)
      | L_Announce \<Rightarrow> Some (s\<lparr>sl_buffer := sl_buffer s @ [True], sl_pc := L_Stop2\<rparr>)
      | L_Stop2 \<Rightarrow>
          if fenced \<and> sl_buffer s \<noteq> [] then None
          else Some (s\<lparr>sl_pc := if sl_stop s then L_Unsleep False else L_Repop\<rparr>)
      | L_Repop \<Rightarrow>
          if 0 < sl_tasks s then Some (s\<lparr>sl_tasks := sl_tasks s - 1, sl_pc := L_Unsleep True\<rparr>)
          else Some (s\<lparr>sl_pc := L_Rescan\<rparr>)
      | L_Rescan \<Rightarrow>
          if others \<and> 0 < sl_tasks s then Some (s\<lparr>sl_tasks := sl_tasks s - 1, sl_pc := L_Unsleep True\<rparr>)
          else Some (s\<lparr>sl_pc := L_Check\<rparr>)
      | L_Check \<Rightarrow> Some (s\<lparr>sl_pc := if sl_epoch s \<noteq> sl_observed s then L_Unsleep False else L_Block\<rparr>)
      | L_Block \<Rightarrow>
          if io
          then if wake \<and> sl_eventfd s
               then Some (s\<lparr>sl_eventfd := False, sl_tasks := sl_tasks s + k, sl_pc := L_Drained True\<rparr>)
               else if others then Some (s\<lparr>sl_tasks := sl_tasks s + k, sl_pc := L_Unsleep False\<rparr>)
               else None
          else if sl_epoch s \<noteq> sl_observed s then Some (s\<lparr>sl_pc := L_Unsleep False\<rparr>)
          else Some (s\<lparr>sl_woken := False, sl_pc := L_Asleep\<rparr>)
      | L_Asleep \<Rightarrow> if sl_woken s then Some (s\<lparr>sl_pc := L_Block\<rparr>) else None
      | L_Unsleep executes \<Rightarrow>
          Some (s\<lparr>sl_buffer := sl_buffer s @ [False], sl_tasks := sl_tasks s + (if executes then k else 0), sl_pc := L_Pop False\<rparr>)
      | L_Exit \<Rightarrow> None)"

definition set_notifier :: "nat \<Rightarrow> notifier_pc \<Rightarrow> sleep_state \<Rightarrow> sleep_state" where
  "set_notifier n pc s = s\<lparr>sl_notifier := (sl_notifier s)(n := pc)\<rparr>"

text \<open>
  A thread puts a task into a queue and then notifies, or asks the executor to stop.  The relaxed
  load of \<^verbatim>\<open>external_ready_\<close> may see any value: \<open>forced\<close>.
\<close>

definition notifier_start :: "nat \<Rightarrow> notifier_op \<Rightarrow> sleep_state \<Rightarrow> sleep_state" where
  "notifier_start n operation s =
     (case operation of
        PushLink \<Rightarrow> set_notifier n N_Notify (s\<lparr>sl_tasks := sl_tasks s + 1\<rparr>)
      | PushExternal \<Rightarrow> set_notifier n N_External (s\<lparr>sl_tasks := sl_tasks s + 1\<rparr>)
      | RequestStop \<Rightarrow> set_notifier n N_Force (s\<lparr>sl_stop := True\<rparr>))"

definition notifier_step :: "bool \<Rightarrow> nat \<Rightarrow> bool \<Rightarrow> sleep_state \<Rightarrow> sleep_state option" where
  "notifier_step io n forced s =
     (case sl_notifier s n of
        N_Idle \<Rightarrow> None
      | N_External \<Rightarrow> Some (set_notifier n (if forced then N_Force else N_Notify) s)
      | N_Notify \<Rightarrow>
          Some (set_notifier n (if io then N_Load else N_Wake) (s\<lparr>sl_epoch := sl_epoch s + 1, sl_since := sl_since s + 1\<rparr>))
      | N_Force \<Rightarrow>
          Some (set_notifier n (if io then N_Pending else N_Wake) (s\<lparr>sl_epoch := sl_epoch s + 1, sl_since := sl_since s + 1\<rparr>))
      | N_Load \<Rightarrow> Some (set_notifier n (if sl_sleeping s then N_Cas else N_Idle) s)
      | N_Cas \<Rightarrow>
          if sl_sleeping s then Some (set_notifier n N_Pending (s\<lparr>sl_sleeping := False\<rparr>)) else Some (set_notifier n N_Idle s)
      | N_Pending \<Rightarrow>
          if sl_pending s then Some (set_notifier n N_Idle s) else Some (set_notifier n N_Write (s\<lparr>sl_pending := True\<rparr>))
      | N_Write \<Rightarrow> Some (set_notifier n N_Idle (s\<lparr>sl_eventfd := True\<rparr>))
      | N_Wake \<Rightarrow> Some (set_notifier n N_Idle (if sl_pc s = L_Asleep then s\<lparr>sl_woken := True\<rparr> else s)))"

definition buffer_flush :: "sleep_state \<Rightarrow> sleep_state option" where
  "buffer_flush s = (case sl_buffer s of [] \<Rightarrow> None | b # bs \<Rightarrow> Some (s\<lparr>sl_sleeping := b, sl_buffer := bs\<rparr>))"

inductive sleep_step :: "bool \<Rightarrow> bool \<Rightarrow> sleep_state \<Rightarrow> sleep_state \<Rightarrow> bool" for io fenced where
  loop: "loop_step io fenced k wake others s = Some s' \<Longrightarrow> sleep_step io fenced s s'"
| start: "sl_notifier s n = N_Idle \<Longrightarrow> s' = notifier_start n operation s \<Longrightarrow> sleep_step io fenced s s'"
| notifier: "notifier_step io n forced s = Some s' \<Longrightarrow> sleep_step io fenced s s'"
| flush: "buffer_flush s = Some s' \<Longrightarrow> sleep_step io fenced s s'"

text \<open>Fewer than \<open>2\<^sup>3\<^sup>2\<close> notifications fall between an observation of the epoch and the next.\<close>

inductive sleep_reachable :: "bool \<Rightarrow> bool \<Rightarrow> sleep_state \<Rightarrow> bool" for io fenced where
  init: "sleep_reachable io fenced sleep_init"
| step: "sleep_reachable io fenced s \<Longrightarrow> sleep_step io fenced s s' \<Longrightarrow> sl_since s' < 2 ^ 32 \<Longrightarrow> sleep_reachable io fenced s'"

text \<open>The executor sleeps and nothing that has happened so far will end its sleep.\<close>

definition asleep :: "bool \<Rightarrow> sleep_state \<Rightarrow> bool" where
  "asleep io s \<longleftrightarrow> (if io then sl_pc s = L_Block \<and> \<not> sl_eventfd s else sl_pc s = L_Asleep \<and> \<not> sl_woken s)"

subsection \<open>Invariants\<close>

definition some_at :: "(nat \<Rightarrow> notifier_pc) \<Rightarrow> notifier_pc set \<Rightarrow> bool" where
  "some_at f pcs \<longleftrightarrow> (\<exists>n. f n \<in> pcs)"

definition work_waits :: "sleep_state \<Rightarrow> bool" where
  "work_waits s \<longleftrightarrow> 0 < sl_tasks s \<or> sl_stop s"

abbreviation before_epoch :: "notifier_pc set" where
  "before_epoch \<equiv> {N_External, N_Notify, N_Force}"

text \<open>The epoch tells the notifications since it was observed.\<close>

definition epoch_inv :: "sleep_state \<Rightarrow> bool" where
  "epoch_inv s \<longleftrightarrow> sl_epoch s = sl_observed s + of_nat (sl_since s)"

text \<open>Work that arrived after the executor looked is before its increment of the epoch, or shows in it.\<close>

definition late_inv :: "sleep_state \<Rightarrow> bool" where
  "late_inv s \<longleftrightarrow>
     (sl_pc s \<in> {L_Repop, L_Rescan, L_Check} \<longrightarrow> sl_stop s \<longrightarrow> some_at (sl_notifier s) before_epoch \<or> 0 < sl_since s) \<and>
     (sl_pc s \<in> {L_Rescan, L_Check} \<longrightarrow> 0 < sl_tasks s \<longrightarrow> some_at (sl_notifier s) before_epoch \<or> 0 < sl_since s)"

definition worker_inv :: "sleep_state \<Rightarrow> bool" where
  "worker_inv s \<longleftrightarrow>
     (sl_pc s = L_Block \<longrightarrow> work_waits s \<longrightarrow> some_at (sl_notifier s) before_epoch \<or> 0 < sl_since s) \<and>
     (sl_pc s = L_Asleep \<longrightarrow> \<not> sl_woken s \<longrightarrow> work_waits s \<longrightarrow> some_at (sl_notifier s) (insert N_Wake before_epoch)) \<and>
     (sl_pc s = L_Asleep \<longrightarrow> work_waits s \<longrightarrow> some_at (sl_notifier s) before_epoch \<or> 0 < sl_since s)"

definition pending_inv :: "sleep_state \<Rightarrow> bool" where
  "pending_inv s \<longleftrightarrow> (sl_pending s \<longrightarrow> sl_eventfd s \<or> some_at (sl_notifier s) {N_Write} \<or> (\<exists>b. sl_pc s = L_Drained b))"

text \<open>An announced sleep is in memory, or a notifier has taken it and is on its way to the wake descriptor.\<close>

definition announced_inv :: "sleep_state \<Rightarrow> bool" where
  "announced_inv s \<longleftrightarrow>
     sl_pc s \<noteq> L_Asleep \<and> (sl_pc s = L_Stop2 \<longrightarrow> sl_buffer s \<noteq> [] \<longrightarrow> last (sl_buffer s)) \<and>
     (sl_pc s \<in> {L_Repop, L_Rescan, L_Check, L_Block} \<longrightarrow> sl_buffer s = []) \<and>
     (sl_pc s \<in> {L_Stop2, L_Repop, L_Rescan, L_Check, L_Block} \<longrightarrow> sl_buffer s = [] \<longrightarrow>
        sl_sleeping s \<or> sl_eventfd s \<or> some_at (sl_notifier s) {N_Pending, N_Write})"

definition blocked_inv :: "sleep_state \<Rightarrow> bool" where
  "blocked_inv s \<longleftrightarrow>
     (sl_pc s = L_Block \<longrightarrow> work_waits s \<longrightarrow>
        sl_eventfd s \<or> some_at (sl_notifier s) (before_epoch \<union> {N_Pending, N_Write}) \<or>
        sl_sleeping s \<and> some_at (sl_notifier s) {N_Load, N_Cas})"

text \<open>Whether some notifier other than \<open>n\<close> is at one of some places.\<close>

definition other_at :: "nat \<Rightarrow> (nat \<Rightarrow> notifier_pc) \<Rightarrow> notifier_pc set \<Rightarrow> bool" where
  "other_at n f pcs \<longleftrightarrow> (\<exists>m. m \<noteq> n \<and> f m \<in> pcs)"

lemma some_at_split: "some_at f {a} \<longleftrightarrow> f n = a \<or> other_at n f {a}"
  by (auto simp: some_at_def other_at_def)

lemma some_at_sets [simp]:
  "some_at f (insert a (insert b A)) \<longleftrightarrow> some_at f {a} \<or> some_at f (insert b A)"
  "some_at f (A \<union> B) \<longleftrightarrow> some_at f A \<or> some_at f B" "\<not> some_at f {}"
  by (auto simp: some_at_def)

lemma some_at_upd [simp]: "some_at (f(n := pc)) {a} \<longleftrightarrow> pc = a \<or> other_at n f {a}"
  by (auto simp: some_at_def other_at_def)

lemma set_notifier_fields [simp]:
  "sl_tasks (set_notifier n pc s) = sl_tasks s" "sl_stop (set_notifier n pc s) = sl_stop s"
  "sl_epoch (set_notifier n pc s) = sl_epoch s" "sl_sleeping (set_notifier n pc s) = sl_sleeping s"
  "sl_buffer (set_notifier n pc s) = sl_buffer s" "sl_pending (set_notifier n pc s) = sl_pending s"
  "sl_eventfd (set_notifier n pc s) = sl_eventfd s" "sl_woken (set_notifier n pc s) = sl_woken s"
  "sl_pc (set_notifier n pc s) = sl_pc s" "sl_observed (set_notifier n pc s) = sl_observed s"
  "sl_since (set_notifier n pc s) = sl_since s" "sl_notifier (set_notifier n pc s) = (sl_notifier s)(n := pc)"
  by (simp_all add: set_notifier_def)

lemma epoch_unchanged: "epoch_inv s \<Longrightarrow> sl_since s < 2 ^ 32 \<Longrightarrow> sl_epoch s = sl_observed s \<longleftrightarrow> sl_since s = 0"
proof -
  assume inv: "epoch_inv s" and small: "sl_since s < 2 ^ 32"
  have "sl_epoch s = sl_observed s \<longleftrightarrow> (of_nat (sl_since s) :: u32) = 0" using inv by (simp add: epoch_inv_def)
  also have "\<dots> \<longleftrightarrow> sl_since s = 0"
    using small by (auto simp: word_of_nat_eq_0_iff dest: dvd_imp_le)
  finally show ?thesis .
qed

text \<open>Each invariant under the steps of the loop, of a thread that starts or goes on to notify, and of the buffer.\<close>

lemma epoch_inv_loop: "loop_step io fenced k wake others s = Some s' \<Longrightarrow> epoch_inv s \<Longrightarrow> epoch_inv s'"
  by (cases "sl_pc s"; clarsimp simp: loop_step_def split: if_splits; (auto simp: epoch_inv_def)?)

lemma epoch_inv_start: "sl_notifier s n = N_Idle \<Longrightarrow> epoch_inv s \<Longrightarrow> epoch_inv (notifier_start n operation s)"
  by (cases operation) (simp_all add: notifier_start_def epoch_inv_def some_at_split [of "sl_notifier s" _ n])

lemma epoch_inv_notifier: "notifier_step io n forced s = Some s' \<Longrightarrow> epoch_inv s \<Longrightarrow> epoch_inv s'"
  by (cases "sl_notifier s n"; clarsimp simp: notifier_step_def split: if_splits;
      (auto simp: epoch_inv_def some_at_split [of "sl_notifier s" _ n])?)

lemma epoch_inv_flush: "buffer_flush s = Some s' \<Longrightarrow> epoch_inv s \<Longrightarrow> epoch_inv s'"
  by (cases "sl_buffer s"; clarsimp simp: buffer_flush_def; simp add: epoch_inv_def)

lemma late_inv_loop: "loop_step io fenced k wake others s = Some s' \<Longrightarrow> late_inv s \<Longrightarrow> late_inv s'"
  by (cases "sl_pc s"; clarsimp simp: loop_step_def split: if_splits; (auto simp: late_inv_def)?)

lemma late_inv_start: "sl_notifier s n = N_Idle \<Longrightarrow> late_inv s \<Longrightarrow> late_inv (notifier_start n operation s)"
  by (cases operation) (simp_all add: notifier_start_def late_inv_def some_at_split [of "sl_notifier s" _ n])

lemma late_inv_notifier: "notifier_step io n forced s = Some s' \<Longrightarrow> late_inv s \<Longrightarrow> late_inv s'"
  by (cases "sl_notifier s n"; clarsimp simp: notifier_step_def split: if_splits;
      (auto simp: late_inv_def some_at_split [of "sl_notifier s" _ n])?)

lemma late_inv_flush: "buffer_flush s = Some s' \<Longrightarrow> late_inv s \<Longrightarrow> late_inv s'"
  by (cases "sl_buffer s"; clarsimp simp: buffer_flush_def; simp add: late_inv_def)

lemma pending_inv_loop: "loop_step io fenced k wake others s = Some s' \<Longrightarrow> pending_inv s \<Longrightarrow> pending_inv s'"
  by (cases "sl_pc s"; clarsimp simp: loop_step_def split: if_splits; (auto simp: pending_inv_def)?)

lemma pending_inv_start: "sl_notifier s n = N_Idle \<Longrightarrow> pending_inv s \<Longrightarrow> pending_inv (notifier_start n operation s)"
  by (cases operation) (simp_all add: notifier_start_def pending_inv_def some_at_split [of "sl_notifier s" _ n])

lemma pending_inv_notifier: "notifier_step io n forced s = Some s' \<Longrightarrow> pending_inv s \<Longrightarrow> pending_inv s'"
  by (cases "sl_notifier s n"; clarsimp simp: notifier_step_def split: if_splits;
      (auto simp: pending_inv_def some_at_split [of "sl_notifier s" _ n])?)

lemma pending_inv_flush: "buffer_flush s = Some s' \<Longrightarrow> pending_inv s \<Longrightarrow> pending_inv s'"
  by (cases "sl_buffer s"; clarsimp simp: buffer_flush_def; simp add: pending_inv_def)

lemma worker_inv_loop:
  assumes step: "loop_step False fenced k wake others s = Some s'" and inv: "late_inv s" "epoch_inv s" "sl_since s < 2 ^ 32" "worker_inv s"
  shows "worker_inv s'"
proof -
  note same = epoch_unchanged [OF inv(2,3)]
  show ?thesis
    using step inv(1,4)
    by (cases "sl_pc s"; clarsimp simp: loop_step_def split: if_splits; (auto simp: worker_inv_def late_inv_def work_waits_def same)?)
qed

lemma worker_inv_start: "sl_notifier s n = N_Idle \<Longrightarrow> worker_inv s \<Longrightarrow> worker_inv (notifier_start n operation s)"
  by (cases operation) (simp_all add: notifier_start_def worker_inv_def work_waits_def some_at_split [of "sl_notifier s" _ n])

lemma worker_inv_notifier: "notifier_step False n forced s = Some s' \<Longrightarrow> worker_inv s \<Longrightarrow> worker_inv s'"
  by (cases "sl_notifier s n"; clarsimp simp: notifier_step_def split: if_splits;
      (auto simp: worker_inv_def work_waits_def some_at_split [of "sl_notifier s" _ n])?)

lemma worker_inv_flush: "buffer_flush s = Some s' \<Longrightarrow> worker_inv s \<Longrightarrow> worker_inv s'"
  by (cases "sl_buffer s"; clarsimp simp: buffer_flush_def; simp add: worker_inv_def work_waits_def)

lemma announced_inv_loop: "loop_step True True k wake others s = Some s' \<Longrightarrow> announced_inv s \<Longrightarrow> announced_inv s'"
  by (cases "sl_pc s"; clarsimp simp: loop_step_def split: if_splits; (simp add: announced_inv_def)?)

lemma announced_inv_start: "sl_notifier s n = N_Idle \<Longrightarrow> announced_inv s \<Longrightarrow> announced_inv (notifier_start n operation s)"
  by (cases operation) (simp_all add: notifier_start_def announced_inv_def some_at_split [of "sl_notifier s" _ n])

lemma announced_inv_notifier:
  assumes "notifier_step io n forced s = Some s'" "pending_inv s" "announced_inv s" shows "announced_inv s'"
  using assms
  by (cases "sl_notifier s n"; clarsimp simp: notifier_step_def split: if_splits;
      (auto simp: announced_inv_def pending_inv_def some_at_split [of "sl_notifier s" _ n])?)

lemma announced_inv_flush: "buffer_flush s = Some s' \<Longrightarrow> announced_inv s \<Longrightarrow> announced_inv s'"
  by (cases "sl_buffer s"; clarsimp simp: buffer_flush_def; auto simp: announced_inv_def split: if_splits)

lemma loop_blocks:
  assumes "loop_step True fenced k wake others s = Some s'" "sl_pc s' = L_Block" "sl_pc s \<noteq> L_Asleep"
  shows "sl_pc s = L_Check \<and> sl_epoch s = sl_observed s \<and> s' = s\<lparr>sl_pc := L_Block\<rparr>"
  using assms by (cases "sl_pc s"; clarsimp simp: loop_step_def split: if_splits)

lemma blocked_inv_loop:
  assumes step: "loop_step True True k wake others s = Some s'"
    and inv: "late_inv s" "epoch_inv s" "sl_since s < 2 ^ 32" "announced_inv s" "blocked_inv s"
  shows "blocked_inv s'"
proof (cases "sl_pc s' = L_Block")
  case True
  then have check: "sl_pc s = L_Check" "sl_since s = 0" "s' = s\<lparr>sl_pc := L_Block\<rparr>"
    using loop_blocks [OF step] inv(4) epoch_unchanged [OF inv(2,3)] by (auto simp: announced_inv_def)
  then have "work_waits s \<longrightarrow> some_at (sl_notifier s) before_epoch" using inv(1) by (auto simp: late_inv_def work_waits_def)
  then show ?thesis by (auto simp: check blocked_inv_def work_waits_def)
qed (simp add: blocked_inv_def)

lemma blocked_inv_start: "sl_notifier s n = N_Idle \<Longrightarrow> blocked_inv s \<Longrightarrow> blocked_inv (notifier_start n operation s)"
  by (cases operation) (simp_all add: notifier_start_def blocked_inv_def work_waits_def some_at_split [of "sl_notifier s" _ n])

lemma blocked_inv_notifier:
  assumes "notifier_step True n forced s = Some s'" "pending_inv s" "announced_inv s" "blocked_inv s" shows "blocked_inv s'"
proof (cases "sl_pc s = L_Block")
  case True
  then have facts: "sl_pending s \<longrightarrow> sl_eventfd s \<or> some_at (sl_notifier s) {N_Write}"
    "sl_sleeping s \<or> sl_eventfd s \<or> some_at (sl_notifier s) {N_Pending} \<or> some_at (sl_notifier s) {N_Write}"
    using assms(2,3) by (auto simp: pending_inv_def announced_inv_def)
  show ?thesis
    using assms(1,4) facts True
    by (cases "sl_notifier s n"; clarsimp simp: notifier_step_def split: if_splits;
        (simp add: blocked_inv_def some_at_split [of "sl_notifier s" _ n] work_waits_def)?; blast?)
next
  case False
  then have "sl_pc s' \<noteq> L_Block"
    using assms(1) by (cases "sl_notifier s n") (auto simp: notifier_step_def split: if_splits)
  then show ?thesis by (simp add: blocked_inv_def)
qed

lemma blocked_inv_flush: "buffer_flush s = Some s' \<Longrightarrow> announced_inv s \<Longrightarrow> blocked_inv s \<Longrightarrow> blocked_inv s'"
  by (cases "sl_buffer s"; clarsimp simp: buffer_flush_def; simp add: blocked_inv_def announced_inv_def work_waits_def)

lemma common_inv:
  "sleep_reachable io fenced s \<Longrightarrow> epoch_inv s \<and> late_inv s \<and> pending_inv s \<and> sl_since s < 2 ^ 32"
proof (induction rule: sleep_reachable.induct)
  case init
  then show ?case by (simp add: sleep_init_def epoch_inv_def late_inv_def pending_inv_def)
next
  case (step s s')
  from step.hyps(2) show ?case
    by (cases rule: sleep_step.cases)
      (use step in \<open>blast intro: epoch_inv_loop epoch_inv_start epoch_inv_notifier epoch_inv_flush
         late_inv_loop late_inv_start late_inv_notifier late_inv_flush
         pending_inv_loop pending_inv_start pending_inv_notifier pending_inv_flush\<close>)+
qed

lemma worker_reachable: "sleep_reachable False fenced s \<Longrightarrow> worker_inv s"
proof (induction rule: sleep_reachable.induct)
  case init
  then show ?case by (simp add: sleep_init_def worker_inv_def)
next
  case (step s s')
  note inv = common_inv [OF step.hyps(1)] step.IH
  from step.hyps(2) show ?case
    by (cases rule: sleep_step.cases) (use inv in \<open>blast intro: worker_inv_loop worker_inv_start worker_inv_notifier worker_inv_flush\<close>)+
qed

lemma fenced_reachable: "sleep_reachable True True s \<Longrightarrow> announced_inv s \<and> blocked_inv s"
proof (induction rule: sleep_reachable.induct)
  case init
  then show ?case by (simp add: sleep_init_def announced_inv_def blocked_inv_def)
next
  case (step s s')
  note inv = common_inv [OF step.hyps(1)] step.IH
  from step.hyps(2) show ?case
    by (cases rule: sleep_step.cases)
      (use inv in \<open>blast intro: announced_inv_loop announced_inv_start announced_inv_notifier announced_inv_flush
         blocked_inv_loop blocked_inv_start blocked_inv_notifier blocked_inv_flush\<close>)+
qed

text \<open>
  C5: No wake-up of a worker thread is lost, in any interleaving of its loop with any number of threads
  that enqueue to it or stop it, and none of an I/O thread either if its announcement is visible
  before it looks again: when the executor sleeps and every enqueue and request has returned, its
  queues are empty and it has not been asked to stop.
\<close>

theorem sleep_loses_no_wake:
  assumes "sleep_reachable io fenced s" and "\<not> io \<or> fenced" and "asleep io s" and "\<forall>n. sl_notifier s n = N_Idle"
  shows "sl_tasks s = 0 \<and> \<not> sl_stop s"
proof (cases io)
  case True
  then show ?thesis
    using fenced_reachable [of s] assms by (auto simp: blocked_inv_def asleep_def some_at_def work_waits_def)
next
  case False
  then show ?thesis
    using worker_reachable [of fenced s] assms by (auto simp: worker_inv_def asleep_def some_at_def work_waits_def)
qed

subsection \<open>Executions\<close>

datatype sleep_action = Loop nat bool bool | Start nat notifier_op | Notifier nat bool | Flush

fun sleep_act :: "bool \<Rightarrow> bool \<Rightarrow> sleep_action \<Rightarrow> sleep_state \<Rightarrow> sleep_state option" where
  "sleep_act io fenced (Loop k wake others) s = loop_step io fenced k wake others s"
| "sleep_act io fenced (Start n operation) s = (if sl_notifier s n = N_Idle then Some (notifier_start n operation s) else None)"
| "sleep_act io fenced (Notifier n forced) s = notifier_step io n forced s"
| "sleep_act io fenced Flush s = buffer_flush s"

fun sleep_run :: "bool \<Rightarrow> bool \<Rightarrow> sleep_action list \<Rightarrow> sleep_state \<Rightarrow> sleep_state option" where
  "sleep_run io fenced [] s = Some s"
| "sleep_run io fenced (a # as) s =
     (case sleep_act io fenced a s of
        None \<Rightarrow> None
      | Some s' \<Rightarrow> if sl_since s' < 2 ^ 32 then sleep_run io fenced as s' else None)"

lemma sleep_act_step: "sleep_act io fenced a s = Some s' \<Longrightarrow> sleep_step io fenced s s'"
  by (cases a) (auto intro: sleep_step.intros split: if_splits)

lemma sleep_run_reachable:
  "sleep_run io fenced as s = Some s' \<Longrightarrow> sleep_reachable io fenced s \<Longrightarrow> sleep_reachable io fenced s'"
proof (induction as arbitrary: s)
  case (Cons a as)
  then obtain s1 where "sleep_act io fenced a s = Some s1" "sl_since s1 < 2 ^ 32" "sleep_run io fenced as s1 = Some s'"
    by (auto split: option.splits if_splits)
  then show ?case using Cons.IH sleep_reachable.step [OF Cons.prems(2) sleep_act_step] by blast
qed simp

definition sample_sleep :: "sleep_action list" where
  "sample_sleep = (let a = Loop 0 False False in [a, a, a, a, a, a, a, a, a, a])"

lemmas run_simps = sample_sleep_def Let_def sleep_init_def loop_step_def notifier_start_def notifier_step_def
  set_notifier_def buffer_flush_def

lemma sample_falls_asleep:
  "\<exists>s. sleep_run False False (sample_sleep @ [Loop 0 False False]) sleep_init = Some s \<and> asleep False s \<and>
     (\<forall>n. sl_notifier s n = N_Idle)"
  by (simp add: run_simps asleep_def)

theorem sleep_loses_no_wake_witness:
  "\<exists>s. sleep_reachable False False s \<and> asleep False s \<and> sl_tasks s = 0 \<and> \<not> sl_stop s"
proof -
  obtain s where s: "sleep_run False False (sample_sleep @ [Loop 0 False False]) sleep_init = Some s" "asleep False s"
    "\<forall>n. sl_notifier s n = N_Idle"
    using sample_falls_asleep by blast
  have r: "sleep_reachable False False s" by (rule sleep_run_reachable [OF s(1) sleep_reachable.init])
  show ?thesis using sleep_loses_no_wake [OF r _ s(2,3)] r s(2) by blast
qed

text \<open>
  C17: Without a fence the wake-up of an I/O thread can be lost: the executor announces its sleep, finds
  the queues empty and the epoch unchanged while the announcement is still in its store buffer; a
  thread then pushes a task, increments the epoch, reads that the executor is not sleeping and
  returns without writing the wake descriptor.  The executor sleeps in \<^verbatim>\<open>epoll_wait\<close> with a task in its queue.
\<close>

theorem io_wake_lost_without_fence:
  "\<exists>s. sleep_reachable True False s \<and> asleep True s \<and> (\<forall>n. sl_notifier s n = N_Idle) \<and> sl_buffer s = [] \<and> sl_tasks s = 1"
proof -
  have "\<exists>s. sleep_run True False (sample_sleep @ [Start 0 PushLink, Notifier 0 False, Notifier 0 False, Flush]) sleep_init = Some s \<and>
      asleep True s \<and> (\<forall>n. sl_notifier s n = N_Idle) \<and> sl_buffer s = [] \<and> sl_tasks s = 1"
    by (simp add: run_simps asleep_def)
  then show ?thesis using sleep_run_reachable [OF _ sleep_reachable.init] by blast
qed

subsection \<open>A stopped executor leaves its loop\<close>

text \<open>How many places of the loop a stopped executor has before it: it never polls again once it reads the request.\<close>

fun places_left :: "loop_pc \<Rightarrow> nat" where
  "places_left L_Exit = 0"
| "places_left (L_Stop did_work) = (if did_work then 4 else 1)"
| "places_left (L_Scan did_work) = (if did_work then 5 else 2)"
| "places_left (L_Pop did_work) = (if did_work then 6 else 3)"
| "places_left (L_Unsleep executes) = 7"
| "places_left (L_Drained blocking) = 8"
| "places_left L_Block = 9"
| "places_left L_Asleep = 10"
| "places_left L_Check = 11"
| "places_left L_Rescan = 12"
| "places_left L_Repop = 13"
| "places_left L_Stop2 = 14"
| "places_left L_Announce = 15"
| "places_left L_Observe = 16"
| "places_left L_Poll = 17"

definition steps_left :: "sleep_state \<Rightarrow> nat" where
  "steps_left s = 10 * sl_tasks s + 2 * places_left (sl_pc s) + length (sl_buffer s)"

text \<open>Steps of the executor and its store buffer, and the tasks its own tasks and handlers enqueue to it.\<close>

fun own_action :: "sleep_action \<Rightarrow> bool" where
  "own_action (Loop k wake others) \<longleftrightarrow> True"
| "own_action Flush \<longleftrightarrow> True"
| "own_action _ \<longleftrightarrow> False"

fun enqueued :: "sleep_action list \<Rightarrow> nat" where
  "enqueued [] = 0"
| "enqueued (Loop k wake others # as) = k + enqueued as"
| "enqueued (_ # as) = enqueued as"

definition stopping :: "bool \<Rightarrow> bool \<Rightarrow> sleep_state \<Rightarrow> bool" where
  "stopping io fenced s \<longleftrightarrow> sleep_reachable io fenced s \<and> sl_stop s \<and> (\<forall>n. sl_notifier s n = N_Idle)"

text \<open>
  A request to stop an I/O thread writes the wake descriptor whether or not the announcement of the
  sleep is visible: it is before its increment of the epoch, on its way to the descriptor, or there.
\<close>

definition stop_inv :: "sleep_state \<Rightarrow> bool" where
  "stop_inv s \<longleftrightarrow> sl_pc s \<noteq> L_Asleep \<and>
     (sl_pc s \<in> {L_Repop, L_Rescan, L_Check} \<longrightarrow> sl_stop s \<longrightarrow> some_at (sl_notifier s) {N_Force} \<or> 0 < sl_since s) \<and>
     (sl_pc s = L_Block \<longrightarrow> sl_stop s \<longrightarrow> sl_eventfd s \<or> some_at (sl_notifier s) {N_Force, N_Pending, N_Write})"

lemma stop_inv_loop:
  assumes step: "loop_step True fenced k wake others s = Some s'" and inv: "epoch_inv s" "sl_since s < 2 ^ 32" "stop_inv s"
  shows "stop_inv s'"
proof -
  note same = epoch_unchanged [OF inv(1,2)]
  show ?thesis
    using step inv(3) by (cases "sl_pc s"; clarsimp simp: loop_step_def split: if_splits; (auto simp: stop_inv_def same)?)
qed

lemma stop_inv_start: "sl_notifier s n = N_Idle \<Longrightarrow> stop_inv s \<Longrightarrow> stop_inv (notifier_start n operation s)"
  by (cases operation) (auto simp: notifier_start_def stop_inv_def some_at_split [of "sl_notifier s" _ n])

lemma stop_inv_notifier:
  assumes "notifier_step True n forced s = Some s'" "pending_inv s" "stop_inv s" shows "stop_inv s'"
  using assms
  by (cases "sl_notifier s n"; clarsimp simp: notifier_step_def split: if_splits;
      (auto simp: stop_inv_def pending_inv_def some_at_split [of "sl_notifier s" _ n])?)

lemma stop_inv_flush: "buffer_flush s = Some s' \<Longrightarrow> stop_inv s \<Longrightarrow> stop_inv s'"
  by (cases "sl_buffer s"; clarsimp simp: buffer_flush_def; simp add: stop_inv_def)

lemma stop_reachable: "sleep_reachable True fenced s \<Longrightarrow> stop_inv s"
proof (induction rule: sleep_reachable.induct)
  case init
  then show ?case by (simp add: sleep_init_def stop_inv_def)
next
  case (step s s')
  note inv = common_inv [OF step.hyps(1)] step.IH
  from step.hyps(2) show ?case
    by (cases rule: sleep_step.cases) (use inv in \<open>blast intro: stop_inv_loop stop_inv_start stop_inv_notifier stop_inv_flush\<close>)+
qed

lemma stopping_wakes:
  assumes stop: "stopping io fenced s"
  shows "io \<Longrightarrow> sl_pc s = L_Block \<Longrightarrow> sl_eventfd s" "io \<Longrightarrow> sl_pc s \<noteq> L_Asleep"
    "\<not> io \<Longrightarrow> sl_pc s = L_Block \<Longrightarrow> sl_epoch s \<noteq> sl_observed s" "\<not> io \<Longrightarrow> sl_pc s = L_Asleep \<Longrightarrow> sl_woken s"
proof -
  have idle: "\<not> some_at (sl_notifier s) pcs" if "N_Idle \<notin> pcs" for pcs
    using stop that by (auto simp: stopping_def some_at_def)
  have reach: "sleep_reachable io fenced s" and waits: "work_waits s" "sl_stop s"
    using stop by (simp_all add: stopping_def work_waits_def)
  note idles = idle [of before_epoch] idle [of "insert N_Wake before_epoch"] idle [of "{N_Force, N_Pending, N_Write}"]
  show "sl_eventfd s" if "io" "sl_pc s = L_Block"
    using stop_reachable [of fenced s] reach that waits idles by (auto simp: stop_inv_def)
  show "sl_pc s \<noteq> L_Asleep" if "io" using stop_reachable [of fenced s] reach that by (auto simp: stop_inv_def)
  show "sl_epoch s \<noteq> sl_observed s" if "\<not> io" "sl_pc s = L_Block"
    using worker_reachable [of fenced s] common_inv [OF reach] epoch_unchanged [of s] reach that waits idles by (auto simp: worker_inv_def)
  show "sl_woken s" if "\<not> io" "sl_pc s = L_Asleep"
    using worker_reachable [of fenced s] reach that waits idles by (auto simp: worker_inv_def)
qed

lemma own_step_stopping:
  assumes stop: "stopping io fenced s" and act: "sleep_act io fenced a s = Some s'" "own_action a" and small: "sl_since s' < 2 ^ 32"
  shows "stopping io fenced s'"
proof -
  have "sl_stop s' = sl_stop s \<and> sl_notifier s' = sl_notifier s"
  proof (cases a)
    case (Loop k wake others)
    then show ?thesis using act(1) by (cases "sl_pc s") (auto simp: loop_step_def split: if_splits)
  qed (use act in \<open>auto simp: buffer_flush_def split: list.splits\<close>)
  then show ?thesis
    using stop sleep_reachable.step [OF _ sleep_act_step [OF act(1)] small] by (simp add: stopping_def)
qed

lemma own_step_decreases:
  assumes stop: "stopping io fenced s" and act: "sleep_act io fenced a s = Some s'" "own_action a"
  shows "steps_left s' < steps_left s + 10 * enqueued [a]"
proof (cases a)
  case (Loop k wake others)
  have "sl_stop s" using stop by (simp add: stopping_def)
  then show ?thesis
    using act Loop stopping_wakes [OF stop]
    by (cases "sl_pc s"; cases io; clarsimp simp: loop_step_def split: if_splits; (simp add: steps_left_def split: if_splits)?; arith?)
next
  case Flush
  then show ?thesis using act by (auto simp: buffer_flush_def steps_left_def split: list.splits)
qed (use act in auto)

lemma own_step_enabled:
  assumes stop: "stopping io fenced s" and go: "sl_pc s \<noteq> L_Exit"
  shows "\<exists>a s'. own_action a \<and> sleep_act io fenced a s = Some s' \<and> sl_since s' < 2 ^ 32"
proof (cases "sl_buffer s")
  case Nil
  have small: "sl_since s < 2 ^ 32" using common_inv stop by (auto simp: stopping_def)
  have "\<exists>s'. loop_step io fenced 0 True False s = Some s' \<and> sl_since s' \<le> sl_since s"
    using go Nil stopping_wakes [OF stop] by (cases "sl_pc s"; cases io) (simp_all add: loop_step_def)
  then show ?thesis using small by (metis own_action.simps(1) sleep_act.simps(1) order_le_less_trans)
next
  case (Cons b bs)
  have "sl_since s < 2 ^ 32" using common_inv stop by (auto simp: stopping_def)
  then show ?thesis using Cons by (intro exI [of _ Flush]) (simp add: buffer_flush_def)
qed

text \<open>When the executor has left the place where it looks at its queues, a task that arrives is not seen any more.\<close>

definition seen_empty :: "sleep_state \<Rightarrow> bool" where
  "seen_empty s \<longleftrightarrow> (sl_pc s \<in> {L_Scan False, L_Stop False, L_Exit} \<longrightarrow> sl_tasks s = 0)"

lemma own_step_seen_empty:
  assumes "sl_stop s" "sleep_act io fenced a s = Some s'" "own_action a" "seen_empty s" shows "seen_empty s'"
proof (cases a)
  case (Loop k wake others)
  then show ?thesis
    using assms by (cases "sl_pc s"; clarsimp simp: loop_step_def split: if_splits; simp add: seen_empty_def)
qed (use assms in \<open>auto simp: buffer_flush_def seen_empty_def split: list.splits\<close>)

lemma own_run:
  assumes "stopping io fenced s" "sleep_run io fenced as s = Some s'" "\<forall>a \<in> set as. own_action a"
  shows "stopping io fenced s' \<and> steps_left s' + length as \<le> steps_left s + 10 * enqueued as \<and> (seen_empty s \<longrightarrow> seen_empty s')"
  using assms
proof (induction as arbitrary: s)
  case (Cons a as)
  then obtain s1 where s1: "sleep_act io fenced a s = Some s1" "sl_since s1 < 2 ^ 32" "sleep_run io fenced as s1 = Some s'"
    by (auto split: option.splits if_splits)
  have own: "own_action a" using Cons.prems by simp
  note stop1 = own_step_stopping [OF Cons.prems(1) s1(1) own s1(2)]
  have "steps_left s1 < steps_left s + 10 * enqueued [a]" by (rule own_step_decreases [OF Cons.prems(1) s1(1) own])
  moreover have "enqueued (a # as) = enqueued [a] + enqueued as" by (cases a) simp_all
  moreover have "seen_empty s \<longrightarrow> seen_empty s1"
    using own_step_seen_empty [OF _ s1(1) own] Cons.prems(1) by (simp add: stopping_def)
  ultimately show ?case using Cons.IH [OF stop1 s1(3)] Cons.prems(3) by auto
qed simp

text \<open>
  C6: An executor that is asked to stop leaves its loop, wherever the request finds it, on its way to
  sleep and asleep included.  Once the request has returned, and the enqueues of other threads
  before it, the executor can always take a step until it has left, and it takes at most
  \<open>steps_left\<close> steps, and ten for each task that its own tasks enqueue to it meanwhile.  Unless the
  request came after its last look at the queues, it leaves them empty.
\<close>

theorem stop_request_ends_loop:
  assumes reach: "sleep_reachable io fenced s" and stop: "sl_stop s" "\<forall>n. sl_notifier s n = N_Idle"
    and run: "sleep_run io fenced as s = Some s'" "\<forall>a \<in> set as. own_action a"
  shows "length as \<le> steps_left s + 10 * enqueued as \<and>
    (sl_pc s' \<noteq> L_Exit \<longrightarrow> (\<exists>a s''. own_action a \<and> sleep_run io fenced [a] s' = Some s'')) \<and>
    (sl_pc s' = L_Exit \<longrightarrow> \<not> (sl_pc s \<in> {L_Scan False, L_Stop False, L_Exit} \<and> 0 < sl_tasks s) \<longrightarrow> sl_tasks s' = 0)"
proof -
  have "stopping io fenced s" using reach stop by (simp add: stopping_def)
  note run = own_run [OF this run]
  have "\<exists>a s''. own_action a \<and> sleep_run io fenced [a] s' = Some s''" if "sl_pc s' \<noteq> L_Exit"
    using own_step_enabled [OF _ that] run by fastforce
  moreover have "sl_tasks s' = 0" if "sl_pc s' = L_Exit" "\<not> (sl_pc s \<in> {L_Scan False, L_Stop False, L_Exit} \<and> 0 < sl_tasks s)"
    using run that by (auto simp: seen_empty_def)
  ultimately show ?thesis using run by auto
qed

definition sample_stopped :: "sleep_action list" where
  "sample_stopped = sample_sleep @ [Loop 0 False False, Start 0 PushLink, Notifier 0 False, Notifier 0 False,
     Start 1 RequestStop, Notifier 1 False, Notifier 1 False]"

text \<open>The executor is asleep when a task and the request arrive; it wakes, runs the task and leaves.\<close>

theorem stop_request_ends_loop_witness:
  "\<exists>s s'. sleep_reachable False False s \<and> sl_pc s = L_Asleep \<and> sl_stop s \<and> sl_tasks s = 1 \<and>
     sleep_run False False sample_sleep s = Some s' \<and> sl_pc s' = L_Exit \<and> sl_tasks s' = 0 \<and>
     10 \<le> steps_left s"
proof -
  have "\<exists>s s'. sleep_run False False sample_stopped sleep_init = Some s \<and> sl_pc s = L_Asleep \<and> sl_stop s \<and> sl_tasks s = 1 \<and>
      (\<forall>n. sl_notifier s n = N_Idle) \<and> sleep_run False False sample_sleep s = Some s' \<and> sl_pc s' = L_Exit"
    by (simp add: run_simps sample_stopped_def)
  then obtain s s' where s: "sleep_run False False sample_stopped sleep_init = Some s" "sl_pc s = L_Asleep" "sl_stop s" "sl_tasks s = 1"
    "\<forall>n. sl_notifier s n = N_Idle" "sleep_run False False sample_sleep s = Some s'" "sl_pc s' = L_Exit"
    by blast
  have r: "sleep_reachable False False s" by (rule sleep_run_reachable [OF s(1) sleep_reachable.init])
  have "enqueued sample_sleep = 0" "length sample_sleep = 10" "\<forall>a \<in> set sample_sleep. own_action a" by (simp_all add: sample_sleep_def Let_def)
  then show ?thesis using stop_request_ends_loop [OF r s(3,5,6)] r s by fastforce
qed

end
