(* ===== verification/Shutdown_Gate.thy ===== *)
theory Shutdown_Gate
  imports Af_Prelude
begin

section \<open>Posting while the runtime starts and stops\<close>

text \<open>
  The gate between \<^verbatim>\<open>try_enter_post\<close>/\<^verbatim>\<open>leave_post\<close> of threads outside the runtime and the changes of status in
  \<^verbatim>\<open>init\<close> and \<^verbatim>\<open>shutdown\<close> with its \<^verbatim>\<open>wait_for_external_posts\<close>, one atomic access per step, \<open>posters\<close> threads and
  \<open>targets\<close> counters.  \<open>reorders\<close> says whether the relaxed \<^verbatim>\<open>fetch_add\<close> on the counter may take effect after the
  acquire loads that follow it, as the memory model of the source permits.
\<close>

datatype poster_pc =
    P_Idle | P_Generation u64 nat | P_Running u64 nat | P_Early u64 nat | P_Counted u64 nat | P_Rechecked u64 nat
  | P_Inside u64 nat | P_Leaving nat

datatype life_pc = M_Stopped | M_Starting | M_Started | M_Running | M_Wait "nat list" | M_Closing

record gate =
  gt_life :: life_pc
  gt_generation :: u64
  gt_posts :: "nat \<Rightarrow> u32"
  gt_poster :: "nat \<Rightarrow> poster_pc"

definition gate_init :: gate where
  "gate_init = \<lparr>gt_life = M_Stopped, gt_generation = 0, gt_posts = (\<lambda>_. 0), gt_poster = (\<lambda>_. P_Idle)\<rparr>"

text \<open>\<^verbatim>\<open>status_\<close> is \<^verbatim>\<open>Running\<close> from the end of \<^verbatim>\<open>init\<close> to the beginning of \<^verbatim>\<open>shutdown\<close>.\<close>

definition status_running :: "gate \<Rightarrow> bool" where
  "status_running s \<longleftrightarrow> gt_life s = M_Running"

definition set_poster :: "nat \<Rightarrow> poster_pc \<Rightarrow> gate \<Rightarrow> gate" where
  "set_poster n pc s = s\<lparr>gt_poster := (gt_poster s)(n := pc)\<rparr>"

definition count_post :: "nat \<Rightarrow> u32 \<Rightarrow> gate \<Rightarrow> gate" where
  "count_post t d s = s\<lparr>gt_posts := (gt_posts s)(t := gt_posts s t + d)\<rparr>"

text \<open>A thread that is idle starts a post to the thread \<open>t\<close>; \<open>early\<close> takes the reordered path.\<close>

definition poster_step :: "bool \<Rightarrow> nat \<Rightarrow> nat \<Rightarrow> bool \<Rightarrow> gate \<Rightarrow> gate option" where
  "poster_step reorders n t early s =
     (case gt_poster s n of
        P_Idle \<Rightarrow> Some (set_poster n (P_Generation (gt_generation s) t) s)
      | P_Generation g t \<Rightarrow> Some (set_poster n (if status_running s then P_Running g t else P_Idle) s)
      | P_Running g t \<Rightarrow>
          if reorders \<and> early
          then if status_running s \<and> gt_generation s = g then Some (set_poster n (P_Early g t) s) else None
          else Some (set_poster n (P_Counted g t) (count_post t 1 s))
      | P_Early g t \<Rightarrow> Some (set_poster n (P_Inside g t) (count_post t 1 s))
      | P_Counted g t \<Rightarrow> Some (set_poster n (if status_running s then P_Rechecked g t else P_Leaving t) s)
      | P_Rechecked g t \<Rightarrow> Some (set_poster n (if gt_generation s = g then P_Inside g t else P_Leaving t) s)
      | P_Inside g t \<Rightarrow> Some (set_poster n (P_Leaving t) s)
      | P_Leaving t \<Rightarrow> Some (set_poster n P_Idle (count_post t (- 1) s)))"

definition life_step :: "nat \<Rightarrow> gate \<Rightarrow> gate option" where
  "life_step targets s =
     (case gt_life s of
        M_Stopped \<Rightarrow> Some (s\<lparr>gt_life := M_Starting\<rparr>)
      | M_Starting \<Rightarrow> Some (s\<lparr>gt_generation := gt_generation s + 1, gt_life := M_Started\<rparr>)
      | M_Started \<Rightarrow> Some (s\<lparr>gt_life := M_Running\<rparr>)
      | M_Running \<Rightarrow> Some (s\<lparr>gt_life := M_Wait [0..<targets]\<rparr>)
      | M_Wait [] \<Rightarrow> Some (s\<lparr>gt_life := M_Closing\<rparr>)
      | M_Wait (t # ts) \<Rightarrow> if gt_posts s t = 0 then Some (s\<lparr>gt_life := M_Wait ts\<rparr>) else None
      | M_Closing \<Rightarrow> Some (s\<lparr>gt_life := M_Stopped\<rparr>))"

inductive gate_reachable :: "bool \<Rightarrow> nat \<Rightarrow> nat \<Rightarrow> gate \<Rightarrow> bool" for reorders posters targets where
  init: "gate_reachable reorders posters targets gate_init"
| poster: "gate_reachable reorders posters targets s \<Longrightarrow> n < posters \<Longrightarrow> t < targets \<Longrightarrow>
    poster_step reorders n t early s = Some s' \<Longrightarrow> gate_reachable reorders posters targets s'"
| life: "gate_reachable reorders posters targets s \<Longrightarrow> life_step targets s = Some s' \<Longrightarrow>
    gate_reachable reorders posters targets s'"

subsection \<open>The counters count\<close>

fun counted_at :: "poster_pc \<Rightarrow> nat option" where
  "counted_at (P_Counted g t) = Some t"
| "counted_at (P_Rechecked g t) = Some t"
| "counted_at (P_Inside g t) = Some t"
| "counted_at (P_Leaving t) = Some t"
| "counted_at _ = None"

definition counted :: "nat \<Rightarrow> nat \<Rightarrow> gate \<Rightarrow> nat set" where
  "counted posters t s = {n. n < posters \<and> counted_at (gt_poster s n) = Some t}"

definition count_inv :: "nat \<Rightarrow> gate \<Rightarrow> bool" where
  "count_inv posters s \<longleftrightarrow> (\<forall>t. gt_posts s t = of_nat (card (counted posters t s)))"

lemma set_poster_fields [simp]:
  "gt_life (set_poster n pc s) = gt_life s" "gt_generation (set_poster n pc s) = gt_generation s"
  "gt_posts (set_poster n pc s) = gt_posts s" "gt_poster (set_poster n pc s) = (gt_poster s)(n := pc)"
  "gt_life (count_post t d s) = gt_life s" "gt_generation (count_post t d s) = gt_generation s"
  "gt_posts (count_post t d s) = (gt_posts s)(t := gt_posts s t + d)" "gt_poster (count_post t d s) = gt_poster s"
  by (simp_all add: set_poster_def count_post_def)

lemma finite_counted [simp]: "finite (counted posters t s)"
  by (simp add: counted_def)

lemma counted_set:
  assumes "n < posters"
  shows "counted posters t (set_poster n pc s) =
    (if counted_at pc = Some t then insert n (counted posters t s) else counted posters t s - {n})"
  using assms by (auto simp: counted_def)

lemma counted_count [simp]: "counted posters t (count_post t' d s) = counted posters t s"
  by (simp add: counted_def)

lemma count_keep:
  assumes "count_inv posters s" "n < posters" "counted_at pc = counted_at (gt_poster s n)"
  shows "count_inv posters (set_poster n pc s)"
proof -
  have "counted posters t (set_poster n pc s) = counted posters t s" for t
    using assms by (auto simp: counted_set) (auto simp: counted_def)
  then show ?thesis using assms(1) by (simp add: count_inv_def)
qed

lemma count_enter:
  assumes "count_inv posters s" "n < posters" "counted_at (gt_poster s n) = None" "counted_at pc = Some t"
  shows "count_inv posters (set_poster n pc (count_post t 1 s))"
proof -
  have out: "n \<notin> counted posters u s" for u using assms(3) by (simp add: counted_def)
  have "counted posters u (set_poster n pc (count_post t 1 s)) = (if u = t then insert n (counted posters u s) else counted posters u s)" for u
    using assms(2,4) out by (auto simp: counted_set)
  then show ?thesis using assms(1) out by (simp add: count_inv_def)
qed

lemma count_leave:
  assumes "count_inv posters s" "n < posters" "counted_at (gt_poster s n) = Some t" "counted_at pc = None"
  shows "count_inv posters (set_poster n pc (count_post t (- 1) s))"
proof -
  have n: "n \<in> counted posters t s" "u \<noteq> t \<Longrightarrow> n \<notin> counted posters u s" for u using assms(2,3) by (auto simp: counted_def)
  have "counted posters u (set_poster n pc (count_post t (- 1) s)) = (if u = t then counted posters u s - {n} else counted posters u s)" for u
    using assms(2,4) n by (auto simp: counted_set)
  moreover have "0 < card (counted posters t s)" using n(1) by (auto simp: card_gt_0_iff)
  ultimately show ?thesis using assms(1) n by (simp add: count_inv_def)
qed

lemma count_inv_poster:
  assumes "poster_step reorders n t early s = Some s'" "n < posters" "count_inv posters s"
  shows "count_inv posters s'"
  using assms
  by (cases "gt_poster s n") (auto simp: poster_step_def count_keep count_enter count_leave split: if_splits)

lemma count_inv_life: "life_step targets s = Some s' \<Longrightarrow> count_inv posters s \<Longrightarrow> count_inv posters s'"
  by (auto simp: life_step_def count_inv_def counted_def split: life_pc.splits list.splits if_splits)

lemma reachable_count: "gate_reachable reorders posters targets s \<Longrightarrow> count_inv posters s"
proof (induction rule: gate_reachable.induct)
  case init
  then show ?case by (simp add: gate_init_def count_inv_def counted_def)
qed (blast intro: count_inv_poster count_inv_life)+

lemma counter_zero:
  assumes "gate_reachable reorders posters targets s" "posters < 2 ^ 32" "gt_posts s t = 0" "n < posters"
  shows "counted_at (gt_poster s n) \<noteq> Some t"
proof -
  have "counted posters t s \<subseteq> {..<posters}" by (auto simp: counted_def)
  then have "card (counted posters t s) \<le> posters" using card_mono [of "{..<posters}"] by fastforce
  then have "card (counted posters t s) < 2 ^ 32" using assms(2) by simp
  moreover have "(of_nat (card (counted posters t s)) :: u32) = 0"
    using reachable_count [OF assms(1)] assms(3) by (simp add: count_inv_def)
  ultimately have "card (counted posters t s) = 0" by (auto simp: word_of_nat_eq_0_iff dest: dvd_imp_le)
  then show ?thesis using assms(4) by (auto simp: counted_def)
qed

subsection \<open>Nobody is inside when the queues go\<close>

definition open_for :: "nat \<Rightarrow> life_pc \<Rightarrow> bool" where
  "open_for t pc \<longleftrightarrow> pc = M_Running \<or> (\<exists>ts. pc = M_Wait ts \<and> t \<in> set ts)"

fun poster_ok :: "nat \<Rightarrow> nat \<Rightarrow> gate \<Rightarrow> nat \<Rightarrow> poster_pc \<Rightarrow> bool" where
  "poster_ok posters targets s n P_Idle \<longleftrightarrow> True"
| "poster_ok posters targets s n (P_Generation g t) \<longleftrightarrow> n < posters \<and> t < targets"
| "poster_ok posters targets s n (P_Running g t) \<longleftrightarrow> n < posters \<and> t < targets"
| "poster_ok posters targets s n (P_Early g t) \<longleftrightarrow> False"
| "poster_ok posters targets s n (P_Counted g t) \<longleftrightarrow> n < posters \<and> t < targets"
| "poster_ok posters targets s n (P_Rechecked g t) \<longleftrightarrow> n < posters \<and> t < targets \<and> open_for t (gt_life s)"
| "poster_ok posters targets s n (P_Inside g t) \<longleftrightarrow>
     n < posters \<and> t < targets \<and> open_for t (gt_life s) \<and> g = gt_generation s"
| "poster_ok posters targets s n (P_Leaving t) \<longleftrightarrow> n < posters \<and> t < targets"

definition gate_inv :: "nat \<Rightarrow> nat \<Rightarrow> gate \<Rightarrow> bool" where
  "gate_inv posters targets s \<longleftrightarrow> (\<forall>n. poster_ok posters targets s n (gt_poster s n))"

lemma gate_inv_poster:
  assumes step: "poster_step False n t early s = Some s'" and n: "n < posters" "t < targets" and inv: "gate_inv posters targets s"
  shows "gate_inv posters targets s'"
proof -
  have same: "gt_life s' = gt_life s" "gt_generation s' = gt_generation s" "\<And>m. m \<noteq> n \<Longrightarrow> gt_poster s' m = gt_poster s m"
    using step by (auto simp: poster_step_def split: poster_pc.splits if_splits)
  have "poster_ok posters targets s' n (gt_poster s' n)"
    using step n spec [OF inv [unfolded gate_inv_def], of n]
    by (cases "gt_poster s n"; clarsimp simp: poster_step_def status_running_def split: if_splits; simp add: open_for_def)
  moreover have "poster_ok posters targets s' m (gt_poster s' m)" if "m \<noteq> n" for m
    using spec [OF inv [unfolded gate_inv_def], of m] same that by (cases "gt_poster s m") simp_all
  ultimately show ?thesis unfolding gate_inv_def by metis
qed

lemma gate_inv_life:
  assumes reach: "gate_reachable False posters targets s" and small: "posters < 2 ^ 32"
    and step: "life_step targets s = Some s'" and inv: "gate_inv posters targets s"
  shows "gate_inv posters targets s'"
proof -
  have same: "gt_poster s' = gt_poster s"
    using step by (auto simp: life_step_def split: life_pc.splits list.splits if_splits)
  have "case gt_poster s n of P_Rechecked g t \<Rightarrow> open_for t (gt_life s')
      | P_Inside g t \<Rightarrow> open_for t (gt_life s') \<and> gt_generation s' = gt_generation s | _ \<Rightarrow> True" for n
    using step spec [OF inv [unfolded gate_inv_def], of n] counter_zero [OF reach small, of _ n]
    by (cases "gt_poster s n")
      (auto simp: life_step_def open_for_def split: life_pc.splits list.splits if_splits)
  note now = this
  show ?thesis
    unfolding gate_inv_def same
  proof
    fix n
    show "poster_ok posters targets s' n (gt_poster s n)"
      using now [of n] spec [OF inv [unfolded gate_inv_def], of n] by (cases "gt_poster s n") simp_all
  qed
qed

lemma reachable_gate_inv:
  assumes "gate_reachable False posters targets s" "posters < 2 ^ 32" shows "gate_inv posters targets s"
  using assms
proof (induction rule: gate_reachable.induct)
  case init
  then show ?case by (simp add: gate_init_def gate_inv_def)
qed (blast intro: gate_inv_poster gate_inv_life)+

text \<open>
  C7: While any number of outside threads post, below \<open>2\<^sup>3\<^sup>2\<close>, and the runtime is started and shut down
  over and over, in every interleaving that keeps the accesses of a thread in order: a thread that
  was let in is in the generation it read before, and the runtime is running or still waits for the
  counter of that thread's target, so that queues are neither destroyed nor rebuilt under it.
\<close>

theorem gate_keeps_posts_out:
  assumes "gate_reachable False posters targets s" and "posters < 2 ^ 32" and "gt_poster s n = P_Inside g t"
  shows "g = gt_generation s \<and> (gt_life s = M_Running \<or> (\<exists>ts. gt_life s = M_Wait ts \<and> t \<in> set ts))"
  using spec [OF reachable_gate_inv [OF assms(1,2), unfolded gate_inv_def], of n] assms(3) by (simp add: open_for_def)

subsection \<open>Executions\<close>

fun gate_run :: "bool \<Rightarrow> nat \<Rightarrow> (nat \<times> nat \<times> bool) option list \<Rightarrow> gate \<Rightarrow> gate option" where
  "gate_run reorders targets [] s = Some s"
| "gate_run reorders targets (None # as) s = Option.bind (life_step targets s) (gate_run reorders targets as)"
| "gate_run reorders targets (Some (n, t, early) # as) s =
     Option.bind (poster_step reorders n t early s) (gate_run reorders targets as)"

lemma gate_run_reachable:
  assumes "gate_run reorders targets as s = Some s'" "gate_reachable reorders posters targets s"
    "\<forall>n t e. Some (n, t, e) \<in> set as \<longrightarrow> n < posters \<and> t < targets"
  shows "gate_reachable reorders posters targets s'"
  using assms
proof (induction reorders targets as s rule: gate_run.induct)
  case (2 reorders targets as s)
  then obtain s1 where s1: "life_step targets s = Some s1" "gate_run reorders targets as s1 = Some s'"
    by (auto simp: bind_eq_Some_conv)
  have "gate_reachable reorders posters targets s1" by (rule gate_reachable.life [OF 2(3) s1(1)])
  then show ?case using 2(1) [OF s1] 2(4) by simp
next
  case (3 reorders targets n t early as s)
  then obtain s1 where s1: "poster_step reorders n t early s = Some s1" "gate_run reorders targets as s1 = Some s'"
    by (auto simp: bind_eq_Some_conv)
  have "n < posters" "t < targets" using 3(4) by auto
  then have "gate_reachable reorders posters targets s1" by (rule gate_reachable.poster [OF 3(3) _ _ s1(1)])
  moreover have "\<forall>n t e. Some (n, t, e) \<in> set as \<longrightarrow> n < posters \<and> t < targets" using 3(4) by auto
  ultimately show ?case by (rule 3(1) [OF s1])
qed simp

lemmas gate_simps = gate_init_def life_step_def poster_step_def status_running_def set_poster_def count_post_def

theorem gate_keeps_posts_out_witness:
  "\<exists>s. gate_reachable False 1 1 s \<and> gt_poster s 0 = P_Inside 1 0 \<and> gt_generation s = 1 \<and> open_for 0 (gt_life s)"
proof -
  let ?as = "[None, None, None] @ (let p = Some (0, 0, False) in [p, p, p, p, p])"
  have run: "\<exists>s. gate_run False 1 ?as gate_init = Some s \<and> gt_poster s 0 = P_Inside 1 0"
    by (simp add: gate_simps Let_def)
  then obtain s where s: "gate_run False 1 ?as gate_init = Some s" "gt_poster s 0 = P_Inside 1 0" by blast
  have r: "gate_reachable False 1 1 s"
    by (rule gate_run_reachable [OF s(1) gate_reachable.init]) (auto simp: Let_def)
  show ?thesis using gate_keeps_posts_out [OF r _ s(2)] r s(2) unfolding open_for_def by auto
qed

text \<open>
  C18: Where the increment of the counter may take effect after the loads that follow it, the gate does
  not hold: the loads see a running runtime, a shutdown then finds the counter at zero, and the
  thread goes on to use the queues while they are destroyed.
\<close>

theorem gate_open_when_reordered:
  "\<exists>s. gate_reachable True 1 1 s \<and> gt_life s = M_Closing \<and> gt_poster s 0 = P_Inside 1 0"
proof -
  let ?as = "[None, None, None, Some (0, 0, False), Some (0, 0, False), Some (0, 0, True), None, None, None, Some (0, 0, False)]"
  have run: "\<exists>s. gate_run True 1 ?as gate_init = Some s \<and> gt_life s = M_Closing \<and> gt_poster s 0 = P_Inside 1 0"
    by (simp add: gate_simps)
  then obtain s where s: "gate_run True 1 ?as gate_init = Some s" "gt_life s = M_Closing" "gt_poster s 0 = P_Inside 1 0" by blast
  have "gate_reachable True 1 1 s"
    by (rule gate_run_reachable [OF s(1) gate_reachable.init]) auto
  then show ?thesis using s by blast
qed

end
