(* ===== verification/Pool_Block.thy ===== *)
theory Pool_Block
  imports Af_Prelude
begin

section \<open>Blocks of the object pool\<close>

text \<open>
  Models \<^verbatim>\<open>detail/memory/object_pool.hpp\<close> up to a block: the layout of a slot, the tagged head of the
  free list, and the operations of \<^verbatim>\<open>Block\<close>.  A slot pointer is the address of its block with the
  slot's position.  The template parameters are a record.  The operations here run alone, so that
  their compare-exchange succeeds at once; \<open>Pool_Concurrent\<close> interleaves their accesses.  Shown: the computed
  layout satisfies the static assertions for every type, and a block is a stack of its free slots.
\<close>

type_synonym baddr = nat
type_synonym slot_ptr = "baddr \<times> u16"

record pool_params =
  chunk_size :: nat
  remote_release_batch_size :: nat
  cache_allocated_slot_index :: bool
  local_cache_set_size :: nat
  direct_release_set_size :: nat
  local_cache_capacity :: nat

definition local_cache_flush_count :: "pool_params \<Rightarrow> nat" where
  "local_cache_flush_count P = local_cache_capacity P div 2"

definition null_slot_index :: u16 where
  "null_slot_index = - 1"

definition pool_params_valid :: "pool_params \<Rightarrow> bool" where
  "pool_params_valid P \<longleftrightarrow>
     chunk_size P > 0 \<and> remote_release_batch_size P > 0 \<and> local_cache_set_size P \<ge> 1 \<and> direct_release_set_size P \<ge> 1 \<and>
     local_cache_capacity P > 0 \<and> local_cache_flush_count P > 0 \<and> local_cache_flush_count P \<le> local_cache_capacity P \<and>
     remote_release_batch_size P \<le> local_cache_capacity P \<and> chunk_size P < unat null_slot_index"

subsection \<open>Layout of a slot\<close>

definition align_up :: "nat \<Rightarrow> nat \<Rightarrow> nat" where
  "align_up value alignment = ((value + alignment - 1) div alignment) * alignment"

definition hardware_cache_line_size :: nat where
  "hardware_cache_line_size = 64"

text \<open>\<open>sizeof(void *)\<close> and \<open>sizeof(std::atomic<std::uint16_t>)\<close>.\<close>

definition slot_header_size :: nat where
  "slot_header_size = 8 + 2"

record slot_layout =
  slot_align :: nat
  storage_offset :: nat
  storage_align :: nat
  slot_size :: nat
  storage_size :: nat

definition layout_of :: "nat \<Rightarrow> nat \<Rightarrow> slot_layout" where
  "layout_of size_T align_T =
     (let slot_align = if align_T > hardware_cache_line_size then align_T else hardware_cache_line_size;
          compact_storage_offset = align_up slot_header_size align_T;
          compact_slot = compact_storage_offset + size_T \<le> hardware_cache_line_size;
          noncompact_storage_offset = align_up hardware_cache_line_size align_T;
          storage_offset = if compact_slot then compact_storage_offset else noncompact_storage_offset;
          storage_align = if compact_slot then align_T else slot_align;
          slot_payload_size = storage_offset + size_T;
          slot_size = align_up slot_payload_size slot_align
      in \<lparr>slot_align = slot_align, storage_offset = storage_offset, storage_align = storage_align, slot_size = slot_size,
          storage_size = slot_size - storage_offset\<rparr>)"

lemma align_up_props:
  assumes "0 < a" shows "a dvd align_up v a" "v \<le> align_up v a" "align_up v a < v + a"
proof -
  show "a dvd align_up v a" by (simp add: align_up_def)
  define w where "w = v + a - 1"
  have w: "w = v + a - 1" "v + a = Suc w" using assms by (simp_all add: w_def)
  have split: "w div a * a + w mod a = w" by (rule div_mult_mod_eq)
  have "w mod a < a" using assms by simp
  moreover have "align_up v a = w div a * a" by (simp only: align_up_def w(1))
  ultimately show "v \<le> align_up v a" "align_up v a < v + a"
    using split w by linarith+
qed

lemma align_up_exact:
  assumes "0 < a" "a dvd v" shows "align_up v a = v"
proof -
  have "a dvd align_up v a - v" using align_up_props(1) [OF assms(1)] assms(2) by (rule dvd_diff_nat)
  moreover have "align_up v a - v < a" using align_up_props(2,3) [OF assms(1), of v] by arith
  ultimately have "align_up v a - v = 0" using dvd_imp_le by (metis not_gr_zero not_le)
  then show ?thesis using align_up_props(2) [OF assms(1), of v] by simp
qed

lemma pow2_dvd_or: "(2 :: nat) ^ m dvd 2 ^ k \<or> 2 ^ k dvd (2 :: nat) ^ m"
  by (metis le_imp_power_dvd nat_le_linear)

text \<open>
  For an object type of any size, aligned at a power of two, the layout the pool computes satisfies
  its static assertions: the object is aligned in its slot, behind the header and inside the slot;
  slots are aligned, and no two share a cache line.
\<close>

theorem slot_layout_valid:
  assumes "align_T = 2 ^ k"
  shows "let l = layout_of size_T align_T
    in align_T dvd storage_offset l \<and> storage_align l dvd storage_offset l \<and> align_T dvd storage_align l \<and>
       slot_header_size \<le> storage_offset l \<and> size_T \<le> storage_size l \<and> storage_offset l + storage_size l = slot_size l \<and>
       slot_align l dvd slot_size l \<and> align_T dvd slot_align l \<and> hardware_cache_line_size dvd slot_size l"
proof -
  let ?l = "layout_of size_T align_T"
  have line: "hardware_cache_line_size = 2 ^ 6" by (simp add: hardware_cache_line_size_def)
  have pos: "0 < align_T" "0 < hardware_cache_line_size" using assms line by simp_all
  have sa: "slot_align ?l = (if align_T > hardware_cache_line_size then align_T else hardware_cache_line_size)"
    by (simp add: layout_of_def Let_def)
  have chain: "align_T dvd hardware_cache_line_size \<or> hardware_cache_line_size dvd align_T"
    using pow2_dvd_or [of k 6] unfolding assms line by simp
  have dvd: "align_T dvd slot_align ?l" "hardware_cache_line_size dvd slot_align ?l"
    using chain pos dvd_imp_le [of align_T hardware_cache_line_size] dvd_imp_le [of hardware_cache_line_size align_T]
    by (auto simp: sa)
  have sap: "0 < slot_align ?l" using pos sa by simp
  have size: "slot_align ?l dvd slot_size ?l" "storage_offset ?l + size_T \<le> slot_size ?l"
    using align_up_props [OF sap] by (simp_all add: layout_of_def Let_def)
  have offset: "align_T dvd storage_offset ?l" "slot_header_size \<le> storage_offset ?l"
    using align_up_props [OF pos(1)] order_trans [OF _ align_up_props(2) [OF pos(1)], of slot_header_size hardware_cache_line_size]
    by (auto simp: layout_of_def Let_def slot_header_size_def hardware_cache_line_size_def)
  have "storage_align ?l dvd storage_offset ?l" "align_T dvd storage_align ?l"
  proof -
    have "slot_align ?l dvd align_up hardware_cache_line_size align_T"
    proof (cases "align_T > hardware_cache_line_size")
      case True
      then show ?thesis using sa align_up_props(1) [OF pos(1)] by simp
    next
      case False
      then have "align_T dvd hardware_cache_line_size"
        using chain pos dvd_imp_le [of hardware_cache_line_size align_T] by auto
      then have "align_up hardware_cache_line_size align_T = hardware_cache_line_size"
        by (rule align_up_exact [OF pos(1)])
      then show ?thesis using False sa by simp
    qed
    then show "storage_align ?l dvd storage_offset ?l" "align_T dvd storage_align ?l"
      using dvd(1) align_up_props(1) [OF pos(1)] by (auto simp: layout_of_def Let_def)
  qed
  moreover have "storage_offset ?l + storage_size ?l = slot_size ?l" using size(2) by (simp add: layout_of_def Let_def)
  ultimately show ?thesis
    using dvd size offset dvd_trans [OF dvd(2) size(1)] unfolding Let_def by simp
qed

theorem slot_layout_valid_witness:
  "let l = layout_of 40 16 in 16 dvd storage_offset l \<and> 40 \<le> storage_size l \<and> 64 dvd slot_size l"
  using slot_layout_valid [of 16 4 40] by (simp add: Let_def hardware_cache_line_size_def)

subsection \<open>The head of the free list\<close>

definition slot_index_bits :: nat where
  "slot_index_bits = 16"

definition slot_index_mask :: u64 where
  "slot_index_mask = push_bit slot_index_bits 1 - 1"

definition pack_free_head :: "u16 \<Rightarrow> u64 \<Rightarrow> u64" where
  "pack_free_head index version = push_bit slot_index_bits version OR ucast index"

definition free_head_index :: "u64 \<Rightarrow> u16" where
  "free_head_index head = ucast (head AND slot_index_mask)"

definition free_head_version :: "u64 \<Rightarrow> u64" where
  "free_head_version head = drop_bit slot_index_bits head"

lemma slot_index_mask_eq: "slot_index_mask = mask 16"
  by (simp add: slot_index_mask_def slot_index_bits_def mask_eq_exp_minus_1)

lemma free_head_index_pack [simp]: "free_head_index (pack_free_head index version) = index"
  by (rule bit_eqI) (auto simp: free_head_index_def pack_free_head_def slot_index_mask_eq slot_index_bits_def bit_simps)

lemma free_head_version_pack:
  assumes "version < 2 ^ 48" shows "free_head_version (pack_free_head index version) = version"
proof -
  have "unat version < 2 ^ 48" using assms by (simp add: word_less_nat_alt)
  then have "unat (take_bit 48 version) = unat version" by (simp add: unsigned_take_bit_eq take_bit_nat_eq_self)
  then have "take_bit 48 version = version" by (simp add: word_unat_eq_iff)
  then have high: "bit version n \<Longrightarrow> n < 48" for n by (metis bit_take_bit_iff)
  show ?thesis
    by (rule bit_eqI)
      (auto simp: free_head_version_def pack_free_head_def slot_index_bits_def bit_simps dest: high bit_imp_le_length)
qed

subsection \<open>A block\<close>

record pool_slot =
  slot_owner :: baddr
  next_free :: u16

record pool_block =
  blk_next :: "baddr ptr"
  free_head :: u64
  blk_slots :: "pool_slot list"

definition block_new :: "pool_params \<Rightarrow> baddr \<Rightarrow> pool_block" where
  "block_new P this =
     \<lparr>blk_next = None, free_head = pack_free_head 0 0,
      blk_slots = map (\<lambda>i. \<lparr>slot_owner = this, next_free = if i + 1 < chunk_size P then of_nat (i + 1) else null_slot_index\<rparr>)
                    [0..<chunk_size P]\<rparr>"

definition slot_at :: "pool_block \<Rightarrow> u16 \<Rightarrow> pool_slot" where
  "slot_at b i = blk_slots b ! unat i"

definition set_next_free :: "u16 \<Rightarrow> u16 \<Rightarrow> pool_block \<Rightarrow> pool_block" where
  "set_next_free i n b = b\<lparr>blk_slots := (blk_slots b)[unat i := (slot_at b i)\<lparr>next_free := n\<rparr>]\<rparr>"

text \<open>The walk of \<^verbatim>\<open>try_pop_many\<close> along the free list: the slots it takes and the index it stops at.\<close>

fun pop_walk :: "pool_block \<Rightarrow> nat \<Rightarrow> u16 \<Rightarrow> u16 list \<times> u16" where
  "pop_walk b 0 index = ([], index)"
| "pop_walk b (Suc n) index =
     (if index = null_slot_index then ([], index)
      else let (out, last) = pop_walk b n (next_free (slot_at b index)) in (index # out, last))"

definition cache_indices :: "pool_params \<Rightarrow> u16 list \<Rightarrow> pool_block \<Rightarrow> pool_block" where
  "cache_indices P out b = (if cache_allocated_slot_index P then fold (\<lambda>i b. set_next_free i i b) out b else b)"

definition try_pop_many :: "pool_params \<Rightarrow> nat \<Rightarrow> pool_block \<Rightarrow> u16 list \<times> pool_block" where
  "try_pop_many P max_count b =
     (if max_count = 0 then ([], b)
      else let head = free_head b; index = free_head_index head
           in if index = null_slot_index then ([], b)
              else let (out, index) = pop_walk b max_count index;
                       b = b\<lparr>free_head := pack_free_head index (free_head_version head + 1)\<rparr>
                   in (out, cache_indices P out b))"

definition released_slot_index :: "pool_params \<Rightarrow> u16 \<Rightarrow> pool_block \<Rightarrow> u16" where
  "released_slot_index P slot b = (if cache_allocated_slot_index P then next_free (slot_at b slot) else slot)"

definition block_push :: "pool_params \<Rightarrow> u16 \<Rightarrow> pool_block \<Rightarrow> pool_block" where
  "block_push P slot b =
     (let index = released_slot_index P slot b;
          head = free_head b;
          b = set_next_free slot (free_head_index head) b
      in b\<lparr>free_head := pack_free_head index (free_head_version head + 1)\<rparr>)"

fun link_slots :: "pool_params \<Rightarrow> u16 list \<Rightarrow> pool_block \<Rightarrow> pool_block" where
  "link_slots P (s # t # slots) b = link_slots P (t # slots) (set_next_free s (released_slot_index P t b) b)"
| "link_slots P _ b = b"

definition push_many :: "pool_params \<Rightarrow> u16 list \<Rightarrow> pool_block \<Rightarrow> pool_block" where
  "push_many P pushed_slots b =
     (let first = released_slot_index P (hd pushed_slots) b;
          b = link_slots P pushed_slots b;
          head = free_head b;
          b = set_next_free (last pushed_slots) (free_head_index head) b
      in b\<lparr>free_head := pack_free_head first (free_head_version head + 1)\<rparr>)"

subsection \<open>A block is a stack of its free slots\<close>

fun linked :: "pool_block \<Rightarrow> u16 \<Rightarrow> u16 list \<Rightarrow> bool" where
  "linked b index [] \<longleftrightarrow> index = null_slot_index"
| "linked b index (i # is) \<longleftrightarrow>
     index = i \<and> i \<noteq> null_slot_index \<and> unat i < length (blk_slots b) \<and> linked b (next_free (slot_at b i)) is"

definition free_list :: "pool_block \<Rightarrow> u16 list" where
  "free_list b = fst (pop_walk b (length (blk_slots b)) (free_head_index (free_head b)))"

definition slot_range :: "pool_params \<Rightarrow> u16 set" where
  "slot_range P = {i. unat i < chunk_size P}"

text \<open>
  The slots know their block; the free ones are linked from the head, each once; a slot that is not
  free holds its own index where the pool keeps it there.
\<close>

definition block_ok :: "pool_params \<Rightarrow> baddr \<Rightarrow> pool_block \<Rightarrow> bool" where
  "block_ok P this b \<longleftrightarrow>
     length (blk_slots b) = chunk_size P \<and> (\<forall>i \<in> slot_range P. slot_owner (slot_at b i) = this) \<and>
     linked b (free_head_index (free_head b)) (free_list b) \<and> distinct (free_list b) \<and>
     (cache_allocated_slot_index P \<longrightarrow> (\<forall>i \<in> slot_range P - set (free_list b). next_free (slot_at b i) = i))"

lemma set_next_free_fields [simp]:
  "length (blk_slots (set_next_free i n b)) = length (blk_slots b)" "free_head (set_next_free i n b) = free_head b"
  "blk_next (set_next_free i n b) = blk_next b"
  "slot_at (b\<lparr>free_head := h\<rparr>) j = slot_at b j" "slot_at (b\<lparr>blk_next := p\<rparr>) j = slot_at b j"
  "set_next_free i n (b\<lparr>free_head := h\<rparr>) = (set_next_free i n b)\<lparr>free_head := h\<rparr>"
  by (simp_all add: set_next_free_def slot_at_def)

lemma slot_at_set_next_free:
  assumes "unat i < length (blk_slots b)"
  shows "slot_at (set_next_free i n b) j = (if j = i then (slot_at b i)\<lparr>next_free := n\<rparr> else slot_at b j)"
  using assms by (auto simp: set_next_free_def slot_at_def nth_list_update word_unat_eq_iff)

lemma linked_frame:
  assumes "linked b index is" "length (blk_slots b') = length (blk_slots b)"
    "\<And>i. i \<in> set is \<Longrightarrow> next_free (slot_at b' i) = next_free (slot_at b i)"
  shows "linked b' index is"
  using assms by (induction "is" arbitrary: index) auto

lemma linked_walk:
  "linked b index is \<Longrightarrow> \<exists>rest. pop_walk b n index = (take n is, rest) \<and> linked b rest (drop n is)"
proof (induction b n index arbitrary: "is" rule: pop_walk.induct)
  case (2 b n index)
  then show ?case by (cases "is") (auto simp: Let_def split: prod.splits)
qed simp

lemma linked_range: "linked b index is \<Longrightarrow> i \<in> set is \<Longrightarrow> unat i < length (blk_slots b)"
  by (induction "is" arbitrary: index) auto

lemma linked_length:
  assumes "linked b index is" "distinct is" shows "length is \<le> length (blk_slots b)"
proof -
  have "unat ` set is \<subseteq> {..<length (blk_slots b)}" using linked_range [OF assms(1)] by auto
  then have "card (unat ` set is) \<le> length (blk_slots b)" using card_mono [of "{..<length (blk_slots b)}"] by fastforce
  moreover have "card (unat ` set is) = length is"
    using assms(2) by (simp add: card_image inj_on_def distinct_card word_unat_eq_iff)
  ultimately show ?thesis by simp
qed

lemma free_list_linked:
  assumes "linked b (free_head_index (free_head b)) is" "distinct is" shows "free_list b = is"
  using linked_walk [OF assms(1), of "length (blk_slots b)"] linked_length [OF assms] by (auto simp: free_list_def)

text \<open>How a changed block is shown to be well formed.\<close>

lemma block_okI:
  assumes "length (blk_slots b) = chunk_size P" "\<And>i. i \<in> slot_range P \<Longrightarrow> slot_owner (slot_at b i) = this"
    "linked b (free_head_index (free_head b)) is" "distinct is"
    "\<And>i. cache_allocated_slot_index P \<Longrightarrow> i \<in> slot_range P \<Longrightarrow> i \<notin> set is \<Longrightarrow> next_free (slot_at b i) = i"
  shows "block_ok P this b \<and> free_list b = is"
  using assms free_list_linked [OF assms(3,4)] by (simp add: block_ok_def)

lemma free_list_range: "block_ok P this b \<Longrightarrow> set (free_list b) \<subseteq> slot_range P"
  using linked_range [of b "free_head_index (free_head b)" "free_list b"] by (auto simp: block_ok_def slot_range_def)

lemma cache_indices_slots:
  assumes "\<And>i. i \<in> set out \<Longrightarrow> unat i < length (blk_slots b)"
  shows "length (blk_slots (cache_indices P out b)) = length (blk_slots b) \<and> free_head (cache_indices P out b) = free_head b \<and>
    blk_next (cache_indices P out b) = blk_next b \<and>
    (\<forall>j. slot_at (cache_indices P out b) j =
       (if cache_allocated_slot_index P \<and> j \<in> set out then (slot_at b j)\<lparr>next_free := j\<rparr> else slot_at b j))"
  using assms
proof (induction out arbitrary: b)
  case (Cons i out)
  then show ?case
    using Cons.IH [of "set_next_free i i b"] by (auto simp: cache_indices_def slot_at_set_next_free)
qed (simp add: cache_indices_def)

lemma try_pop_many_spec:
  assumes ok: "block_ok P this b" and pop: "try_pop_many P n b = (out, b')"
  shows "out = take n (free_list b) \<and> block_ok P this b' \<and> free_list b' = drop n (free_list b) \<and> blk_next b' = blk_next b"
proof (cases "n = 0 \<or> free_list b = []")
  case True
  moreover have "free_head_index (free_head b) = null_slot_index" if "free_list b = []"
    using ok that by (simp add: block_ok_def)
  ultimately have "out = []" "b' = b" using pop by (auto simp: try_pop_many_def Let_def split: if_splits)
  then show ?thesis using ok True by auto
next
  case False
  let ?is = "free_list b"
  have linked: "linked b (free_head_index (free_head b)) ?is" and distinct: "distinct ?is"
    using ok by (simp_all add: block_ok_def)
  obtain rest where walk: "pop_walk b n (free_head_index (free_head b)) = (take n ?is, rest)" "linked b rest (drop n ?is)"
    using linked_walk [OF linked] by blast
  have "free_head_index (free_head b) \<noteq> null_slot_index" using False linked by (cases ?is) auto
  then have res: "out = take n ?is"
    "b' = cache_indices P (take n ?is) (b\<lparr>free_head := pack_free_head rest (free_head_version (free_head b) + 1)\<rparr>)"
    using pop False walk by (auto simp: try_pop_many_def Let_def)
  have range: "unat i < length (blk_slots b)" if "i \<in> set (take n ?is)" for i
    using linked_range [OF linked] in_set_takeD [OF that] by blast
  have slots: "length (blk_slots b') = length (blk_slots b)" "blk_next b' = blk_next b" "free_head_index (free_head b') = rest"
    and at: "slot_at b' j =
      (if cache_allocated_slot_index P \<and> j \<in> set (take n ?is) then (slot_at b j)\<lparr>next_free := j\<rparr> else slot_at b j)" for j
    using cache_indices_slots [of "take n ?is" "b\<lparr>free_head := pack_free_head rest (free_head_version (free_head b) + 1)\<rparr>" P] range
    by (auto simp: res(2))
  have disjoint: "set (take n ?is) \<inter> set (drop n ?is) = {}" using distinct by (rule set_take_disj_set_drop_if_distinct) simp
  have "block_ok P this b' \<and> free_list b' = drop n ?is"
  proof (rule block_okI)
    have "next_free (slot_at b' i) = next_free (slot_at b i)" if "i \<in> set (drop n ?is)" for i
      using disjoint that by (auto simp: at disjoint_iff)
    then show "linked b' (free_head_index (free_head b')) (drop n ?is)"
      using linked_frame [OF walk(2) slots(1)] slots(3) by simp
    show "next_free (slot_at b' i) = i"
      if c: "cache_allocated_slot_index P" and i: "i \<in> slot_range P" "i \<notin> set (drop n ?is)" for i
    proof (cases "i \<in> set (take n ?is)")
      case False
      then have "i \<notin> set ?is" using i(2) by (metis UnE append_take_drop_id set_append)
      then show ?thesis using ok c i(1) by (simp add: block_ok_def at False)
    qed (simp add: at c)
  qed (use ok slots distinct in \<open>auto simp: block_ok_def at\<close>)
  then show ?thesis using res(1) slots by simp
qed

lemma released_index:
  assumes "block_ok P this b" "i \<in> slot_range P - set (free_list b)" shows "released_slot_index P i b = i"
  using assms by (simp add: released_slot_index_def block_ok_def)

lemma link_slots_spec:
  assumes "\<And>i. i \<in> set slots \<Longrightarrow> unat i < length (blk_slots b)" "\<And>i. i \<in> set slots \<Longrightarrow> released_slot_index P i b = i"
    "distinct slots"
  shows "length (blk_slots (link_slots P slots b)) = length (blk_slots b) \<and> free_head (link_slots P slots b) = free_head b \<and>
    blk_next (link_slots P slots b) = blk_next b \<and>
    (\<forall>j. slot_owner (slot_at (link_slots P slots b) j) = slot_owner (slot_at b j)) \<and>
    (\<forall>j. j \<notin> set slots \<longrightarrow> slot_at (link_slots P slots b) j = slot_at b j) \<and>
    (\<forall>k. Suc k < length slots \<longrightarrow> next_free (slot_at (link_slots P slots b) (slots ! k)) = slots ! Suc k)"
  using assms
proof (induction P slots b rule: link_slots.induct)
  case (1 P s t slots b)
  let ?b = "set_next_free s (released_slot_index P t b) b"
  have t: "released_slot_index P t b = t" using 1(3) by simp
  have at: "slot_at ?b j = (if j = s then (slot_at b s)\<lparr>next_free := t\<rparr> else slot_at b j)" for j
    using slot_at_set_next_free [of s b] 1(2) t by simp
  have "released_slot_index P i ?b = i" if "i \<in> set (t # slots)" for i
    using 1(3) [of i] 1(4) that at by (auto simp: released_slot_index_def)
  then have IH: "length (blk_slots (link_slots P (t # slots) ?b)) = length (blk_slots ?b) \<and>
      free_head (link_slots P (t # slots) ?b) = free_head ?b \<and> blk_next (link_slots P (t # slots) ?b) = blk_next ?b \<and>
      (\<forall>j. slot_owner (slot_at (link_slots P (t # slots) ?b) j) = slot_owner (slot_at ?b j)) \<and>
      (\<forall>j. j \<notin> set (t # slots) \<longrightarrow> slot_at (link_slots P (t # slots) ?b) j = slot_at ?b j) \<and>
      (\<forall>k. Suc k < length (t # slots) \<longrightarrow> next_free (slot_at (link_slots P (t # slots) ?b) ((t # slots) ! k)) = (t # slots) ! Suc k)"
    using 1 by simp
  have "next_free (slot_at (link_slots P (t # slots) ?b) ((s # t # slots) ! k)) = (s # t # slots) ! Suc k"
    if "Suc k < length (s # t # slots)" for k
    using IH 1(4) at that by (cases k) auto
  then show ?case using IH at 1(4) by auto
qed auto

lemma linked_append:
  assumes "slots \<noteq> []" "\<And>i. i \<in> set slots \<Longrightarrow> i \<noteq> null_slot_index \<and> unat i < length (blk_slots b)"
    "\<And>k. Suc k < length slots \<Longrightarrow> next_free (slot_at b (slots ! k)) = slots ! Suc k"
    "linked b (next_free (slot_at b (last slots))) is"
  shows "linked b (hd slots) (slots @ is)"
  using assms
proof (induction slots)
  case (Cons s slots)
  show ?case
  proof (cases slots)
    case (Cons t rest)
    have "next_free (slot_at b s) = t" using Cons.prems(3) [of 0] \<open>slots = t # rest\<close> by simp
    moreover have "next_free (slot_at b (slots ! k)) = slots ! Suc k" if "Suc k < length slots" for k
      using Cons.prems(3) [of "Suc k"] that by simp
    moreover have "linked b (next_free (slot_at b (last slots))) is" using Cons.prems(4) Cons by simp
    ultimately show ?thesis using Cons.IH Cons.prems(2) Cons by auto
  qed (use Cons.prems in auto)
qed simp

text \<open>Valid parameters leave every index of a slot below the null index.\<close>

lemma slot_range_not_null: "pool_params_valid P \<Longrightarrow> i \<in> slot_range P \<Longrightarrow> i \<noteq> null_slot_index"
  by (auto simp: pool_params_valid_def slot_range_def)

lemma push_many_spec:
  assumes valid: "pool_params_valid P" and ok: "block_ok P this b" and slots: "slots \<noteq> []" "distinct slots"
    "set slots \<subseteq> slot_range P - set (free_list b)"
  shows "block_ok P this (push_many P slots b) \<and> free_list (push_many P slots b) = slots @ free_list b \<and>
    blk_next (push_many P slots b) = blk_next b"
proof -
  let ?is = "free_list b" and ?l = "link_slots P slots b"
  let ?b = "set_next_free (last slots) (free_head_index (free_head b)) ?l"
  have len: "length (blk_slots b) = chunk_size P" and linked: "linked b (free_head_index (free_head b)) ?is"
    and distinct: "distinct ?is" using ok by (simp_all add: block_ok_def)
  have range: "unat i < length (blk_slots b)" "released_slot_index P i b = i" if "i \<in> set slots" for i
    using slots(3) released_index [OF ok, of i] that len by (auto simp: slot_range_def)
  note link = link_slots_spec [of slots b P, OF range slots(2)]
  have lastl: "unat (last slots) < length (blk_slots ?l)" using link range slots(1) by simp
  have at: "slot_at ?b j = (if j = last slots then (slot_at ?l j)\<lparr>next_free := free_head_index (free_head b)\<rparr> else slot_at ?l j)" for j
    using slot_at_set_next_free [OF lastl] by simp
  have eq: "push_many P slots b = ?b\<lparr>free_head := pack_free_head (hd slots) (free_head_version (free_head b) + 1)\<rparr>"
    using range(2) [of "hd slots"] slots(1) link by (simp add: push_many_def Let_def)
  have out: "i \<notin> set slots" if "i \<in> set ?is" for i using slots(3) that by auto
  have "block_ok P this (push_many P slots b) \<and> free_list (push_many P slots b) = slots @ ?is"
  proof (rule block_okI)
    have "next_free (slot_at ?b (slots ! k)) = slots ! Suc k" if "Suc k < length slots" for k
    proof -
      have "slots ! k \<noteq> last slots" using that slots(1,2) by (simp add: last_conv_nth nth_eq_iff_index_eq)
      then show ?thesis using link that by (simp add: at)
    qed
    moreover have "linked ?b (next_free (slot_at ?b (last slots))) ?is"
    proof -
      have "next_free (slot_at ?b i) = next_free (slot_at b i)" if "i \<in> set ?is" for i
        using out [OF that] link slots(1) by (auto simp: at)
      then have "linked ?b (free_head_index (free_head b)) ?is" using linked_frame [OF linked, of ?b] link by simp
      then show ?thesis by (simp add: at)
    qed
    ultimately have "linked ?b (hd slots) (slots @ ?is)"
      using linked_append [of slots ?b ?is] slots range(1) link slot_range_not_null [OF valid] by fastforce
    then show "linked (push_many P slots b) (free_head_index (free_head (push_many P slots b))) (slots @ ?is)"
      using linked_frame [of ?b "hd slots" "slots @ ?is" "push_many P slots b"] by (simp add: eq)
    show "next_free (slot_at (push_many P slots b) i) = i"
      if "cache_allocated_slot_index P" "i \<in> slot_range P" "i \<notin> set (slots @ ?is)" for i
      using ok that link slots(1) by (auto simp: eq at block_ok_def)
  qed (use len link ok slots(2,3) distinct in \<open>auto simp: eq at block_ok_def\<close>)
  then show ?thesis using link by (simp add: eq)
qed

lemma push_is_push_many: "block_push P slot b = push_many P [slot] b"
  by (simp add: block_push_def push_many_def)

lemma block_new_spec:
  assumes "pool_params_valid P"
  shows "block_ok P this (block_new P this) \<and> free_list (block_new P this) = map of_nat [0..<chunk_size P]"
proof -
  let ?c = "chunk_size P" and ?b = "block_new P this"
  have small: "?c < 2 ^ 16 - 1" "0 < ?c"
    using assms by (simp_all add: pool_params_valid_def null_slot_index_def unsigned_minus_1_eq_mask mask_eq_exp_minus_1)
  have len: "length (blk_slots ?b) = ?c" by (simp add: block_new_def)
  have unat: "unat (of_nat i :: u16) = i" if "i < ?c" for i using small that by (simp add: unat_of_nat)
  have at: "slot_at ?b (of_nat i) = \<lparr>slot_owner = this, next_free = if i + 1 < ?c then of_nat (i + 1) else null_slot_index\<rparr>"
    if "i < ?c" for i using that by (simp add: slot_at_def block_new_def unat)
  have range: "(of_nat i :: u16) \<in> slot_range P" if "i < ?c" for i using that by (simp add: slot_range_def unat)
  have linked: "linked ?b (if i < ?c then of_nat i else null_slot_index) (map of_nat [i..<?c])" if "i \<le> ?c" for i
    using that
  proof (induction "?c - i" arbitrary: i)
    case (Suc d)
    then have i: "i < ?c" by simp
    then have "linked ?b (if Suc i < ?c then of_nat (Suc i) else null_slot_index) (map of_nat [Suc i..<?c])" using Suc by simp
    then show ?case
      using i len unat [OF i] slot_range_not_null [OF assms range [OF i]] at [OF i] by (auto simp: upt_conv_Cons [OF i] simp del: of_nat_Suc split: if_splits)
  qed simp
  show ?thesis
  proof (rule block_okI)
    show "linked ?b (free_head_index (free_head ?b)) (map of_nat [0..<?c])"
      using linked [of 0] small by (simp add: block_new_def)
    show "slot_owner (slot_at ?b i) = this" if "i \<in> slot_range P" for i
      using that by (simp add: slot_at_def block_new_def slot_range_def)
    show "distinct (map of_nat [0..<?c] :: u16 list)"
      by (auto simp: distinct_map inj_on_def) (metis unat)
    show "next_free (slot_at ?b i) = i" if "i \<in> slot_range P" "i \<notin> set (map of_nat [0..<?c])" for i
    proof -
      have "of_nat (unat i) \<in> set (map of_nat [0..<?c] :: u16 list)" using that(1) unfolding slot_range_def by (force simp del: of_nat_unat)
      then show ?thesis using that(2) by simp
    qed
  qed (simp add: len)
qed

end
