(* ===== verification/Object_Pool.thy ===== *)
theory Object_Pool
  imports Pool_Block
begin

section \<open>The object pool\<close>

text \<open>
  Models \<^verbatim>\<open>ObjectPool\<close> (\<^verbatim>\<open>detail/memory/object_pool.hpp\<close>) as one thread runs it: the thread-local caches, the set of
  pools to release to directly, taking and giving back slots, and the list of blocks.  The array
  of a cache is its prefix in use; the caches of a thread are one list, the primary one first, and
  a reference to a cache is its position.  \<^verbatim>\<open>new\<close> gives an address that was never used; objects are built
  and destroyed by their own code, only whether a constructor throws matters here.  What the
  operations keep is in \<open>Pool_Accounting\<close>.
\<close>

type_synonym paddr = nat

record local_cache =
  lc_owner :: "paddr ptr"
  lc_slots :: "slot_ptr list"
  locally_acquired :: bool

record direct_release_set =
  dr_owners :: "paddr ptr list"
  dr_next_victim :: nat

record cache_set =
  cs_caches :: "local_cache list"
  active_overflow_index :: nat
  cs_next_victim :: nat

record object_pool =
  pool_blocks :: "baddr ptr"
  hot_block :: "baddr ptr"
  block_count :: u64

record pool_world =
  pw_block :: "baddr \<Rightarrow> pool_block option"
  pw_fresh :: baddr
  pw_pool :: "paddr \<Rightarrow> object_pool"
  pw_caches :: cache_set
  pw_direct :: direct_release_set

definition cache_new :: local_cache where
  "cache_new = \<lparr>lc_owner = None, lc_slots = [], locally_acquired = False\<rparr>"

definition pool_new :: object_pool where
  "pool_new = \<lparr>pool_blocks = None, hot_block = None, block_count = 0\<rparr>"

text \<open>The thread-local objects of a thread that has not used a pool.\<close>

definition caches_new :: "pool_params \<Rightarrow> cache_set" where
  "caches_new P = \<lparr>cs_caches = replicate (local_cache_set_size P) cache_new, active_overflow_index = 0, cs_next_victim = 0\<rparr>"

definition direct_new :: "pool_params \<Rightarrow> direct_release_set" where
  "direct_new P = \<lparr>dr_owners = replicate (direct_release_set_size P) None, dr_next_victim = 0\<rparr>"

definition world_new :: "pool_params \<Rightarrow> pool_world" where
  "world_new P = \<lparr>pw_block = Map.empty, pw_fresh = 0, pw_pool = (\<lambda>_. pool_new), pw_caches = caches_new P, pw_direct = direct_new P\<rparr>"

definition block_at :: "pool_world \<Rightarrow> baddr \<Rightarrow> pool_block" where
  "block_at w b = the (pw_block w b)"

definition set_block :: "baddr \<Rightarrow> pool_block \<Rightarrow> pool_world \<Rightarrow> pool_world" where
  "set_block b x w = w\<lparr>pw_block := (pw_block w)(b \<mapsto> x)\<rparr>"

definition cache_at :: "pool_world \<Rightarrow> nat \<Rightarrow> local_cache" where
  "cache_at w k = cs_caches (pw_caches w) ! k"

definition update_cache :: "nat \<Rightarrow> (local_cache \<Rightarrow> local_cache) \<Rightarrow> pool_world \<Rightarrow> pool_world" where
  "update_cache k f w = w\<lparr>pw_caches := (pw_caches w)\<lparr>cs_caches := (cs_caches (pw_caches w))[k := f (cache_at w k)]\<rparr>\<rparr>"

definition owner_of :: "pool_world \<Rightarrow> slot_ptr \<Rightarrow> baddr" where
  "owner_of w s = slot_owner (slot_at (block_at w (fst s)) (snd s))"

subsection \<open>A cache\<close>

text \<open>The length of the run of slots of one block at the end of a cache, at most \<open>todo\<close>.\<close>

fun run_length :: "pool_world \<Rightarrow> baddr \<Rightarrow> nat \<Rightarrow> slot_ptr list \<Rightarrow> nat" where
  "run_length w b (Suc todo) (s # slots) = (if owner_of w s = b then Suc (run_length w b todo slots) else 0)"
| "run_length w b _ _ = 0"

lemma run_length_le: "run_length w b todo slots \<le> length slots"
  by (induction w b todo slots rule: run_length.induct) auto

lemma run_length_todo: "run_length w b todo slots \<le> todo"
  by (induction w b todo slots rule: run_length.induct) auto

lemma run_length_pos: "todo \<noteq> 0 \<Longrightarrow> slots \<noteq> [] \<Longrightarrow> owner_of w (hd slots) = b \<Longrightarrow> 0 < run_length w b todo slots"
  by (cases todo; cases slots) auto

function flush_some :: "pool_params \<Rightarrow> nat \<Rightarrow> nat \<Rightarrow> pool_world \<Rightarrow> pool_world" where
  "flush_some P k todo w =
     (let slots = lc_slots (cache_at w k)
      in if todo = 0 \<or> slots = [] \<or> k \<ge> length (cs_caches (pw_caches w)) then w
         else let b = owner_of w (last slots);
                  n = run_length w b todo (rev slots);
                  top = length slots;
                  w = update_cache k (\<lambda>c. c\<lparr>lc_slots := take (top - n) slots\<rparr>) w;
                  w = set_block b (push_many P (map snd (drop (top - n) slots)) (block_at w b)) w
              in flush_some P k (todo - n) w)"
  by pat_completeness auto
termination
proof (relation "measure (\<lambda>(P, k, todo, w). length (lc_slots (cache_at w k)))", goal_cases)
  case (2 P k todo w slots b n size w1 w2)
  then have "0 < n" using run_length_pos [of todo "rev slots" w b] by (simp add: hd_rev)
  then show ?case using 2 by (simp add: update_cache_def set_block_def cache_at_def)
qed simp

declare flush_some.simps [simp del]

definition cache_flush :: "pool_params \<Rightarrow> nat \<Rightarrow> pool_world \<Rightarrow> pool_world" where
  "cache_flush P k w =
     update_cache k (\<lambda>c. c\<lparr>locally_acquired := False, lc_owner := None\<rparr>)
       (flush_some P k (length (lc_slots (cache_at w k))) w)"

definition reset_for :: "pool_params \<Rightarrow> paddr \<Rightarrow> nat \<Rightarrow> pool_world \<Rightarrow> pool_world" where
  "reset_for P pool k w =
     (if lc_owner (cache_at w k) = Some pool then w
      else update_cache k (\<lambda>c. c\<lparr>lc_owner := Some pool\<rparr>) (cache_flush P k w))"

definition discard_if_owner :: "paddr \<Rightarrow> local_cache \<Rightarrow> local_cache" where
  "discard_if_owner pool c =
     (if lc_owner c = Some pool then c\<lparr>lc_slots := [], locally_acquired := False, lc_owner := None\<rparr> else c)"

definition cache_pop :: "nat \<Rightarrow> pool_world \<Rightarrow> slot_ptr ptr \<times> pool_world" where
  "cache_pop k w =
     (let slots = lc_slots (cache_at w k)
      in if slots = [] then (None, w) else (Some (last slots), update_cache k (\<lambda>c. c\<lparr>lc_slots := butlast slots\<rparr>) w))"

definition cache_push :: "slot_ptr \<Rightarrow> nat \<Rightarrow> pool_world \<Rightarrow> pool_world" where
  "cache_push slot k w = update_cache k (\<lambda>c. c\<lparr>lc_slots := lc_slots c @ [slot]\<rparr>) w"

definition push_remote_release :: "pool_params \<Rightarrow> slot_ptr \<Rightarrow> nat \<Rightarrow> pool_world \<Rightarrow> pool_world" where
  "push_remote_release P slot k w =
     (let w = cache_push slot k w; size = length (lc_slots (cache_at w k))
      in if size = remote_release_batch_size P then flush_some P k size w else w)"

definition cache_full :: "pool_params \<Rightarrow> local_cache \<Rightarrow> bool" where
  "cache_full P c \<longleftrightarrow> length (lc_slots c) = local_cache_capacity P"

definition mark_locally_acquired :: "nat \<Rightarrow> pool_world \<Rightarrow> pool_world" where
  "mark_locally_acquired k w = update_cache k (\<lambda>c. c\<lparr>locally_acquired := True\<rparr>) w"

definition caches_releases :: "local_cache \<Rightarrow> bool" where
  "caches_releases c \<longleftrightarrow> locally_acquired c"

subsection \<open>Pools that are released to directly\<close>

definition direct_contains :: "paddr \<Rightarrow> direct_release_set \<Rightarrow> bool" where
  "direct_contains pool d \<longleftrightarrow> Some pool \<in> set (dr_owners d)"

fun first_null :: "paddr ptr list \<Rightarrow> nat \<Rightarrow> nat option" where
  "first_null [] i = None"
| "first_null (x # xs) i = (if x = None then Some i else first_null xs (i + 1))"

definition next_in :: "nat \<Rightarrow> nat \<Rightarrow> nat" where
  "next_in n i = (if i + 1 = n then 0 else i + 1)"

definition direct_insert :: "pool_params \<Rightarrow> paddr \<Rightarrow> direct_release_set \<Rightarrow> direct_release_set" where
  "direct_insert P pool d =
     (if direct_contains pool d then d
      else case first_null (dr_owners d) 0 of
             Some i \<Rightarrow> d\<lparr>dr_owners := (dr_owners d)[i := Some pool], dr_next_victim := next_in (direct_release_set_size P) i\<rparr>
           | None \<Rightarrow> d\<lparr>dr_owners := (dr_owners d)[dr_next_victim d := Some pool],
                       dr_next_victim := next_in (direct_release_set_size P) (dr_next_victim d)\<rparr>)"

definition direct_erase :: "paddr \<Rightarrow> direct_release_set \<Rightarrow> direct_release_set" where
  "direct_erase pool d = d\<lparr>dr_owners := map (\<lambda>x. if x = Some pool then None else x) (dr_owners d)\<rparr>"

definition direct_release_contains :: "pool_params \<Rightarrow> paddr \<Rightarrow> pool_world \<Rightarrow> bool" where
  "direct_release_contains P pool w \<longleftrightarrow> remote_release_batch_size P = 1 \<and> direct_contains pool (pw_direct w)"

definition direct_release_insert :: "pool_params \<Rightarrow> paddr \<Rightarrow> pool_world \<Rightarrow> pool_world" where
  "direct_release_insert P pool w =
     (if remote_release_batch_size P = 1 then w\<lparr>pw_direct := direct_insert P pool (pw_direct w)\<rparr> else w)"

definition direct_release_erase :: "pool_params \<Rightarrow> paddr \<Rightarrow> pool_world \<Rightarrow> pool_world" where
  "direct_release_erase P pool w =
     (if remote_release_batch_size P = 1 then w\<lparr>pw_direct := direct_erase pool (pw_direct w)\<rparr> else w)"

subsection \<open>The caches of a thread\<close>

definition overflow_cache_count :: "pool_params \<Rightarrow> nat" where
  "overflow_cache_count P = local_cache_set_size P - 1"

definition set_active_overflow :: "nat \<Rightarrow> pool_world \<Rightarrow> pool_world" where
  "set_active_overflow i w = w\<lparr>pw_caches := (pw_caches w)\<lparr>active_overflow_index := i\<rparr>\<rparr>"

definition overflow_owner :: "pool_world \<Rightarrow> nat \<Rightarrow> paddr ptr" where
  "overflow_owner w i = lc_owner (cache_at w (i + 1))"

definition find_overflow :: "pool_params \<Rightarrow> paddr ptr \<Rightarrow> pool_world \<Rightarrow> nat option" where
  "find_overflow P owner w = find (\<lambda>i. overflow_owner w i = owner) [0..<overflow_cache_count P]"

definition next_overflow_hint :: "pool_params \<Rightarrow> paddr \<Rightarrow> pool_world \<Rightarrow> nat option \<times> pool_world" where
  "next_overflow_hint P pool w =
     (let active = active_overflow_index (pw_caches w); next = next_in (overflow_cache_count P) active
      in if next \<noteq> active \<and> overflow_owner w next = Some pool then (Some (next + 1), set_active_overflow next w) else (None, w))"

definition single_get_slow :: "pool_params \<Rightarrow> paddr \<Rightarrow> pool_world \<Rightarrow> nat \<times> pool_world" where
  "single_get_slow P pool w = (0, reset_for P pool 0 (direct_release_erase P pool w))"

definition multi_get_slow :: "pool_params \<Rightarrow> paddr \<Rightarrow> pool_world \<Rightarrow> nat \<times> pool_world" where
  "multi_get_slow P pool w =
     (let w = direct_release_erase P pool w
      in case find_overflow P (Some pool) w of
           Some i \<Rightarrow> (i + 1, set_active_overflow i w)
         | None \<Rightarrow>
             if lc_owner (cache_at w 0) = None then (0, reset_for P pool 0 w)
             else (case find_overflow P None w of
                     Some i \<Rightarrow> (i + 1, set_active_overflow i (reset_for P pool (i + 1) w))
                   | None \<Rightarrow>
                       let victim = cs_next_victim (pw_caches w);
                           w = w\<lparr>pw_caches := (pw_caches w)\<lparr>cs_next_victim := next_in (overflow_cache_count P) victim\<rparr>\<rparr>
                       in (victim + 1, set_active_overflow victim (reset_for P pool (victim + 1) w))))"

definition caches_get :: "pool_params \<Rightarrow> paddr \<Rightarrow> pool_world \<Rightarrow> nat \<times> pool_world" where
  "caches_get P pool w =
     (if lc_owner (cache_at w 0) = Some pool then (0, w)
      else if local_cache_set_size P = 1 then single_get_slow P pool w
      else if overflow_owner w (active_overflow_index (pw_caches w)) = Some pool
      then (active_overflow_index (pw_caches w) + 1, w)
      else case next_overflow_hint P pool w of
             (Some k, w) \<Rightarrow> (k, w)
           | (None, w) \<Rightarrow> multi_get_slow P pool w)"

definition find_release_cache_slow :: "pool_params \<Rightarrow> paddr \<Rightarrow> pool_world \<Rightarrow> nat option \<times> pool_world" where
  "find_release_cache_slow P pool w =
     (case find_overflow P (Some pool) w of
        Some i \<Rightarrow> (Some (i + 1), set_active_overflow i w)
      | None \<Rightarrow> (None, direct_release_insert P pool w))"

definition find_release_cache :: "pool_params \<Rightarrow> paddr \<Rightarrow> pool_world \<Rightarrow> nat option \<times> pool_world" where
  "find_release_cache P pool w =
     (if lc_owner (cache_at w 0) = Some pool then (Some 0, w)
      else if local_cache_set_size P = 1
      then (None, if direct_release_contains P pool w then w else direct_release_insert P pool w)
      else if overflow_owner w (active_overflow_index (pw_caches w)) = Some pool
      then (Some (active_overflow_index (pw_caches w) + 1), w)
      else if direct_release_contains P pool w then (None, w)
      else case next_overflow_hint P pool w of
             (Some k, w) \<Rightarrow> (Some k, w)
           | (None, w) \<Rightarrow> find_release_cache_slow P pool w)"

definition caches_discard_if_owner :: "pool_params \<Rightarrow> paddr \<Rightarrow> pool_world \<Rightarrow> pool_world" where
  "caches_discard_if_owner P pool w =
     direct_release_erase P pool
       (w\<lparr>pw_caches := (pw_caches w)\<lparr>cs_caches := map (discard_if_owner pool) (cs_caches (pw_caches w))\<rparr>\<rparr>)"

subsection \<open>Taking and giving back slots\<close>

definition refill_cache_from_block :: "pool_params \<Rightarrow> nat \<Rightarrow> baddr \<Rightarrow> pool_world \<Rightarrow> pool_world" where
  "refill_cache_from_block P k b w =
     (let available = local_cache_capacity P - length (lc_slots (cache_at w k));
          (out, x) = try_pop_many P available (block_at w b)
      in update_cache k (\<lambda>c. c\<lparr>lc_slots := lc_slots c @ map (Pair b) out\<rparr>) (set_block b x w))"

definition flush_full_cache :: "pool_params \<Rightarrow> nat \<Rightarrow> pool_world \<Rightarrow> pool_world" where
  "flush_full_cache P k w = flush_some P k (local_cache_flush_count P) w"

definition update_pool :: "paddr \<Rightarrow> (object_pool \<Rightarrow> object_pool) \<Rightarrow> pool_world \<Rightarrow> pool_world" where
  "update_pool p f w = w\<lparr>pw_pool := (pw_pool w)(p := f (pw_pool w p))\<rparr>"

definition add_block :: "pool_params \<Rightarrow> paddr \<Rightarrow> pool_world \<Rightarrow> baddr \<times> pool_world" where
  "add_block P p w =
     (let b = pw_fresh w;
          w = set_block b ((block_new P b)\<lparr>blk_next := pool_blocks (pw_pool w p)\<rparr>) (w\<lparr>pw_fresh := b + 1\<rparr>);
          w = update_pool p (\<lambda>x. x\<lparr>pool_blocks := Some b\<rparr>) w;
          w = update_pool p (\<lambda>x. x\<lparr>block_count := block_count x + 1\<rparr>) w
      in (b, update_pool p (\<lambda>x. x\<lparr>hot_block := Some b\<rparr>) w))"

partial_function (option) scan_blocks ::
    "pool_params \<Rightarrow> paddr \<Rightarrow> nat \<Rightarrow> baddr ptr \<Rightarrow> pool_world \<Rightarrow> (slot_ptr ptr \<times> pool_world) option" where
  "scan_blocks params p k block w =
     (case block of
        None \<Rightarrow> Some (None, w)
      | Some b \<Rightarrow>
          (case cache_pop k (refill_cache_from_block params k b w) of
             (Some s, w) \<Rightarrow> Some (Some s, update_pool p (\<lambda>x. x\<lparr>hot_block := Some b\<rparr>) w)
           | (None, w) \<Rightarrow> scan_blocks params p k (blk_next (block_at w b)) w))"

definition try_hot_block :: "pool_params \<Rightarrow> paddr \<Rightarrow> nat \<Rightarrow> pool_world \<Rightarrow> slot_ptr ptr \<times> pool_world" where
  "try_hot_block P p k w =
     (case hot_block (pw_pool w p) of
        None \<Rightarrow> (None, w)
      | Some b \<Rightarrow> cache_pop k (refill_cache_from_block P k b w))"

partial_function (option) acquire_slot_slow ::
    "pool_params \<Rightarrow> paddr \<Rightarrow> nat \<Rightarrow> pool_world \<Rightarrow> (slot_ptr \<times> pool_world) option" where
  "acquire_slot_slow params p k w =
     (case try_hot_block params p k w of
        (Some s, w) \<Rightarrow> Some (s, w)
      | (None, w) \<Rightarrow>
          Option.bind (scan_blocks params p k (pool_blocks (pw_pool w p)) w) (\<lambda>(found, w).
            case found of
              Some s \<Rightarrow> Some (s, w)
            | None \<Rightarrow>
                let (b, w) = add_block params p w
                in case cache_pop k (refill_cache_from_block params k b w) of
                     (Some s, w) \<Rightarrow> Some (s, w)
                   | (None, w) \<Rightarrow> acquire_slot_slow params p k w))"

definition acquire_slot :: "pool_params \<Rightarrow> paddr \<Rightarrow> pool_world \<Rightarrow> (slot_ptr \<times> pool_world) option" where
  "acquire_slot P p w =
     (let (k, w) = caches_get P p w
      in case cache_pop k w of
           (Some s, w) \<Rightarrow> Some (s, if \<not> caches_releases (cache_at w k) then mark_locally_acquired k w else w)
         | (None, w) \<Rightarrow> acquire_slot_slow P p k (mark_locally_acquired k w))"

definition block_push_slot :: "pool_params \<Rightarrow> slot_ptr \<Rightarrow> pool_world \<Rightarrow> pool_world" where
  "block_push_slot P s w = (let b = owner_of w s in set_block b (block_push P (snd s) (block_at w b)) w)"

definition release_slot :: "pool_params \<Rightarrow> paddr \<Rightarrow> slot_ptr \<Rightarrow> pool_world \<Rightarrow> pool_world" where
  "release_slot P p s w =
     (if remote_release_batch_size P = 1
      then (case find_release_cache P p w of
              (Some k, w) \<Rightarrow>
                if caches_releases (cache_at w k)
                then cache_push s k (if cache_full P (cache_at w k) then flush_full_cache P k w else w)
                else block_push_slot P s w
            | (None, w) \<Rightarrow> block_push_slot P s w)
      else let (k, w) = caches_get P p w
           in if \<not> caches_releases (cache_at w k) then push_remote_release P s k w
              else cache_push s k (if cache_full P (cache_at w k) then flush_full_cache P k w else w))"

text \<open>Without the caches.\<close>

definition pop_block_slot :: "pool_params \<Rightarrow> baddr \<Rightarrow> pool_world \<Rightarrow> slot_ptr ptr \<times> pool_world" where
  "pop_block_slot P b w =
     (case try_pop_many P 1 (block_at w b) of
        ([], x) \<Rightarrow> (None, set_block b x w)
      | (i # _, x) \<Rightarrow> (Some (b, i), set_block b x w))"

partial_function (option) scan_blocks_uncached ::
    "pool_params \<Rightarrow> paddr \<Rightarrow> baddr ptr \<Rightarrow> pool_world \<Rightarrow> (slot_ptr ptr \<times> pool_world) option" where
  "scan_blocks_uncached params p block w =
     (case block of
        None \<Rightarrow> Some (None, w)
      | Some b \<Rightarrow>
          (case pop_block_slot params b w of
             (Some s, w) \<Rightarrow> Some (Some s, update_pool p (\<lambda>x. x\<lparr>hot_block := Some b\<rparr>) w)
           | (None, w) \<Rightarrow> scan_blocks_uncached params p (blk_next (block_at w b)) w))"

partial_function (option) acquire_slot_uncached ::
    "pool_params \<Rightarrow> paddr \<Rightarrow> pool_world \<Rightarrow> (slot_ptr \<times> pool_world) option" where
  "acquire_slot_uncached params p w =
     (case (case hot_block (pw_pool w p) of None \<Rightarrow> (None, w) | Some b \<Rightarrow> pop_block_slot params b w) of
        (Some s, w) \<Rightarrow> Some (s, w)
      | (None, w) \<Rightarrow>
          Option.bind (scan_blocks_uncached params p (pool_blocks (pw_pool w p)) w) (\<lambda>(found, w).
            case found of
              Some s \<Rightarrow> Some (s, w)
            | None \<Rightarrow>
                let (b, w) = add_block params p w
                in case pop_block_slot params b w of
                     (Some s, w) \<Rightarrow> Some (s, w)
                   | (None, w) \<Rightarrow> acquire_slot_uncached params p w))"

definition release_slot_uncached :: "pool_params \<Rightarrow> slot_ptr \<Rightarrow> pool_world \<Rightarrow> pool_world" where
  "release_slot_uncached P s w = block_push_slot P s w"

subsection \<open>The interface\<close>

text \<open>\<^term>\<open>throws\<close> says that the constructor of the object throws: the result is then no object.\<close>

definition create :: "pool_params \<Rightarrow> paddr \<Rightarrow> bool \<Rightarrow> pool_world \<Rightarrow> (slot_ptr ptr \<times> pool_world) option" where
  "create P p throws w =
     map_option (\<lambda>(s, w). if throws then (None, release_slot P p s w) else (Some s, w)) (acquire_slot P p w)"

definition create_uncached :: "pool_params \<Rightarrow> paddr \<Rightarrow> bool \<Rightarrow> pool_world \<Rightarrow> (slot_ptr ptr \<times> pool_world) option" where
  "create_uncached P p throws w =
     map_option (\<lambda>(s, w). if throws then (None, release_slot_uncached P s w) else (Some s, w)) (acquire_slot_uncached P p w)"

definition destroy :: "pool_params \<Rightarrow> paddr \<Rightarrow> slot_ptr \<Rightarrow> pool_world \<Rightarrow> pool_world" where
  "destroy P p s w = release_slot P p s w"

definition destroy_uncached :: "pool_params \<Rightarrow> slot_ptr \<Rightarrow> pool_world \<Rightarrow> pool_world" where
  "destroy_uncached P s w = release_slot_uncached P s w"

function reserve_blocks :: "pool_params \<Rightarrow> paddr \<Rightarrow> u64 \<Rightarrow> pool_world \<Rightarrow> pool_world" where
  "reserve_blocks P p n w =
     (if block_count (pw_pool w p) < n then reserve_blocks P p n (snd (add_block P p w)) else w)"
  by pat_completeness auto
termination
proof (relation "measure (\<lambda>(P, p, n, w). unat n - unat (block_count (pw_pool w p)))", goal_cases)
  case (2 P p n w)
  then have "unat (block_count (pw_pool w p) + 1) = unat (block_count (pw_pool w p)) + 1"
    using unat_lt_2_64 [of n] by (simp add: unat_word_ariths word_less_nat_alt)
  then show ?case using 2 by (simp add: add_block_def update_pool_def set_block_def Let_def word_less_nat_alt)
qed simp

declare reserve_blocks.simps [simp del]

definition reserve_slots :: "pool_params \<Rightarrow> paddr \<Rightarrow> u64 \<Rightarrow> pool_world \<Rightarrow> pool_world" where
  "reserve_slots P p slot_count w =
     reserve_blocks P p (if slot_count = 0 then 0 else (slot_count - 1) div of_nat (chunk_size P) + 1) w"

text \<open>The end of a thread flushes its caches; the end of a pool forgets its slots in the caches of that thread.\<close>

definition thread_exit :: "pool_params \<Rightarrow> pool_world \<Rightarrow> pool_world" where
  "thread_exit P w = foldl (\<lambda>w k. cache_flush P k w) w [0..<length (cs_caches (pw_caches w))]"

partial_function (option) delete_blocks :: "baddr ptr \<Rightarrow> pool_world \<Rightarrow> pool_world option" where
  "delete_blocks block w =
     (case block of
        None \<Rightarrow> Some w
      | Some b \<Rightarrow> delete_blocks (blk_next (block_at w b)) (w\<lparr>pw_block := (pw_block w)(b := None)\<rparr>))"

definition destroy_pool :: "pool_params \<Rightarrow> paddr \<Rightarrow> pool_world \<Rightarrow> pool_world option" where
  "destroy_pool P p w =
     (let w = caches_discard_if_owner P p w in delete_blocks (pool_blocks (pw_pool w p)) w)"

end
