(* ===== verification/Pool_Accounting.thy ===== *)
theory Pool_Accounting
  imports Object_Pool "HOL-Library.Multiset"
begin

section \<open>Where the slots of the object pools are\<close>

text \<open>
  The invariant of \<open>Object_Pool\<close>, as an equation of multisets: every slot of every block is in exactly one
  place, free in its block, in one cache, or in use.  Every operation keeps it, for one thread with
  the slots it does not see as a parameter, and then for any number of threads, one call at a time.
\<close>

subsection \<open>Every slot is in one place\<close>

definition slots_of :: "baddr \<Rightarrow> u16 multiset \<Rightarrow> slot_ptr multiset" where
  "slots_of b M = image_mset (Pair b) M"

definition free_mset :: "pool_world \<Rightarrow> slot_ptr multiset" where
  "free_mset w = (\<Sum>b \<in> dom (pw_block w). slots_of b (mset (free_list (block_at w b))))"

definition all_mset :: "pool_params \<Rightarrow> pool_world \<Rightarrow> slot_ptr multiset" where
  "all_mset P w = (\<Sum>b \<in> dom (pw_block w). slots_of b (mset_set (slot_range P)))"

definition cached_mset :: "cache_set \<Rightarrow> slot_ptr multiset" where
  "cached_mset cs = (\<Sum>c \<leftarrow> cs_caches cs. mset (lc_slots c))"

fun block_chain :: "pool_world \<Rightarrow> baddr ptr \<Rightarrow> baddr list \<Rightarrow> bool" where
  "block_chain w block [] \<longleftrightarrow> block = None"
| "block_chain w block (b # bs) \<longleftrightarrow> block = Some b \<and> b \<in> dom (pw_block w) \<and> block_chain w (blk_next (block_at w b)) bs"

definition heap_ok :: "pool_params \<Rightarrow> pool_world \<Rightarrow> bool" where
  "heap_ok P w \<longleftrightarrow>
     finite (dom (pw_block w)) \<and> (\<forall>b \<in> dom (pw_block w). b < pw_fresh w \<and> block_ok P b (block_at w b))"

text \<open>\<open>blks p\<close> are the blocks of the pool \<open>p\<close>.\<close>

definition pools_ok :: "(paddr \<Rightarrow> baddr list) \<Rightarrow> pool_world \<Rightarrow> bool" where
  "pools_ok blks w \<longleftrightarrow>
     (\<forall>p. block_chain w (pool_blocks (pw_pool w p)) (blks p) \<and>
          (\<forall>b. hot_block (pw_pool w p) = Some b \<longrightarrow> b \<in> set (blks p)))"

definition cache_ok :: "pool_params \<Rightarrow> nat \<Rightarrow> (paddr \<Rightarrow> baddr list) \<Rightarrow> local_cache \<Rightarrow> bool" where
  "cache_ok P lim blks c \<longleftrightarrow>
     length (lc_slots c) \<le> local_cache_capacity P \<and> (lc_owner c = None \<longrightarrow> lc_slots c = []) \<and>
     (\<not> locally_acquired c \<longrightarrow> length (lc_slots c) < lim) \<and> (\<forall>p. lc_owner c = Some p \<longrightarrow> fst ` set (lc_slots c) \<subseteq> set (blks p))"

definition caches_ok :: "pool_params \<Rightarrow> nat \<Rightarrow> (paddr \<Rightarrow> baddr list) \<Rightarrow> cache_set \<Rightarrow> bool" where
  "caches_ok P lim blks cs \<longleftrightarrow>
     length (cs_caches cs) = local_cache_set_size P \<and> (\<forall>c \<in> set (cs_caches cs). cache_ok P lim blks c) \<and>
     (local_cache_set_size P > 1 \<longrightarrow>
        active_overflow_index cs < overflow_cache_count P \<and> cs_next_victim cs < overflow_cache_count P)"

text \<open>\<open>R\<close> are the slots in use and in the caches of other threads.\<close>

definition pool_inv :: "pool_params \<Rightarrow> nat \<Rightarrow> (paddr \<Rightarrow> baddr list) \<Rightarrow> slot_ptr multiset \<Rightarrow> pool_world \<Rightarrow> bool" where
  "pool_inv P lim blks R w \<longleftrightarrow>
     0 < lim \<and> heap_ok P w \<and> pools_ok blks w \<and> caches_ok P lim blks (pw_caches w) \<and>
     free_mset w + cached_mset (pw_caches w) + R = all_mset P w"

lemma set_block_simps [simp]:
  "pw_block (set_block b x w) = (pw_block w)(b \<mapsto> x)" "pw_fresh (set_block b x w) = pw_fresh w"
  "pw_pool (set_block b x w) = pw_pool w" "pw_caches (set_block b x w) = pw_caches w"
  "pw_direct (set_block b x w) = pw_direct w" "block_at (set_block b x w) c = (if c = b then x else block_at w c)"
  "cache_at (set_block b x w) k = cache_at w k"
  by (simp_all add: set_block_def block_at_def cache_at_def)

lemma update_cache_simps [simp]:
  "pw_block (update_cache k f w) = pw_block w" "pw_fresh (update_cache k f w) = pw_fresh w"
  "pw_pool (update_cache k f w) = pw_pool w" "pw_direct (update_cache k f w) = pw_direct w"
  "block_at (update_cache k f w) c = block_at w c"
  "cs_caches (pw_caches (update_cache k f w)) = (cs_caches (pw_caches w))[k := f (cache_at w k)]"
  "active_overflow_index (pw_caches (update_cache k f w)) = active_overflow_index (pw_caches w)"
  "cs_next_victim (pw_caches (update_cache k f w)) = cs_next_victim (pw_caches w)"
  by (simp_all add: update_cache_def block_at_def)

lemma cache_at_update [simp]:
  "k < length (cs_caches (pw_caches w)) \<Longrightarrow>
   cache_at (update_cache k f w) j = (if j = k then f (cache_at w k) else cache_at w j)"
  by (simp add: cache_at_def nth_list_update)

lemma sum_list_rest:
  fixes xs :: "'a :: comm_monoid_add list"
  assumes "k < length xs" shows "\<exists>M. sum_list xs = xs ! k + M \<and> (\<forall>y. sum_list (xs[k := y]) = y + M)"
proof -
  have "xs = take k xs @ xs ! k # drop (Suc k) xs" using assms by (simp add: id_take_nth_drop)
  moreover have "xs[k := y] = take k xs @ y # drop (Suc k) xs" for y using assms by (simp add: upd_conv_take_nth_drop)
  ultimately show ?thesis
    by (intro exI [of _ "sum_list (take k xs) + sum_list (drop (Suc k) xs)"])
      (metis (no_types, lifting) add.left_commute sum_list.Cons sum_list.append)
qed

lemma sum_list_empty: "(\<And>x. x \<in> set xs \<Longrightarrow> f x = {#}) \<Longrightarrow> (\<Sum>x \<leftarrow> xs. f x) = {#}"
  by (induction xs) auto

lemma cached_rest:
  assumes "k < length (cs_caches (pw_caches w))"
  obtains M where "cached_mset (pw_caches w) = mset (lc_slots (cache_at w k)) + M"
    "\<And>f. cached_mset (pw_caches (update_cache k f w)) = mset (lc_slots (f (cache_at w k))) + M"
  using sum_list_rest [of k "map (mset \<circ> lc_slots) (cs_caches (pw_caches w))"] assms
  by (auto simp: cached_mset_def comp_def map_update cache_at_def)

lemma free_rest:
  assumes "finite (dom (pw_block w))" "b \<in> dom (pw_block w)"
  obtains M where "free_mset w = slots_of b (mset (free_list (block_at w b))) + M"
    "\<And>x. free_mset (set_block b x w) = slots_of b (mset (free_list x)) + M"
proof
  let ?M = "\<Sum>c \<in> dom (pw_block w) - {b}. slots_of c (mset (free_list (block_at w c)))"
  show "free_mset w = slots_of b (mset (free_list (block_at w b))) + ?M"
    unfolding free_mset_def using assms by (rule sum.remove)
  show "free_mset (set_block b x w) = slots_of b (mset (free_list x)) + ?M" for x
    using assms by (simp add: free_mset_def insert_absorb sum.remove [of _ b])
qed

lemma all_mset_set_block [simp]: "b \<in> dom (pw_block w) \<Longrightarrow> all_mset P (set_block b x w) = all_mset P w"
  by (simp add: all_mset_def insert_absorb)

lemma free_mset_cache [simp]: "free_mset (update_cache k f w) = free_mset w" "all_mset P (update_cache k f w) = all_mset P w"
  by (simp_all add: free_mset_def all_mset_def)

lemma block_chain_frame:
  assumes "block_chain w block bs" "dom (pw_block w) \<subseteq> dom (pw_block w')"
    "\<And>b. b \<in> dom (pw_block w) \<Longrightarrow> blk_next (block_at w' b) = blk_next (block_at w b)"
  shows "block_chain w' block bs"
  using assms by (induction bs arbitrary: block) auto

lemma block_chain_dom: "block_chain w block bs \<Longrightarrow> set bs \<subseteq> dom (pw_block w)"
  by (induction bs arbitrary: block) auto

lemma count_slots_of: "count (slots_of c M) (b, i) = (if c = b then count M i else 0)"
  by (induction M) (auto simp: slots_of_def)

lemma count_all_mset:
  assumes "finite (dom (pw_block w))" shows "count (all_mset P w) s \<le> 1"
proof -
  obtain b i where s: "s = (b, i)" by fastforce
  have "count (slots_of c (mset_set (slot_range P))) (b, i) = (if c = b \<and> i \<in> slot_range P then 1 else 0)" for c
    by (simp add: count_slots_of count_mset_set')
  then have "count (all_mset P w) s = (\<Sum>c \<in> dom (pw_block w). if c = b \<and> i \<in> slot_range P then 1 else 0)"
    by (simp add: all_mset_def s count_sum)
  also have "\<dots> \<le> (\<Sum>c \<in> dom (pw_block w). if c = b then 1 else 0)" by (rule sum_mono) simp
  also have "\<dots> \<le> 1" using assms by simp
  finally show ?thesis .
qed

lemma in_all_mset: "s \<in># all_mset P w \<Longrightarrow> fst s \<in> dom (pw_block w) \<and> snd s \<in> slot_range P"
  by (cases "finite (dom (pw_block w))") (auto simp: all_mset_def slots_of_def set_mset_sum)

text \<open>A slot in a cache or in use is no free one, and in one place only.\<close>

lemma inv_place:
  assumes inv: "pool_inv P lim blks R w" and sub: "mset slots \<subseteq># cached_mset (pw_caches w) + R"
  shows "distinct slots" "(b, i) \<in> set slots \<Longrightarrow> b \<in> dom (pw_block w) \<and> i \<in> slot_range P - set (free_list (block_at w b)) \<and> owner_of w (b, i) = b"
proof -
  have fin: "finite (dom (pw_block w))" and all: "free_mset w + cached_mset (pw_caches w) + R = all_mset P w"
    using inv by (simp_all add: pool_inv_def heap_ok_def)
  have "mset slots + free_mset w \<subseteq># all_mset P w" using sub unfolding all [symmetric] by (simp add: ac_simps)
  then have count: "count (mset slots) s + count (free_mset w) s \<le> 1" for s
    using count_all_mset [OF fin, of P s] mset_subset_eq_count [of "mset slots + free_mset w" "all_mset P w" s] by simp
  have "count (mset slots) s = (if s \<in> set slots then 1 else 0)" for s
  proof (cases "s \<in> set slots")
    case True
    then have "0 < count (mset slots) s" by simp
    then have "count (mset slots) s = 1" using count [of s] by linarith
    then show ?thesis using True by simp
  qed (simp add: count_eq_zero_iff)
  then show "distinct slots" by (simp add: distinct_count_atmost_1)
  assume mem: "(b, i) \<in> set slots"
  then have "(b, i) \<in># cached_mset (pw_caches w) + R" using mset_subset_eqD [OF sub, of "(b, i)"] by simp
  then have "(b, i) \<in># all_mset P w" unfolding all [symmetric] by simp
  then have bi: "b \<in> dom (pw_block w)" "i \<in> slot_range P" using in_all_mset [of "(b, i)" P w] by simp_all
  moreover have "i \<notin> set (free_list (block_at w b))"
  proof
    assume "i \<in> set (free_list (block_at w b))"
    then have "(b, i) \<in># free_mset w" using fin bi(1) by (auto simp: free_mset_def slots_of_def set_mset_sum)
    then have "0 < count (free_mset w) (b, i)" by simp
    moreover have "0 < count (mset slots) (b, i)" using mem by simp
    ultimately show False using count [of "(b, i)"] by linarith
  qed
  moreover have "owner_of w (b, i) = b"
    using inv bi by (simp add: pool_inv_def heap_ok_def block_ok_def owner_of_def)
  ultimately show "b \<in> dom (pw_block w) \<and> i \<in> slot_range P - set (free_list (block_at w b)) \<and> owner_of w (b, i) = b" by simp
qed

lemma move_sums: "A' + R' = A + R \<Longrightarrow> F + (A' + M) + R' = F + (A + M) + (R :: 'a multiset)"
  by (metis add.assoc add.commute)

text \<open>Moving slots between a cache, a block and the users.\<close>

lemma inv_change_cache:
  assumes inv: "pool_inv P lim blks R w" and k: "k < length (cs_caches (pw_caches w))" and ok: "cache_ok P lim blks (f (cache_at w k))"
    and move: "mset (lc_slots (f (cache_at w k))) + R' = mset (lc_slots (cache_at w k)) + R"
  shows "pool_inv P lim blks R' (update_cache k f w)"
proof -
  obtain M where M: "cached_mset (pw_caches w) = mset (lc_slots (cache_at w k)) + M"
    "cached_mset (pw_caches (update_cache k f w)) = mset (lc_slots (f (cache_at w k))) + M"
    using cached_rest [OF k] by metis
  have "free_mset w + cached_mset (pw_caches (update_cache k f w)) + R' = free_mset w + cached_mset (pw_caches w) + R"
    unfolding M by (rule move_sums [OF move])
  also have "\<dots> = all_mset P w" using inv by (simp only: pool_inv_def)
  finally have "free_mset w + cached_mset (pw_caches (update_cache k f w)) + R' = all_mset P w" .
  moreover have "caches_ok P lim blks (pw_caches (update_cache k f w))"
    using inv ok by (auto simp: pool_inv_def caches_ok_def dest!: subsetD [OF set_update_subset_insert])
  moreover have "pools_ok blks (update_cache k f w)"
  proof -
    have "block_chain (update_cache k f w) block bs" if "block_chain w block bs" for block bs
      by (rule block_chain_frame [OF that]) auto
    then show ?thesis using inv by (simp add: pool_inv_def pools_ok_def)
  qed
  ultimately show ?thesis using inv by (simp add: pool_inv_def heap_ok_def)
qed

lemma inv_change_block:
  assumes inv: "pool_inv P lim blks R w" and b: "b \<in> dom (pw_block w)" and ok: "block_ok P b x" "blk_next x = blk_next (block_at w b)"
    and move: "slots_of b (mset (free_list x)) + R' = slots_of b (mset (free_list (block_at w b))) + R"
  shows "pool_inv P lim blks R' (set_block b x w)"
proof -
  have fin: "finite (dom (pw_block w))" using inv by (simp add: pool_inv_def heap_ok_def)
  obtain M where M: "free_mset w = slots_of b (mset (free_list (block_at w b))) + M"
    "free_mset (set_block b x w) = slots_of b (mset (free_list x)) + M"
    using free_rest [OF fin b] by metis
  have "cached_mset (pw_caches w) + free_mset (set_block b x w) + R' = cached_mset (pw_caches w) + free_mset w + R"
    unfolding M by (rule move_sums [OF move])
  also have "\<dots> = all_mset P w" using inv by (simp add: pool_inv_def add.commute [of "cached_mset (pw_caches w)"])
  finally have "free_mset (set_block b x w) + cached_mset (pw_caches w) + R' = all_mset P (set_block b x w)"
    using b by (simp add: add.commute [of "cached_mset (pw_caches w)"])
  moreover have "pools_ok blks (set_block b x w)"
  proof -
    have "block_chain (set_block b x w) block bs" if "block_chain w block bs" for block bs
      by (rule block_chain_frame [OF that]) (auto simp: ok(2))
    then show ?thesis using inv by (simp add: pool_inv_def pools_ok_def)
  qed
  moreover have "heap_ok P (set_block b x w)" using inv ok b by (auto simp: pool_inv_def heap_ok_def)
  ultimately show ?thesis using inv by (simp add: pool_inv_def)
qed

lemma inv_lim: "pool_inv P lim blks R w \<Longrightarrow> 0 < lim"
  by (simp add: pool_inv_def)

lemma inv_cache_ok: "pool_inv P lim blks R w \<Longrightarrow> k < length (cs_caches (pw_caches w)) \<Longrightarrow> cache_ok P lim blks (cache_at w k)"
  by (simp add: pool_inv_def caches_ok_def cache_at_def)

lemma cache_sub: "k < length (cs_caches (pw_caches w)) \<Longrightarrow> mset (lc_slots (cache_at w k)) \<subseteq># cached_mset (pw_caches w)"
  using cached_rest [of k w] by (metis mset_subset_eq_add_left)

subsection \<open>The operations of a cache\<close>

lemma run_is_owned:
  assumes "j < run_length w b todo slots" shows "owner_of w (slots ! j) = b"
  using assms by (induction w b todo slots arbitrary: j rule: run_length.induct) (auto simp: nth_Cons split: if_splits nat.splits)

text \<open>Giving back the last \<open>n\<close> slots of a cache, all of one block.\<close>

definition flush_run :: "pool_params \<Rightarrow> nat \<Rightarrow> baddr \<Rightarrow> nat \<Rightarrow> pool_world \<Rightarrow> pool_world" where
  "flush_run P k b n w =
     (let slots = lc_slots (cache_at w k); top = length slots
      in set_block b (push_many P (map snd (drop (top - n) slots)) (block_at w b))
           (update_cache k (\<lambda>c. c\<lparr>lc_slots := take (top - n) slots\<rparr>) w))"

lemma flush_some_run:
  assumes "todo \<noteq> 0" "lc_slots (cache_at w k) \<noteq> []" "k < length (cs_caches (pw_caches w))"
  shows "flush_some P k todo w =
    (let slots = lc_slots (cache_at w k); b = owner_of w (last slots); n = run_length w b todo (rev slots)
     in flush_some P k (todo - n) (flush_run P k b n w))"
  using assms by (subst flush_some.simps) (simp add: Let_def flush_run_def)

lemma flush_run_inv:
  assumes valid: "pool_params_valid P" and inv: "pool_inv P lim blks R w" and k: "k < length (cs_caches (pw_caches w))"
    and n: "0 < n" "n \<le> length (lc_slots (cache_at w k))"
    and run: "\<And>j. j < n \<Longrightarrow> owner_of w (rev (lc_slots (cache_at w k)) ! j) = b"
  shows "pool_inv P lim blks R (flush_run P k b n w)"
proof -
  let ?slots = "lc_slots (cache_at w k)" and ?x = "block_at w b"
  let ?keep = "take (length ?slots - n) ?slots" and ?go = "drop (length ?slots - n) ?slots"
  let ?w = "update_cache k (\<lambda>c. c\<lparr>lc_slots := ?keep\<rparr>) w"
  have split: "?slots = ?keep @ ?go" by simp
  have sub: "mset ?slots \<subseteq># cached_mset (pw_caches w) + R" using cache_sub [OF k] by (simp add: subset_mset.add_increasing2)
  note place = inv_place [OF inv sub]
  have fst: "fst s = b" if "s \<in> set ?go" for s
  proof -
    obtain j where j: "j < length ?go" "s = ?go ! j" using \<open>s \<in> set ?go\<close> by (metis in_set_conv_nth)
    then have "s = rev ?slots ! (n - 1 - j)" using n by (simp add: rev_nth)
    then have "owner_of w s = b" using run [of "n - 1 - j"] j n by simp
    moreover have "s \<in> set ?slots" using that by (meson in_set_dropD)
    ultimately show ?thesis using place(2) [of "fst s" "snd s"] by simp
  qed
  have go: "distinct (map snd ?go)" "?go \<noteq> []" "set (map snd ?go) \<subseteq> slot_range P - set (free_list ?x)" "b \<in> dom (pw_block w)"
  proof -
    have "distinct ?go" using place(1) by (metis distinct_append split)
    then show "distinct (map snd ?go)" using fst by (auto simp: distinct_map inj_on_def prod_eq_iff)
    show ne: "?go \<noteq> []" using n by simp
    have mem: "b \<in> dom (pw_block w) \<and> snd s \<in> slot_range P - set (free_list ?x)" if "s \<in> set ?go" for s
      using place(2) [of b "snd s"] fst [OF that] that in_set_dropD [of s _ ?slots] by (metis prod.collapse)
    then show "set (map snd ?go) \<subseteq> slot_range P - set (free_list ?x)" by auto
    show "b \<in> dom (pw_block w)" using mem ne last_in_set by blast
  qed
  have ok: "block_ok P b ?x" using inv go(4) by (simp add: pool_inv_def heap_ok_def)
  note push = push_many_spec [OF valid ok _ go(1,3)]
  have "mset ?slots = mset ?keep + mset ?go" by (simp flip: mset_append)
  then have "mset ?keep + (R + mset ?go) = mset ?slots + R" by (simp only: ac_simps)
  moreover have "cache_ok P lim blks (cache_at w k\<lparr>lc_slots := ?keep\<rparr>)"
  proof -
    have "set ?keep \<subseteq> set ?slots" by (rule set_take_subset)
    then show ?thesis using inv_cache_ok [OF inv k] unfolding cache_ok_def by fastforce
  qed
  ultimately have 1: "pool_inv P lim blks (R + mset ?go) ?w" using inv_change_cache [OF inv k] by simp
  have "slots_of b (mset (map snd ?go)) = mset ?go"
  proof -
    have "map (Pair b \<circ> snd) ?go = ?go" using fst by (intro map_idI) (simp add: prod_eq_iff)
    then show ?thesis by (simp add: slots_of_def flip: mset_map)
  qed
  moreover have "slots_of b (mset (map snd ?go @ free_list ?x)) = slots_of b (mset (map snd ?go)) + slots_of b (mset (free_list ?x))"
    by (simp add: slots_of_def)
  moreover have "block_ok P b (push_many P (map snd ?go) ?x)" "blk_next (push_many P (map snd ?go) ?x) = blk_next ?x"
    "free_list (push_many P (map snd ?go) ?x) = map snd ?go @ free_list ?x"
    using push go(2) by simp_all
  ultimately show ?thesis
    unfolding flush_run_def Let_def
    using inv_change_block [OF 1, of b "push_many P (map snd ?go) ?x" R] go(4) by (simp add: ac_simps del: mset_append)
qed

text \<open>What flushing a cache leaves alone.\<close>

definition flush_frame :: "nat \<Rightarrow> pool_world \<Rightarrow> pool_world \<Rightarrow> bool" where
  "flush_frame k w w' \<longleftrightarrow>
     pw_pool w' = pw_pool w \<and> pw_direct w' = pw_direct w \<and> length (cs_caches (pw_caches w')) = length (cs_caches (pw_caches w)) \<and>
     active_overflow_index (pw_caches w') = active_overflow_index (pw_caches w) \<and>
     cs_next_victim (pw_caches w') = cs_next_victim (pw_caches w) \<and>
     (\<forall>j. j \<noteq> k \<longrightarrow> cache_at w' j = cache_at w j) \<and> lc_owner (cache_at w' k) = lc_owner (cache_at w k) \<and>
     locally_acquired (cache_at w' k) = locally_acquired (cache_at w k)"

lemma flush_frame_refl: "flush_frame k w w"
  by (simp add: flush_frame_def)

lemma flush_frame_trans: "flush_frame k w w1 \<Longrightarrow> flush_frame k w1 w2 \<Longrightarrow> flush_frame k w w2"
  by (simp add: flush_frame_def)

lemma flush_run_frame:
  assumes "k < length (cs_caches (pw_caches w))"
  shows "flush_frame k w (flush_run P k b n w)"
    "lc_slots (cache_at (flush_run P k b n w) k) = take (length (lc_slots (cache_at w k)) - n) (lc_slots (cache_at w k))"
  using assms by (simp_all add: flush_run_def flush_frame_def Let_def)

lemma flush_some_spec:
  assumes "pool_params_valid P" "pool_inv P lim blks R w" "k < length (cs_caches (pw_caches w))"
  shows "pool_inv P lim blks R (flush_some P k todo w) \<and> flush_frame k w (flush_some P k todo w) \<and>
    lc_slots (cache_at (flush_some P k todo w) k) = take (length (lc_slots (cache_at w k)) - todo) (lc_slots (cache_at w k))"
  using assms(2,3)
proof (induction "length (lc_slots (cache_at w k))" arbitrary: w todo rule: less_induct)
  case less
  let ?slots = "lc_slots (cache_at w k)"
  show ?case
  proof (cases "todo = 0 \<or> ?slots = []")
    case True
    then have "flush_some P k todo w = w" by (subst flush_some.simps) (auto simp: Let_def)
    then show ?thesis using less.prems True by (auto simp: flush_frame_refl)
  next
    case False
    let ?b = "owner_of w (last ?slots)"
    define n where "n = run_length w ?b todo (rev ?slots)"
    let ?w = "flush_run P k ?b n w"
    have n: "0 < n" "n \<le> length ?slots" "n \<le> todo"
      using run_length_pos [of todo "rev ?slots" w ?b] run_length_le [of w ?b todo "rev ?slots"] run_length_todo [of w ?b todo "rev ?slots"] False
      by (simp_all add: n_def hd_rev)
    have eq: "flush_some P k todo w = flush_some P k (todo - n) ?w"
      using flush_some_run [of todo w k P] False less.prems(2) by (simp add: Let_def n_def)
    have inv: "pool_inv P lim blks R ?w"
      by (rule flush_run_inv [OF assms(1) less.prems n(1,2)]) (simp add: n_def run_is_owned)
    note frame = flush_run_frame [OF less.prems(2), of P ?b n]
    have "length (lc_slots (cache_at ?w k)) < length ?slots" using frame(2) n False by simp
    moreover have "k < length (cs_caches (pw_caches ?w))" using frame(1) less.prems(2) by (simp add: flush_frame_def)
    ultimately have IH: "pool_inv P lim blks R (flush_some P k (todo - n) ?w)" "flush_frame k ?w (flush_some P k (todo - n) ?w)"
      "lc_slots (cache_at (flush_some P k (todo - n) ?w) k) =
         take (length (lc_slots (cache_at ?w k)) - (todo - n)) (lc_slots (cache_at ?w k))"
      using less.hyps [of ?w "todo - n"] inv by simp_all
    have "min (length ?slots - n - (todo - n)) (length ?slots - n) = length ?slots - todo" using n by auto
    then show ?thesis
      unfolding eq using IH frame flush_frame_trans [OF frame(1) IH(2)] by (simp add: take_take)
  qed
qed

lemma cache_flush_spec:
  assumes "pool_params_valid P" "pool_inv P lim blks R w" "k < length (cs_caches (pw_caches w))"
  shows "pool_inv P lim blks R (cache_flush P k w)" "cache_at (cache_flush P k w) k = cache_new"
    "length (cs_caches (pw_caches (cache_flush P k w))) = length (cs_caches (pw_caches w))"
    "pw_pool (cache_flush P k w) = pw_pool w" "j \<noteq> k \<Longrightarrow> cache_at (cache_flush P k w) j = cache_at w j"
proof -
  let ?w = "flush_some P k (length (lc_slots (cache_at w k))) w"
  let ?f = "\<lambda>c :: local_cache. c\<lparr>locally_acquired := False, lc_owner := None\<rparr>"
  note spec = flush_some_spec [OF assms, of "length (lc_slots (cache_at w k))"]
  then have inv: "pool_inv P lim blks R ?w" and k: "k < length (cs_caches (pw_caches ?w))"
    and empty: "lc_slots (cache_at ?w k) = []"
    using assms(3) by (simp_all add: flush_frame_def)
  show "pool_inv P lim blks R (cache_flush P k w)"
    using inv_lim [OF inv] unfolding cache_flush_def by (intro inv_change_cache [OF inv k]) (simp_all add: cache_ok_def empty)
  show "cache_at (cache_flush P k w) k = cache_new" using k empty by (simp add: cache_flush_def cache_new_def)
  show "length (cs_caches (pw_caches (cache_flush P k w))) = length (cs_caches (pw_caches w))"
    "pw_pool (cache_flush P k w) = pw_pool w" "j \<noteq> k \<Longrightarrow> cache_at (cache_flush P k w) j = cache_at w j"
    using spec k by (simp_all add: cache_flush_def flush_frame_def)
qed

subsection \<open>Finding a cache\<close>

lemma block_chain_same: "pw_block w' = pw_block w \<Longrightarrow> block_chain w' block bs = block_chain w block bs"
  by (induction bs arbitrary: block) (simp_all add: block_at_def)

text \<open>The hints of a thread, which cache to look at and where to release, do not matter.\<close>

lemma inv_hints:
  assumes inv: "pool_inv P lim blks R w" and same: "pw_block w' = pw_block w" "pw_fresh w' = pw_fresh w" "pw_pool w' = pw_pool w"
    "cs_caches (pw_caches w') = cs_caches (pw_caches w)"
    and hints: "local_cache_set_size P > 1 \<Longrightarrow>
      active_overflow_index (pw_caches w') < overflow_cache_count P \<and> cs_next_victim (pw_caches w') < overflow_cache_count P"
  shows "pool_inv P lim blks R w'"
proof -
  have "block_at w' b = block_at w b" for b using same(1) by (simp add: block_at_def)
  then show ?thesis
    using inv same hints block_chain_same [OF same(1)]
    by (simp add: pool_inv_def heap_ok_def pools_ok_def caches_ok_def free_mset_def all_mset_def cached_mset_def)
qed

lemma hint_fields [simp]:
  "pw_block (set_active_overflow i w) = pw_block w" "pw_fresh (set_active_overflow i w) = pw_fresh w"
  "pw_pool (set_active_overflow i w) = pw_pool w" "cs_caches (pw_caches (set_active_overflow i w)) = cs_caches (pw_caches w)"
  "cs_next_victim (pw_caches (set_active_overflow i w)) = cs_next_victim (pw_caches w)"
  "active_overflow_index (pw_caches (set_active_overflow i w)) = i" "cache_at (set_active_overflow i w) k = cache_at w k"
  by (simp_all add: set_active_overflow_def cache_at_def)

lemma direct_fields [simp]:
  "pw_block (direct_release_erase P p w) = pw_block w" "pw_fresh (direct_release_erase P p w) = pw_fresh w"
  "pw_pool (direct_release_erase P p w) = pw_pool w" "pw_caches (direct_release_erase P p w) = pw_caches w"
  "cache_at (direct_release_erase P p w) k = cache_at w k"
  "pw_block (direct_release_insert P p w) = pw_block w" "pw_fresh (direct_release_insert P p w) = pw_fresh w"
  "pw_pool (direct_release_insert P p w) = pw_pool w" "pw_caches (direct_release_insert P p w) = pw_caches w"
  "cache_at (direct_release_insert P p w) k = cache_at w k"
  by (simp_all add: direct_release_erase_def direct_release_insert_def cache_at_def)

lemma inv_cache_count: "pool_inv P lim blks R w \<Longrightarrow> length (cs_caches (pw_caches w)) = local_cache_set_size P"
  by (simp add: pool_inv_def caches_ok_def)

lemma inv_active:
  "pool_inv P lim blks R w \<Longrightarrow> local_cache_set_size P > 1 \<Longrightarrow>
   active_overflow_index (pw_caches w) < overflow_cache_count P \<and> cs_next_victim (pw_caches w) < overflow_cache_count P"
  by (simp add: pool_inv_def caches_ok_def)

lemma inv_set_active: "pool_inv P lim blks R w \<Longrightarrow> i < overflow_cache_count P \<Longrightarrow> pool_inv P lim blks R (set_active_overflow i w)"
  by (rule inv_hints) (auto dest: inv_active)

lemma inv_direct:
  "pool_inv P lim blks R w \<Longrightarrow> pool_inv P lim blks R (direct_release_erase P p w)"
  "pool_inv P lim blks R w \<Longrightarrow> pool_inv P lim blks R (direct_release_insert P p w)"
  by (rule inv_hints; auto dest: inv_active)+

text \<open>A cache for the pool \<open>p\<close>, in a world as good as before.\<close>

definition has_cache :: "pool_params \<Rightarrow> nat \<Rightarrow> (paddr \<Rightarrow> baddr list) \<Rightarrow> slot_ptr multiset \<Rightarrow> paddr \<Rightarrow> pool_world \<Rightarrow> nat \<times> pool_world \<Rightarrow> bool" where
  "has_cache P lim blks R p w r \<longleftrightarrow>
     pool_inv P lim blks R (snd r) \<and> fst r < local_cache_set_size P \<and> lc_owner (cache_at (snd r) (fst r)) = Some p \<and>
     pw_pool (snd r) = pw_pool w"

lemma reset_for_has:
  assumes "pool_params_valid P" "pool_inv P lim blks R w" "k < local_cache_set_size P"
  shows "has_cache P lim blks R p w (k, reset_for P p k w)"
proof (cases "lc_owner (cache_at w k) = Some p")
  case True
  then show ?thesis using assms by (simp add: has_cache_def reset_for_def)
next
  case False
  have k: "k < length (cs_caches (pw_caches w))" using assms(3) inv_cache_count [OF assms(2)] by simp
  note flush = cache_flush_spec [OF assms(1,2) k]
  then have kf: "k < length (cs_caches (pw_caches (cache_flush P k w)))" using k by simp
  have "pool_inv P lim blks R (update_cache k (\<lambda>c. c\<lparr>lc_owner := Some p\<rparr>) (cache_flush P k w))"
    using inv_lim [OF flush(1)] by (intro inv_change_cache [OF flush(1) kf]) (simp_all add: flush(2) cache_ok_def cache_new_def)
  then show ?thesis using False kf flush(4) assms(3) by (simp add: has_cache_def reset_for_def)
qed

lemma find_overflow_Some: "find_overflow P x w = Some i \<Longrightarrow> i < overflow_cache_count P \<and> overflow_owner w i = x"
  by (auto simp: find_overflow_def find_Some_iff)

lemma has_set_active:
  "has_cache P lim blks R p w (k, w') \<Longrightarrow> i < overflow_cache_count P \<Longrightarrow> has_cache P lim blks R p w (k, set_active_overflow i w')"
  by (simp add: has_cache_def inv_set_active)

lemma multi_get_slow_has:
  assumes valid: "pool_params_valid P" and inv: "pool_inv P lim blks R w" and multi: "local_cache_set_size P > 1"
  shows "has_cache P lim blks R p w (multi_get_slow P p w)"
proof -
  define w0 where "w0 = direct_release_erase P p w"
  have inv0: "pool_inv P lim blks R w0" and pool0: "pw_pool w0 = pw_pool w" using inv_direct(1) [OF inv] by (simp_all add: w0_def)
  have has0: "has_cache P lim blks R p w r" if "has_cache P lim blks R p w0 r" for r using that pool0 by (simp add: has_cache_def)
  have over: "i < overflow_cache_count P \<Longrightarrow> i + 1 < local_cache_set_size P" for i by (simp add: overflow_cache_count_def)
  note reset = reset_for_has [OF valid]
  let ?v = "cs_next_victim (pw_caches w0)"
  let ?w1 = "w0\<lparr>pw_caches := (pw_caches w0)\<lparr>cs_next_victim := next_in (overflow_cache_count P) ?v\<rparr>\<rparr>"
  have "next_in (overflow_cache_count P) ?v < overflow_cache_count P"
    using inv_active [OF inv0 multi] by (auto simp: next_in_def)
  then have inv1: "pool_inv P lim blks R ?w1" using inv_active [OF inv0 multi] by (intro inv_hints [OF inv0]) simp_all
  have victim: "has_cache P lim blks R p w0 (?v + 1, set_active_overflow ?v (reset_for P p (?v + 1) ?w1))"
  proof -
    have v: "?v < overflow_cache_count P" using inv_active [OF inv0 multi] by simp
    show ?thesis using has_set_active [OF reset [OF inv1 over [OF v], of p] v] by (simp add: has_cache_def)
  qed
  have found: "has_cache P lim blks R p w0 (i + 1, set_active_overflow i w0)" if "find_overflow P (Some p) w0 = Some i" for i
    using find_overflow_Some [OF that] inv_set_active [OF inv0] over [of i] by (simp add: has_cache_def overflow_owner_def)
  have free: "has_cache P lim blks R p w0 (i + 1, set_active_overflow i (reset_for P p (i + 1) w0))" if "find_overflow P None w0 = Some i" for i
    using find_overflow_Some [OF that] has_set_active [OF reset [OF inv0 over]] by blast
  have primary: "has_cache P lim blks R p w0 (0, reset_for P p 0 w0)" using reset [OF inv0] multi by simp
  have "has_cache P lim blks R p w0 (multi_get_slow P p w)"
    unfolding multi_get_slow_def Let_def w0_def [symmetric]
    using found free primary victim by (simp split: option.split)
  then show ?thesis by (rule has0)
qed

lemma next_overflow_hint_spec:
  assumes "pool_inv P lim blks R w" "local_cache_set_size P > 1" "next_overflow_hint P p w = (k, w')"
  shows "case k of None \<Rightarrow> w' = w | Some k \<Rightarrow> has_cache P lim blks R p w (k, w')"
proof -
  let ?n = "next_in (overflow_cache_count P) (active_overflow_index (pw_caches w))"
  have n: "?n < overflow_cache_count P" using inv_active [OF assms(1,2)] by (auto simp: next_in_def)
  then have "?n + 1 < local_cache_set_size P" by (simp add: overflow_cache_count_def)
  then show ?thesis
    using assms(3) inv_set_active [OF assms(1) n]
    by (auto simp: next_overflow_hint_def Let_def has_cache_def overflow_owner_def split: if_splits)
qed

lemma caches_get_has:
  assumes valid: "pool_params_valid P" and inv: "pool_inv P lim blks R w"
  shows "has_cache P lim blks R p w (caches_get P p w)"
proof -
  have size: "0 < local_cache_set_size P" using valid by (simp add: pool_params_valid_def)
  consider (primary) "lc_owner (cache_at w 0) = Some p" | (single) "lc_owner (cache_at w 0) \<noteq> Some p" "local_cache_set_size P = 1"
    | (active) "lc_owner (cache_at w 0) \<noteq> Some p" "local_cache_set_size P > 1"
        "overflow_owner w (active_overflow_index (pw_caches w)) = Some p"
    | (other) "lc_owner (cache_at w 0) \<noteq> Some p" "local_cache_set_size P > 1"
        "overflow_owner w (active_overflow_index (pw_caches w)) \<noteq> Some p"
    using size by linarith
  then show ?thesis
  proof cases
    case primary
    then show ?thesis using inv size by (simp add: caches_get_def has_cache_def)
  next
    case single
    then show ?thesis
      using reset_for_has [OF valid inv_direct(1) [OF inv] size, of p] by (simp add: caches_get_def single_get_slow_def has_cache_def)
  next
    case active
    then have "active_overflow_index (pw_caches w) + 1 < local_cache_set_size P"
      using inv_active [OF inv active(2)] unfolding overflow_cache_count_def by linarith
    then show ?thesis using active inv by (simp add: caches_get_def has_cache_def overflow_owner_def)
  next
    case other
    obtain k w' where hint: "next_overflow_hint P p w = (k, w')" by fastforce
    show ?thesis
      using next_overflow_hint_spec [OF inv other(2) hint] multi_get_slow_has [OF valid inv other(2), of p] other
      by (cases k) (simp_all add: caches_get_def hint)
  qed
qed

lemma find_release_cache_has:
  assumes valid: "pool_params_valid P" and inv: "pool_inv P lim blks R w" and find: "find_release_cache P p w = (k, w')"
  shows "pool_inv P lim blks R w' \<and> (\<forall>j. k = Some j \<longrightarrow> has_cache P lim blks R p w (j, w')) \<and> pw_pool w' = pw_pool w"
proof -
  have size: "0 < local_cache_set_size P" using valid by (simp add: pool_params_valid_def)
  have over: "i < overflow_cache_count P \<Longrightarrow> i + 1 < local_cache_set_size P" for i by (simp add: overflow_cache_count_def)
  show ?thesis
  proof (cases "lc_owner (cache_at w 0) = Some p \<or> local_cache_set_size P = 1")
    case True
    then show ?thesis
      using find inv size inv_direct(2) [OF inv, of p] by (auto simp: find_release_cache_def has_cache_def split: if_splits)
  next
    case False
    then have multi: "local_cache_set_size P > 1" using size by linarith
    obtain h w1 where hint: "next_overflow_hint P p w = (h, w1)" by fastforce
    have slow: "pool_inv P lim blks R w' \<and> (\<forall>j. k = Some j \<longrightarrow> has_cache P lim blks R p w (j, w')) \<and> pw_pool w' = pw_pool w"
      if "find_release_cache_slow P p w = (k, w')"
      using that find_overflow_Some [of P "Some p" w] inv_set_active [OF inv] inv_direct(2) [OF inv, of p] over
      by (auto simp: find_release_cache_slow_def has_cache_def overflow_owner_def split: option.splits)
    have active: "active_overflow_index (pw_caches w) + 1 < local_cache_set_size P" using over inv_active [OF inv multi] by blast
    show ?thesis
      using find False next_overflow_hint_spec [OF inv multi hint] slow active inv
      by (auto simp: find_release_cache_def hint has_cache_def overflow_owner_def split: if_splits option.splits)
  qed
qed

subsection \<open>Moving slots\<close>

lemma cache_pop_spec:
  assumes inv: "pool_inv P lim blks R w" and k: "k < local_cache_set_size P" and pop: "cache_pop k w = (v, w')"
  shows "case v of
      None \<Rightarrow> lc_slots (cache_at w k) = [] \<and> w' = w
    | Some s \<Rightarrow> pool_inv P lim blks (add_mset s R) w' \<and> s \<in> set (lc_slots (cache_at w k)) \<and> pw_pool w' = pw_pool w \<and>
        lc_owner (cache_at w' k) = lc_owner (cache_at w k)"
proof (cases "lc_slots (cache_at w k) = []")
  case True
  then show ?thesis using pop by (simp add: cache_pop_def)
next
  case False
  let ?s = "lc_slots (cache_at w k)"
  have k': "k < length (cs_caches (pw_caches w))" using k inv_cache_count [OF inv] by simp
  have "mset ?s = add_mset (last ?s) (mset (butlast ?s))" using False by (metis append_butlast_last_id mset_append mset_single_iff union_mset_add_mset_right add_mset_add_single)
  moreover have "cache_ok P lim blks ((cache_at w k)\<lparr>lc_slots := butlast ?s\<rparr>)"
  proof -
    have "set (butlast ?s) \<subseteq> set ?s" by (auto dest: in_set_butlastD)
    then show ?thesis using inv_cache_ok [OF inv k'] unfolding cache_ok_def by fastforce
  qed
  ultimately have "pool_inv P lim blks (add_mset (last ?s) R) (update_cache k (\<lambda>c. c\<lparr>lc_slots := butlast ?s\<rparr>) w)"
    using inv_change_cache [OF inv k'] by simp
  then show ?thesis using False pop k' by (auto simp: cache_pop_def Let_def)
qed

lemma cache_push_inv:
  assumes inv: "pool_inv P lim blks (add_mset s R) w" and k: "k < local_cache_set_size P" and owner: "lc_owner (cache_at w k) = Some p"
    and s: "fst s \<in> set (blks p)" and room: "length (lc_slots (cache_at w k)) < local_cache_capacity P"
      "locally_acquired (cache_at w k) \<or> Suc (length (lc_slots (cache_at w k))) < lim"
  shows "pool_inv P lim blks R (cache_push s k w)"
proof -
  have k': "k < length (cs_caches (pw_caches w))" using k inv_cache_count [OF inv] by simp
  show ?thesis
    unfolding cache_push_def using inv_cache_ok [OF inv k'] owner s room
    by (intro inv_change_cache [OF inv k']) (auto simp: cache_ok_def)
qed

lemma inv_block: "pool_inv P lim blks R w \<Longrightarrow> b \<in> dom (pw_block w) \<Longrightarrow> block_ok P b (block_at w b)"
  by (simp add: pool_inv_def heap_ok_def)

lemma inv_blks_dom: "pool_inv P lim blks R w \<Longrightarrow> set (blks p) \<subseteq> dom (pw_block w)"
  using block_chain_dom [of w "pool_blocks (pw_pool w p)" "blks p"] by (simp add: pool_inv_def pools_ok_def)

lemma take_drop_slots: "slots_of b (mset (take n is)) + slots_of b (mset (drop n is)) = slots_of b (mset is)"
  by (simp add: slots_of_def flip: image_mset_union mset_append)

lemma refill_spec:
  assumes inv: "pool_inv P lim blks R w" and k: "k < local_cache_set_size P" and owner: "lc_owner (cache_at w k) = Some p"
    and b: "b \<in> set (blks p)" and acquired: "locally_acquired (cache_at w k)"
  shows "pool_inv P lim blks R (refill_cache_from_block P k b w)" "pw_pool (refill_cache_from_block P k b w) = pw_pool w"
    "lc_owner (cache_at (refill_cache_from_block P k b w) k) = Some p \<and> locally_acquired (cache_at (refill_cache_from_block P k b w) k)"
    "blk_next (block_at (refill_cache_from_block P k b w) c) = blk_next (block_at w c)"
    "lc_slots (cache_at (refill_cache_from_block P k b w) k) = lc_slots (cache_at w k) @
       map (Pair b) (take (local_cache_capacity P - length (lc_slots (cache_at w k))) (free_list (block_at w b)))"
proof -
  let ?n = "local_cache_capacity P - length (lc_slots (cache_at w k))" and ?is = "free_list (block_at w b)"
  have k': "k < length (cs_caches (pw_caches w))" using k inv_cache_count [OF inv] by simp
  have dom: "b \<in> dom (pw_block w)" using inv_blks_dom [OF inv] b by blast
  obtain out x where pop: "try_pop_many P ?n (block_at w b) = (out, x)" by fastforce
  note spec = try_pop_many_spec [OF inv_block [OF inv dom] pop]
  let ?f = "\<lambda>c :: local_cache. c\<lparr>lc_slots := lc_slots c @ map (Pair b) out\<rparr>"
  have eq: "refill_cache_from_block P k b w = update_cache k ?f (set_block b x w)"
    by (simp add: refill_cache_from_block_def Let_def pop)
  have "pool_inv P lim blks (R + slots_of b (mset out)) (set_block b x w)"
    using spec take_drop_slots [of b ?n ?is] by (intro inv_change_block [OF inv dom]) (simp_all add: ac_simps)
  moreover have "cache_ok P lim blks (?f (cache_at w k))"
    using inv_cache_ok [OF inv k'] owner b spec acquired by (auto simp: cache_ok_def)
  ultimately show "pool_inv P lim blks R (refill_cache_from_block P k b w)"
    unfolding eq using k' by (intro inv_change_cache) (simp_all add: slots_of_def ac_simps)
  show "pw_pool (refill_cache_from_block P k b w) = pw_pool w"
    "lc_owner (cache_at (refill_cache_from_block P k b w) k) = Some p \<and> locally_acquired (cache_at (refill_cache_from_block P k b w) k)"
    "lc_slots (cache_at (refill_cache_from_block P k b w) k) = lc_slots (cache_at w k) @ map (Pair b) (take ?n ?is)"
    "blk_next (block_at (refill_cache_from_block P k b w) c) = blk_next (block_at w c)"
    using k' owner spec acquired by (simp_all add: eq)
qed

lemma block_push_slot_inv:
  assumes valid: "pool_params_valid P" and inv: "pool_inv P lim blks (add_mset s R) w"
  shows "pool_inv P lim blks R (block_push_slot P s w)" "pw_pool (block_push_slot P s w) = pw_pool w"
proof -
  obtain b i where s: "s = (b, i)" by fastforce
  have "mset [s] \<subseteq># cached_mset (pw_caches w) + add_mset s R" by simp
  note place = inv_place(2) [OF inv this, of b i]
  then have p: "b \<in> dom (pw_block w)" "i \<in> slot_range P - set (free_list (block_at w b))" "owner_of w s = b" using s by simp_all
  have "block_ok P b (push_many P [i] (block_at w b)) \<and> free_list (push_many P [i] (block_at w b)) = [i] @ free_list (block_at w b) \<and>
      blk_next (push_many P [i] (block_at w b)) = blk_next (block_at w b)"
    using push_many_spec [OF valid inv_block [OF inv p(1)], of "[i]"] p(2) by simp
  then show "pool_inv P lim blks R (block_push_slot P s w)"
    using inv_change_block [OF inv p(1), of "push_many P [i] (block_at w b)" R]
    by (simp add: block_push_slot_def Let_def p(3) push_is_push_many slots_of_def) (simp add: s)
  show "pw_pool (block_push_slot P s w) = pw_pool w" by (simp add: block_push_slot_def Let_def)
qed

lemma pop_block_slot_spec:
  assumes inv: "pool_inv P lim blks R w" and b: "b \<in> dom (pw_block w)" and pop: "pop_block_slot P b w = (v, w')"
  shows "pw_pool w' = pw_pool w \<and> blk_next (block_at w' c) = blk_next (block_at w c) \<and>
    (case v of None \<Rightarrow> free_list (block_at w b) = [] \<and> pool_inv P lim blks R w'
     | Some s \<Rightarrow> fst s = b \<and> pool_inv P lim blks (add_mset s R) w')"
proof -
  obtain out x where try_pop: "try_pop_many P 1 (block_at w b) = (out, x)" by fastforce
  note spec = try_pop_many_spec [OF inv_block [OF inv b] try_pop] and try_pop = try_pop [unfolded One_nat_def]
  show ?thesis
  proof (cases "free_list (block_at w b)")
    case Nil
    then show ?thesis
      using pop spec inv_change_block [OF inv b, of x R] by (auto simp: pop_block_slot_def try_pop)
  next
    case (Cons i "is")
    then show ?thesis
      using pop spec inv_change_block [OF inv b, of x "add_mset (b, i) R"] by (auto simp: pop_block_slot_def try_pop slots_of_def)
  qed
qed

lemma new_slots: "pool_params_valid P \<Longrightarrow> mset (map of_nat [0..<chunk_size P]) = mset_set (slot_range P)"
proof -
  assume valid: "pool_params_valid P"
  let ?is = "map of_nat [0..<chunk_size P] :: u16 list"
  note new = block_new_spec [OF valid, of 0]
  have "set ?is \<subseteq> slot_range P" using free_list_range [of P 0 "block_new P 0"] new by simp
  moreover have "slot_range P \<subseteq> set ?is"
  proof
    fix i assume "i \<in> slot_range P"
    then have "of_nat (unat i) \<in> set ?is" unfolding slot_range_def by (force simp del: of_nat_unat)
    then show "i \<in> set ?is" by simp
  qed
  ultimately have "set ?is = slot_range P" by blast
  moreover have "distinct ?is" using new unfolding block_ok_def by metis
  ultimately show ?thesis by (metis mset_set_set)
qed

lemma update_pool_fields [simp]:
  "pw_block (update_pool p f w) = pw_block w" "pw_fresh (update_pool p f w) = pw_fresh w" "pw_caches (update_pool p f w) = pw_caches w"
  "pw_pool (update_pool p f w) = (pw_pool w)(p := f (pw_pool w p))" "cache_at (update_pool p f w) k = cache_at w k"
  "block_at (update_pool p f w) b = block_at w b"
  by (simp_all add: update_pool_def cache_at_def block_at_def)

lemma add_block_fields:
  assumes "add_block P p w = (b, w')"
  shows "b = pw_fresh w" "pw_block w' = (pw_block w)(b \<mapsto> (block_new P b)\<lparr>blk_next := pool_blocks (pw_pool w p)\<rparr>)"
    "pw_fresh w' = b + 1" "pw_caches w' = pw_caches w" "cache_at w' k = cache_at w k"
    "pool_blocks (pw_pool w' p) = Some b" "hot_block (pw_pool w' p) = Some b" "q \<noteq> p \<Longrightarrow> pw_pool w' q = pw_pool w q"
    "block_count (pw_pool w' p) = block_count (pw_pool w p) + 1"
  using assms by (auto simp: add_block_def Let_def cache_at_def set_block_def)

lemma block_with_next: "block_ok P this (b\<lparr>blk_next := n\<rparr>) = block_ok P this b" "free_list (b\<lparr>blk_next := n\<rparr>) = free_list b"
proof -
  have walk: "pop_walk (b\<lparr>blk_next := n\<rparr>) m i = pop_walk b m i" for m i by (induction m arbitrary: i) simp_all
  then show free: "free_list (b\<lparr>blk_next := n\<rparr>) = free_list b" by (simp add: free_list_def)
  have "linked (b\<lparr>blk_next := n\<rparr>) i is = linked b i is" for i "is" by (induction "is" arbitrary: i) simp_all
  then show "block_ok P this (b\<lparr>blk_next := n\<rparr>) = block_ok P this b" by (simp add: block_ok_def free)
qed

lemma add_block_spec:
  assumes valid: "pool_params_valid P" and inv: "pool_inv P lim blks R w" and add: "add_block P p w = (b, w')"
  shows "pool_inv P lim (blks(p := b # blks p)) R w'" "free_list (block_at w' b) \<noteq> []"
proof -
  note f = add_block_fields [OF add]
  let ?blks = "blks(p := b # blks p)" and ?x = "(block_new P b)\<lparr>blk_next := pool_blocks (pw_pool w p)\<rparr>"
  have heap: "finite (dom (pw_block w))" "\<And>c. c \<in> dom (pw_block w) \<Longrightarrow> c < b \<and> block_ok P c (block_at w c)"
    using inv f(1) by (simp_all add: pool_inv_def heap_ok_def)
  then have fresh: "b \<notin> dom (pw_block w)" by blast
  have at: "block_at w' c = (if c = b then ?x else block_at w c)" for c by (simp add: f(2) block_at_def)
  have dom: "dom (pw_block w') = insert b (dom (pw_block w))" by (simp add: f(2))
  note new = block_new_spec [OF valid, of b]
  show "free_list (block_at w' b) \<noteq> []" using new valid by (simp add: at block_with_next pool_params_valid_def)
  have keep: "block_chain w' block bs" if "block_chain w block bs" for block bs
    by (rule block_chain_frame [OF that]) (use dom fresh in \<open>auto simp: at\<close>)
  have "pools_ok ?blks w'"
    using inv keep f(6,7,8) by (auto simp: pool_inv_def pools_ok_def at dom)
  moreover have "heap_ok P w'"
    using heap(1) new f(3) less_SucI [OF conjunct1 [OF heap(2)]] heap(2) by (auto simp: heap_ok_def dom at block_with_next)
  moreover have "caches_ok P lim ?blks (pw_caches w')" using inv by (fastforce simp: pool_inv_def caches_ok_def cache_ok_def f(4))
  moreover have "free_mset w' = slots_of b (mset_set (slot_range P)) + free_mset w"
  proof -
    have "free_mset w' = slots_of b (mset (free_list ?x)) + (\<Sum>c \<in> dom (pw_block w). slots_of c (mset (free_list (block_at w' c))))"
      using heap(1) fresh by (simp add: free_mset_def dom at)
    also have "(\<Sum>c \<in> dom (pw_block w). slots_of c (mset (free_list (block_at w' c)))) = free_mset w"
      unfolding free_mset_def using fresh by (intro sum.cong) (auto simp: at)
    finally show ?thesis using new new_slots [OF valid] by (simp add: block_with_next)
  qed
  moreover have "all_mset P w' = slots_of b (mset_set (slot_range P)) + all_mset P w"
    using heap(1) fresh by (simp add: all_mset_def dom)
  ultimately show "pool_inv P lim ?blks R w'" using inv f(4) by (simp add: pool_inv_def ac_simps)
qed

subsection \<open>Taking a slot\<close>

text \<open>
  The outcome of taking a slot of the pool \<open>p\<close>: all is in one place as before, with the slot now in use,
  and it is a slot of one of the blocks of the pool.
\<close>

definition took_slot :: "pool_params \<Rightarrow> nat \<Rightarrow> (paddr \<Rightarrow> baddr list) \<Rightarrow> slot_ptr multiset \<Rightarrow> paddr \<Rightarrow> slot_ptr \<Rightarrow> pool_world \<Rightarrow> bool" where
  "took_slot P lim blks R p s w \<longleftrightarrow> 
     (\<exists>blks'. (\<forall>q. set (blks q) \<subseteq> set (blks' q)) \<and> pool_inv P lim blks' (add_mset s R) w \<and> fst s \<in> set (blks' p))"

lemma hot_block_inv: "pool_inv P lim blks R w \<Longrightarrow> b \<in> set (blks p) \<Longrightarrow> pool_inv P lim blks R (update_pool p (\<lambda>x. x\<lparr>hot_block := Some b\<rparr>) w)"
proof -
  assume inv: "pool_inv P lim blks R w" and b: "b \<in> set (blks p)"
  have "block_chain (update_pool p (\<lambda>x. x\<lparr>hot_block := Some b\<rparr>) w) = block_chain w"
    by (intro ext block_chain_same) simp
  then show ?thesis
    using inv b by (auto simp: pool_inv_def pools_ok_def heap_ok_def free_mset_def all_mset_def)
qed

text \<open>A refill from a block of the pool and a pop: a slot, or the block is empty and so is the cache.\<close>

lemma refill_pop:
  assumes valid: "pool_params_valid P" and inv: "pool_inv P lim blks R w" and k: "k < local_cache_set_size P"
    and owner: "lc_owner (cache_at w k) = Some p" and b: "b \<in> set (blks p)" and cache: "locally_acquired (cache_at w k)" "lc_slots (cache_at w k) = []"
    and pop: "cache_pop k (refill_cache_from_block P k b w) = (v, w')"
  shows "case v of
      None \<Rightarrow> free_list (block_at w b) = [] \<and> pool_inv P lim blks R w' \<and> lc_owner (cache_at w' k) = Some p \<and>
        locally_acquired (cache_at w' k) \<and> lc_slots (cache_at w' k) = [] \<and> pw_pool w' = pw_pool w \<and> (\<forall>c. blk_next (block_at w' c) = blk_next (block_at w c))
    | Some s \<Rightarrow> pool_inv P lim blks (add_mset s R) w' \<and> fst s = b"
proof -
  note refill = refill_spec [OF inv k owner b cache(1)]
  have slots: "lc_slots (cache_at (refill_cache_from_block P k b w) k) = map (Pair b) (take (local_cache_capacity P) (free_list (block_at w b)))"
    using refill(5) cache(2) by simp
  have "0 < local_cache_capacity P" using valid by (simp add: pool_params_valid_def)
  then show ?thesis
    using cache_pop_spec [OF refill(1) k pop] refill(1,2,3,4) slots by (cases v) auto
qed

lemma scan_blocks_spec:
  assumes valid: "pool_params_valid P" and k: "k < local_cache_set_size P"
  shows "pool_inv P lim blks R w \<Longrightarrow> lc_owner (cache_at w k) = Some p \<Longrightarrow> locally_acquired (cache_at w k) \<Longrightarrow>
    lc_slots (cache_at w k) = [] \<Longrightarrow> block_chain w block bs \<Longrightarrow> set bs \<subseteq> set (blks p) \<Longrightarrow>
    \<exists>v w'. scan_blocks P p k block w = Some (v, w') \<and>
      (case v of
         None \<Rightarrow> pool_inv P lim blks R w' \<and> lc_owner (cache_at w' k) = Some p \<and> locally_acquired (cache_at w' k) \<and> lc_slots (cache_at w' k) = []
       | Some s \<Rightarrow> pool_inv P lim blks (add_mset s R) w' \<and> fst s \<in> set (blks p))"
proof (induction bs arbitrary: w block)
  case Nil
  then show ?case by (subst scan_blocks.simps) simp
next
  case (Cons b bs)
  obtain v w1 where pop: "cache_pop k (refill_cache_from_block P k b w) = (v, w1)" by fastforce
  have b: "block = Some b" "b \<in> set (blks p)" using Cons.prems(5,6) by simp_all
  note spec = refill_pop [OF valid Cons.prems(1) k Cons.prems(2) b(2) Cons.prems(3,4) pop]
  show ?case
  proof (cases v)
    case None
    then have w1: "pool_inv P lim blks R w1" "lc_owner (cache_at w1 k) = Some p" "locally_acquired (cache_at w1 k)" "lc_slots (cache_at w1 k) = []"
      "\<And>c. blk_next (block_at w1 c) = blk_next (block_at w c)"
      using spec by simp_all
    have "b \<in> dom (pw_block w)" using inv_blks_dom [OF Cons.prems(1)] b(2) by blast
    then have dom: "dom (pw_block w) = dom (pw_block w1)"
      using pop None
      by (auto simp: cache_pop_def refill_cache_from_block_def Let_def split: prod.splits if_splits)
    have "block_chain w (blk_next (block_at w b)) bs" using Cons.prems(5) by simp
    then have "block_chain w1 (blk_next (block_at w1 b)) bs"
      using block_chain_frame [of w "blk_next (block_at w b)" bs w1] dom w1(5) by simp
    then show ?thesis
      using Cons.IH [OF w1(1-4)] Cons.prems(6) by (subst scan_blocks.simps) (simp add: b(1) pop None)
  next
    case (Some s)
    then show ?thesis
      using spec hot_block_inv [of P lim blks "add_mset s R" w1 b p] b by (subst scan_blocks.simps) (simp add: pop)
  qed
qed

lemma inv_chain: "pool_inv P lim blks R w \<Longrightarrow> block_chain w (pool_blocks (pw_pool w p)) (blks p)"
  by (simp add: pool_inv_def pools_ok_def)

lemma inv_hot: "pool_inv P lim blks R w \<Longrightarrow> hot_block (pw_pool w p) = Some b \<Longrightarrow> b \<in> set (blks p)"
  by (simp add: pool_inv_def pools_ok_def)

lemma acquire_slot_slow_spec:
  assumes valid: "pool_params_valid P" and inv: "pool_inv P lim blks R w" and k: "k < local_cache_set_size P"
    and owner: "lc_owner (cache_at w k) = Some p" and cache: "locally_acquired (cache_at w k)" "lc_slots (cache_at w k) = []"
  shows "\<exists>s w'. acquire_slot_slow P p k w = Some (s, w') \<and> took_slot P lim blks R p s w'"
proof -
  obtain h w1 where hot: "try_hot_block P p k w = (h, w1)" by fastforce
  have h: "case h of
      None \<Rightarrow> pool_inv P lim blks R w1 \<and> lc_owner (cache_at w1 k) = Some p \<and> locally_acquired (cache_at w1 k) \<and> lc_slots (cache_at w1 k) = []
    | Some s \<Rightarrow> pool_inv P lim blks (add_mset s R) w1 \<and> fst s \<in> set (blks p)"
  proof (cases "hot_block (pw_pool w p)")
    case None
    then show ?thesis using hot inv owner cache by (auto simp: try_hot_block_def)
  next
    case (Some b)
    then have pop: "cache_pop k (refill_cache_from_block P k b w) = (h, w1)" using hot by (simp add: try_hot_block_def)
    show ?thesis
      using refill_pop [OF valid inv k owner inv_hot [OF inv Some] cache pop] inv_hot [OF inv Some] by (cases h) auto
  qed
  show ?thesis
  proof (cases h)
    case (Some s)
    then show ?thesis using h by (subst acquire_slot_slow.simps) (auto simp: hot took_slot_def)
  next
    case None
    then have w1: "pool_inv P lim blks R w1" "lc_owner (cache_at w1 k) = Some p" "locally_acquired (cache_at w1 k)" "lc_slots (cache_at w1 k) = []"
      using h by simp_all
    obtain v w2 where scan: "scan_blocks P p k (pool_blocks (pw_pool w1 p)) w1 = Some (v, w2)" and
      v: "case v of
         None \<Rightarrow> pool_inv P lim blks R w2 \<and> lc_owner (cache_at w2 k) = Some p \<and> locally_acquired (cache_at w2 k) \<and> lc_slots (cache_at w2 k) = []
       | Some s \<Rightarrow> pool_inv P lim blks (add_mset s R) w2 \<and> fst s \<in> set (blks p)"
      using scan_blocks_spec [OF valid k w1 inv_chain [OF w1(1)]] by blast
    show ?thesis
    proof (cases v)
      case (Some s)
      then show ?thesis using v by (subst acquire_slot_slow.simps) (auto simp: hot None scan took_slot_def)
    next
      case v_None: None
      then have w2: "pool_inv P lim blks R w2" "lc_owner (cache_at w2 k) = Some p" "locally_acquired (cache_at w2 k)" "lc_slots (cache_at w2 k) = []"
        using v by simp_all
      obtain b w3 where add: "add_block P p w2 = (b, w3)" by fastforce
      note w3 = add_block_spec [OF valid w2(1) add]
      have c3: "lc_owner (cache_at w3 k) = Some p" "locally_acquired (cache_at w3 k)" "lc_slots (cache_at w3 k) = []"
        using add_block_fields(5) [OF add] w2 by simp_all
      obtain u w4 where pop: "cache_pop k (refill_cache_from_block P k b w3) = (u, w4)" by fastforce
      have "b \<in> set ((blks(p := b # blks p)) p)" by simp
      note u = refill_pop [OF valid w3(1) k c3(1) this c3(2,3) pop]
      then obtain s where s: "u = Some s" using w3(2) by (cases u) auto
      have "took_slot P lim blks R p s w4"
        unfolding took_slot_def using u s by (intro exI [of _ "blks(p := b # blks p)"]) auto
      then show ?thesis by (subst acquire_slot_slow.simps) (simp add: hot None scan v_None add pop s)
    qed
  qed
qed

lemma mark_inv: "pool_inv P lim blks R w \<Longrightarrow> k < local_cache_set_size P \<Longrightarrow> pool_inv P lim blks R (mark_locally_acquired k w)"
  unfolding mark_locally_acquired_def
  using inv_cache_ok [of P lim blks R w k] inv_cache_count [of P lim blks R w] by (intro inv_change_cache) (simp_all add: cache_ok_def)

text \<open>Taking a slot returns, for every state of the caches and the blocks.\<close>

lemma acquire_slot_spec:
  assumes valid: "pool_params_valid P" and inv: "pool_inv P lim blks R w"
  shows "\<exists>s w'. acquire_slot P p w = Some (s, w') \<and> took_slot P lim blks R p s w'"
proof -
  obtain k w1 where get: "caches_get P p w = (k, w1)" by fastforce
  then have has: "pool_inv P lim blks R w1" "k < local_cache_set_size P" "lc_owner (cache_at w1 k) = Some p"
    using caches_get_has [OF valid inv, of p] by (simp_all add: has_cache_def)
  have k: "k < length (cs_caches (pw_caches w1))" using has(2) inv_cache_count [OF has(1)] by simp
  obtain v w2 where pop: "cache_pop k w1 = (v, w2)" by fastforce
  note spec = cache_pop_spec [OF has(1,2) pop]
  show ?thesis
  proof (cases v)
    case None
    then have w2: "w2 = w1" "lc_slots (cache_at w1 k) = []" using spec by simp_all
    have m: "lc_owner (cache_at (mark_locally_acquired k w1) k) = Some p" "locally_acquired (cache_at (mark_locally_acquired k w1) k)"
      "lc_slots (cache_at (mark_locally_acquired k w1) k) = []"
      using k w2 has(3) by (simp_all add: mark_locally_acquired_def)
    show ?thesis
      using acquire_slot_slow_spec [OF valid mark_inv [OF has(1,2)] has(2) m] by (simp add: acquire_slot_def get pop None w2)
  next
    case (Some s)
    then have s: "pool_inv P lim blks (add_mset s R) w2" "s \<in> set (lc_slots (cache_at w1 k))" using spec by simp_all
    have "fst s \<in> set (blks p)" using inv_cache_ok [OF has(1) k] has(3) s(2) by (auto simp: cache_ok_def)
    then show ?thesis
      using s(1) mark_inv [OF s(1) has(2)] by (auto simp: acquire_slot_def get pop Some took_slot_def)
  qed
qed

lemma scan_blocks_uncached_spec:
  assumes "pool_inv P lim blks R w" "block_chain w block bs" "set bs \<subseteq> set (blks p)"
  shows "\<exists>v w'. scan_blocks_uncached P p block w = Some (v, w') \<and>
      (case v of None \<Rightarrow> pool_inv P lim blks R w' | Some s \<Rightarrow> pool_inv P lim blks (add_mset s R) w' \<and> fst s \<in> set (blks p))"
  using assms
proof (induction bs arbitrary: w block)
  case Nil
  then show ?case by (subst scan_blocks_uncached.simps) simp
next
  case (Cons b bs)
  obtain v w1 where pop: "pop_block_slot P b w = (v, w1)" by fastforce
  have b: "block = Some b" "b \<in> set (blks p)" "b \<in> dom (pw_block w)" using Cons.prems(2,3) by simp_all
  note spec = pop_block_slot_spec [OF Cons.prems(1) b(3) pop]
  show ?case
  proof (cases v)
    case None
    have dom: "dom (pw_block w) = dom (pw_block w1)"
      using pop b(3) by (auto simp: pop_block_slot_def split: prod.splits list.splits if_splits)
    have "block_chain w (blk_next (block_at w b)) bs" using Cons.prems(2) by simp
    then have "block_chain w1 (blk_next (block_at w1 b)) bs"
      using block_chain_frame [of w "blk_next (block_at w b)" bs w1] dom spec by simp
    then show ?thesis
      using Cons.IH [of w1] spec None Cons.prems(3) by (subst scan_blocks_uncached.simps) (simp add: b(1) pop)
  next
    case (Some s)
    then show ?thesis
      using spec hot_block_inv [of P lim blks "add_mset s R" w1 b p] b by (subst scan_blocks_uncached.simps) (simp add: pop)
  qed
qed

lemma acquire_slot_uncached_spec:
  assumes valid: "pool_params_valid P" and inv: "pool_inv P lim blks R w"
  shows "\<exists>s w'. acquire_slot_uncached P p w = Some (s, w') \<and> took_slot P lim blks R p s w'"
proof -
  obtain h w1 where hot: "(case hot_block (pw_pool w p) of None \<Rightarrow> (None, w) | Some b \<Rightarrow> pop_block_slot P b w) = (h, w1)" by fastforce
  have h: "case h of None \<Rightarrow> pool_inv P lim blks R w1 | Some s \<Rightarrow> pool_inv P lim blks (add_mset s R) w1 \<and> fst s \<in> set (blks p)"
  proof (cases "hot_block (pw_pool w p)")
    case None
    then show ?thesis using hot inv by auto
  next
    case (Some b)
    have b: "b \<in> set (blks p)" "b \<in> dom (pw_block w)" using inv_hot [OF inv Some] inv_blks_dom [OF inv] by auto
    show ?thesis using pop_block_slot_spec [OF inv b(2), of h w1] hot Some b by (cases h) auto
  qed
  show ?thesis
  proof (cases h)
    case (Some s)
    then show ?thesis using h by (subst acquire_slot_uncached.simps) (auto simp: hot took_slot_def)
  next
    case None
    then have w1: "pool_inv P lim blks R w1" using h by simp
    obtain v w2 where scan: "scan_blocks_uncached P p (pool_blocks (pw_pool w1 p)) w1 = Some (v, w2)" and
      v: "case v of None \<Rightarrow> pool_inv P lim blks R w2 | Some s \<Rightarrow> pool_inv P lim blks (add_mset s R) w2 \<and> fst s \<in> set (blks p)"
      using scan_blocks_uncached_spec [OF w1 inv_chain [OF w1]] by blast
    show ?thesis
    proof (cases v)
      case (Some s)
      then show ?thesis using v by (subst acquire_slot_uncached.simps) (auto simp: hot None scan took_slot_def)
    next
      case v_None: None
      obtain b w3 where add: "add_block P p w2 = (b, w3)" by fastforce
      have w2: "pool_inv P lim blks R w2" using v v_None by simp
      note w3 = add_block_spec [OF valid w2 add]
      obtain u w4 where pop: "pop_block_slot P b w3 = (u, w4)" by fastforce
      have "b \<in> dom (pw_block w3)" using add_block_fields(2) [OF add] by simp
      note u = pop_block_slot_spec [OF w3(1) this pop]
      then obtain s where s: "u = Some s" using w3(2) by (cases u) auto
      have "took_slot P lim blks R p s w4"
        unfolding took_slot_def using u s by (intro exI [of _ "blks(p := b # blks p)"]) auto
      then show ?thesis by (subst acquire_slot_uncached.simps) (simp add: hot None scan v_None add pop s)
    qed
  qed
qed

subsection \<open>Giving a slot back\<close>

lemma inv_weaken: "pool_inv P lim blks R w \<Longrightarrow> lim \<le> lim' \<Longrightarrow> pool_inv P lim' blks R w"
  by (auto simp: pool_inv_def caches_ok_def cache_ok_def)

lemma inv_tighten:
  assumes "pool_inv P lim' blks R w" "0 < lim"
    "\<And>k. k < local_cache_set_size P \<Longrightarrow> \<not> locally_acquired (cache_at w k) \<Longrightarrow> length (lc_slots (cache_at w k)) < lim"
  shows "pool_inv P lim blks R w"
proof -
  have "length (lc_slots c) < lim" if "c \<in> set (cs_caches (pw_caches w))" "\<not> locally_acquired c" for c
    using assms(3) inv_cache_count [OF assms(1)] that by (auto simp: cache_at_def in_set_conv_nth)
  then show ?thesis using assms(1,2) by (simp add: pool_inv_def caches_ok_def cache_ok_def)
qed

text \<open>The cache has room for one more slot after a full one was flushed by half.\<close>

lemma push_after_flush:
  assumes valid: "pool_params_valid P" and inv: "pool_inv P lim blks (add_mset s R) w" and k: "k < local_cache_set_size P"
    and cache: "lc_owner (cache_at w k) = Some p" "locally_acquired (cache_at w k)" and s: "fst s \<in> set (blks p)"
  shows "pool_inv P lim blks R (cache_push s k (if cache_full P (cache_at w k) then flush_full_cache P k w else w))"
proof (cases "cache_full P (cache_at w k)")
  case True
  let ?w = "flush_full_cache P k w"
  have k': "k < length (cs_caches (pw_caches w))" using k inv_cache_count [OF inv] by simp
  note flush = flush_some_spec [OF valid inv k', of "local_cache_flush_count P"]
  have "length (lc_slots (cache_at ?w k)) < local_cache_capacity P"
    using flush True valid by (simp add: flush_full_cache_def cache_full_def pool_params_valid_def)
  then show ?thesis
    using True flush cache s k by (auto simp: flush_full_cache_def flush_frame_def intro!: cache_push_inv)
next
  case False
  have "cache_ok P lim blks (cache_at w k)" using inv_cache_ok [OF inv] k inv_cache_count [OF inv] by simp
  then have "length (lc_slots (cache_at w k)) < local_cache_capacity P" using False by (simp add: cache_ok_def cache_full_def)
  then show ?thesis using False cache s k inv by (auto intro: cache_push_inv)
qed

lemma push_remote_release_inv:
  assumes valid: "pool_params_valid P" and inv: "pool_inv P (remote_release_batch_size P) blks (add_mset s R) w"
    and k: "k < local_cache_set_size P" and cache: "lc_owner (cache_at w k) = Some p" "\<not> locally_acquired (cache_at w k)"
    and s: "fst s \<in> set (blks p)"
  shows "pool_inv P (remote_release_batch_size P) blks R (push_remote_release P s k w)"
proof -
  let ?n = "remote_release_batch_size P" and ?w = "cache_push s k w"
  have k': "k < length (cs_caches (pw_caches w))" using k inv_cache_count [OF inv] by simp
  have small: "length (lc_slots (cache_at w k)) < ?n" using inv_cache_ok [OF inv k'] cache(2) by (simp add: cache_ok_def)
  then have room: "length (lc_slots (cache_at w k)) < local_cache_capacity P" using valid by (simp add: pool_params_valid_def)
  have slots: "lc_slots (cache_at ?w k) = lc_slots (cache_at w k) @ [s]" using k' by (simp add: cache_push_def)
  have inv1: "pool_inv P (Suc ?n) blks R ?w"
    using cache_push_inv [OF inv_weaken [OF inv, of "Suc ?n"] k cache(1) s room] small by simp
  show ?thesis
  proof (cases "Suc (length (lc_slots (cache_at w k))) = ?n")
    case True
    have k1: "k < length (cs_caches (pw_caches ?w))" using k' by (simp add: cache_push_def)
    note flush = flush_some_spec [OF valid inv1 k1, of ?n]
    have "pool_inv P ?n blks R (flush_some P k ?n ?w)"
    proof (rule inv_tighten)
      fix j assume j: "j < local_cache_set_size P" "\<not> locally_acquired (cache_at (flush_some P k ?n ?w) j)"
      show "length (lc_slots (cache_at (flush_some P k ?n ?w) j)) < ?n"
      proof (cases "j = k")
        case True
        then show ?thesis using flush small slots \<open>Suc _ = ?n\<close> by simp
      next
        case False
        then have "cache_at (flush_some P k ?n ?w) j = cache_at w j" using flush k' by (simp add: flush_frame_def cache_push_def)
        then show ?thesis using j inv_cache_ok [OF inv, of j] inv_cache_count [OF inv] by (simp add: cache_ok_def)
      qed
    qed (use flush small in auto)
    then show ?thesis using True slots by (simp add: push_remote_release_def Let_def)
  next
    case False
    then have "pool_inv P ?n blks R ?w" using cache_push_inv [OF inv k cache(1) s room] small by simp
    then show ?thesis using False slots by (simp add: push_remote_release_def Let_def)
  qed
qed

lemma release_slot_inv:
  assumes valid: "pool_params_valid P" and inv: "pool_inv P (remote_release_batch_size P) blks (add_mset s R) w"
    and s: "fst s \<in> set (blks p)"
  shows "pool_inv P (remote_release_batch_size P) blks R (release_slot P p s w)"
proof (cases "remote_release_batch_size P = 1")
  case True
  obtain k w1 where find: "find_release_cache P p w = (k, w1)" by fastforce
  note has = find_release_cache_has [OF valid inv find, unfolded has_cache_def]
  show ?thesis
  proof (cases "\<exists>j. k = Some j \<and> locally_acquired (cache_at w1 j)")
    case True
    then obtain j where j: "k = Some j" "locally_acquired (cache_at w1 j)" by blast
    then show ?thesis
      using push_after_flush [OF valid, of _ blks s R w1 j p] has s \<open>remote_release_batch_size P = 1\<close>
      by (simp add: release_slot_def find caches_releases_def)
  next
    case False
    have "pool_inv P (remote_release_batch_size P) blks R (block_push_slot P s w1)" using block_push_slot_inv(1) [OF valid] has by blast
    then show ?thesis
      using False True by (auto simp: release_slot_def find caches_releases_def split: option.split)
  qed
next
  case False
  obtain k w1 where get: "caches_get P p w = (k, w1)" by fastforce
  have has: "pool_inv P (remote_release_batch_size P) blks (add_mset s R) w1" "k < local_cache_set_size P" "lc_owner (cache_at w1 k) = Some p"
    using caches_get_has [OF valid inv, of p] by (simp_all add: has_cache_def get)
  show ?thesis
    using False push_remote_release_inv [OF valid has _ s] push_after_flush [OF valid has _ s]
    by (simp add: release_slot_def get caches_releases_def)
qed

lemma reserve_blocks_inv:
  "pool_params_valid P \<Longrightarrow> pool_inv P lim blks R w \<Longrightarrow>
    \<exists>blks'. (\<forall>q. set (blks q) \<subseteq> set (blks' q)) \<and> pool_inv P lim blks' R (reserve_blocks P p n w) \<and>
      pw_caches (reserve_blocks P p n w) = pw_caches w"
proof (induction P p n w arbitrary: blks rule: reserve_blocks.induct)
  case (1 P p n w)
  show ?case
  proof (cases "block_count (pw_pool w p) < n")
    case True
    obtain b w1 where add: "add_block P p w = (b, w1)" by fastforce
    then have w1: "snd (add_block P p w) = w1" by simp
    obtain blks' where "\<forall>q. set ((blks(p := b # blks p)) q) \<subseteq> set (blks' q)" "pool_inv P lim blks' R (reserve_blocks P p n w1)"
      "pw_caches (reserve_blocks P p n w1) = pw_caches w1"
      using 1(1) [OF True 1(2), unfolded w1, OF add_block_spec(1) [OF 1(2,3) add]] by blast
    moreover have "set (blks q) \<subseteq> set ((blks(p := b # blks p)) q)" for q by auto
    moreover have "reserve_blocks P p n w = reserve_blocks P p n w1" using True w1 by (subst reserve_blocks.simps) simp
    ultimately show ?thesis using add_block_fields(4) [OF add] by (intro exI [of _ blks']) auto
  next
    case False
    then have "reserve_blocks P p n w = w" by (subst reserve_blocks.simps) simp
    then show ?thesis using 1(3) by auto
  qed
qed

lemma thread_exit_inv:
  assumes "pool_params_valid P" "pool_inv P lim blks R w"
  shows "pool_inv P lim blks R (thread_exit P w)" "cached_mset (pw_caches (thread_exit P w)) = {#}"
proof -
  have step: "pool_inv P lim blks R (foldl (\<lambda>w k. cache_flush P k w) w [0..<n]) \<and>
      (\<forall>k < n. cache_at (foldl (\<lambda>w k. cache_flush P k w) w [0..<n]) k = cache_new)"
    if "n \<le> local_cache_set_size P" for n
    using that
  proof (induction n)
    case (Suc n)
    let ?w = "foldl (\<lambda>w k. cache_flush P k w) w [0..<n]"
    have inv: "pool_inv P lim blks R ?w" and new: "\<forall>k < n. cache_at ?w k = cache_new" using Suc by simp_all
    have n: "n < length (cs_caches (pw_caches ?w))" using inv_cache_count [OF inv] Suc.prems by simp
    note flush = cache_flush_spec [OF assms(1) inv n]
    show ?case using flush(1,2) flush(5) new by (auto simp: less_Suc_eq)
  qed (simp add: assms(2))
  have eq: "thread_exit P w = foldl (\<lambda>w k. cache_flush P k w) w [0..<local_cache_set_size P]"
    by (simp add: thread_exit_def inv_cache_count [OF assms(2)])
  show inv: "pool_inv P lim blks R (thread_exit P w)" using step eq by simp
  have "lc_slots c = []" if c: "c \<in> set (cs_caches (pw_caches (thread_exit P w)))" for c
  proof -
    obtain k where "k < local_cache_set_size P" "c = cache_at (thread_exit P w) k"
      using c inv_cache_count [OF inv] by (auto simp: cache_at_def in_set_conv_nth)
    then show ?thesis using step [OF order_refl] eq by (simp add: cache_new_def)
  qed
  then show "cached_mset (pw_caches (thread_exit P w)) = {#}" by (simp add: cached_mset_def sum_list_empty)
qed

text \<open>The end of a pool deletes its blocks and no other.\<close>

lemma block_chain_det: "block_chain w block bs \<Longrightarrow> block_chain w block bs' \<Longrightarrow> bs = bs'"
proof (induction bs arbitrary: block bs')
  case Nil
  then show ?case by (cases bs') auto
next
  case (Cons b bs)
  then show ?case by (cases bs') auto
qed

lemma block_chain_suffix: "block_chain w block (xs @ b # ys) \<Longrightarrow> block_chain w (Some b) (b # ys)"
  by (induction xs arbitrary: block) auto

lemma block_chain_distinct: "block_chain w block bs \<Longrightarrow> distinct bs"
proof (induction bs arbitrary: block)
  case (Cons b bs)
  have "b \<notin> set bs"
  proof
    assume "b \<in> set bs"
    then obtain xs ys where bs: "bs = xs @ b # ys" by (auto simp: in_set_conv_decomp)
    have "block_chain w (Some b) (b # bs)" using Cons.prems by simp
    moreover have "block_chain w (Some b) (b # ys)"
      using Cons.prems block_chain_suffix [of w "blk_next (block_at w b)" xs b ys] by (simp add: bs)
    ultimately have "b # bs = b # ys" by (rule block_chain_det)
    then show False by (simp add: bs)
  qed
  then show ?case using Cons by auto
qed simp

lemma delete_blocks_spec:
  "block_chain w block bs \<Longrightarrow> \<exists>w'. delete_blocks block w = Some w' \<and> pw_block w' = pw_block w |` (- set bs)"
proof (induction bs arbitrary: block w)
  case Nil
  then show ?case by (subst delete_blocks.simps) (simp add: restrict_map_def)
next
  case (Cons b bs)
  let ?w = "w\<lparr>pw_block := (pw_block w)(b := None)\<rparr>"
  have b: "b \<notin> set bs" using block_chain_distinct [OF Cons.prems] by simp
  have keep: "block_chain w block bs \<Longrightarrow> b \<notin> set bs \<Longrightarrow> block_chain ?w block bs" for block bs
    by (induction bs arbitrary: block) (auto simp: block_at_def)
  have "block_chain ?w (blk_next (block_at w b)) bs" using keep b Cons.prems by simp
  then obtain w' where "delete_blocks (blk_next (block_at w b)) ?w = Some w'" "pw_block w' = pw_block ?w |` (- set bs)"
    using Cons.IH by blast
  then show ?case
    using Cons.prems by (subst delete_blocks.simps) (auto simp: restrict_map_def fun_eq_iff)
qed

lemma destroy_pool_spec:
  assumes "pool_inv P lim blks R w"
  shows "\<exists>w'. destroy_pool P p w = Some w' \<and> pw_block w' = pw_block w |` (- set (blks p))"
proof -
  let ?w = "caches_discard_if_owner P p w"
  have same: "pw_block ?w = pw_block w" "pw_pool ?w = pw_pool w" by (simp_all add: caches_discard_if_owner_def)
  have "block_chain ?w (pool_blocks (pw_pool ?w p)) (blks p)" using inv_chain [OF assms] block_chain_same [OF same(1)] same(2) by simp
  then show ?thesis using delete_blocks_spec same(1) by (fastforce simp: destroy_pool_def Let_def)
qed

subsection \<open>Any number of threads\<close>

text \<open>
  Threads that run the operations of the pools one after the other, each with its own caches.
  \<open>ps_used\<close> are the objects that were created and not destroyed, with the pool of each.
\<close>

record pool_system =
  ps_world :: pool_world
  ps_tls :: "nat \<Rightarrow> cache_set \<times> direct_release_set"
  ps_used :: "(paddr \<times> slot_ptr) multiset"

definition system_init :: "pool_params \<Rightarrow> pool_system" where
  "system_init P = \<lparr>ps_world = world_new P, ps_tls = (\<lambda>_. (caches_new P, direct_new P)), ps_used = {#}\<rparr>"

definition enter_thread :: "nat \<Rightarrow> pool_system \<Rightarrow> pool_world" where
  "enter_thread t S = (ps_world S)\<lparr>pw_caches := fst (ps_tls S t), pw_direct := snd (ps_tls S t)\<rparr>"

definition leave_thread :: "nat \<Rightarrow> pool_world \<Rightarrow> (paddr \<times> slot_ptr) multiset \<Rightarrow> pool_system \<Rightarrow> pool_system" where
  "leave_thread t w used S = \<lparr>ps_world = w, ps_tls = (ps_tls S)(t := (pw_caches w, pw_direct w)), ps_used = used\<rparr>"

definition created :: "paddr \<Rightarrow> slot_ptr ptr \<Rightarrow> (paddr \<times> slot_ptr) multiset \<Rightarrow> (paddr \<times> slot_ptr) multiset" where
  "created p v used = (case v of None \<Rightarrow> used | Some s \<Rightarrow> add_mset (p, s) used)"

inductive pool_step :: "pool_params \<Rightarrow> nat \<Rightarrow> pool_system \<Rightarrow> pool_system \<Rightarrow> bool" for P threads where
  step_create: "t < threads \<Longrightarrow> create P p throws (enter_thread t S) = Some (v, w) \<Longrightarrow>
    pool_step P threads S (leave_thread t w (created p v (ps_used S)) S)"
| step_create_uncached: "t < threads \<Longrightarrow> create_uncached P p throws (enter_thread t S) = Some (v, w) \<Longrightarrow>
    pool_step P threads S (leave_thread t w (created p v (ps_used S)) S)"
| step_destroy: "t < threads \<Longrightarrow> (p, s) \<in># ps_used S \<Longrightarrow>
    pool_step P threads S (leave_thread t (destroy P p s (enter_thread t S)) (ps_used S - {#(p, s)#}) S)"
| step_destroy_uncached: "t < threads \<Longrightarrow> (p, s) \<in># ps_used S \<Longrightarrow>
    pool_step P threads S (leave_thread t (destroy_uncached P s (enter_thread t S)) (ps_used S - {#(p, s)#}) S)"
| step_reserve: "t < threads \<Longrightarrow>
    pool_step P threads S (leave_thread t (reserve_slots P p n (enter_thread t S)) (ps_used S) S)"
| step_exit: "t < threads \<Longrightarrow> pool_step P threads S (leave_thread t (thread_exit P (enter_thread t S)) (ps_used S) S)"

inductive pool_reachable :: "pool_params \<Rightarrow> nat \<Rightarrow> pool_system \<Rightarrow> bool" for P threads where
  pool_init: "pool_reachable P threads (system_init P)"
| pool_more: "pool_reachable P threads S \<Longrightarrow> pool_step P threads S S' \<Longrightarrow> pool_reachable P threads S'"

text \<open>The slots that a thread does not see: in use, or in the caches of the others.\<close>

definition elsewhere :: "nat \<Rightarrow> nat \<Rightarrow> (paddr \<times> slot_ptr) multiset \<Rightarrow> pool_system \<Rightarrow> slot_ptr multiset" where
  "elsewhere threads t used S = image_mset snd used + (\<Sum>u \<in> {..<threads} - {t}. cached_mset (fst (ps_tls S u)))"

definition system_inv :: "pool_params \<Rightarrow> nat \<Rightarrow> (paddr \<Rightarrow> baddr list) \<Rightarrow> pool_system \<Rightarrow> bool" where
  "system_inv P threads blks S \<longleftrightarrow>
     (\<forall>t < threads. pool_inv P (remote_release_batch_size P) blks (elsewhere threads t (ps_used S) S) (enter_thread t S)) \<and>
     (\<forall>(p, s) \<in># ps_used S. fst s \<in> set (blks p))"

lemma enter_fields [simp]:
  "pw_block (enter_thread t S) = pw_block (ps_world S)" "pw_fresh (enter_thread t S) = pw_fresh (ps_world S)"
  "pw_pool (enter_thread t S) = pw_pool (ps_world S)" "pw_caches (enter_thread t S) = fst (ps_tls S t)"
  "block_at (enter_thread t S) b = block_at (ps_world S) b"
  by (simp_all add: enter_thread_def block_at_def)

lemma inv_other_thread:
  assumes inv: "pool_inv P lim blks R w" and caches: "caches_ok P lim blks cs"
    and sum: "cached_mset cs + R' = cached_mset (pw_caches w) + R"
  shows "pool_inv P lim blks R' (w\<lparr>pw_caches := cs, pw_direct := d\<rparr>)"
proof -
  let ?w = "w\<lparr>pw_caches := cs, pw_direct := d\<rparr>"
  have at: "block_at ?w b = block_at w b" for b by (simp add: block_at_def)
  have "free_mset w + (cached_mset cs + R') = all_mset P w" using inv unfolding sum by (simp add: pool_inv_def ac_simps)
  then show ?thesis
    using inv caches block_chain_same [of ?w w]
    by (simp add: pool_inv_def heap_ok_def pools_ok_def free_mset_def all_mset_def at ac_simps)
qed

lemma caches_ok_mono:
  assumes "caches_ok P lim blks cs" "\<And>q. set (blks q) \<subseteq> set (blks' q)" shows "caches_ok P lim blks' cs"
  using assms unfolding caches_ok_def cache_ok_def by (meson order_trans)

lemma leave_inv:
  assumes sys: "system_inv P threads blks S" and t: "t < threads" and grow: "\<And>q. set (blks q) \<subseteq> set (blks' q)"
    and inv: "pool_inv P (remote_release_batch_size P) blks' (elsewhere threads t used S) w"
    and used: "\<forall>(p, s) \<in># used. fst s \<in> set (blks' p)"
  shows "system_inv P threads blks' (leave_thread t w used S)"
proof -
  let ?S = "leave_thread t w used S" and ?c = "\<lambda>u. cached_mset (fst (ps_tls S u))"
  have "pool_inv P (remote_release_batch_size P) blks' (elsewhere threads u used ?S) (enter_thread u ?S)" if u: "u < threads" for u
  proof (cases "u = t")
    case True
    have "enter_thread t ?S = w" by (simp add: enter_thread_def leave_thread_def)
    moreover have "elsewhere threads t used ?S = elsewhere threads t used S" by (simp add: elsewhere_def leave_thread_def)
    ultimately show ?thesis using inv True by simp
  next
    case False
    have "caches_ok P (remote_release_batch_size P) blks (fst (ps_tls S u))" using sys u by (simp add: system_inv_def pool_inv_def)
    then have caches: "caches_ok P (remote_release_batch_size P) blks' (fst (ps_tls S u))" using grow by (rule caches_ok_mono)
    have fin: "finite ({..<threads} - {u})" "t \<in> {..<threads} - {u}" "finite ({..<threads} - {t})" "u \<in> {..<threads} - {t}"
      using t u False by auto
    have "elsewhere threads u used ?S = image_mset snd used + (cached_mset (pw_caches w) + (\<Sum>v \<in> {..<threads} - {u} - {t}. ?c v))"
      unfolding elsewhere_def using sum.remove [OF fin(1,2), of "\<lambda>v. cached_mset (fst (ps_tls ?S v))"] by (simp add: leave_thread_def)
    moreover have "elsewhere threads t used S = image_mset snd used + (?c u + (\<Sum>v \<in> {..<threads} - {u} - {t}. ?c v))"
      unfolding elsewhere_def using sum.remove [OF fin(3,4), of ?c] by (simp add: Diff_insert2 [symmetric] insert_commute)
    ultimately have sum: "?c u + elsewhere threads u used ?S = cached_mset (pw_caches w) + elsewhere threads t used S"
      by (simp add: ac_simps)
    have enter: "enter_thread u ?S = w\<lparr>pw_caches := fst (ps_tls S u), pw_direct := snd (ps_tls S u)\<rparr>"
      using False by (simp add: enter_thread_def leave_thread_def)
    show ?thesis unfolding enter by (rule inv_other_thread [OF inv caches sum])
  qed
  then show ?thesis using used by (simp add: system_inv_def leave_thread_def)
qed

lemma system_init_inv: "pool_params_valid P \<Longrightarrow> system_inv P threads (\<lambda>_. []) (system_init P)"
proof -
  assume valid: "pool_params_valid P"
  have empty: "cached_mset (caches_new P) = {#}"
    unfolding cached_mset_def by (rule sum_list_empty) (simp add: caches_new_def cache_new_def)
  have "caches_ok P (remote_release_batch_size P) (\<lambda>_. []) (caches_new P)"
    using valid by (auto simp: caches_ok_def caches_new_def cache_ok_def cache_new_def overflow_cache_count_def pool_params_valid_def)
  then show ?thesis
    using valid by (simp add: system_inv_def system_init_def world_new_def pool_inv_def heap_ok_def pools_ok_def pool_new_def
        free_mset_def all_mset_def elsewhere_def enter_thread_def empty pool_params_valid_def)
qed

lemma created_elsewhere: "elsewhere threads t (created p v used) S =
    (case v of None \<Rightarrow> elsewhere threads t used S | Some s \<Rightarrow> add_mset s (elsewhere threads t used S))"
  by (simp add: elsewhere_def created_def split: option.split)

lemma destroyed_elsewhere:
  "(p, s) \<in># used \<Longrightarrow> elsewhere threads t used S = add_mset s (elsewhere threads t (used - {#(p, s)#}) S)"
  by (auto simp: elsewhere_def dest!: multi_member_split)

lemma system_enter:
  "system_inv P threads blks S \<Longrightarrow> t < threads \<Longrightarrow>
   pool_inv P (remote_release_batch_size P) blks (elsewhere threads t (ps_used S) S) (enter_thread t S)"
  by (simp add: system_inv_def)

text \<open>A creation, with and without the caches.\<close>

lemma created_inv:
  assumes valid: "pool_params_valid P" and sys: "system_inv P threads blks S" and t: "t < threads"
    and took: "took_slot P (remote_release_batch_size P) blks (elsewhere threads t (ps_used S) S) p s w"
    and result: "(v, w') = (if throws then (None, release w) else (Some s, w))"
    and release: "\<And>blks R. pool_inv P (remote_release_batch_size P) blks (add_mset s R) w \<Longrightarrow> fst s \<in> set (blks p) \<Longrightarrow>
      pool_inv P (remote_release_batch_size P) blks R (release w)"
  shows "\<exists>blks. system_inv P threads blks (leave_thread t w' (created p v (ps_used S)) S)"
proof -
  obtain blks' where grow: "\<And>q. set (blks q) \<subseteq> set (blks' q)" and s: "fst s \<in> set (blks' p)"
    and inv: "pool_inv P (remote_release_batch_size P) blks' (add_mset s (elsewhere threads t (ps_used S) S)) w"
    using took by (auto simp: took_slot_def)
  have used: "\<forall>(q, x) \<in># created p v (ps_used S). fst x \<in> set (blks' q)"
    using sys s grow result by (fastforce simp: system_inv_def created_def split: option.splits if_splits)
  have "pool_inv P (remote_release_batch_size P) blks' (elsewhere threads t (created p v (ps_used S)) S) w'"
    using result inv release [OF inv s] by (simp add: created_elsewhere split: if_splits)
  then show ?thesis using leave_inv [OF sys t grow _ used] by blast
qed

lemma destroyed_inv:
  assumes valid: "pool_params_valid P" and sys: "system_inv P threads blks S" and t: "t < threads" and s: "(p, s) \<in># ps_used S"
    and release: "\<And>R. pool_inv P (remote_release_batch_size P) blks (add_mset s R) (enter_thread t S) \<Longrightarrow> fst s \<in> set (blks p) \<Longrightarrow>
      pool_inv P (remote_release_batch_size P) blks R w"
  shows "\<exists>blks. system_inv P threads blks (leave_thread t w (ps_used S - {#(p, s)#}) S)"
proof -
  have "fst s \<in> set (blks p)" using sys s by (auto simp: system_inv_def)
  then have "pool_inv P (remote_release_batch_size P) blks (elsewhere threads t (ps_used S - {#(p, s)#}) S) w"
    using release system_enter [OF sys t] destroyed_elsewhere [OF s] by simp
  moreover have "\<forall>(q, x) \<in># ps_used S - {#(p, s)#}. fst x \<in> set (blks q)"
    using sys by (auto simp: system_inv_def dest!: in_diffD)
  ultimately show ?thesis using leave_inv [OF sys t] by blast
qed

lemma pool_step_inv:
  assumes valid: "pool_params_valid P" and step: "pool_step P threads S S'" and sys: "system_inv P threads blks S"
  shows "\<exists>blks. system_inv P threads blks S'"
  using step
proof cases
  case (step_create t p throws v w)
  note enter = system_enter [OF sys step_create(2)]
  obtain s w1 where acquire: "acquire_slot P p (enter_thread t S) = Some (s, w1)"
    and took: "took_slot P (remote_release_batch_size P) blks (elsewhere threads t (ps_used S) S) p s w1"
    using acquire_slot_spec [OF valid enter] by blast
  have "(v, w) = (if throws then (None, release_slot P p s w1) else (Some s, w1))"
    using step_create(3) by (auto simp: create_def acquire split: if_splits)
  then show ?thesis
    unfolding step_create(1) by (rule created_inv [OF valid sys step_create(2) took]) (rule release_slot_inv [OF valid])
next
  case (step_create_uncached t p throws v w)
  note enter = system_enter [OF sys step_create_uncached(2)]
  obtain s w1 where acquire: "acquire_slot_uncached P p (enter_thread t S) = Some (s, w1)"
    and took: "took_slot P (remote_release_batch_size P) blks (elsewhere threads t (ps_used S) S) p s w1"
    using acquire_slot_uncached_spec [OF valid enter] by blast
  have "(v, w) = (if throws then (None, release_slot_uncached P s w1) else (Some s, w1))"
    using step_create_uncached(3) by (auto simp: create_uncached_def acquire split: if_splits)
  then show ?thesis
    unfolding step_create_uncached(1) release_slot_uncached_def
    by (rule created_inv [OF valid sys step_create_uncached(2) took]) (rule block_push_slot_inv(1) [OF valid])
next
  case (step_destroy t p s)
  show ?thesis
    unfolding step_destroy(1) destroy_def by (rule destroyed_inv [OF valid sys step_destroy(2,3)]) (rule release_slot_inv [OF valid])
next
  case (step_destroy_uncached t p s)
  show ?thesis
    unfolding step_destroy_uncached(1) destroy_uncached_def release_slot_uncached_def
    by (rule destroyed_inv [OF valid sys step_destroy_uncached(2,3)]) (rule block_push_slot_inv(1) [OF valid])
next
  case (step_reserve t p n)
  have used: "\<forall>(q, x) \<in># ps_used S. fst x \<in> set (blks q)" using sys by (simp add: system_inv_def)
  obtain blks' where "\<forall>q. set (blks q) \<subseteq> set (blks' q)"
    "pool_inv P (remote_release_batch_size P) blks' (elsewhere threads t (ps_used S) S) (reserve_slots P p n (enter_thread t S))"
    unfolding reserve_slots_def using reserve_blocks_inv [OF valid system_enter [OF sys step_reserve(2)]] by blast
  then show ?thesis
    unfolding step_reserve(1) using used by (intro exI [of _ blks'] leave_inv [OF sys step_reserve(2)]) fastforce+
next
  case (step_exit t)
  have used: "\<forall>(q, x) \<in># ps_used S. fst x \<in> set (blks q)" using sys by (simp add: system_inv_def)
  show ?thesis
    unfolding step_exit(1)
    using leave_inv [OF sys step_exit(2) _ thread_exit_inv(1) [OF valid system_enter [OF sys step_exit(2)]] used] by blast
qed

lemma pool_reachable_inv:
  assumes "pool_params_valid P" shows "pool_reachable P threads S \<Longrightarrow> \<exists>blks. system_inv P threads blks S"
  by (induction rule: pool_reachable.induct) (use system_init_inv pool_step_inv assms in blast)+

lemma system_sum:
  assumes "system_inv P threads blks S" "t < threads"
  shows "free_mset (ps_world S) + (\<Sum>t < threads. cached_mset (fst (ps_tls S t))) + image_mset snd (ps_used S) = all_mset P (ps_world S)"
proof -
  have "(\<Sum>u < threads. cached_mset (fst (ps_tls S u))) =
      cached_mset (fst (ps_tls S t)) + (\<Sum>u \<in> {..<threads} - {t}. cached_mset (fst (ps_tls S u)))"
    using assms(2) by (intro sum.remove) auto
  moreover have "free_mset (enter_thread t S) = free_mset (ps_world S)" "all_mset P (enter_thread t S) = all_mset P (ps_world S)"
    by (simp_all add: free_mset_def all_mset_def)
  ultimately show ?thesis
    using system_enter [OF assms] by (simp add: pool_inv_def elsewhere_def ac_simps)
qed

lemma used_once:
  assumes "system_inv P threads blks S" "t < threads" shows "count (all_mset P (ps_world S)) s \<le> 1"
  using system_enter [OF assms] by (intro count_all_mset) (simp add: pool_inv_def heap_ok_def)

text \<open>
  C11: In whatever order any number of threads create and destroy objects in any number of pools,
  through their caches or not, reserve blocks and end, one whole call after another: every slot of
  every block is in exactly one place, free in its block, in one cache of one thread, or in use; so
  no call gives out a slot twice or loses one.  No cache outgrows its array.  That calls may also
  overlap on a block is the subject of \<open>Pool_Concurrent\<close>.
\<close>

theorem pool_slots_in_one_place:
  assumes "pool_params_valid P" and "pool_reachable P threads S" and "0 < threads"
  shows "free_mset (ps_world S) + (\<Sum>t < threads. cached_mset (fst (ps_tls S t))) + image_mset snd (ps_used S) = all_mset P (ps_world S) \<and>
    (\<forall>s. count (all_mset P (ps_world S)) s \<le> 1) \<and>
    (\<forall>t c. t < threads \<longrightarrow> c \<in> set (cs_caches (fst (ps_tls S t))) \<longrightarrow> length (lc_slots c) \<le> local_cache_capacity P)"
proof -
  obtain blks where sys: "system_inv P threads blks S" using pool_reachable_inv assms by blast
  have "length (lc_slots c) \<le> local_cache_capacity P" if "t < threads" "c \<in> set (cs_caches (fst (ps_tls S t)))" for t c
    using system_enter [OF sys that(1)] that(2) by (simp add: pool_inv_def caches_ok_def cache_ok_def)
  then show ?thesis using system_sum [OF sys assms(3)] used_once [OF sys assms(3)] by blast
qed

text \<open>
  C12: Creating an object returns: a new slot of the pool that is not in use, or, when the constructor
  throws, no object.
\<close>

theorem create_returns_unused_slot:
  assumes valid: "pool_params_valid P" and reach: "pool_reachable P threads S" and t: "t < threads"
  shows "(\<exists>s w. create P p False (enter_thread t S) = Some (Some s, w) \<and> (\<forall>q. (q, s) \<notin># ps_used S) \<and> fst s \<in> dom (pw_block w)) \<and>
    (\<exists>w. create P p True (enter_thread t S) = Some (None, w))"
proof -
  obtain blks where sys: "system_inv P threads blks S" using pool_reachable_inv valid reach by blast
  obtain s w where acquire: "acquire_slot P p (enter_thread t S) = Some (s, w)"
    and took: "took_slot P (remote_release_batch_size P) blks (elsewhere threads t (ps_used S) S) p s w"
    using acquire_slot_spec [OF valid system_enter [OF sys t]] by blast
  obtain blks' where inv: "pool_inv P (remote_release_batch_size P) blks' (add_mset s (elsewhere threads t (ps_used S) S)) w"
    and s: "fst s \<in> set (blks' p)"
    using took by (auto simp: took_slot_def)
  have "s \<notin># elsewhere threads t (ps_used S) S"
  proof
    assume "s \<in># elsewhere threads t (ps_used S) S"
    then have "mset [s, s] \<subseteq># cached_mset (pw_caches w) + add_mset s (elsewhere threads t (ps_used S) S)"
      by (auto dest!: multi_member_split)
    then show False using inv_place(1) [OF inv, of "[s, s]"] by simp
  qed
  then have "(q, s) \<notin># ps_used S" for q by (force simp: elsewhere_def)
  moreover have "fst s \<in> dom (pw_block w)" using inv_blks_dom [OF inv] s by blast
  ultimately show ?thesis by (simp add: create_def acquire)
qed

definition sample_pool :: pool_params where
  "sample_pool = \<lparr>chunk_size = 2, remote_release_batch_size = 1, cache_allocated_slot_index = True, local_cache_set_size = 2,
     direct_release_set_size = 1, local_cache_capacity = 2\<rparr>"

lemma sample_pool_valid: "pool_params_valid sample_pool"
  by (simp add: pool_params_valid_def sample_pool_def local_cache_flush_count_def null_slot_index_def unsigned_minus_1_eq_mask
      mask_eq_exp_minus_1)

lemma sample_created: "\<exists>S. pool_reachable sample_pool 1 S \<and> ps_used S \<noteq> {#}"
proof -
  let ?S = "system_init sample_pool"
  have inv: "pool_inv sample_pool (remote_release_batch_size sample_pool) (\<lambda>_. []) (elsewhere 1 0 (ps_used ?S) ?S) (enter_thread 0 ?S)"
    using system_enter [OF system_init_inv [OF sample_pool_valid]] by blast
  obtain s w where "create sample_pool 0 False (enter_thread 0 ?S) = Some (Some s, w)"
    using acquire_slot_spec [OF sample_pool_valid inv, of 0] by (auto simp: create_def)
  then have "pool_step sample_pool 1 ?S (leave_thread 0 w (created 0 (Some s) (ps_used ?S)) ?S)" by (intro step_create) simp
  then have "pool_reachable sample_pool 1 (leave_thread 0 w (created 0 (Some s) (ps_used ?S)) ?S)"
    by (rule pool_more [OF pool_init])
  moreover have "ps_used (leave_thread 0 w (created 0 (Some s) (ps_used ?S)) ?S) \<noteq> {#}" by (simp add: leave_thread_def created_def)
  ultimately show ?thesis by blast
qed

theorem pool_slots_in_one_place_witness:
  "\<exists>S. pool_reachable sample_pool 1 S \<and> ps_used S \<noteq> {#} \<and>
     free_mset (ps_world S) + cached_mset (fst (ps_tls S 0)) + image_mset snd (ps_used S) = all_mset sample_pool (ps_world S)"
proof -
  obtain S where S: "pool_reachable sample_pool 1 S" "ps_used S \<noteq> {#}" using sample_created by blast
  show ?thesis using pool_slots_in_one_place [OF sample_pool_valid S(1)] S by (intro exI [of _ S]) simp
qed

theorem create_returns_unused_slot_witness:
  "\<exists>S s w. pool_reachable sample_pool 1 S \<and> ps_used S \<noteq> {#} \<and>
     create sample_pool 0 False (enter_thread 0 S) = Some (Some s, w) \<and> (0, s) \<notin># ps_used S"
proof -
  obtain S where S: "pool_reachable sample_pool 1 S" "ps_used S \<noteq> {#}" using sample_created by blast
  show ?thesis using create_returns_unused_slot [OF sample_pool_valid S(1), of 0 0] S by auto
qed

end
