(* ===== verification/Pool_Concurrent.thy ===== *)
theory Pool_Concurrent
  imports Pool_Block "HOL-Library.Multiset"
begin

section \<open>The free list of a block under interleaving\<close>

text \<open>
  The free list of one \<^verbatim>\<open>Block\<close> (\<^verbatim>\<open>detail/memory/object_pool.hpp\<close>) while any number of threads run
  \<^verbatim>\<open>try_pop_many\<close> and \<^verbatim>\<open>push_many\<close>, one access to the head or to a slot's \<^verbatim>\<open>next_free\<close> per step, in
  any interleaving; \<^verbatim>\<open>push\<close> is a \<^verbatim>\<open>push_many\<close> of one slot.  A compare-exchange may fail at any time,
  as the weak one of the source may.  Accesses are taken in one total order.  Ghosts: \<open>fs_free\<close> is
  the stack of free slots, \<open>fs_changes\<close> counts the changes of the head, and a thread remembers the
  count at which it read the head.  The version in the head has 48 bits, so the runs considered are
  those in which fewer than \<open>2\<^sup>4\<^sup>8\<close> changes fall between a thread's read of the head and its
  compare-exchange.  Shown: the free list stays linked and every slot is either free or with one
  thread, and a successful exchange takes the top of the stack as it is at that moment.
\<close>

datatype stack_pc =
    S_Idle
  | O_Load nat
  | O_Walk nat u64 nat "u16 list" u16
  | O_Cas nat u64 nat "u16 list" u16
  | O_Index "u16 list" nat
  | U_Begin "u16 list"
  | U_Link "u16 list" u16 nat
  | U_Load "u16 list" u16
  | U_Store "u16 list" u16 u64 nat
  | U_Cas "u16 list" u16 u64 nat

record free_stack =
  fs_head :: u64
  fs_next :: "u16 \<Rightarrow> u16"
  fs_pc :: "nat \<Rightarrow> stack_pc"
  fs_held :: "nat \<Rightarrow> u16 list"
  fs_free :: "u16 list"
  fs_changes :: nat

definition stack_init :: "pool_params \<Rightarrow> free_stack" where
  "stack_init P =
     (let b = block_new P 0
      in \<lparr>fs_head = free_head b, fs_next = (\<lambda>i. next_free (slot_at b i)), fs_pc = (\<lambda>_. S_Idle), fs_held = (\<lambda>_. []),
          fs_free = map of_nat [0..<chunk_size P], fs_changes = 0\<rparr>)"

definition set_pc :: "nat \<Rightarrow> stack_pc \<Rightarrow> free_stack \<Rightarrow> free_stack" where
  "set_pc t pc s = s\<lparr>fs_pc := (fs_pc s)(t := pc)\<rparr>"

definition set_next :: "u16 \<Rightarrow> u16 \<Rightarrow> free_stack \<Rightarrow> free_stack" where
  "set_next i n s = s\<lparr>fs_next := (fs_next s)(i := n)\<rparr>"

text \<open>A successful exchange of the head, and the stack of free slots it leaves.\<close>

definition swap_head :: "u16 \<Rightarrow> u64 \<Rightarrow> u16 list \<Rightarrow> free_stack \<Rightarrow> free_stack" where
  "swap_head index head free s =
     s\<lparr>fs_head := pack_free_head index (free_head_version head + 1), fs_free := free, fs_changes := fs_changes s + 1\<rparr>"

text \<open>The beginning of the loop of \<^verbatim>\<open>try_pop_many\<close> with the head just read.\<close>

definition pop_begin :: "nat \<Rightarrow> free_stack \<Rightarrow> stack_pc" where
  "pop_begin n s =
     (let head = fs_head s; index = free_head_index head
      in if index = null_slot_index then S_Idle else O_Walk n head (fs_changes s) [] index)"

text \<open>\<^verbatim>\<open>released_slot_index\<close>.\<close>

definition index_of :: "pool_params \<Rightarrow> u16 \<Rightarrow> free_stack \<Rightarrow> u16" where
  "index_of P slot s = (if cache_allocated_slot_index P then fs_next s slot else slot)"

definition stack_step :: "pool_params \<Rightarrow> nat \<Rightarrow> bool \<Rightarrow> free_stack \<Rightarrow> free_stack option" where
  "stack_step P t spurious s =
     (case fs_pc s t of
        S_Idle \<Rightarrow> None
      | O_Load n \<Rightarrow> Some (set_pc t (pop_begin n s) s)
      | O_Walk n head seen out index \<Rightarrow>
          if length out < n \<and> index \<noteq> null_slot_index
          then Some (set_pc t (O_Walk n head seen (out @ [index]) (fs_next s index)) s)
          else Some (set_pc t (O_Cas n head seen out index) s)
      | O_Cas n head seen out index \<Rightarrow>
          if fs_head s = head \<and> \<not> spurious
          then Some (set_pc t (O_Index out (if cache_allocated_slot_index P then 0 else length out))
                       (swap_head index head (drop (length out) (fs_free s)) s))
          else Some (set_pc t (pop_begin n s) s)
      | O_Index out k \<Rightarrow>
          if k < length out then Some (set_pc t (O_Index out (k + 1)) (set_next (out ! k) (out ! k) s))
          else Some ((set_pc t S_Idle s)\<lparr>fs_held := (fs_held s)(t := fs_held s t @ out)\<rparr>)
      | U_Begin slots \<Rightarrow> Some (set_pc t (U_Link slots (index_of P (hd slots) s) 1) s)
      | U_Link slots first k \<Rightarrow>
          if k < length slots
          then Some (set_pc t (U_Link slots first (k + 1)) (set_next (slots ! (k - 1)) (index_of P (slots ! k) s) s))
          else Some (set_pc t (U_Load slots first) s)
      | U_Load slots first \<Rightarrow> Some (set_pc t (U_Store slots first (fs_head s) (fs_changes s)) s)
      | U_Store slots first head seen \<Rightarrow>
          Some (set_pc t (U_Cas slots first head seen) (set_next (last slots) (free_head_index head) s))
      | U_Cas slots first head seen \<Rightarrow>
          if fs_head s = head \<and> \<not> spurious then Some (set_pc t S_Idle (swap_head first head (slots @ fs_free s) s))
          else Some (set_pc t (U_Store slots first (fs_head s) (fs_changes s)) s))"

text \<open>The count at which a thread read the head it is going to compare with.\<close>

fun seen_of :: "stack_pc \<Rightarrow> nat option" where
  "seen_of (O_Walk n head seen out index) = Some seen"
| "seen_of (O_Cas n head seen out index) = Some seen"
| "seen_of (U_Store slots first head seen) = Some seen"
| "seen_of (U_Cas slots first head seen) = Some seen"
| "seen_of _ = None"

definition tags_fresh :: "free_stack \<Rightarrow> bool" where
  "tags_fresh s \<longleftrightarrow> (\<forall>t n. seen_of (fs_pc s t) = Some n \<longrightarrow> fs_changes s < n + 2 ^ 48)"

text \<open>
  A thread without a call pops up to \<open>n\<close> slots, or pushes slots it holds; a call takes its steps.
\<close>

inductive stack_reachable :: "pool_params \<Rightarrow> nat \<Rightarrow> free_stack \<Rightarrow> bool" for P threads where
  stack_begin: "stack_reachable P threads (stack_init P)"
| stack_pop: "stack_reachable P threads s \<Longrightarrow> t < threads \<Longrightarrow> fs_pc s t = S_Idle \<Longrightarrow> 0 < n \<Longrightarrow>
    stack_reachable P threads (set_pc t (O_Load n) s)"
| stack_push: "stack_reachable P threads s \<Longrightarrow> t < threads \<Longrightarrow> fs_pc s t = S_Idle \<Longrightarrow>
    mset (fs_held s t) = mset slots + mset rest \<Longrightarrow> slots \<noteq> [] \<Longrightarrow>
    stack_reachable P threads ((set_pc t (U_Begin slots) s)\<lparr>fs_held := (fs_held s)(t := rest)\<rparr>)"
| stack_more: "stack_reachable P threads s \<Longrightarrow> t < threads \<Longrightarrow> stack_step P t spurious s = Some s' \<Longrightarrow> tags_fresh s' \<Longrightarrow>
    stack_reachable P threads s'"

subsection \<open>The invariant\<close>

fun chain :: "(u16 \<Rightarrow> u16) \<Rightarrow> u16 \<Rightarrow> u16 list \<Rightarrow> bool" where
  "chain next index [] \<longleftrightarrow> index = null_slot_index"
| "chain next index (i # is) \<longleftrightarrow> index = i \<and> i \<noteq> null_slot_index \<and> chain next (next i) is"

text \<open>The slots a running call has popped, or is going to push.\<close>

fun in_hand :: "stack_pc \<Rightarrow> u16 list" where
  "in_hand (O_Index out k) = out"
| "in_hand (U_Begin slots) = slots"
| "in_hand (U_Link slots first k) = slots"
| "in_hand (U_Load slots first) = slots"
| "in_hand (U_Store slots first head seen) = slots"
| "in_hand (U_Cas slots first head seen) = slots"
| "in_hand _ = []"

definition own :: "free_stack \<Rightarrow> nat \<Rightarrow> u16 list" where
  "own s t = fs_held s t @ in_hand (fs_pc s t)"

definition tag_of :: "nat \<Rightarrow> u64" where
  "tag_of n = take_bit 48 (of_nat n)"

text \<open>The first \<open>k\<close> slots are linked; the others hold their index where the pool keeps it there.\<close>

definition links :: "pool_params \<Rightarrow> (u16 \<Rightarrow> u16) \<Rightarrow> u16 list \<Rightarrow> nat \<Rightarrow> bool" where
  "links P next slots k \<longleftrightarrow>
     (\<forall>j. Suc j < k \<longrightarrow> Suc j < length slots \<longrightarrow> next (slots ! j) = slots ! Suc j) \<and>
     (cache_allocated_slot_index P \<longrightarrow> (\<forall>j. k \<le> j \<longrightarrow> j < length slots \<longrightarrow> next (slots ! j) = slots ! j))"

definition indexed :: "pool_params \<Rightarrow> (u16 \<Rightarrow> u16) \<Rightarrow> u16 list \<Rightarrow> bool" where
  "indexed P next slots \<longleftrightarrow> (cache_allocated_slot_index P \<longrightarrow> (\<forall>i \<in> set slots. next i = i))"

text \<open>A head read at the count \<open>seen\<close> is the present one if nothing changed since.\<close>

definition head_ok :: "free_stack \<Rightarrow> u64 \<Rightarrow> nat \<Rightarrow> bool" where
  "head_ok s head seen \<longleftrightarrow>
     seen \<le> fs_changes s \<and> free_head_version head = tag_of seen \<and> (seen = fs_changes s \<longrightarrow> head = fs_head s)"

text \<open>A walk has collected the top of the stack if nothing changed since.\<close>

definition walk_ok :: "free_stack \<Rightarrow> nat \<Rightarrow> u16 list \<Rightarrow> u16 \<Rightarrow> bool" where
  "walk_ok s seen out index \<longleftrightarrow>
     (seen = fs_changes s \<longrightarrow> (\<exists>rest. fs_free s = out @ rest \<and> chain (fs_next s) index rest))"

definition index_ok :: "pool_params \<Rightarrow> u16 \<Rightarrow> bool" where
  "index_ok P i \<longleftrightarrow> i = null_slot_index \<or> i \<in> slot_range P"

fun pc_ok :: "pool_params \<Rightarrow> free_stack \<Rightarrow> stack_pc \<Rightarrow> bool" where
  "pc_ok P s (O_Walk n head seen out index) \<longleftrightarrow> head_ok s head seen \<and> walk_ok s seen out index \<and> index_ok P index \<and> length out \<le> n"
| "pc_ok P s (O_Cas n head seen out index) \<longleftrightarrow>
     head_ok s head seen \<and> walk_ok s seen out index \<and> length out \<le> n \<and> (length out = n \<or> index = null_slot_index)"
| "pc_ok P s (O_Index out k) \<longleftrightarrow> indexed P (fs_next s) (take k out)"
| "pc_ok P s (U_Begin slots) \<longleftrightarrow> slots \<noteq> [] \<and> indexed P (fs_next s) slots"
| "pc_ok P s (U_Link slots first k) \<longleftrightarrow> slots \<noteq> [] \<and> first = hd slots \<and> 1 \<le> k \<and> links P (fs_next s) slots k"
| "pc_ok P s (U_Load slots first) \<longleftrightarrow> slots \<noteq> [] \<and> first = hd slots \<and> links P (fs_next s) slots (length slots)"
| "pc_ok P s (U_Store slots first head seen) \<longleftrightarrow>
     slots \<noteq> [] \<and> first = hd slots \<and> links P (fs_next s) slots (length slots) \<and> head_ok s head seen \<and>
     index_ok P (free_head_index head)"
| "pc_ok P s (U_Cas slots first head seen) \<longleftrightarrow>
     slots \<noteq> [] \<and> first = hd slots \<and> links P (fs_next s) slots (length slots) \<and> head_ok s head seen \<and>
     fs_next s (last slots) = free_head_index head"
| "pc_ok P s _ \<longleftrightarrow> True"

definition accounted :: "pool_params \<Rightarrow> nat \<Rightarrow> free_stack \<Rightarrow> bool" where
  "accounted P threads s \<longleftrightarrow>
     mset (fs_free s) + (\<Sum>t < threads. mset (own s t)) = mset_set (slot_range P) \<and> (\<forall>t \<ge> threads. own s t = [])"

definition stack_inv :: "pool_params \<Rightarrow> nat \<Rightarrow> free_stack \<Rightarrow> bool" where
  "stack_inv P threads s \<longleftrightarrow>
     chain (fs_next s) (free_head_index (fs_head s)) (fs_free s) \<and> free_head_version (fs_head s) = tag_of (fs_changes s) \<and>
     accounted P threads s \<and> (\<forall>i \<in> slot_range P. index_ok P (fs_next s i)) \<and> tags_fresh s \<and>
     (\<forall>t. pc_ok P s (fs_pc s t) \<and> indexed P (fs_next s) (fs_held s t))"

lemmas stack_defs = set_pc_def set_next_def swap_head_def own_def

subsection \<open>Versions\<close>

lemma version_of_pack: "free_head_version (pack_free_head index version) = take_bit 48 version"
  by (rule bit_eqI)
    (auto simp: free_head_version_def pack_free_head_def slot_index_bits_def bit_simps dest: bit_imp_le_length)

lemma unat_tag_of: "unat (tag_of n) = n mod 2 ^ 48"
  by (simp add: tag_of_def unsigned_take_bit_eq unsigned_of_nat take_bit_take_bit) (simp add: take_bit_eq_mod)

lemma tag_of_next: "free_head_version (pack_free_head index (tag_of n + 1)) = tag_of (n + 1)"
proof -
  have "unat (take_bit 48 (tag_of n + 1)) = take_bit 48 (unat (tag_of n + 1))" by (rule unsigned_take_bit_eq)
  also have "\<dots> = unat (tag_of n + 1) mod 2 ^ 48" by (rule take_bit_eq_mod)
  also have "\<dots> = (n mod 2 ^ 48 + 1) mod 2 ^ 48" using unat_add_of_nat_mod [of 48 "tag_of n" 1] by (simp add: unat_tag_of)
  also have "\<dots> = (n + 1) mod 2 ^ 48" by (rule mod_add_left_eq)
  finally show ?thesis by (simp only: version_of_pack word_unat_eq_iff unat_tag_of)
qed

lemma tag_of_inj:
  assumes "tag_of a = tag_of b" "a \<le> b" "b < a + 2 ^ 48" shows "a = b"
proof -
  have "a mod 2 ^ 48 = b mod 2 ^ 48" using assms(1) unat_tag_of by metis
  then have "2 ^ 48 dvd b - a" using assms(2) mod_eq_dvd_iff_nat by metis
  then have "b - a = 0" using assms(3) dvd_imp_le [of "2 ^ 48" "b - a"] by linarith
  then show ?thesis using assms(2) by simp
qed

text \<open>A compare-exchange that succeeds has not missed a change.\<close>

lemma head_ok_current:
  assumes "stack_inv P threads s" "head_ok s (fs_head s) seen" "seen_of (fs_pc s t) = Some seen"
  shows "seen = fs_changes s"
proof (rule tag_of_inj)
  show "tag_of seen = tag_of (fs_changes s)" "seen \<le> fs_changes s" using assms by (simp_all add: stack_inv_def head_ok_def)
  show "fs_changes s < seen + 2 ^ 48" using assms unfolding stack_inv_def tags_fresh_def by blast
qed

subsection \<open>Ownership\<close>

lemma finite_slot_range [simp]: "finite (slot_range P)"
  by simp

lemma own_sum: "t < n \<Longrightarrow> (\<Sum>u < n. mset (own s u)) = mset (own s t) + (\<Sum>u \<in> {..<n} - {t}. mset (own s u))"
  by (simp add: sum.remove)

lemma own_exclusive:
  assumes "accounted P threads s" "i \<in> set (own s t)"
  shows "i \<in> slot_range P" "i \<notin> set (fs_free s)" "u \<noteq> t \<Longrightarrow> i \<notin> set (own s u)" "distinct (own s t)"
proof -
  have t: "t < threads" using assms by (cases "t < threads") (auto simp: accounted_def)
  let ?rest = "\<Sum>u \<in> {..<threads} - {t}. mset (own s u)"
  have eq: "mset (fs_free s) + (mset (own s t) + ?rest) = mset_set (slot_range P)"
    using assms(1) own_sum [OF t] by (simp add: accounted_def)
  have one: "count (mset (fs_free s)) j + (count (mset (own s t)) j + count ?rest j) \<le> 1" for j
    using arg_cong [OF eq, of "\<lambda>M. count M j"] by (simp add: count_mset_set' split: if_splits)
  have mine: "1 \<le> count (mset (own s t)) i" using assms(2) by (simp add: Suc_le_eq count_greater_zero_iff)
  show "i \<in> slot_range P"
    using assms(2) eq by (metis finite_slot_range finite_set_mset_mset_set set_mset_mset union_iff)
  show "i \<notin> set (fs_free s)" using one [of i] mine by (simp flip: count_greater_zero_iff set_mset_mset)
  show "i \<notin> set (own s u)" if "u \<noteq> t"
  proof (cases "u < threads")
    case True
    then have "?rest = mset (own s u) + (\<Sum>v \<in> {..<threads} - {t} - {u}. mset (own s v))"
      using that by (intro sum.remove) auto
    then have "count (mset (own s u)) i \<le> count ?rest i" by simp
    then have "count (mset (own s u)) i = 0" using one [of i] mine by linarith
    then show ?thesis by (simp only: count_eq_zero_iff set_mset_mset not_False_eq_True)
  qed (use assms(1) in \<open>simp add: accounted_def\<close>)
  have "count (mset (own s t)) j \<le> 1" for j using one [of j] by simp
  moreover have "count (mset (own s t)) j = 0 \<longleftrightarrow> j \<notin> set (own s t)" for j by (simp only: count_eq_zero_iff set_mset_mset)
  ultimately have "count (mset (own s t)) j = (if j \<in> set (own s t) then 1 else 0)" for j by (auto simp: le_Suc_eq)
  then show "distinct (own s t)" by (simp only: distinct_count_atmost_1 simp_thms)
qed

lemma free_range:
  assumes "accounted P threads s" "i \<in> set (fs_free s)" shows "i \<in> slot_range P"
  using assms by (metis accounted_def finite_slot_range finite_set_mset_mset_set set_mset_mset union_iff)

subsection \<open>What a step of one thread leaves as it is\<close>

lemma chain_frame:
  assumes "chain next index is" "\<And>i. i \<in> set is \<Longrightarrow> next' i = next i" shows "chain next' index is"
  using assms by (induction "is" arbitrary: index) auto

lemma links_frame:
  assumes "links P next slots k" "\<And>i. i \<in> set slots \<Longrightarrow> next' i = next i" shows "links P next' slots k"
  using assms by (simp add: links_def)

lemma indexed_frame:
  assumes "indexed P next slots" "\<And>i. i \<in> set slots \<Longrightarrow> next' i = next i" shows "indexed P next' slots"
  using assms by (simp add: indexed_def)

text \<open>The head is as it was, and the links of the free slots.\<close>

definition quiet :: "free_stack \<Rightarrow> free_stack \<Rightarrow> bool" where
  "quiet s s' \<longleftrightarrow> fs_head s' = fs_head s \<and> fs_free s' = fs_free s \<and> fs_changes s' = fs_changes s"

lemma head_ok_step:
  "head_ok s head seen \<Longrightarrow> quiet s s' \<or> fs_changes s' = fs_changes s + 1 \<Longrightarrow> head_ok s' head seen"
  by (auto simp: head_ok_def quiet_def)

lemma walk_ok_step:
  assumes "walk_ok s seen out index" "head_ok s head seen" "quiet s s' \<or> fs_changes s' = fs_changes s + 1"
    "\<And>i. i \<in> set (fs_free s) \<Longrightarrow> fs_next s' i = fs_next s i"
  shows "walk_ok s' seen out index"
proof (cases "quiet s s'")
  case True
  show ?thesis unfolding walk_ok_def
  proof
    assume "seen = fs_changes s'"
    then obtain rest where rest: "fs_free s = out @ rest" "chain (fs_next s) index rest"
      using assms(1) True by (auto simp: walk_ok_def quiet_def)
    then have "chain (fs_next s') index rest" using chain_frame assms(4) by (metis Un_iff set_append)
    then show "\<exists>rest. fs_free s' = out @ rest \<and> chain (fs_next s') index rest" using rest True by (auto simp: quiet_def)
  qed
qed (use assms in \<open>auto simp: walk_ok_def head_ok_def\<close>)

lemma pc_ok_step:
  assumes "pc_ok P s pc" "quiet s s' \<or> fs_changes s' = fs_changes s + 1"
    "\<And>i. i \<in> set (fs_free s) \<Longrightarrow> fs_next s' i = fs_next s i" "\<And>i. i \<in> set (in_hand pc) \<Longrightarrow> fs_next s' i = fs_next s i"
  shows "pc_ok P s' pc"
proof (cases pc)
  case (O_Walk n head seen out index)
  then show ?thesis using assms(1) head_ok_step [OF _ assms(2)] walk_ok_step [OF _ _ assms(2,3)] by (auto simp only: pc_ok.simps)
next
  case (O_Cas n head seen out index)
  then show ?thesis using assms(1) head_ok_step [OF _ assms(2)] walk_ok_step [OF _ _ assms(2,3)] by (auto simp only: pc_ok.simps)
next
  case (O_Index out k)
  then have "fs_next s' i = fs_next s i" if "i \<in> set (take k out)" for i using assms(4) in_set_takeD [OF that] by simp
  then show ?thesis using O_Index assms(1) indexed_frame [of P "fs_next s" "take k out" "fs_next s'"] by simp
next
  case (U_Begin slots)
  then show ?thesis using assms(1,4) indexed_frame [of P "fs_next s" slots "fs_next s'"] by simp
next
  case (U_Link slots first k)
  then show ?thesis using assms(1,4) links_frame [of P "fs_next s" slots k "fs_next s'"] by simp
next
  case (U_Load slots first)
  then show ?thesis using assms(1,4) links_frame [of P "fs_next s" slots "length slots" "fs_next s'"] by simp
next
  case (U_Store slots first head seen)
  then show ?thesis
    using assms(1,4) links_frame [of P "fs_next s" slots "length slots" "fs_next s'"] head_ok_step [OF _ assms(2)] by simp
next
  case (U_Cas slots first head seen)
  then show ?thesis
    using assms(1,4) links_frame [of P "fs_next s" slots "length slots" "fs_next s'"] head_ok_step [OF _ assms(2)] by simp
qed simp_all

text \<open>How a state that differs from a good one by a step of the thread \<open>t\<close> is shown to be good.\<close>

lemma stack_inv_step:
  assumes inv: "stack_inv P threads s" and t: "t < threads"
    and others: "\<And>u. u \<noteq> t \<Longrightarrow> fs_pc s' u = fs_pc s u \<and> fs_held s' u = fs_held s u"
    and next_same: "\<And>i. i \<notin> set (own s t) \<Longrightarrow> fs_next s' i = fs_next s i"
    and next_ok: "\<And>i. i \<in> set (own s t) \<Longrightarrow> index_ok P (fs_next s' i)"
    and balance: "mset (fs_free s') + mset (own s' t) = mset (fs_free s) + mset (own s t)"
    and head: "quiet s s' \<or> fs_changes s' = fs_changes s + 1 \<and>
      chain (fs_next s') (free_head_index (fs_head s')) (fs_free s') \<and> free_head_version (fs_head s') = tag_of (fs_changes s')"
    and mine: "pc_ok P s' (fs_pc s' t)" "indexed P (fs_next s') (fs_held s' t)" and tags: "tags_fresh s'"
  shows "stack_inv P threads s'"
proof -
  have acc: "accounted P threads s" using inv by (simp add: stack_inv_def)
  have free: "fs_next s' i = fs_next s i" if "i \<in> set (fs_free s)" for i
    using own_exclusive(2) [OF acc, of i t] next_same that by blast
  have other: "fs_next s' i = fs_next s i" if "i \<in> set (own s u)" "u \<noteq> t" for i u
    using own_exclusive(3) [OF acc _ that(2), of i] next_same that(1) by blast
  have own': "own s' u = own s u" if "u \<noteq> t" for u using others [OF that] by (simp add: own_def)
  have rest: "(\<Sum>u \<in> {..<threads} - {t}. mset (own s' u)) = (\<Sum>u \<in> {..<threads} - {t}. mset (own s u))"
    by (rule sum.cong) (simp_all add: own')
  have "accounted P threads s'"
    using acc balance own_sum [OF t, of s] own_sum [OF t, of s'] own' t
    by (auto simp: accounted_def rest simp flip: add.assoc)
  moreover have "pc_ok P s' (fs_pc s' u) \<and> indexed P (fs_next s') (fs_held s' u)" for u
  proof (cases "u = t")
    case False
    have ok: "pc_ok P s (fs_pc s u)" "indexed P (fs_next s) (fs_held s u)" using inv by (simp_all add: stack_inv_def)
    have "pc_ok P s' (fs_pc s u)"
      by (rule pc_ok_step [OF ok(1) _ free]) (use head other [OF _ False] in \<open>auto simp: own_def\<close>)
    moreover have "indexed P (fs_next s') (fs_held s u)"
      by (rule indexed_frame [OF ok(2)]) (use other [OF _ False] in \<open>auto simp: own_def\<close>)
    ultimately show ?thesis using others [OF False] by simp
  qed (use mine in simp)
  moreover have "chain (fs_next s') (free_head_index (fs_head s')) (fs_free s') \<and> free_head_version (fs_head s') = tag_of (fs_changes s')"
  proof (cases "quiet s s'")
    case True
    then show ?thesis using inv chain_frame [OF _ free] by (simp add: stack_inv_def quiet_def)
  qed (use head in simp)
  moreover have "index_ok P (fs_next s' i)" if "i \<in> slot_range P" for i
    using inv next_ok next_same [of i] that by (cases "i \<in> set (own s t)") (simp_all add: stack_inv_def)
  ultimately show ?thesis using tags by (simp add: stack_inv_def)
qed

lemma set_pc_fields [simp]:
  "fs_head (set_pc t pc s) = fs_head s" "fs_next (set_pc t pc s) = fs_next s" "fs_held (set_pc t pc s) = fs_held s"
  "fs_free (set_pc t pc s) = fs_free s" "fs_changes (set_pc t pc s) = fs_changes s" "fs_pc (set_pc t pc s) = (fs_pc s)(t := pc)"
  by (simp_all add: set_pc_def)

lemma set_next_fields [simp]:
  "fs_head (set_next i n s) = fs_head s" "fs_next (set_next i n s) = (fs_next s)(i := n)" "fs_held (set_next i n s) = fs_held s"
  "fs_free (set_next i n s) = fs_free s" "fs_changes (set_next i n s) = fs_changes s" "fs_pc (set_next i n s) = fs_pc s"
  by (simp_all add: set_next_def)

lemma swap_head_fields [simp]:
  "fs_head (swap_head i h f s) = pack_free_head i (free_head_version h + 1)" "fs_next (swap_head i h f s) = fs_next s"
  "fs_held (swap_head i h f s) = fs_held s" "fs_free (swap_head i h f s) = f"
  "fs_changes (swap_head i h f s) = fs_changes s + 1" "fs_pc (swap_head i h f s) = fs_pc s"
  by (simp_all add: swap_head_def)

lemma pc_ok_set_pc: "pc_ok P s pc \<Longrightarrow> pc_ok P (set_pc t pc' s) pc"
  by (erule pc_ok_step) (simp_all add: quiet_def)

lemma pc_ok_held: "pc_ok P s pc \<Longrightarrow> pc_ok P (s\<lparr>fs_held := h\<rparr>) pc"
  by (erule pc_ok_step) (simp_all add: quiet_def)

lemma stack_inv_own:
  assumes "stack_inv P threads s"
  shows "pc_ok P s (fs_pc s t)" "indexed P (fs_next s) (fs_held s t)" "accounted P threads s" "tags_fresh s"
    "chain (fs_next s) (free_head_index (fs_head s)) (fs_free s)" "i \<in> slot_range P \<Longrightarrow> index_ok P (fs_next s i)"
    "free_head_version (fs_head s) = tag_of (fs_changes s)"
  using assms by (simp_all add: stack_inv_def)

text \<open>A step that changes nothing but the thread's place.\<close>

lemma stack_inv_pc:
  assumes "stack_inv P threads s" "t < threads" "in_hand pc = in_hand (fs_pc s t)" "pc_ok P s pc"
    "tags_fresh (set_pc t pc s)"
  shows "stack_inv P threads (set_pc t pc s)"
proof (rule stack_inv_step [OF assms(1,2)])
  show "index_ok P (fs_next (set_pc t pc s) i)" if "i \<in> set (own s t)" for i
    using own_exclusive(1) [OF stack_inv_own(3) [OF assms(1)] that] stack_inv_own(6) [OF assms(1)] by simp
qed (use assms pc_ok_set_pc stack_inv_own(2) [OF assms(1)] in \<open>auto simp: quiet_def own_def\<close>)

text \<open>A step that writes \<^verbatim>\<open>next_free\<close> of a slot in the thread's hand.\<close>

lemma stack_inv_link:
  assumes inv: "stack_inv P threads s" and t: "t < threads" "in_hand pc = in_hand (fs_pc s t)" "i \<in> set (in_hand pc)"
    and ok: "index_ok P n" "pc_ok P (set_next i n s) pc" and tags: "tags_fresh (set_pc t pc (set_next i n s))"
  shows "stack_inv P threads (set_pc t pc (set_next i n s))"
proof (rule stack_inv_step [OF inv t(1)])
  have i: "i \<in> set (own s t)" using t by (simp add: own_def)
  note excl = own_exclusive [OF stack_inv_own(3) [OF inv]]
  show "index_ok P (fs_next (set_pc t pc (set_next i n s)) j)" if "j \<in> set (own s t)" for j
    using excl(1) [OF that] stack_inv_own(6) [OF inv] ok(1) by simp
  show "fs_next (set_pc t pc (set_next i n s)) j = fs_next s j" if "j \<notin> set (own s t)" for j using i that by auto
  have "j \<noteq> i" if "j \<in> set (fs_held s t)" for j using excl(4) [OF i] that t by (auto simp: own_def)
  then show "indexed P (fs_next (set_pc t pc (set_next i n s))) (fs_held (set_pc t pc (set_next i n s)) t)"
    using stack_inv_own(2) [OF inv, of t] by (simp add: indexed_def)
qed (use tags t pc_ok_set_pc [OF ok(2)] in \<open>auto simp: quiet_def own_def\<close>)

text \<open>A step that exchanges the head it has read before.\<close>

lemma stack_inv_swap:
  assumes inv: "stack_inv P threads s" and t: "t < threads"
    and balance: "mset free + mset (in_hand pc) = mset (fs_free s) + mset (in_hand (fs_pc s t))"
    and chain: "chain (fs_next s) index free"
    and pc: "pc_ok P (swap_head index (fs_head s) free s) pc" and tags: "tags_fresh (set_pc t pc (swap_head index (fs_head s) free s))"
  shows "stack_inv P threads (set_pc t pc (swap_head index (fs_head s) free s))"
proof (rule stack_inv_step [OF inv t])
  let ?s = "set_pc t pc (swap_head index (fs_head s) free s)"
  show "mset (fs_free ?s) + mset (own ?s t) = mset (fs_free s) + mset (own s t)"
    using balance by (simp add: own_def ac_simps)
  show "index_ok P (fs_next ?s i)" if "i \<in> set (own s t)" for i
    using own_exclusive(1) [OF stack_inv_own(3) [OF inv] that] stack_inv_own(6) [OF inv] by simp
  show "quiet s ?s \<or> fs_changes ?s = fs_changes s + 1 \<and>
      chain (fs_next ?s) (free_head_index (fs_head ?s)) (fs_free ?s) \<and> free_head_version (fs_head ?s) = tag_of (fs_changes ?s)"
    using chain tag_of_next [of index "fs_changes s"] stack_inv_own(7) [OF inv] by simp
qed (use tags pc_ok_set_pc [OF pc] stack_inv_own(2) [OF inv] in auto)

subsection \<open>Every step keeps the invariant\<close>

lemma head_index_ok:
  assumes "stack_inv P threads s" shows "index_ok P (free_head_index (fs_head s))"
  using stack_inv_own(5) [OF assms] free_range [OF stack_inv_own(3) [OF assms]]
  by (cases "fs_free s") (auto simp: index_ok_def)

lemma head_ok_now: "stack_inv P threads s \<Longrightarrow> head_ok s (fs_head s) (fs_changes s)"
  using stack_inv_own(7) by (auto simp: head_ok_def)

lemma pop_begin_ok:
  assumes "stack_inv P threads s" shows "pc_ok P s (pop_begin n s)" "in_hand (pop_begin n s) = []"
  using assms head_index_ok [OF assms] head_ok_now [OF assms] stack_inv_own(5) [OF assms]
  by (auto simp: pop_begin_def Let_def walk_ok_def)

lemma walk_ok_next:
  assumes "walk_ok s seen out index" "index \<noteq> null_slot_index"
  shows "walk_ok s seen (out @ [index]) (fs_next s index)"
  unfolding walk_ok_def
proof
  assume "seen = fs_changes s"
  then obtain rest where rest: "fs_free s = out @ rest" "chain (fs_next s) index rest"
    using assms(1) by (auto simp: walk_ok_def)
  then show "\<exists>rest. fs_free s = (out @ [index]) @ rest \<and> chain (fs_next s) (fs_next s index) rest"
    using assms(2) by (cases rest) auto
qed

lemma chain_push:
  assumes "slots \<noteq> []" "null_slot_index \<notin> set slots" "links P next slots (length slots)" "chain next (next (last slots)) is"
  shows "chain next (hd slots) (slots @ is)"
  using assms
proof (induction slots)
  case (Cons a slots)
  show ?case
  proof (cases slots)
    case (Cons b rest)
    have all: "next ((a # slots) ! j) = (a # slots) ! Suc j" if "Suc j < length (a # slots)" for j
      using Cons.prems(3) that by (simp add: links_def)
    then have "next a = b" using all [of 0] Cons by simp
    moreover have "links P next slots (length slots)" using all [of "Suc _"] by (auto simp: links_def)
    ultimately show ?thesis using Cons.IH Cons.prems Cons by auto
  qed (use Cons.prems in auto)
qed simp

text \<open>The call holds its slots, each once, and none has the null index.\<close>

lemma in_hand_ok:
  assumes "pool_params_valid P" "stack_inv P threads s"
  shows "distinct (in_hand (fs_pc s t))" "i \<in> set (in_hand (fs_pc s t)) \<Longrightarrow> i \<in> slot_range P"
    "null_slot_index \<notin> set (in_hand (fs_pc s t))"
proof -
  have own: "set (in_hand (fs_pc s t)) \<subseteq> set (own s t)" by (simp add: own_def)
  note excl = own_exclusive [OF stack_inv_own(3) [OF assms(2)], of _ t]
  show "distinct (in_hand (fs_pc s t))"
  proof (cases "own s t")
    case (Cons i rest)
    then have "distinct (own s t)" using excl(4) [of i] by simp
    then show ?thesis by (simp add: own_def)
  qed (simp add: own_def)
  show range: "i \<in> slot_range P" if "i \<in> set (in_hand (fs_pc s t))" for i using excl(1) own that by blast
  then show "null_slot_index \<notin> set (in_hand (fs_pc s t))" using slot_range_not_null [OF assms(1)] by blast
qed

lemma links_next:
  assumes "distinct slots" "1 \<le> k" "k < length slots" "links P next slots k"
  shows "links P (next(slots ! (k - 1) := slots ! k)) slots (k + 1)"
proof -
  have neq: "slots ! j \<noteq> slots ! (k - 1)" if "j < length slots" "j \<noteq> k - 1" for j
    using assms(1,3) that by (simp add: nth_eq_iff_index_eq)
  show ?thesis unfolding links_def
  proof (intro conjI allI impI)
    fix j assume j: "Suc j < k + 1" "Suc j < length slots"
    show "(next(slots ! (k - 1) := slots ! k)) (slots ! j) = slots ! Suc j"
    proof (cases "j = k - 1")
      case False
      then show ?thesis using assms(4) j neq [of j] by (simp add: links_def)
    qed (use assms(2) in simp)
  next
    fix j assume "cache_allocated_slot_index P" "k + 1 \<le> j" "j < length slots"
    then show "(next(slots ! (k - 1) := slots ! k)) (slots ! j) = slots ! j"
      using assms(4) neq [of j] by (simp add: links_def)
  qed
qed

lemma links_last:
  assumes "distinct slots" "slots \<noteq> []" "links P next slots (length slots)"
  shows "links P (next(last slots := i)) slots (length slots)"
proof -
  have "slots ! j \<noteq> last slots" if "Suc j < length slots" for j
    using assms(1,2) that by (simp add: last_conv_nth nth_eq_iff_index_eq)
  then show ?thesis using assms(3) by (simp add: links_def)
qed

lemma indexed_next:
  assumes "k < length out" "indexed P next (take k out)"
  shows "indexed P (next(out ! k := out ! k)) (take (k + 1) out)"
  using assms by (auto simp: indexed_def take_Suc_conv_app_nth)

text \<open>A step from a good state.\<close>

definition good_step :: "pool_params \<Rightarrow> nat \<Rightarrow> nat \<Rightarrow> bool \<Rightarrow> free_stack \<Rightarrow> free_stack \<Rightarrow> bool" where
  "good_step P threads t spurious s s' \<longleftrightarrow>
     pool_params_valid P \<and> stack_inv P threads s \<and> t < threads \<and> stack_step P t spurious s = Some s' \<and> tags_fresh s'"

lemma good_stepD:
  assumes "good_step P threads t spurious s s'"
  shows "pool_params_valid P" "stack_inv P threads s" "t < threads" "stack_step P t spurious s = Some s'" "tags_fresh s'"
  using assms by (simp_all add: good_step_def)

lemma keeps_pop_begin:
  assumes "stack_inv P threads s" "t < threads" "tags_fresh s'" "s' = set_pc t (pop_begin n s) s" "in_hand (fs_pc s t) = []"
  shows "stack_inv P threads s'"
  using stack_inv_pc [OF assms(1,2)] pop_begin_ok [OF assms(1)] assms(3-) by simp

lemma keeps_walk:
  assumes good: "good_step P threads t spurious s s'" and pc: "fs_pc s t = O_Walk n head seen out index"
  shows "stack_inv P threads s'"
proof -
  note inv = good_stepD(2) [OF good] and t = good_stepD(3) [OF good] and step = good_stepD(4) [OF good] and tags = good_stepD(5) [OF good]
  have ok: "head_ok s head seen" "walk_ok s seen out index" "index_ok P index" "length out \<le> n"
    using stack_inv_own(1) [OF inv, of t] pc by simp_all
  show ?thesis
  proof (cases "length out < n \<and> index \<noteq> null_slot_index")
    case True
    then have "s' = set_pc t (O_Walk n head seen (out @ [index]) (fs_next s index)) s" using step pc by (simp add: stack_step_def)
    moreover have "index_ok P (fs_next s index)" using ok(3) True stack_inv_own(6) [OF inv] by (simp add: index_ok_def)
    ultimately show ?thesis using stack_inv_pc [OF inv t] ok walk_ok_next True tags pc by simp
  next
    case False
    then have "s' = set_pc t (O_Cas n head seen out index) s" using step pc by (auto simp: stack_step_def)
    then show ?thesis using stack_inv_pc [OF inv t] ok False tags pc by simp
  qed
qed

lemma keeps_pop_cas:
  assumes good: "good_step P threads t spurious s s'" and pc: "fs_pc s t = O_Cas n head seen out index"
  shows "stack_inv P threads s'"
proof -
  note inv = good_stepD(2) [OF good] and t = good_stepD(3) [OF good] and step = good_stepD(4) [OF good] and tags = good_stepD(5) [OF good]
  show ?thesis
  proof (cases "fs_head s = head \<and> \<not> spurious")
    case True
    have ok: "head_ok s head seen" "walk_ok s seen out index" using stack_inv_own(1) [OF inv, of t] pc by simp_all
    have "seen = fs_changes s" using head_ok_current [OF inv, of seen t] ok(1) True pc by simp
    then obtain rest where rest: "fs_free s = out @ rest" "chain (fs_next s) index rest" using ok(2) by (auto simp: walk_ok_def)
    let ?pc = "O_Index out (if cache_allocated_slot_index P then 0 else length out)"
    have s': "s' = set_pc t ?pc (swap_head index (fs_head s) rest s)" using step pc True rest by (simp add: stack_step_def)
    have "stack_inv P threads (set_pc t ?pc (swap_head index (fs_head s) rest s))"
      by (rule stack_inv_swap [OF inv t _ rest(2)]) (use rest pc tags s' in \<open>auto simp: indexed_def\<close>)
    then show ?thesis by (simp only: s')
  next
    case False
    then have "s' = set_pc t (pop_begin n s) s" using step pc by (auto simp: stack_step_def)
    then show ?thesis by (rule keeps_pop_begin [OF inv t tags]) (simp add: pc)
  qed
qed

text \<open>Slots pass between a call's hand and what the thread holds.\<close>

lemma stack_inv_hold:
  assumes inv: "stack_inv P threads s" and t: "t < threads" and same: "mset h + mset (in_hand pc) = mset (own s t)"
    and ok: "pc_ok P s pc" "indexed P (fs_next s) h" and pc: "seen_of pc = None"
  shows "stack_inv P threads ((set_pc t pc s)\<lparr>fs_held := (fs_held s)(t := h)\<rparr>)"
proof (rule stack_inv_step [OF inv t])
  let ?s = "(set_pc t pc s)\<lparr>fs_held := (fs_held s)(t := h)\<rparr>"
  show "index_ok P (fs_next ?s i)" if "i \<in> set (own s t)" for i
    using own_exclusive(1) [OF stack_inv_own(3) [OF inv] that] stack_inv_own(6) [OF inv] by simp
  show "pc_ok P ?s (fs_pc ?s t)" using pc_ok_held [OF pc_ok_set_pc [OF ok(1)]] by simp
  show "tags_fresh ?s" using stack_inv_own(4) [OF inv] pc by (simp add: tags_fresh_def)
qed (use same ok(2) in \<open>auto simp: quiet_def own_def\<close>)

lemma keeps_index:
  assumes good: "good_step P threads t spurious s s'" and pc: "fs_pc s t = O_Index out k"
  shows "stack_inv P threads s'"
proof -
  note inv = good_stepD(2) [OF good] and t = good_stepD(3) [OF good] and step = good_stepD(4) [OF good] and tags = good_stepD(5) [OF good]
  have ok: "indexed P (fs_next s) (take k out)" using stack_inv_own(1) [OF inv, of t] pc by simp
  show ?thesis
  proof (cases "k < length out")
    case True
    then have s': "s' = set_pc t (O_Index out (k + 1)) (set_next (out ! k) (out ! k) s)" using step pc by (simp add: stack_step_def)
    have "out ! k \<in> slot_range P" using in_hand_ok(2) [OF good_stepD(1) [OF good] inv, of "out ! k" t] pc True by simp
    then show ?thesis
      unfolding s' by (intro stack_inv_link [OF inv t]) (use pc True tags s' indexed_next [OF True ok] in \<open>simp_all add: index_ok_def\<close>)
  next
    case False
    then have s': "s' = (set_pc t S_Idle s)\<lparr>fs_held := (fs_held s)(t := fs_held s t @ out)\<rparr>" using step pc by (simp add: stack_step_def)
    have "indexed P (fs_next s) (fs_held s t @ out)"
      using ok False stack_inv_own(2) [OF inv, of t] by (auto simp: indexed_def)
    then show ?thesis unfolding s' by (intro stack_inv_hold [OF inv t]) (simp_all add: pc own_def)
  qed
qed

lemma index_of_hand:
  assumes "indexed P (fs_next s) slots" "i \<in> set slots" shows "index_of P i s = i"
  using assms by (simp add: index_of_def indexed_def)

lemma keeps_begin:
  assumes good: "good_step P threads t spurious s s'" and pc: "fs_pc s t = U_Begin slots"
  shows "stack_inv P threads s'"
proof -
  note inv = good_stepD(2) [OF good] and t = good_stepD(3) [OF good] and step = good_stepD(4) [OF good] and tags = good_stepD(5) [OF good]
  have ok: "slots \<noteq> []" "indexed P (fs_next s) slots" using stack_inv_own(1) [OF inv, of t] pc by simp_all
  have "index_of P (hd slots) s = hd slots" using index_of_hand [OF ok(2)] ok(1) by simp
  then have s': "s' = set_pc t (U_Link slots (hd slots) 1) s" using step pc by (simp add: stack_step_def)
  have "links P (fs_next s) slots 1" using ok(2) by (simp add: links_def indexed_def)
  then show ?thesis unfolding s' by (intro stack_inv_pc [OF inv t]) (use ok pc tags s' in simp_all)
qed

lemma keeps_link:
  assumes good: "good_step P threads t spurious s s'" and pc: "fs_pc s t = U_Link slots first k"
  shows "stack_inv P threads s'"
proof -
  note inv = good_stepD(2) [OF good] and t = good_stepD(3) [OF good] and step = good_stepD(4) [OF good] and tags = good_stepD(5) [OF good]
  have ok: "slots \<noteq> []" "first = hd slots" "1 \<le> k" "links P (fs_next s) slots k" using stack_inv_own(1) [OF inv, of t] pc by simp_all
  note hand = in_hand_ok [OF good_stepD(1) [OF good] inv, where t = t]
  show ?thesis
  proof (cases "k < length slots")
    case True
    have "index_of P (slots ! k) s = slots ! k" using ok(4) True by (simp add: index_of_def links_def)
    then have s': "s' = set_pc t (U_Link slots first (k + 1)) (set_next (slots ! (k - 1)) (slots ! k) s)"
      using step pc True by (simp add: stack_step_def)
    have "index_ok P (slots ! k)" using hand(2) [of "slots ! k"] pc True by (simp add: index_ok_def)
    moreover have "links P ((fs_next s)(slots ! (k - 1) := slots ! k)) slots (k + 1)"
      using links_next [OF _ ok(3) True ok(4)] hand(1) pc by simp
    ultimately show ?thesis
      unfolding s' by (intro stack_inv_link [OF inv t]) (use ok pc True tags s' in simp_all)
  next
    case False
    then have s': "s' = set_pc t (U_Load slots first) s" using step pc by (simp add: stack_step_def)
    have "links P (fs_next s) slots (length slots)" using ok(4) False by (simp add: links_def)
    then show ?thesis unfolding s' by (intro stack_inv_pc [OF inv t]) (use ok pc tags s' in simp_all)
  qed
qed

lemma keeps_store:
  assumes good: "good_step P threads t spurious s s'" and pc: "fs_pc s t = U_Store slots first head seen"
  shows "stack_inv P threads s'"
proof -
  note inv = good_stepD(2) [OF good] and t = good_stepD(3) [OF good] and step = good_stepD(4) [OF good] and tags = good_stepD(5) [OF good]
  have ok: "slots \<noteq> []" "first = hd slots" "links P (fs_next s) slots (length slots)" "head_ok s head seen" "index_ok P (free_head_index head)"
    using stack_inv_own(1) [OF inv, of t] pc by simp_all
  have s': "s' = set_pc t (U_Cas slots first head seen) (set_next (last slots) (free_head_index head) s)"
    using step pc by (simp add: stack_step_def)
  have "links P ((fs_next s)(last slots := free_head_index head)) slots (length slots)"
    using links_last [OF _ ok(1,3)] in_hand_ok(1) [OF good_stepD(1) [OF good] inv, of t] pc by simp
  then show ?thesis
    unfolding s' by (intro stack_inv_link [OF inv t]) (use ok pc tags s' in \<open>simp_all add: head_ok_def\<close>)
qed

lemma keeps_push_cas:
  assumes good: "good_step P threads t spurious s s'" and pc: "fs_pc s t = U_Cas slots first head seen"
  shows "stack_inv P threads s'"
proof -
  note inv = good_stepD(2) [OF good] and t = good_stepD(3) [OF good] and step = good_stepD(4) [OF good] and tags = good_stepD(5) [OF good]
  have ok: "slots \<noteq> []" "first = hd slots" "links P (fs_next s) slots (length slots)" "fs_next s (last slots) = free_head_index head"
    using stack_inv_own(1) [OF inv, of t] pc by simp_all
  show ?thesis
  proof (cases "fs_head s = head \<and> \<not> spurious")
    case True
    then have s': "s' = set_pc t S_Idle (swap_head first (fs_head s) (slots @ fs_free s) s)" using step pc by (simp add: stack_step_def)
    have "chain (fs_next s) first (slots @ fs_free s)" unfolding ok(2)
      by (rule chain_push [OF ok(1) _ ok(3)])
        (use in_hand_ok(3) [OF good_stepD(1) [OF good] inv, of t] pc ok(4) True stack_inv_own(5) [OF inv] in simp_all)
    then show ?thesis unfolding s' by (intro stack_inv_swap [OF inv t]) (use pc tags s' in simp_all)
  next
    case False
    then have s': "s' = set_pc t (U_Store slots first (fs_head s) (fs_changes s)) s" using step pc by (auto simp: stack_step_def)
    show ?thesis unfolding s'
      by (rule stack_inv_pc [OF inv t]) (use ok pc tags s' head_ok_now [OF inv] head_index_ok [OF inv] in simp_all)
  qed
qed

lemma step_keeps_stack_inv:
  assumes good: "good_step P threads t spurious s s'" shows "stack_inv P threads s'"
proof -
  note inv = good_stepD(2) [OF good] and t = good_stepD(3) [OF good] and step = good_stepD(4) [OF good] and tags = good_stepD(5) [OF good]
  show ?thesis
  proof (cases "fs_pc s t")
    case (O_Load n)
    then have "s' = set_pc t (pop_begin n s) s" using step by (simp add: stack_step_def)
    then show ?thesis by (rule keeps_pop_begin [OF inv t tags]) (simp add: O_Load)
  next
    case (U_Load slots first)
    then have s': "s' = set_pc t (U_Store slots first (fs_head s) (fs_changes s)) s" using step by (simp add: stack_step_def)
    show ?thesis unfolding s'
      by (rule stack_inv_pc [OF inv t])
        (use U_Load tags s' head_ok_now [OF inv] head_index_ok [OF inv] stack_inv_own(1) [OF inv, of t] in simp_all)
  qed (use step good keeps_walk keeps_pop_cas keeps_index keeps_begin keeps_link keeps_store keeps_push_cas in \<open>auto simp: stack_step_def\<close>)
qed

lemma chain_linked: "linked b index is \<Longrightarrow> chain (\<lambda>i. next_free (slot_at b i)) index is"
  by (induction "is" arbitrary: index) auto

lemma slot_range_upt:
  assumes "pool_params_valid P" shows "slot_range P = set (map of_nat [0..<chunk_size P])"
proof -
  have "(i :: u16) = of_nat (unat i)" for i by simp
  then have "slot_range P \<subseteq> set (map of_nat [0..<chunk_size P])" unfolding slot_range_def set_map set_upt by fastforce
  moreover have "set (free_list (block_new P 0)) \<subseteq> slot_range P" using free_list_range block_new_spec [OF assms] by blast
  ultimately show ?thesis using block_new_spec [OF assms, of 0] by simp
qed

lemma stack_inv_init:
  assumes valid: "pool_params_valid P" shows "stack_inv P threads (stack_init P)"
proof -
  let ?b = "block_new P 0" and ?is = "map of_nat [0..<chunk_size P] :: u16 list"
  have block: "linked ?b (free_head_index (free_head ?b)) ?is" "distinct ?is"
    using block_new_spec [OF valid, of 0] by (auto simp: block_ok_def)
  have next_ok: "index_ok P (next_free (slot_at ?b i))" if "i \<in> slot_range P" for i
  proof (cases "unat i + 1 < chunk_size P")
    case True
    then have "next_free (slot_at ?b i) = of_nat (unat i + 1)" by (simp add: slot_at_def block_new_def)
    moreover have "of_nat (unat i + 1) \<in> slot_range P" unfolding slot_range_upt [OF valid] set_map set_upt by (rule imageI) (use True in simp)
    ultimately show ?thesis by (simp only: index_ok_def simp_thms)
  qed (use that in \<open>simp add: slot_range_def slot_at_def block_new_def index_ok_def\<close>)
  have "accounted P threads (stack_init P)"
    using mset_set_set [OF block(2)] by (simp add: accounted_def own_def stack_init_def Let_def slot_range_upt [OF valid])
  moreover have "free_head_version (free_head ?b) = tag_of 0"
    by (simp add: block_new_def version_of_pack tag_of_def)
  ultimately show ?thesis
    using chain_linked [OF block(1)] next_ok
    by (simp add: stack_inv_def stack_init_def Let_def tags_fresh_def indexed_def)
qed

lemma stack_reachable_inv:
  assumes "stack_reachable P threads s" "pool_params_valid P" shows "stack_inv P threads s"
  using assms
proof induction
  case (stack_pop s t n)
  show ?case
    by (rule stack_inv_pc) (use stack_pop stack_inv_own(4) [of P threads s] in \<open>auto simp: tags_fresh_def\<close>)
next
  case (stack_push s t slots rest)
  have inv: "stack_inv P threads s" using stack_push by simp
  have "set (fs_held s t) = set slots \<union> set rest" using stack_push.hyps(4) by (metis set_mset_mset set_mset_union)
  then have "indexed P (fs_next s) slots" "indexed P (fs_next s) rest"
    using stack_inv_own(2) [OF inv, of t] by (auto simp: indexed_def)
  then show ?case by (intro stack_inv_hold [OF inv]) (use stack_push in \<open>simp_all add: own_def\<close>)
next
  case (stack_more s t spurious s')
  then show ?case by (intro step_keeps_stack_inv) (simp add: good_step_def)
qed (rule stack_inv_init)

subsection \<open>The block between threads\<close>

lemma pop_exchange_takes_top:
  assumes inv: "stack_inv P threads s" and pc: "fs_pc s t = O_Cas n head seen out index" "fs_head s = head"
  shows "out = take n (fs_free s) \<and> chain (fs_next s) index (drop n (fs_free s))"
proof -
  have ok: "head_ok s head seen" "walk_ok s seen out index" "length out \<le> n" "length out = n \<or> index = null_slot_index"
    using stack_inv_own(1) [OF inv, of t] pc(1) by simp_all
  have "seen = fs_changes s" using head_ok_current [OF inv, of seen t] ok(1) pc by simp
  then obtain rest where "fs_free s = out @ rest" "chain (fs_next s) index rest" using ok(2) by (auto simp: walk_ok_def)
  then show ?thesis using ok(3,4) by (cases rest) auto
qed

text \<open>
  C10: Whatever any number of threads do to a block at once, every slot is exactly once free or with one
  thread, and the free slots are linked from the head in order.  A pop whose exchange finds the head
  it has read has collected the top of the stack as it is at that moment, although other threads may
  have popped and pushed the same slots since, and the index it puts into the head is that of the
  rest of the stack.  A walk that other threads have overtaken still only visits slots of the block.
\<close>

theorem concurrent_slots_in_one_place:
  assumes "pool_params_valid P" "stack_reachable P threads s"
  shows "mset (fs_free s) + (\<Sum>t < threads. mset (fs_held s t @ in_hand (fs_pc s t))) = mset_set (slot_range P) \<and>
    chain (fs_next s) (free_head_index (fs_head s)) (fs_free s) \<and>
    (\<forall>t n head seen out index. fs_pc s t = O_Cas n head seen out index \<longrightarrow> fs_head s = head \<longrightarrow>
       out = take n (fs_free s) \<and> chain (fs_next s) index (drop n (fs_free s))) \<and>
    (\<forall>t n head seen out index. fs_pc s t = O_Walk n head seen out index \<longrightarrow> index = null_slot_index \<or> unat index < chunk_size P)"
proof -
  note inv = stack_reachable_inv [OF assms(2,1)]
  have "index = null_slot_index \<or> unat index < chunk_size P" if "fs_pc s t = O_Walk n head seen out index" for t n head seen out index
    using stack_inv_own(1) [OF inv, of t] that by (simp add: index_ok_def slot_range_def)
  then show ?thesis
    using stack_inv_own(3,5) [OF inv] pop_exchange_takes_top [OF inv] unfolding accounted_def own_def by blast
qed

subsection \<open>A concrete run\<close>

text \<open>
  Two threads on a block of four slots.  Thread 0 has read the head and collected slot 0 when thread
  1 pops the slots 0 and 1 and pushes slot 0 back: the head names slot 0 again, but the next free
  slot is now slot 2, and only the version tells the two heads apart.
\<close>

fun stack_trace :: "pool_params \<Rightarrow> nat list \<Rightarrow> free_stack \<Rightarrow> free_stack option" where
  "stack_trace P [] s = Some s"
| "stack_trace P (t # ts) s = (case stack_step P t False s of None \<Rightarrow> None | Some s \<Rightarrow> stack_trace P ts s)"

lemma stack_step_changes: "stack_step P t spurious s = Some s' \<Longrightarrow> fs_changes s' \<le> fs_changes s + 1"
  by (auto simp: stack_step_def split: stack_pc.splits if_splits)

lemma stack_trace_reachable:
  assumes "stack_reachable P threads s" "stack_trace P ts s = Some s'" "\<forall>t \<in> set ts. t < threads"
    "fs_changes s + length ts < 2 ^ 48"
  shows "stack_reachable P threads s'"
  using assms
proof (induction ts arbitrary: s)
  case (Cons t ts)
  then obtain s1 where s1: "stack_step P t False s = Some s1" "stack_trace P ts s1 = Some s'" by (auto split: option.splits)
  have few: "fs_changes s1 + length ts < 2 ^ 48" using stack_step_changes [OF s1(1)] Cons.prems(4) by simp
  then have "fs_changes s1 < n + 2 ^ 48" for n by linarith
  then have "tags_fresh s1" by (simp add: tags_fresh_def)
  then have "stack_reachable P threads s1" using Cons.prems s1 by (intro stack_more [of P threads s t False s1]) auto
  then show ?case using Cons.IH s1 Cons.prems few by simp
qed simp

definition four_slots :: pool_params where
  "four_slots = \<lparr>chunk_size = 4, remote_release_batch_size = 2, cache_allocated_slot_index = True, local_cache_set_size = 1,
     direct_release_set_size = 1, local_cache_capacity = 4\<rparr>"

lemma four_slots_valid: "pool_params_valid four_slots"
  by (simp add: four_slots_def pool_params_valid_def local_cache_flush_count_def null_slot_index_def unsigned_minus_1_eq_mask
      mask_eq_exp_minus_1)

lemma four_slots_init:
  "fs_head (stack_init four_slots) = 0" "fs_free (stack_init four_slots) = [0, 1, 2, 3]" "fs_changes (stack_init four_slots) = 0"
  "fs_pc (stack_init four_slots) t = S_Idle" "fs_held (stack_init four_slots) t = []"
  "fs_next (stack_init four_slots) 0 = 1" "fs_next (stack_init four_slots) 1 = 2" "fs_next (stack_init four_slots) 2 = 3"
  by (simp_all add: stack_init_def Let_def four_slots_def block_new_def slot_at_def pack_free_head_def slot_index_bits_def upt_rec)

lemma null_index_neq [simp]: "null_slot_index \<noteq> 0" "null_slot_index \<noteq> 1" "null_slot_index \<noteq> 2"
   "0 \<noteq> null_slot_index" "1 \<noteq> null_slot_index" "2 \<noteq> null_slot_index" 
  by (simp_all add: null_slot_index_def)

lemma head_values: "free_head_index 0 = 0" "pack_free_head 2 (free_head_version 0 + 1) = 0x10002" "free_head_index 0x10002 = 2"
  "pack_free_head 0 (free_head_version 0x10002 + 1) = 0x20000" "free_head_index 0x20000 = 0"
  by (simp_all add: free_head_index_def pack_free_head_def free_head_version_def slot_index_bits_def slot_index_mask_def)

lemmas trace_simps = stack_step_def four_slots_init head_values pop_begin_def index_of_def

definition one_walks :: free_stack where
  "one_walks = set_pc 1 (O_Load 2) (set_pc 0 (O_Walk 1 0 0 [0] 1) (stack_init four_slots))"

lemma one_walks_reachable: "stack_reachable four_slots 2 one_walks"
proof -
  have "stack_reachable four_slots 2 (set_pc 0 (O_Load 1) (stack_init four_slots))"
    by (rule stack_pop [OF stack_begin]) (simp_all add: four_slots_init)
  moreover have "stack_trace four_slots [0, 0] (set_pc 0 (O_Load 1) (stack_init four_slots)) =
      Some (set_pc 0 (O_Walk 1 0 0 [0] 1) (stack_init four_slots))"
    by (simp add: trace_simps)
  ultimately have "stack_reachable four_slots 2 (set_pc 0 (O_Walk 1 0 0 [0] 1) (stack_init four_slots))"
    by (rule stack_trace_reachable) (simp_all add: four_slots_init)
  then show ?thesis unfolding one_walks_def by (rule stack_pop) (simp_all add: four_slots_init)
qed

lemma one_pops:
  "\<exists>s. stack_reachable four_slots 2 s \<and> fs_pc s 0 = O_Walk 1 0 0 [0] 1 \<and> fs_pc s 1 = S_Idle \<and> fs_held s 0 = [] \<and> fs_held s 1 = [0, 1] \<and>
     fs_head s = 0x10002 \<and> fs_changes s = 1 \<and> fs_free s = [2, 3] \<and> fs_next s 0 = 0"
proof -
  have "\<exists>s. stack_trace four_slots [1, 1, 1, 1, 1, 1, 1, 1] one_walks = Some s \<and> fs_pc s 0 = O_Walk 1 0 0 [0] 1 \<and> fs_pc s 1 = S_Idle \<and>
     fs_held s 0 = [] \<and> fs_held s 1 = [0, 1] \<and> fs_head s = 0x10002 \<and> fs_changes s = 1 \<and> fs_free s = [2, 3] \<and> fs_next s 0 = 0"
    by (simp add: trace_simps one_walks_def four_slots_def [THEN arg_cong, of cache_allocated_slot_index])
  then show ?thesis using stack_trace_reachable [OF one_walks_reachable] by (fastforce simp: one_walks_def four_slots_init)
qed

lemma one_pushes_back:
  "\<exists>s. stack_reachable four_slots 2 s \<and> fs_pc s 0 = O_Walk 1 0 0 [0] 1 \<and> fs_pc s 1 = S_Idle \<and> fs_held s 0 = [] \<and> fs_held s 1 = [1] \<and>
     fs_head s = 0x20000 \<and> fs_changes s = 2 \<and> fs_next s 0 = 2"
proof -
  obtain s where s: "stack_reachable four_slots 2 s" "fs_pc s 0 = O_Walk 1 0 0 [0] 1" "fs_pc s 1 = S_Idle" "fs_held s 0 = []"
    "fs_held s 1 = [0, 1]" "fs_head s = 0x10002" "fs_changes s = 1" "fs_free s = [2, 3]" "fs_next s 0 = 0"
    using one_pops by blast
  note suc = s(3,5) [unfolded One_nat_def]
  let ?s = "(set_pc 1 (U_Begin [0]) s)\<lparr>fs_held := (fs_held s)(1 := [1])\<rparr>"
  have reach: "stack_reachable four_slots 2 ?s" by (rule stack_push [OF s(1)]) (simp_all add: s suc)
  have "\<exists>s'. stack_trace four_slots [1, 1, 1, 1, 1] ?s = Some s' \<and> fs_pc s' 0 = O_Walk 1 0 0 [0] 1 \<and> fs_pc s' 1 = S_Idle \<and>
      fs_held s' 0 = [] \<and> fs_held s' 1 = [1] \<and> fs_head s' = 0x20000 \<and> fs_changes s' = 2 \<and> fs_next s' 0 = 2"
    by (simp add: trace_simps s)
  then show ?thesis using stack_trace_reachable [OF reach] by (fastforce simp: s)
qed

text \<open>
  Thread 0 goes on with what it has collected and fails, because the version has changed; it reads
  the head again, and its second exchange will take slot 0 in front of slot 2.
\<close>

lemma second_exchange:
  "\<exists>s. stack_reachable four_slots 2 s \<and> fs_pc s 0 = O_Cas 1 0x20000 2 [0] 2 \<and> fs_head s = 0x20000"
proof -
  obtain s where s: "stack_reachable four_slots 2 s" "fs_pc s 0 = O_Walk 1 0 0 [0] 1" "fs_head s = 0x20000" "fs_changes s = 2"
    "fs_next s 0 = 2"
    using one_pushes_back by blast
  have "\<exists>s'. stack_trace four_slots [0, 0, 0, 0] s = Some s' \<and> fs_pc s' 0 = O_Cas 1 0x20000 2 [0] 2 \<and> fs_head s' = 0x20000"
    by (simp add: trace_simps s)
  then show ?thesis using stack_trace_reachable [OF s(1)] by (fastforce simp: s)
qed

theorem concurrent_slots_in_one_place_witness:
  "\<exists>s. stack_reachable four_slots 2 s \<and> fs_pc s 0 = O_Cas 1 0x20000 2 [0] 2 \<and> fs_head s = 0x20000 \<and>
     [0] = take 1 (fs_free s) \<and> chain (fs_next s) 2 (drop 1 (fs_free s)) \<and>
     mset (fs_free s) + (\<Sum>t < 2. mset (fs_held s t @ in_hand (fs_pc s t))) = mset_set (slot_range four_slots)"
proof -
  obtain s where s: "stack_reachable four_slots 2 s" "fs_pc s 0 = O_Cas 1 0x20000 2 [0] 2" "fs_head s = 0x20000"
    using second_exchange by blast
  then show ?thesis using concurrent_slots_in_one_place [OF four_slots_valid s(1)] by blast
qed

end
