(* ===== verification/Spec2Isabelle.thy ===== *)
theory Spec2Isabelle
  imports Spsc_Concurrent Mpsc_Concurrent Buffer_Chain Batch_Sequencer Thread_Layouts Task_Wake_Serial Epoll_Events Parallel_Shards Runtime_Lifecycle
    Executor_Sleep Shutdown_Gate Pool_Accounting Pool_Concurrent
begin

text \<open>
  AsyncFlow is a C++ header library (\<^verbatim>\<open>src/include/af\<close>): an \<^verbatim>\<open>AsyncRuntime\<close> starts a fixed number of
  threads, each running an \<^verbatim>\<open>Executor\<close>, and runs tasks on them.  A task is posted to a thread; the post
  sets the state of the task and puts it into one of the bounded queues of that thread: its local
  queue (posted by itself), the link from another thread of the runtime, or the queue for threads
  outside.  The executor takes tasks from its queues, runs them, watches file
  descriptors for the tasks that wait for them, and sleeps when there is nothing to do.  Objects come
  from pools of blocks with thread-local caches.  On top of this are parallel calls over shards, ordered
  starts, and byte buffers for the network layer.

  \<^bold>\<open>Conventions.\<close>  Integers are words of the width the code gives them, pointers are options, exceptions
  and error codes are values.  State is passed explicitly in records that extend each other: the heap
  of tasks, the runtime (\<open>Runtime_State\<close>), the I/O state (\<open>Epoll_Backend\<close>) or the shards
  (\<open>Parallel_Shards\<close>).  A loop that may not end is a partial function into \<^typ>\<open>'a option\<close>, \<^term>\<open>None\<close> being
  that it does not return or that the behaviour is undefined; where a loop must return, this is proved.
  There are two kinds of model.  The sequential ones run a whole call alone.  The concurrent ones
  (\<open>Spsc_Concurrent\<close>, \<open>Mpsc_Concurrent\<close>, \<open>Pool_Concurrent\<close>, \<open>Task_Wake\<close>, \<open>Executor_Sleep\<close>,
  \<open>Shutdown_Gate\<close>, \<open>Parallel_Group\<close>) take one access to a shared location per step, in any
  interleaving of any number of threads.  Their steps are in one total order; what a weaker ordering
  in the source permits beyond that is in the model where the code depends on it: stale loads in the
  two queues, spurious failures of a weak compare-exchange, the delayed store of \<^verbatim>\<open>sleeping_\<close> in
  \<open>Executor_Sleep\<close> and the delayed \<^verbatim>\<open>fetch_add\<close> in \<open>Shutdown_Gate\<close>.

  \<^bold>\<open>Queues\<close> (\<^verbatim>\<open>detail/queue\<close>).  \<open>Queue_Common\<close>: rounding of capacities (\<^verbatim>\<open>bounded_queue_common.hpp\<close>) and the
  locale \<open>bounded_queue\<close>, the contract of a queue as a bounded list, from which it follows that every run of
  the queue is a run of the list.  \<open>Spsc_Queue\<close>, \<open>Mpsc_Queue\<close>: the operations of \<^verbatim>\<open>BoundedSpscQueue\<close>,
  \<^verbatim>\<open>BoundedMpscQueue\<close> and \<^verbatim>\<open>BoundedMpmcQueue\<close> on wrapping positions; each of them, and the local ring of an
  executor, is an interpretation of the locale.  \<open>Spsc_Concurrent\<close>, \<open>Mpsc_Concurrent\<close>: producers and consumer
  interleaved; what is consumed is a prefix of what was published or reserved, no slot is accessed by two
  sides at once, and a published item is seen.  The MPSC queue is considered for fewer than \<open>2\<^sup>6\<^sup>3\<close>
  positions, which no run of the program reaches; the SPSC queue has no such bound.

  \<^bold>\<open>Tasks\<close> (\<^verbatim>\<open>detail/task\<close>).  \<open>Task_Core\<close>: the fields and operations of \<^verbatim>\<open>BasicTask\<close>, what a scheduling
  request does in each state, and that a wake-up deferred while the task runs is taken at its end.
  \<open>Task_Registry\<close>: the doubly linked list of live tasks and its cancellation (\<^verbatim>\<open>runtime_task_registry.hpp\<close>).
  \<open>Task_Wake\<close>: scheduling calls and executors interleaved; a task is run by one executor at a time, the
  assertions hold, and three executions in which an accepted wake-up is lost.  \<open>Task_Wake_Serial\<close>:
  without these overlaps none is lost, for fewer than \<open>2\<^sup>4\<^sup>6\<close> runs of the task, the range of its run epoch.

  \<^bold>\<open>Runtime\<close> (\<^verbatim>\<open>detail/runtime\<close>, \<^verbatim>\<open>thread_layout.hpp\<close>).  \<open>Thread_Layouts\<close>, \<open>Runtime_Config\<close>: thread groups and
  compile-time settings.  \<open>Ready_Sources\<close>: the bit set of links with work.  \<open>Executor_State\<close>,
  \<open>Runtime_State\<close>: the members of \<^verbatim>\<open>Executor\<close> and \<^verbatim>\<open>AsyncRuntime\<close>, their construction, the abstraction \<open>lane_content\<close>
  of all queues to lists and the invariant \<open>runtime_ok\<close>.  \<^verbatim>\<open>Dispatch\<close>: routing of a task to its queue, and
  \<^verbatim>\<open>pop_one\<close>, which takes the oldest task of a queue whenever there is one.  \<open>Runtime_Api\<close>: blocking
  enqueues, \<^verbatim>\<open>execute\<close>, handles, \<^verbatim>\<open>post\<close>, \<^verbatim>\<open>make_task\<close>, \<^verbatim>\<open>start_task\<close>; what each branch of a run of a task
  leaves, and the references a started task keeps.  \<open>Executor_Loop\<close>: \<^verbatim>\<open>run_loop\<close> with arbitrary actions of
  the other threads between its steps; it keeps the queues well formed and ends only in a round without
  work that reads the request to stop.  \<open>Runtime_Lifecycle\<close>: \<^verbatim>\<open>init\<close>, \<^verbatim>\<open>shutdown\<close>, \<^verbatim>\<open>wait_for_idle\<close>; a restarted
  runtime is clean and after an exception in \<^verbatim>\<open>init\<close> the runtime can be neither
  started nor shut down.
  \<open>Executor_Sleep\<close>: announcing the sleep against notifying, access by access; a worker thread misses
  no wake-up, an I/O thread does without a fence that the source does not have, and a request to stop
  ends the loop in a bounded number of steps.  Fewer than \<open>2\<^sup>3\<^sup>2\<close> notifications are assumed between
  the observation of the 32-bit epoch and the wait.  \<open>Shutdown_Gate\<close>: external posts against \<^verbatim>\<open>shutdown\<close>, for
  fewer than \<open>2\<^sup>3\<^sup>2\<close> posting threads (the width of the counters): no post is inside after the gate has
  closed, unless the relaxed increment is delayed, and then one can be.

  \<^bold>\<open>I/O\<close> (\<^verbatim>\<open>runtime_executor_epoll_backend.hpp\<close> and its neighbours).  \<open>Io_Events\<close>: event tokens and masks.
  \<open>Epoll_Backend\<close>: registering, completing and cancelling waits, network channels, polling, opening and
  closing.  \<open>Epoll_Waits\<close>: the table of waits is consistent and agrees with the kernel's interest
  list; a registration happens in full or not at all.  \<open>Epoll_Events\<close>: an event completes exactly the waits it is
  for; cancelling and closing release what they should.  The kernel and the hash maps are parameters,
  with their documented behaviour as the hypotheses \<open>kernel_laws\<close> and \<open>hash_map_laws\<close>, and are instantiated in the
  witnesses.

  \<^bold>\<open>Memory\<close> (\<^verbatim>\<open>detail/memory/object_pool.hpp\<close>).  \<open>Pool_Block\<close>: the layout of slots and the operations of a block.
  \<open>Object_Pool\<close>: caches, acquiring, releasing and clearing.  \<open>Pool_Accounting\<close>: each slot is in exactly one
  place over any sequence of whole calls of any number of threads.  \<open>Pool_Concurrent\<close>: the free list of a
  block with the accesses of its pops and pushes interleaved; the same holds as long as fewer than \<open>2\<^sup>4\<^sup>8\<close>
  changes fall between a read of the head and its exchange, which is the width of the version
  that guards against a head that comes back.

  \<^bold>\<open>Batches, shards, buffers\<close>.  \<open>Batch_Sequencer\<close>: \<^verbatim>\<open>batch_sequencer.hpp\<close> and the ordered starts, which deliver in
  order whatever the order of submission.  \<^verbatim>\<open>Sharding\<close>: \<^verbatim>\<open>split_by_shard\<close> and \<^verbatim>\<open>crud_batch.hpp\<close> are partitions.
  \<open>Parallel_Group\<close>, \<open>Parallel_Shards\<close>: the counter of a parallel call and the call itself; every shard is
  started once and the owner resumed once.  \<open>Buffer_Store\<close>, \<open>Buffer_Chain\<close>: \<^verbatim>\<open>buffer/buffer.hpp\<close>, byte windows on
  shared storage, and the locale \<open>byte_source\<close> that buffers and chains both interpret.

  \<open>Af_Prelude\<close> holds the types and the lemmas on words and rings that all of these use.

  \<^bold>\<open>Not modelled.\<close>  The kqueue back end (another kernel under the same wait table).  The TCP, UDP and
  Unix sockets, the asynchronous I/O calls with their timeouts, adapters and deadlines, socket
  addresses, signals and the thread utilities: what they do is decided by the system calls they make.
  The logging subsystem, a client of the runtime that ends in output.  The raw storage of arrays
  (\<^verbatim>\<open>contiguous_object_storage.hpp\<close>), which the models have as lists, and the headers that only include
  others.  Within the modelled parts: running out of memory is a branch only where the code catches
  it (registration of waits), so that \<^verbatim>\<open>std::bad_alloc\<close> of a new pool block, and failing allocations and
  thread starts in \<^verbatim>\<open>init\<close>, are not; a failing write of the wake descriptor is in \<^verbatim>\<open>Dispatch\<close> but
  not in \<open>Executor_Sleep\<close>; calls of different threads overlap only in the concurrent models.
\<close>

end
